(* ===== verification/Broadway_Prelude.thy ===== *)
theory Broadway_Prelude
  imports Main "HOL-Library.Word" "HOL-Library.AList" "HOL-Library.Multiset"
begin

unbundle bit_operations_syntax

text \<open>
  Shared ground of the development: the panics of the Go runtime as values, Go maps as
  association lists, the pieces of the Go standard library and of \<open>samber/lo\<close> that the
  sources call (\<open>sort.Search\<close>, \<open>sort.Slice\<close>, \<open>lo.GroupBy\<close>, \<open>lo.Find\<close>), and the generic
  lemmas on lists, association lists and words that several components use.
\<close>

named_theorems go_simps \<open>unfolding rules of the panic monad\<close>
named_theorems ring_simps \<open>simp rules of the hash ring\<close>
named_theorems queue_simps \<open>simp rules of the queue operations\<close>

section \<open>Panics as values\<close>

text \<open>
  A Go function that can panic returns \<open>Inl p\<close> with the reason; a normal return is \<open>Inr\<close>.
\<close>

datatype go_panic =
    TypeAssertion        \<comment> \<open>\<open>x.(T)\<close> on a value of another dynamic type\<close>
  | SliceBounds          \<comment> \<open>\<open>s[:n]\<close> with \<open>n\<close> out of range\<close>
  | IndexOutOfRange      \<comment> \<open>\<open>s[i]\<close> with \<open>i\<close> out of range\<close>
  | NilCall              \<comment> \<open>calling a nil function value\<close>
  | SendOnClosed         \<comment> \<open>sending on (or closing) a closed channel\<close>
  | UserPanic string     \<comment> \<open>raised by client code (a handler)\<close>

type_synonym 'a go = "go_panic + 'a"

definition go_bind :: "'a go \<Rightarrow> ('a \<Rightarrow> 'b go) \<Rightarrow> 'b go" where
  "go_bind r f = (case r of Inl p \<Rightarrow> Inl p | Inr x \<Rightarrow> f x)"

lemma go_bind_simps [simp, go_simps]:
  "go_bind (Inl p) f = Inl p"
  "go_bind (Inr x) f = f x"
  by (simp_all add: go_bind_def)

lemma go_bind_Inr_iff:
  "go_bind r f = Inr y \<longleftrightarrow> (\<exists>x. r = Inr x \<and> f x = Inr y)"
  by (cases r) (simp_all add: go_bind_def)

lemma go_bind_Inl_iff:
  "go_bind r f = Inl p \<longleftrightarrow> r = Inl p \<or> (\<exists>x. r = Inr x \<and> f x = Inl p)"
  by (cases r) (simp_all add: go_bind_def)

lemma go_bind_assoc: "go_bind (go_bind r f) g = go_bind r (\<lambda>x. go_bind (f x) g)"
  by (cases r) (simp_all add: go_bind_def)

section \<open>sort.Search: binary search\<close>

text \<open>
  The standard library's loop:
  \<^verbatim>\<open>i, j := 0, n; for i < j { h := int(uint(i+j) >> 1); if !f(h) { i = h+1 } else { j = h } }; return i\<close>.
\<close>

function search_loop :: "(nat \<Rightarrow> bool) \<Rightarrow> nat \<Rightarrow> nat \<Rightarrow> nat" where
  "search_loop f i j =
     (if i < j
      then let h = (i + j) div 2
           in if \<not> f h then search_loop f (h + 1) j else search_loop f i h
      else i)"
  by pat_completeness auto
termination
  by (relation "measure (\<lambda>(f, i, j). j - i)") auto

declare search_loop.simps [simp del]

definition sort_Search :: "nat \<Rightarrow> (nat \<Rightarrow> bool) \<Rightarrow> nat" where
  "sort_Search n f = search_loop f 0 n"

lemma search_loop_done: "\<not> i < j \<Longrightarrow> search_loop f i j = i"
  by (subst search_loop.simps) simp

lemma search_loop_step:
  "i < j \<Longrightarrow> search_loop f i j =
     (if f ((i + j) div 2) then search_loop f i ((i + j) div 2)
      else search_loop f ((i + j) div 2 + 1) j)"
  by (subst search_loop.simps) (simp add: Let_def)

lemma search_loop_bounds:
  "i \<le> j \<Longrightarrow> i \<le> search_loop f i j \<and> search_loop f i j \<le> j"
proof (induction "j - i" arbitrary: i j rule: less_induct)
  case less
  show ?case
  proof (cases "i < j")
    case True
    define h where "h = (i + j) div 2"
    have h: "h < j" "i \<le> h" using True unfolding h_def by auto
    have step: "search_loop f i j = (if f h then search_loop f i h else search_loop f (h + 1) j)"
      unfolding h_def using True by (rule search_loop_step)
    have "i \<le> search_loop f i h \<and> search_loop f i h \<le> h"
      using h by (intro less.hyps) auto
    moreover have "h + 1 \<le> search_loop f (h + 1) j \<and> search_loop f (h + 1) j \<le> j"
      using h by (intro less.hyps) auto
    ultimately show ?thesis using h step by auto
  next
    case False
    with less.prems show ?thesis by (simp add: search_loop_done)
  qed
qed

lemma search_loop_partition:
  assumes mono: "\<And>a b. a \<le> b \<Longrightarrow> b < n \<Longrightarrow> f a \<Longrightarrow> f b"
  shows "j \<le> n \<Longrightarrow> i \<le> j \<Longrightarrow> \<forall>k < i. \<not> f k \<Longrightarrow> \<forall>k. j \<le> k \<longrightarrow> k < n \<longrightarrow> f k
    \<Longrightarrow> (\<forall>k < search_loop f i j. \<not> f k) \<and> (\<forall>k. search_loop f i j \<le> k \<longrightarrow> k < n \<longrightarrow> f k)"
proof (induction "j - i" arbitrary: i j rule: less_induct)
  case less
  show ?case
  proof (cases "i < j")
    case True
    define h where "h = (i + j) div 2"
    have h: "h < j" "i \<le> h" "h < n" using True less.prems unfolding h_def by auto
    have step: "search_loop f i j = (if f h then search_loop f i h else search_loop f (h + 1) j)"
      unfolding h_def using True by (rule search_loop_step)
    show ?thesis
    proof (cases "f h")
      case False
      have below: "\<forall>k < h + 1. \<not> f k"
      proof (intro allI impI)
        fix k assume "k < h + 1"
        then show "\<not> f k" using mono [of k h] False h(3) by auto
      qed
      have smaller: "j - (h + 1) < j - i" using h by linarith
      show ?thesis
        using less.hyps [OF smaller less.prems(1) _ below less.prems(4)] h step False by simp
    next
      case fh: True
      have above: "\<forall>k. h \<le> k \<longrightarrow> k < n \<longrightarrow> f k" using mono [of h] fh by blast
      have smaller: "h - i < j - i" and "h \<le> n" using h by linarith+
      then show ?thesis
        using less.hyps [OF smaller _ h(2) less.prems(3) above] step fh by simp
    qed
  next
    case False
    then have "search_loop f i j = i" by (rule search_loop_done)
    with False less.prems show ?thesis by simp
  qed
qed

lemma sort_Search_partition:
  assumes mono: "\<forall>a b. a \<le> b \<longrightarrow> b < n \<longrightarrow> f a \<longrightarrow> f b"
  shows "sort_Search n f \<le> n"
    and "k < sort_Search n f \<Longrightarrow> \<not> f k"
    and "sort_Search n f \<le> k \<Longrightarrow> k < n \<Longrightarrow> f k"
proof -
  have "(\<forall>k < search_loop f 0 n. \<not> f k) \<and> (\<forall>k. search_loop f 0 n \<le> k \<longrightarrow> k < n \<longrightarrow> f k)"
    by (rule search_loop_partition) (use mono in auto)
  moreover have "search_loop f 0 n \<le> n" using search_loop_bounds [of 0 n f] by simp
  ultimately show "sort_Search n f \<le> n" "k < sort_Search n f \<Longrightarrow> \<not> f k"
    "sort_Search n f \<le> k \<Longrightarrow> k < n \<Longrightarrow> f k"
    by (auto simp: sort_Search_def)
qed

section \<open>lo.GroupBy\<close>

text \<open>
  \<open>lo.GroupBy\<close> appends each element to the entry of its key; the entry is created on the
  first element. The result is a Go map; the association list keeps one iteration order.
\<close>

fun group_insert :: "'k \<Rightarrow> 'a \<Rightarrow> ('k \<times> 'a list) list \<Rightarrow> ('k \<times> 'a list) list" where
  "group_insert k x [] = [(k, [x])]"
| "group_insert k x ((k', xs) # g) =
     (if k = k' then (k', xs @ [x]) # g else (k', xs) # group_insert k x g)"

definition lo_GroupBy :: "('a \<Rightarrow> 'k) \<Rightarrow> 'a list \<Rightarrow> ('k \<times> 'a list) list" where
  "lo_GroupBy f xs = foldl (\<lambda>g x. group_insert (f x) x g) [] xs"

lemma map_of_group_insert:
  "map_of (group_insert k x g) = (map_of g)(k \<mapsto> (case map_of g k of None \<Rightarrow> [x] | Some xs \<Rightarrow> xs @ [x]))"
  by (induction k x g rule: group_insert.induct) (auto simp: fun_eq_iff split: option.splits)

lemma fst_group_insert: "fst ` set (group_insert k x g) = insert k (fst ` set g)"
  by (induction k x g rule: group_insert.induct) auto

lemma distinct_group_insert:
  "distinct (map fst g) \<Longrightarrow> distinct (map fst (group_insert k x g))"
proof (induction k x g rule: group_insert.induct)
  case (2 k x k' xs g)
  have "fst ` set (group_insert k x g) = insert k (fst ` set g)" by (rule fst_group_insert)
  with 2 show ?case by (cases "k = k'") (auto simp flip: set_map)
qed simp

lemma lo_GroupBy_snoc:
  "lo_GroupBy f (xs @ [x]) = group_insert (f x) x (lo_GroupBy f xs)"
  by (simp add: lo_GroupBy_def)

lemma lo_GroupBy_Nil [simp]: "lo_GroupBy f [] = []"
  by (simp add: lo_GroupBy_def)

lemma distinct_lo_GroupBy: "distinct (map fst (lo_GroupBy f xs))"
  by (induction xs rule: rev_induct) (auto simp: lo_GroupBy_snoc distinct_group_insert)

lemma map_of_lo_GroupBy:
  "map_of (lo_GroupBy f xs) k =
     (if k \<in> f ` set xs then Some (filter (\<lambda>x. f x = k) xs) else None)"
proof (induction xs rule: rev_induct)
  case Nil
  show ?case by simp
next
  case (snoc x xs)
  have "k \<notin> f ` set xs \<Longrightarrow> filter (\<lambda>x. f x = k) xs = []"
    by (auto simp: filter_empty_conv)
  with snoc show ?case
    by (cases "f x = k"; cases "k \<in> f ` set xs") (auto simp: lo_GroupBy_snoc map_of_group_insert)
qed

lemma lo_GroupBy_entry:
  "(k, ys) \<in> set (lo_GroupBy f xs) \<Longrightarrow> ys = filter (\<lambda>x. f x = k) xs \<and> ys \<noteq> []"
proof -
  assume "(k, ys) \<in> set (lo_GroupBy f xs)"
  then have *: "map_of (lo_GroupBy f xs) k = Some ys"
    by (simp add: distinct_lo_GroupBy)
  then show ?thesis by (auto simp: map_of_lo_GroupBy filter_empty_conv split: if_splits)
qed

lemma mset_group_insert:
  "mset (concat (map snd (group_insert k x g))) = mset (concat (map snd g)) + {#x#}"
  by (induction k x g rule: group_insert.induct) auto

lemma mset_lo_GroupBy: "mset (concat (map snd (lo_GroupBy f xs))) = mset xs"
  by (induction xs rule: rev_induct) (auto simp: lo_GroupBy_snoc mset_group_insert)

section \<open>Association lists as Go maps\<close>

lemma map_of_update: "map_of (AList.update k v m) = (map_of m)(k \<mapsto> v)"
  by (rule AList.update_conv')

lemma map_of_delete: "map_of (AList.delete k m) = (map_of m)(k := None)"
  by (rule AList.delete_conv')

lemma update_absent: "map_of m k = None \<Longrightarrow> AList.update k v m = m @ [(k, v)]"
  by (induction m) (auto split: if_splits)

lemma fst_set_map_of: "k \<in> fst ` set m \<longleftrightarrow> map_of m k \<noteq> None"
  by (simp add: map_of_eq_None_iff)

lemmas alist_simps = map_of_update map_of_delete AList.distinct_update AList.distinct_delete

section \<open>Lists\<close>

lemma filter_partition_mset:
  "mset (filter P xs) + mset (filter (\<lambda>x. \<not> P x) xs) = mset xs"
  by (induction xs) auto

lemma find_Some_D: "find P xs = Some x \<Longrightarrow> x \<in> set xs \<and> P x"
  by (induction xs) (auto split: if_splits)

lemma find_sorted_first:
  "sorted_wrt R xs \<Longrightarrow> find P xs = Some x \<Longrightarrow> y \<in> set xs \<Longrightarrow> P y \<Longrightarrow> y = x \<or> R x y"
  by (induction xs) (auto split: if_splits)

lemma find_None_all: "find P xs = None \<longleftrightarrow> (\<forall>x \<in> set xs. \<not> P x)"
  by (induction xs) auto

end
