(* ===== verification/Containers.thy ===== *)
theory Containers
  imports Broadway_Prelude
begin

text \<open>
  The three generic containers of the package \<open>broadway\<close>: \<open>concurrent_map.go\<close>,
  \<open>concurrent_queue.go\<close> and \<open>concurrent_slice.go\<close>. Every method holds the container's
  mutex from its first to its last line, so each is one atomic operation on the contents and
  is modelled as a function on them; interleavings are sequences of these operations. The
  interface \<open>fifo_buffer\<close> is what the batcher and the message processor rely on.
\<close>

section \<open>concurrent\_map.go\<close>

text \<open>
  The Go map is an association list with distinct keys; its order stands for one iteration
  order of \<open>range\<close>.
\<close>

record ('k, 'v) concurrentMap =
  cm_map :: "('k \<times> 'v) list"

definition clone_map :: "('k \<times> 'v) list \<Rightarrow> ('k \<times> 'v) list" where
  "clone_map m = foldl (\<lambda>c (k, v). AList.update k v c) [] m"

definition newConcurrentMap :: "('k \<times> 'v) list list \<Rightarrow> ('k, 'v) concurrentMap" where
  "newConcurrentMap ms =
     (case ms of [] \<Rightarrow> \<lparr>cm_map = []\<rparr> | m # _ \<Rightarrow> \<lparr>cm_map = clone_map m\<rparr>)"

definition map_get :: "('k, 'v) concurrentMap \<Rightarrow> 'k \<Rightarrow> 'v option" where
  "map_get m k = map_of (cm_map m) k"

definition map_set :: "('k, 'v) concurrentMap \<Rightarrow> 'k \<Rightarrow> 'v \<Rightarrow> ('k, 'v) concurrentMap" where
  "map_set m k v = m\<lparr>cm_map := AList.update k v (cm_map m)\<rparr>"

definition map_delete :: "('k, 'v) concurrentMap \<Rightarrow> 'k \<Rightarrow> ('k, 'v) concurrentMap" where
  "map_delete m k = m\<lparr>cm_map := AList.delete k (cm_map m)\<rparr>"

definition map_len :: "('k, 'v) concurrentMap \<Rightarrow> nat" where
  "map_len m = length (cm_map m)"

definition map_toMap :: "('k, 'v) concurrentMap \<Rightarrow> ('k \<times> 'v) list" where
  "map_toMap m = clone_map (cm_map m)"

definition map_reset :: "('k, 'v) concurrentMap \<Rightarrow> ('k \<times> 'v) list \<Rightarrow> ('k, 'v) concurrentMap" where
  "map_reset m new = (if length new = 0 then m else m\<lparr>cm_map := clone_map new\<rparr>)"

definition map_values :: "('k, 'v) concurrentMap \<Rightarrow> 'v list" where
  "map_values m = foldl (\<lambda>vs (_, v). vs @ [v]) [] (cm_map m)"

definition cmap_ok :: "('k, 'v) concurrentMap \<Rightarrow> bool" where
  "cmap_ok m \<longleftrightarrow> distinct (map fst (cm_map m))"

lemma clone_map_id: "distinct (map fst m) \<Longrightarrow> clone_map m = m"
proof (induction m rule: rev_induct)
  case Nil
  show ?case by (simp add: clone_map_def)
next
  case (snoc p m)
  obtain k v where p: "p = (k, v)" by (cases p)
  have upd: "AList.update k v m = m @ [(k, v)]" if "k \<notin> fst ` set m" for m :: "('a \<times> 'b) list"
    using that by (induction m) auto
  from snoc p show ?case by (simp add: clone_map_def upd)
qed

lemma map_of_clone_map: "map_of (clone_map m) = map_of (rev m)"
  by (induction m rule: rev_induct) (auto simp: clone_map_def map_of_update)

lemma distinct_clone_map: "distinct (map fst (clone_map m))"
  by (induction m rule: rev_induct) (auto simp: clone_map_def AList.distinct_update)

lemma cmap_ok_ops [simp]:
  "cmap_ok (newConcurrentMap ms)"
  "cmap_ok m \<Longrightarrow> cmap_ok (map_set m k v)"
  "cmap_ok m \<Longrightarrow> cmap_ok (map_delete m k)"
  "cmap_ok m \<Longrightarrow> cmap_ok (map_reset m new)"
  by (auto simp: cmap_ok_def newConcurrentMap_def map_set_def map_delete_def map_reset_def
        AList.distinct_update AList.distinct_delete distinct_clone_map split: list.splits)

lemma map_get_simps [simp]:
  "map_get (newConcurrentMap []) k = None"
  "map_get (map_set m k v) k' = (if k = k' then Some v else map_get m k')"
  "map_get (map_delete m k) k' = (if k = k' then None else map_get m k')"
  by (auto simp: map_get_def newConcurrentMap_def map_set_def map_delete_def alist_simps)

lemma foldl_append_map: "foldl (\<lambda>vs (_, v). vs @ [v]) acc xs = acc @ map snd xs"
  by (induction xs arbitrary: acc) auto

lemma map_values_eq: "map_values m = map snd (cm_map m)"
  by (simp add: map_values_def foldl_append_map)

lemma map_toMap_eq: "cmap_ok m \<Longrightarrow> map_toMap m = cm_map m"
  by (simp add: cmap_ok_def map_toMap_def clone_map_id)

lemma map_len_card: "cmap_ok m \<Longrightarrow> map_len m = card (dom (map_get m))"
  by (simp add: map_len_def cmap_ok_def map_get_def [abs_def] dom_map_of_conv_image_fst
        distinct_card flip: set_map)

section \<open>concurrent\_queue.go\<close>

record 'a concurrentQueue =
  q_queue :: "'a list"

definition newConcurrentQueue :: "'a concurrentQueue" where
  "newConcurrentQueue = \<lparr>q_queue = []\<rparr>"

definition enqueue :: "'a concurrentQueue \<Rightarrow> 'a list \<Rightarrow> 'a concurrentQueue" where
  "enqueue q items = q\<lparr>q_queue := q_queue q @ items\<rparr>"

definition prepend :: "'a concurrentQueue \<Rightarrow> 'a list \<Rightarrow> 'a concurrentQueue" where
  "prepend q items = q\<lparr>q_queue := items @ q_queue q\<rparr>"

text \<open>\<open>q._queue[:total]\<close> panics for a negative \<open>total\<close> (here \<open>demand\<close>); a \<open>total\<close> above the length takes the first branch.\<close>

definition dequeue :: "'a concurrentQueue \<Rightarrow> int \<Rightarrow> (('a list \<times> bool) \<times> 'a concurrentQueue) go" where
  "dequeue q demand =
     (if int (length (q_queue q)) < demand
      then Inr ((q_queue q, length (q_queue q) > 0), q\<lparr>q_queue := []\<rparr>)
      else if demand < 0 then Inl SliceBounds
      else let items = take (nat demand) (q_queue q)
           in Inr ((items, length items > 0), q\<lparr>q_queue := drop (nat demand) (q_queue q)\<rparr>))"

definition dequeueAll :: "'a concurrentQueue \<Rightarrow> ('a list \<times> bool) \<times> 'a concurrentQueue" where
  "dequeueAll q = ((q_queue q, length (q_queue q) > 0), q\<lparr>q_queue := []\<rparr>)"

definition queue_len :: "'a concurrentQueue \<Rightarrow> int" where
  "queue_len q = int (length (q_queue q))"

definition queue_toSlice :: "'a concurrentQueue \<Rightarrow> 'a list" where
  "queue_toSlice q = q_queue q"

lemma queue_ops_simps [simp, queue_simps]:
  "q_queue newConcurrentQueue = []"
  "q_queue (enqueue q xs) = q_queue q @ xs"
  "q_queue (prepend q xs) = xs @ q_queue q"
  by (simp_all add: newConcurrentQueue_def enqueue_def prepend_def)

lemma dequeue_eq:
  "0 \<le> n \<Longrightarrow> dequeue q n =
     Inr ((take (nat n) (q_queue q), take (nat n) (q_queue q) \<noteq> []), q\<lparr>q_queue := drop (nat n) (q_queue q)\<rparr>)"
  by (auto simp: dequeue_def Let_def)

lemma dequeue_negative: "n < 0 \<Longrightarrow> dequeue q n = Inl SliceBounds"
  by (simp add: dequeue_def)

lemma dequeue_Inr_iff:
  "dequeue q n = Inr ((xs, ok), q') \<longleftrightarrow>
     0 \<le> n \<and> xs = take (nat n) (q_queue q) \<and> ok = (xs \<noteq> []) \<and> q' = q\<lparr>q_queue := drop (nat n) (q_queue q)\<rparr>"
proof (cases "n < 0")
  case True
  then show ?thesis by (simp add: dequeue_negative)
next
  case False
  then show ?thesis by (auto simp: dequeue_eq)
qed

subsection \<open>The interface the pipeline's consumers use\<close>

text \<open>
  A consumer takes a bounded prefix, tries to hand it on, and puts it back at the front when
  that fails (\<open>batcher.processBatches\<close>, \<open>batcher.flush\<close>, \<open>messageProcessor.run\<close>). What it
  relies on is that the three operations act on one sequence.
\<close>

locale fifo_buffer =
  fixes contents :: "'q \<Rightarrow> 'a list"
    and enq :: "'q \<Rightarrow> 'a list \<Rightarrow> 'q"
    and prep :: "'q \<Rightarrow> 'a list \<Rightarrow> 'q"
    and deq :: "'q \<Rightarrow> int \<Rightarrow> (('a list \<times> bool) \<times> 'q) go"
    and deq_all :: "'q \<Rightarrow> ('a list \<times> bool) \<times> 'q"
  assumes contents_enq: "contents (enq q xs) = contents q @ xs"
    and contents_prep: "contents (prep q xs) = xs @ contents q"
    and deq_splits: "deq q n = Inr ((xs, ok), q') \<Longrightarrow> contents q = xs @ contents q'"
    and deq_ok: "deq q n = Inr ((xs, ok), q') \<Longrightarrow> ok \<longleftrightarrow> xs \<noteq> []"
    and deq_bound: "deq q n = Inr ((xs, ok), q') \<Longrightarrow> int (length xs) \<le> n"
    and deq_total: "0 \<le> n \<Longrightarrow> \<exists>r. deq q n = Inr r"
    and deq_all_splits: "deq_all q = ((xs, ok), q') \<Longrightarrow> xs = contents q \<and> contents q' = [] \<and> (ok \<longleftrightarrow> xs \<noteq> [])"
begin

lemma put_back: "deq q n = Inr ((xs, ok), q') \<Longrightarrow> contents (prep q' xs) = contents q"
  by (simp add: contents_prep deq_splits)

lemma put_back_all: "deq_all q = ((xs, ok), q') \<Longrightarrow> contents (prep q' xs) = contents q"
  by (auto simp: contents_prep dest: deq_all_splits)

lemma enq_after_deq:
  "deq q n = Inr ((xs, ok), q') \<Longrightarrow> xs @ contents (enq q' ys) = contents q @ ys"
  by (simp add: contents_enq deq_splits)

lemma put_back_after_enq:
  "deq q n = Inr ((xs, ok), q') \<Longrightarrow> contents (prep (enq q' ys) xs) = contents (enq q ys)"
  by (simp add: contents_enq contents_prep deq_splits)

end

interpretation cq: fifo_buffer q_queue enqueue prepend dequeue dequeueAll
  by unfold_locales (auto simp: dequeue_Inr_iff dequeueAll_def dequeue_eq)

section \<open>concurrent\_slice.go\<close>

record 'a concurrentSlice =
  s_slice :: "'a list"

definition newConcurrentSlice :: "'a concurrentSlice" where
  "newConcurrentSlice = \<lparr>s_slice = []\<rparr>"

definition slice_add :: "'a concurrentSlice \<Rightarrow> 'a list \<Rightarrow> 'a concurrentSlice" where
  "slice_add s items = s\<lparr>s_slice := s_slice s @ items\<rparr>"

definition slice_filter :: "'a concurrentSlice \<Rightarrow> ('a \<Rightarrow> bool) \<Rightarrow> 'a concurrentSlice" where
  "slice_filter s predicate =
     s\<lparr>s_slice := foldl (\<lambda>filtered item. if predicate item then filtered @ [item] else filtered) [] (s_slice s)\<rparr>"

definition slice_len :: "'a concurrentSlice \<Rightarrow> nat" where
  "slice_len s = length (s_slice s)"

fun remove_first :: "'a \<Rightarrow> 'a list \<Rightarrow> ('a list \<times> bool)" where
  "remove_first item [] = ([], False)"
| "remove_first item (v # vs) =
     (if v = item then (vs, True) else let (ws, ok) = remove_first item vs in (v # ws, ok))"

definition slice_remove :: "'a concurrentSlice \<Rightarrow> 'a \<Rightarrow> bool \<times> 'a concurrentSlice" where
  "slice_remove s item = (let (vs, ok) = remove_first item (s_slice s) in (ok, s\<lparr>s_slice := vs\<rparr>))"

definition slice_toSlice :: "'a concurrentSlice \<Rightarrow> 'a list" where
  "slice_toSlice s = s_slice s"

lemma remove_first_eq: "remove_first x xs = (remove1 x xs, x \<in> set xs)"
  by (induction xs) (auto simp: Let_def)

lemma slice_ops_simps [simp]:
  "s_slice newConcurrentSlice = []"
  "s_slice (slice_add s xs) = s_slice s @ xs"
  "s_slice (slice_filter s P) = filter P (s_slice s)"
  "slice_remove s x = (x \<in> set (s_slice s), s\<lparr>s_slice := remove1 x (s_slice s)\<rparr>)"
proof -
  have "foldl (\<lambda>fs x. if P x then fs @ [x] else fs) acc xs = acc @ filter P xs" for acc xs
    by (induction xs arbitrary: acc) auto
  then show "s_slice (slice_filter s P) = filter P (s_slice s)"
    by (simp add: slice_filter_def)
qed (simp_all add: newConcurrentSlice_def slice_add_def slice_remove_def remove_first_eq)

end
