(* ===== verification/Hash_Ring.thy ===== *)
theory Hash_Ring
  imports Broadway_Prelude "HOL-Library.Sublist"
begin

text \<open>
  \<open>hash_ring.go\<close>: the consistent hash ring that maps a partition key (or a batch key) to a
  processor. Nodes are values of any type with a \<open>toString\<close>; here \<open>toString\<close> is the argument
  \<open>ts\<close> of every operation. Every method holds the ring's lock throughout.
\<close>

section \<open>hashString: 32-bit FNV-1a\<close>

type_synonym u32 = "32 word"

definition fnv_offset32 :: u32 where "fnv_offset32 = 2166136261"
definition fnv_prime32 :: u32 where "fnv_prime32 = 16777619"

definition hashString :: "string \<Rightarrow> u32" where
  "hashString s = foldl (\<lambda>h c. (h XOR of_char c) * fnv_prime32) fnv_offset32 s"

section \<open>The ring\<close>

record 'n hashRing =
  nodes :: "'n list"
  hashToNode :: "(u32 \<times> 'n) list"

definition newHashRing :: "'n hashRing" where
  "newHashRing = \<lparr>nodes = [], hashToNode = []\<rparr>"

text \<open>
  \<open>sort.Slice\<close> is an unspecified (unstable) sort; on a ring whose nodes have different hashes
  every sort by hash gives the same list, so the library's \<open>sort_key\<close> stands for it.
\<close>

definition addNode :: "('n \<Rightarrow> string) \<Rightarrow> 'n hashRing \<Rightarrow> 'n \<Rightarrow> 'n hashRing" where
  "addNode ts hr node =
     (let hash = hashString (ts node)
      in case map_of (hashToNode hr) hash of
           Some _ \<Rightarrow> hr
         | None \<Rightarrow> hr\<lparr>nodes := sort_key (\<lambda>n. hashString (ts n)) (nodes hr @ [node]),
                       hashToNode := AList.update hash node (hashToNode hr)\<rparr>)"

fun remove_by_string :: "('n \<Rightarrow> string) \<Rightarrow> string \<Rightarrow> 'n list \<Rightarrow> 'n list" where
  "remove_by_string ts s [] = []"
| "remove_by_string ts s (n # ns) = (if ts n = s then ns else n # remove_by_string ts s ns)"

definition removeNode :: "('n \<Rightarrow> string) \<Rightarrow> 'n hashRing \<Rightarrow> 'n \<Rightarrow> 'n hashRing" where
  "removeNode ts hr node =
     (let hash = hashString (ts node)
      in case map_of (hashToNode hr) hash of
           None \<Rightarrow> hr
         | Some _ \<Rightarrow> hr\<lparr>nodes := remove_by_string ts (ts node) (nodes hr),
                         hashToNode := AList.delete hash (hashToNode hr)\<rparr>)"

text \<open>\<open>None\<close> stands for the pair of the zero value and \<open>false\<close>.\<close>

definition getNode :: "('n \<Rightarrow> string) \<Rightarrow> 'n hashRing \<Rightarrow> string \<Rightarrow> 'n option" where
  "getNode ts hr key =
     (case nodes hr of
        [] \<Rightarrow> None
      | n0 # _ \<Rightarrow>
          (case find (\<lambda>n. hashString (ts n) \<ge> hashString key) (nodes hr) of
             Some n \<Rightarrow> Some n
           | None \<Rightarrow> Some n0))"

definition getNextNode :: "('n \<Rightarrow> string) \<Rightarrow> 'n hashRing \<Rightarrow> 'n \<Rightarrow> 'n option" where
  "getNextNode ts hr node =
     (if length (nodes hr) = 0 then None
      else let hash = hashString (ts node);
               i = sort_Search (length (nodes hr)) (\<lambda>i. hashString (ts (nodes hr ! i)) > hash)
           in if i = length (nodes hr) then Some (nodes hr ! 0) else Some (nodes hr ! i))"

definition getAllNodes :: "'n hashRing \<Rightarrow> 'n list" where
  "getAllNodes hr = nodes hr"

section \<open>The ring invariant\<close>

definition ring_ok :: "('n \<Rightarrow> string) \<Rightarrow> 'n hashRing \<Rightarrow> bool" where
  "ring_ok ts hr \<longleftrightarrow>
     sorted_wrt (<) (map (\<lambda>n. hashString (ts n)) (nodes hr)) \<and>
     distinct (map fst (hashToNode hr)) \<and>
     set (hashToNode hr) = (\<lambda>n. (hashString (ts n), n)) ` set (nodes hr)"

abbreviation nhash :: "('n \<Rightarrow> string) \<Rightarrow> 'n \<Rightarrow> u32" where
  "nhash ts n \<equiv> hashString (ts n)"

lemma ring_ok_new: "ring_ok ts newHashRing"
  by (simp add: ring_ok_def newHashRing_def)

lemma ring_ok_inj:
  "ring_ok ts hr \<Longrightarrow> m \<in> set (nodes hr) \<Longrightarrow> n \<in> set (nodes hr) \<Longrightarrow> nhash ts m = nhash ts n \<Longrightarrow> m = n"
  by (auto simp: ring_ok_def strict_sorted_iff distinct_map inj_on_def)

lemma ring_ok_lookup:
  "ring_ok ts hr \<Longrightarrow> map_of (hashToNode hr) h = Some n \<longleftrightarrow> n \<in> set (nodes hr) \<and> nhash ts n = h"
  by (auto simp: ring_ok_def)

lemma ring_ok_lookup_None:
  "ring_ok ts hr \<Longrightarrow> map_of (hashToNode hr) h = None \<longleftrightarrow> h \<notin> nhash ts ` set (nodes hr)"
  by (auto simp: ring_ok_def map_of_eq_None_iff image_image)

lemma addNode_present:
  assumes "ring_ok ts hr" and "nhash ts x \<in> nhash ts ` set (nodes hr)"
  shows "addNode ts hr x = hr"
proof -
  from assms obtain m where "map_of (hashToNode hr) (nhash ts x) = Some m"
    using ring_ok_lookup_None by fastforce
  then show ?thesis by (simp add: addNode_def)
qed

lemma addNode_absent:
  assumes "ring_ok ts hr" and "nhash ts x \<notin> nhash ts ` set (nodes hr)"
  shows "addNode ts hr x =
    hr\<lparr>nodes := sort_key (nhash ts) (nodes hr @ [x]), hashToNode := hashToNode hr @ [(nhash ts x, x)]\<rparr>"
proof -
  from assms have "map_of (hashToNode hr) (nhash ts x) = None"
    by (simp add: ring_ok_lookup_None)
  then show ?thesis by (simp add: addNode_def update_absent)
qed

lemma set_nodes_addNode:
  "ring_ok ts hr \<Longrightarrow> set (nodes (addNode ts hr x)) =
     (if nhash ts x \<in> nhash ts ` set (nodes hr) then set (nodes hr) else insert x (set (nodes hr)))"
  by (simp add: addNode_present addNode_absent)

lemma ring_ok_addNode:
  assumes ok: "ring_ok ts hr"
  shows "ring_ok ts (addNode ts hr x)"
proof (cases "nhash ts x \<in> nhash ts ` set (nodes hr)")
  case True
  with ok show ?thesis by (simp add: addNode_present)
next
  case False
  let ?h = "\<lambda>n. nhash ts n"
  let ?ns = "sort_key ?h (nodes hr @ [x])"
  from ok have "distinct (map ?h (nodes hr))"
    by (simp add: ring_ok_def strict_sorted_iff)
  with False have "distinct (map ?h (nodes hr @ [x]))" by simp
  then have "distinct (map ?h ?ns)" by (auto simp: distinct_map)
  then have "sorted_wrt (<) (map ?h ?ns)" by (simp only: strict_sorted_iff sorted_sort_key simp_thms)
  moreover from ok False have "nhash ts x \<notin> fst ` set (hashToNode hr)"
    by (auto simp: ring_ok_def)
  ultimately show ?thesis
    using False ok by (simp add: addNode_absent) (auto simp: ring_ok_def)
qed

lemma remove_by_string_filter:
  "distinct (map ts ns) \<Longrightarrow> remove_by_string ts s ns = filter (\<lambda>n. ts n \<noteq> s) ns"
proof (induction ns)
  case (Cons n ns)
  have "\<forall>m \<in> set ns. ts m \<noteq> ts n" using Cons.prems by (metis distinct.simps(2) image_eqI list.simps(9) set_map)
  then have "filter (\<lambda>m. ts m \<noteq> ts n) ns = ns" by (intro filter_True)
  with Cons show ?case by auto
qed simp

lemma ring_ok_distinct_ts: "ring_ok ts hr \<Longrightarrow> distinct (map ts (nodes hr))"
  by (auto simp: ring_ok_def strict_sorted_iff distinct_map inj_on_def)

text \<open>
  \<open>removeNode\<close> looks the hash up in the map but removes from the list by string, so it relies
  on the node being in the ring or its hash being free.
\<close>

definition no_collision :: "('n \<Rightarrow> string) \<Rightarrow> 'n hashRing \<Rightarrow> 'n \<Rightarrow> bool" where
  "no_collision ts hr x \<longleftrightarrow> x \<in> set (nodes hr) \<or> nhash ts x \<notin> nhash ts ` set (nodes hr)"

lemma removeNode_absent:
  "ring_ok ts hr \<Longrightarrow> nhash ts x \<notin> nhash ts ` set (nodes hr) \<Longrightarrow> removeNode ts hr x = hr"
  by (simp add: removeNode_def flip: ring_ok_lookup_None)

lemma removeNode_present:
  assumes ok: "ring_ok ts hr" and x: "x \<in> set (nodes hr)"
  shows "removeNode ts hr x =
    hr\<lparr>nodes := filter (\<lambda>n. n \<noteq> x) (nodes hr), hashToNode := AList.delete (nhash ts x) (hashToNode hr)\<rparr>"
proof -
  have "map_of (hashToNode hr) (nhash ts x) = Some x"
    using ok x by (simp add: ring_ok_lookup)
  moreover have "filter (\<lambda>n. ts n \<noteq> ts x) (nodes hr) = filter (\<lambda>n. n \<noteq> x) (nodes hr)"
    using ring_ok_inj [OF ok _ x] by (auto intro!: filter_cong)
  ultimately show ?thesis
    using ok by (simp add: removeNode_def remove_by_string_filter ring_ok_distinct_ts)
qed

lemma set_nodes_removeNode:
  "ring_ok ts hr \<Longrightarrow> no_collision ts hr x \<Longrightarrow> set (nodes (removeNode ts hr x)) = set (nodes hr) - {x}"
  by (cases "x \<in> set (nodes hr)") (auto simp: no_collision_def removeNode_absent removeNode_present)

lemma ring_ok_removeNode:
  assumes ok: "ring_ok ts hr" and nc: "no_collision ts hr x"
  shows "ring_ok ts (removeNode ts hr x)"
proof (cases "x \<in> set (nodes hr)")
  case False
  with ok nc show ?thesis by (simp add: no_collision_def removeNode_absent)
next
  case True
  have "sorted_wrt (<) (map (nhash ts) (filter (\<lambda>n. n \<noteq> x) (nodes hr)))"
    using ok by (simp add: ring_ok_def sorted_wrt_map sorted_wrt_filter)
  moreover have "set (AList.delete (nhash ts x) (hashToNode hr)) =
      (\<lambda>n. (nhash ts n, n)) ` set (filter (\<lambda>n. n \<noteq> x) (nodes hr))"
  proof -
    have "set (AList.delete (nhash ts x) (hashToNode hr)) = {p \<in> set (hashToNode hr). fst p \<noteq> nhash ts x}"
      by (auto simp: AList.delete_eq)
    also have "\<dots> = {p \<in> (\<lambda>n. (nhash ts n, n)) ` set (nodes hr). fst p \<noteq> nhash ts x}"
      using ok by (simp add: ring_ok_def)
    also have "\<dots> = (\<lambda>n. (nhash ts n, n)) ` {n \<in> set (nodes hr). n \<noteq> x}"
      using ring_ok_inj [OF ok _ True] by (auto 0 3)
    finally show ?thesis by simp
  qed
  ultimately show ?thesis
    using ok True by (simp add: removeNode_present ring_ok_def AList.distinct_delete)
qed

section \<open>Lookup as a walk clockwise\<close>

text \<open>
  The documentation places nodes and keys on a ring of hash values and routes a key to the
  first node met clockwise. The clockwise distance from position \<open>p\<close> to position \<open>q\<close> is the
  wrapping difference \<open>q - p\<close>.
\<close>

definition owner_at :: "('n \<Rightarrow> string) \<Rightarrow> 'n hashRing \<Rightarrow> u32 \<Rightarrow> 'n option" where
  "owner_at ts hr p =
     (case nodes hr of
        [] \<Rightarrow> None
      | n0 # _ \<Rightarrow> (case find (\<lambda>n. nhash ts n \<ge> p) (nodes hr) of Some n \<Rightarrow> Some n | None \<Rightarrow> Some n0))"

lemma getNode_owner_at: "getNode ts hr key = owner_at ts hr (hashString key)"
  by (simp add: getNode_def owner_at_def)

lemma word_cw_above: "p \<le> a \<Longrightarrow> a \<le> b \<Longrightarrow> a - p \<le> b - p" for a b p :: u32
  by uint_arith

lemma word_cw_wrap: "p \<le> a \<Longrightarrow> b < p \<Longrightarrow> a - p \<le> b - p" for a b p :: u32
  by uint_arith

lemma word_cw_below: "a < p \<Longrightarrow> b < p \<Longrightarrow> a \<le> b \<Longrightarrow> a - p \<le> b - p" for a b p :: u32
  by uint_arith

lemma word_next_above: "x < a \<Longrightarrow> a \<le> b \<Longrightarrow> a - (x + 1) \<le> b - (x + 1)" for a b x :: u32
  by uint_arith

lemma word_next_wrap: "x < a \<Longrightarrow> b \<le> x \<Longrightarrow> a - (x + 1) \<le> b - (x + 1)" for a b x :: u32
  by uint_arith

lemma word_next_below: "a \<le> x \<Longrightarrow> b \<le> x \<Longrightarrow> a \<le> b \<Longrightarrow> a - (x + 1) \<le> b - (x + 1)" for a b x :: u32
  by uint_arith

lemma owner_at_nearest:
  assumes ok: "ring_ok ts hr" and own: "owner_at ts hr p = Some n"
  shows "n \<in> set (nodes hr) \<and> (\<forall>m \<in> set (nodes hr). nhash ts n - p \<le> nhash ts m - p)"
proof -
  have sorted: "sorted_wrt (\<lambda>a b. nhash ts a < nhash ts b) (nodes hr)"
    using ok by (simp add: ring_ok_def sorted_wrt_map)
  from own obtain n0 rest where ns: "nodes hr = n0 # rest"
    by (auto simp: owner_at_def split: list.splits)
  show ?thesis
  proof (cases "find (\<lambda>n. nhash ts n \<ge> p) (nodes hr)")
    case (Some n')
    with own ns have [simp]: "n' = n" by (simp add: owner_at_def)
    from find_Some_D [OF Some] have n: "n \<in> set (nodes hr)" "p \<le> nhash ts n" by auto
    have "nhash ts n - p \<le> nhash ts m - p" if m: "m \<in> set (nodes hr)" for m
    proof (cases "p \<le> nhash ts m")
      case True
      with find_sorted_first [OF sorted Some m] have "nhash ts n \<le> nhash ts m" by auto
      with n show ?thesis by (intro word_cw_above) auto
    next
      case False
      with n show ?thesis by (intro word_cw_wrap) auto
    qed
    with n show ?thesis by blast
  next
    case None
    with own ns have [simp]: "n0 = n" by (simp add: owner_at_def)
    have below: "nhash ts m < p" if "m \<in> set (nodes hr)" for m
      using None that by (auto simp: find_None_all)
    have "nhash ts n \<le> nhash ts m" if "m \<in> set (nodes hr)" for m
      using sorted ns that by auto
    with below ns show ?thesis by (auto intro!: word_cw_below)
  qed
qed

lemma owner_at_exists: "nodes hr \<noteq> [] \<Longrightarrow> \<exists>n. owner_at ts hr p = Some n"
  by (auto simp: owner_at_def split: list.splits option.splits)

lemma owner_at_None: "owner_at ts hr p = None \<longleftrightarrow> nodes hr = []"
  by (auto simp: owner_at_def split: list.splits option.splits)

lemma owner_at_iff:
  assumes ok: "ring_ok ts hr"
  shows "owner_at ts hr p = Some n \<longleftrightarrow>
    n \<in> set (nodes hr) \<and> (\<forall>m \<in> set (nodes hr). nhash ts n - p \<le> nhash ts m - p)"
proof
  assume "owner_at ts hr p = Some n"
  with ok show "n \<in> set (nodes hr) \<and> (\<forall>m \<in> set (nodes hr). nhash ts n - p \<le> nhash ts m - p)"
    by (rule owner_at_nearest)
next
  assume n: "n \<in> set (nodes hr) \<and> (\<forall>m \<in> set (nodes hr). nhash ts n - p \<le> nhash ts m - p)"
  then obtain n' where n': "owner_at ts hr p = Some n'"
    using owner_at_exists [of hr ts p] by fastforce
  from owner_at_nearest [OF ok n'] n have "nhash ts n - p = nhash ts n' - p"
    by (intro antisym) auto
  then have "nhash ts n = nhash ts n'" by simp
  with ring_ok_inj [OF ok] owner_at_nearest [OF ok n'] n have "n = n'" by blast
  with n' show "owner_at ts hr p = Some n" by simp
qed

text \<open>\<open>getNextNode\<close>'s binary search finds the owner of the position after the node's hash.\<close>

lemma getNextNode_owner_at:
  assumes ok: "ring_ok ts hr"
  shows "getNextNode ts hr x = owner_at ts hr (nhash ts x + 1)"
proof (cases "nodes hr = []")
  case True
  then show ?thesis by (simp add: getNextNode_def owner_at_def)
next
  case False
  let ?ns = "nodes hr" and ?hx = "nhash ts x"
  let ?f = "\<lambda>i. nhash ts (?ns ! i) > ?hx"
  let ?i = "sort_Search (length ?ns) ?f"
  have sorted: "nhash ts (?ns ! a) < nhash ts (?ns ! b)" if "a < b" "b < length ?ns" for a b
    using sorted_wrt_nth_less [of "(<)" "map (nhash ts) ?ns" a b] ok that by (simp add: ring_ok_def)
  have mono: "\<forall>a b. a \<le> b \<longrightarrow> b < length ?ns \<longrightarrow> ?f a \<longrightarrow> ?f b"
  proof (intro allI impI)
    fix a b
    assume "a \<le> b" "b < length ?ns" "?f a"
    then show "?f b" using sorted [of a b] by (cases "a = b") auto
  qed
  note search = sort_Search_partition [of "length ?ns" ?f, OF mono]
  let ?n = "if ?i = length ?ns then ?ns ! 0 else ?ns ! ?i"
  have get: "getNextNode ts hr x = Some ?n"
    using False by (simp add: getNextNode_def Let_def)
  have i0: "0 < length ?ns" using False by simp
  have mem: "?n \<in> set ?ns" using search(1) i0 by auto
  have "nhash ts ?n - (?hx + 1) \<le> nhash ts m - (?hx + 1)" if m: "m \<in> set ?ns" for m
  proof -
    from m obtain k where k: "k < length ?ns" "m = ?ns ! k" by (auto simp: in_set_conv_nth)
    have lt: "nhash ts (?ns ! a) \<le> nhash ts (?ns ! b)" if "a \<le> b" "b < length ?ns" for a b
      using sorted [of a b] that by (cases "a = b") auto
    show ?thesis
    proof (cases "?i = length ?ns")
      case True
      have "\<not> ?f k" using search(2) [of k] True k by simp
      moreover have "\<not> ?f 0" using search(2) [of 0] True i0 by simp
      ultimately show ?thesis using True k lt [of 0 k] by (simp add: word_next_below)
    next
      case False
      then have il: "?i < length ?ns" using search(1) by simp
      have fi: "?f ?i" using search(3) [of ?i] il by simp
      show ?thesis
      proof (cases "k < ?i")
        case True
        have "\<not> ?f k" using search(2) [OF True] by simp
        with fi False k show ?thesis by (simp add: word_next_wrap)
      next
        case ki: False
        then have "nhash ts (?ns ! ?i) \<le> nhash ts (?ns ! k)" using lt [of ?i k] k by simp
        with fi False k show ?thesis by (simp add: word_next_above)
      qed
    qed
  qed
  with mem have "owner_at ts hr (?hx + 1) = Some ?n" using owner_at_iff [OF ok] by blast
  with get show ?thesis by simp
qed

section \<open>The routing interface\<close>

text \<open>
  What the message processor supervisor and the batcher rely on when they route by key and
  when they replace a crashed node: lookups hit members, adding a node moves keys only to it
  and only away from its successor, removing a node moves only the keys it owned.
\<close>

locale key_router =
  fixes ok :: "'r \<Rightarrow> bool"
    and members :: "'r \<Rightarrow> 'n set"
    and route :: "'r \<Rightarrow> string \<Rightarrow> 'n option"
    and add :: "'r \<Rightarrow> 'n \<Rightarrow> 'r"
    and remove :: "'r \<Rightarrow> 'n \<Rightarrow> 'r"
    and successor :: "'r \<Rightarrow> 'n \<Rightarrow> 'n option"
  assumes ok_add: "ok r \<Longrightarrow> ok (add r x)"
    and ok_remove: "ok r \<Longrightarrow> x \<in> members r \<Longrightarrow> ok (remove r x)"
    and route_member: "ok r \<Longrightarrow> route r k = Some n \<Longrightarrow> n \<in> members r"
    and route_total: "ok r \<Longrightarrow> members r \<noteq> {} \<Longrightarrow> \<exists>n. route r k = Some n"
    and add_moves: "ok r \<Longrightarrow> route (add r x) k \<noteq> route r k \<Longrightarrow>
          route (add r x) k = Some x \<and> route r k = (if members r = {} then None else successor r x)"
    and remove_keeps: "ok r \<Longrightarrow> x \<in> members r \<Longrightarrow> route r k \<noteq> Some x \<Longrightarrow> route (remove r x) k = route r k"
    and members_remove: "ok r \<Longrightarrow> x \<in> members r \<Longrightarrow> members (remove r x) = members r - {x}"
begin

lemma route_None_iff: "ok r \<Longrightarrow> route r k = None \<longleftrightarrow> members r = {}"
  using route_total [of r k] route_member [of r k] by (cases "route r k") auto

text \<open>
  Replacing a crashed node: a key that is not the crashed node's keeps its node, unless it
  moves to the new node; then it leaves the new node's successor.
\<close>

lemma replace_moves:
  assumes "ok r" and "old \<in> members r" and "route r k \<noteq> Some old"
    and "route (add (remove r old) new) k \<noteq> route r k"
  shows "route (add (remove r old) new) k = Some new \<and> route r k = successor (remove r old) new"
proof -
  have r': "ok (remove r old)" "route (remove r old) k = route r k"
    using assms(1-3) by (simp_all add: ok_remove remove_keeps)
  with assms(4) have "route (add (remove r old) new) k \<noteq> route (remove r old) k" by simp
  from add_moves [OF r'(1) this] r'(2) assms(1,2) show ?thesis
    using route_None_iff [of r k] by (auto split: if_splits)
qed

end

lemma addNode_owner:
  assumes ok: "ring_ok ts hr" and new: "nhash ts x \<notin> nhash ts ` set (nodes hr)"
    and diff: "owner_at ts (addNode ts hr x) p \<noteq> owner_at ts hr p"
  shows "owner_at ts (addNode ts hr x) p = Some x
    \<and> (nodes hr \<noteq> [] \<longrightarrow> owner_at ts hr p = owner_at ts hr (nhash ts x + 1))"
proof -
  have ok': "ring_ok ts (addNode ts hr x)" using ok by (rule ring_ok_addNode)
  have set': "set (nodes (addNode ts hr x)) = insert x (set (nodes hr))"
    using ok new by (simp add: set_nodes_addNode)
  then obtain n' where n': "owner_at ts (addNode ts hr x) p = Some n'"
    using owner_at_exists [of "addNode ts hr x" ts p] by fastforce
  note near' = owner_at_nearest [OF ok' n', unfolded set']
  have x: "n' = x"
  proof (rule ccontr)
    assume "n' \<noteq> x"
    with near' have "owner_at ts hr p = Some n'" by (simp add: owner_at_iff [OF ok])
    with diff n' show False by simp
  qed
  have "owner_at ts hr p = owner_at ts hr (nhash ts x + 1)" if ne: "nodes hr \<noteq> []"
  proof -
    from ne obtain n where n: "owner_at ts hr p = Some n" using owner_at_exists by blast
    note near = owner_at_nearest [OF ok n]
    have "nhash ts x - p \<noteq> nhash ts n - p" using near new by auto
    with near near' x have lt: "nhash ts x - p < nhash ts n - p" by (simp add: less_le)
    have "nhash ts n - (nhash ts x + 1) \<le> nhash ts m - (nhash ts x + 1)" if "m \<in> set (nodes hr)" for m
      using word_next_above [OF lt, of "nhash ts m - p"] near that by (simp add: algebra_simps)
    with near have "owner_at ts hr (nhash ts x + 1) = Some n" by (simp add: owner_at_iff [OF ok])
    with n show ?thesis by simp
  qed
  with n' x show ?thesis by simp
qed

lemma removeNode_owner:
  assumes ok: "ring_ok ts hr" and x: "x \<in> set (nodes hr)" and other: "owner_at ts hr p \<noteq> Some x"
  shows "owner_at ts (removeNode ts hr x) p = owner_at ts hr p"
proof -
  have nc: "no_collision ts hr x" using x by (simp add: no_collision_def)
  have ok': "ring_ok ts (removeNode ts hr x)" using ok nc by (rule ring_ok_removeNode)
  have set': "set (nodes (removeNode ts hr x)) = set (nodes hr) - {x}"
    using ok nc by (rule set_nodes_removeNode)
  from x obtain n where n: "owner_at ts hr p = Some n"
    using owner_at_exists [of hr ts p] by fastforce
  with other owner_at_nearest [OF ok n] have "owner_at ts (removeNode ts hr x) p = Some n"
    by (auto simp: owner_at_iff [OF ok'] set')
  with n show ?thesis by simp
qed

interpretation ring: key_router "ring_ok ts" "\<lambda>hr. set (nodes hr)" "getNode ts" "addNode ts" "removeNode ts" "getNextNode ts"
  for ts :: "'n \<Rightarrow> string"
proof unfold_locales
  fix hr :: "'n hashRing" and x k n
  assume ok: "ring_ok ts hr"
  show "ring_ok ts (addNode ts hr x)" using ok by (rule ring_ok_addNode)
  show "x \<in> set (nodes hr) \<Longrightarrow> ring_ok ts (removeNode ts hr x)"
    using ok by (simp add: ring_ok_removeNode no_collision_def)
  show "getNode ts hr k = Some n \<Longrightarrow> n \<in> set (nodes hr)"
    using owner_at_nearest [OF ok] by (simp add: getNode_owner_at)
  show "set (nodes hr) \<noteq> {} \<Longrightarrow> \<exists>n. getNode ts hr k = Some n"
    using owner_at_exists by (simp add: getNode_owner_at)
  show "x \<in> set (nodes hr) \<Longrightarrow> getNode ts hr k \<noteq> Some x \<Longrightarrow> getNode ts (removeNode ts hr x) k = getNode ts hr k"
    using removeNode_owner [OF ok] by (simp add: getNode_owner_at)
  show "x \<in> set (nodes hr) \<Longrightarrow> set (nodes (removeNode ts hr x)) = set (nodes hr) - {x}"
    using ok by (simp add: set_nodes_removeNode no_collision_def)
  assume diff: "getNode ts (addNode ts hr x) k \<noteq> getNode ts hr k"
  then have new: "nhash ts x \<notin> nhash ts ` set (nodes hr)"
    using addNode_present [OF ok, of x] by auto
  show "getNode ts (addNode ts hr x) k = Some x \<and>
      getNode ts hr k = (if set (nodes hr) = {} then None else getNextNode ts hr x)"
    using addNode_owner [OF ok new, of "hashString k"] diff owner_at_None [of ts hr]
    by (auto simp: getNode_owner_at getNextNode_owner_at [OF ok])
qed

text \<open>Rings reachable by the operations the supervisors perform.\<close>

fun build_ring :: "('n \<Rightarrow> string) \<Rightarrow> 'n list \<Rightarrow> 'n hashRing" where
  "build_ring ts [] = newHashRing"
| "build_ring ts (n # ns) = addNode ts (build_ring ts ns) n"

lemma ring_ok_build: "ring_ok ts (build_ring ts ns)"
  by (induction ns) (simp_all add: ring_ok_new ring_ok_addNode)

section \<open>Properties\<close>

text \<open>
  Claim C21. The ring routes a key to the node that is nearest clockwise from the key's hash:
  on a well-formed ring \<open>getNode\<close> returns \<open>n\<close> exactly when \<open>n\<close> is a node whose wrapping
  distance from the key is the least, and it finds a node whenever there is one.
\<close>

theorem getNode_clockwise:
  assumes "ring_ok ts hr"
  shows "(getNode ts hr key = Some n \<longleftrightarrow>
            n \<in> set (nodes hr) \<and>
            (\<forall>m \<in> set (nodes hr). hashString (ts n) - hashString key \<le> hashString (ts m) - hashString key))
       \<and> (getNode ts hr key = None \<longleftrightarrow> nodes hr = [])"
  using owner_at_iff [OF assms] owner_at_None by (simp add: getNode_owner_at)

text \<open>
  The binary search of \<open>getNextNode\<close> returns the first node strictly clockwise of
  the given one, wrapping at the end of the ring (the node itself when it is the only one).
\<close>

theorem getNextNode_clockwise:
  assumes "ring_ok ts hr"
  shows "getNextNode ts hr x = Some n \<longleftrightarrow>
           n \<in> set (nodes hr) \<and>
           (\<forall>m \<in> set (nodes hr). hashString (ts n) - (hashString (ts x) + 1) \<le> hashString (ts m) - (hashString (ts x) + 1))"
  using owner_at_iff [OF assms] by (simp add: getNextNode_owner_at [OF assms])

text \<open>
  Claim C22. Adding and removing nodes disturb the routing minimally, and keep the ring sorted
  by distinct hashes: a key changes its node on \<open>addNode\<close> only by moving to the new node, and
  then it leaves the node that \<open>getNextNode\<close> names; on \<open>removeNode\<close> only if the removed node
  was its owner.
\<close>

theorem ring_minimal_disruption:
  assumes "ring_ok ts hr"
  shows "ring_ok ts (addNode ts hr x) \<and>
         (getNode ts (addNode ts hr x) key \<noteq> getNode ts hr key \<longrightarrow>
            getNode ts (addNode ts hr x) key = Some x \<and>
            (nodes hr \<noteq> [] \<longrightarrow> getNode ts hr key = getNextNode ts hr x)) \<and>
         (y \<in> set (nodes hr) \<longrightarrow>
            ring_ok ts (removeNode ts hr y) \<and>
            (getNode ts hr key \<noteq> Some y \<longrightarrow> getNode ts (removeNode ts hr y) key = getNode ts hr key))"
  using ring.ok_add [OF assms] ring.add_moves [OF assms] ring.ok_remove [OF assms] ring.remove_keeps [OF assms]
  by auto

text \<open>Concrete rings on which the properties apply.\<close>

definition ring3 :: "string hashRing" where
  "ring3 = build_ring (\<lambda>n. n) [''p0'', ''p1'', ''p2'']"

lemma ring3_ok: "ring_ok (\<lambda>n. n) ring3"
  unfolding ring3_def by (rule ring_ok_build)

theorem getNode_clockwise_witness:
  "getNode (\<lambda>n. n) ring3 ''user-1'' = Some ''p2'' \<and>
   hashString ''p2'' - hashString ''user-1'' \<le> hashString ''p0'' - hashString ''user-1''"
proof -
  have "getNode (\<lambda>n. n) ring3 ''user-1'' = Some ''p2''" and "''p0'' \<in> set (nodes ring3)" by code_simp+
  with getNode_clockwise [OF ring3_ok, of "''user-1''" "''p2''"] show ?thesis by blast
qed

theorem getNextNode_clockwise_witness:
  "getNextNode (\<lambda>n. n) ring3 ''p0'' = Some ''p2''"
proof -
  have "''p2'' \<in> set (nodes ring3) \<and> (\<forall>m \<in> set (nodes ring3).
      hashString ''p2'' - (hashString ''p0'' + 1) \<le> hashString m - (hashString ''p0'' + 1))" by code_simp
  with getNextNode_clockwise [OF ring3_ok, of "''p0''" "''p2''"] show ?thesis by blast
qed

theorem ring_minimal_disruption_witness:
  "''p0'' \<in> set (nodes ring3) \<and> getNode (\<lambda>n. n) ring3 ''user-1'' \<noteq> Some ''p0'' \<and>
   getNode (\<lambda>n. n) (removeNode (\<lambda>n. n) ring3 ''p0'') ''user-1'' = Some ''p2''"
proof -
  have "''p0'' \<in> set (nodes ring3)" and "getNode (\<lambda>n. n) ring3 ''user-1'' = Some ''p2''" by code_simp+
  with ring_minimal_disruption [OF ring3_ok, where y = "''p0''" and key = "''user-1''"]
  show ?thesis by simp
qed

text \<open>
  The no-collision condition on \<open>removeNode\<close> is necessary: the strings
  \<open>costarring\<close> and \<open>liquid\<close> have the same 32-bit FNV-1a hash, so removing a node named
  \<open>liquid\<close> from a ring that holds \<open>costarring\<close> leaves the node in the list but takes its
  hash out of the map, and adding \<open>costarring\<close> again then puts it in the ring twice.
\<close>

theorem removeNode_hash_collision:
  "(let hr = addNode (\<lambda>n. n) newHashRing ''costarring'';
        hr' = removeNode (\<lambda>n. n) hr ''liquid''
    in ring_ok (\<lambda>n. n) hr \<and> \<not> ring_ok (\<lambda>n. n) hr' \<and>
       nodes (addNode (\<lambda>n. n) hr' ''costarring'') = [''costarring'', ''costarring''])"
  by code_simp

end
