(* ===== verification/PK_Values.thy ===== *)
theory PK_Values
  imports Broadway_Prelude
begin

text \<open>
  \<open>pg/pk.go\<close>: primary key values (\<open>nil\<close>, \<open>int64\<close> or a 16-byte UUID), their order, their
  chunk ranges and their JSON form; with the parts of \<open>strconv\<close>, \<open>encoding/hex\<close> and
  \<open>encoding/json\<close> that the file calls.
\<close>

section \<open>Dynamic values and primary keys\<close>

type_synonym byte = "8 word"
type_synonym int64 = "64 word"  \<comment> \<open>read with \<open>sint\<close>\<close>

text \<open>
  The dynamic values (\<open>any\<close>) that a row can hold: what \<open>decodeText\<close> and pgx produce. Floats
  are their IEEE bits, times their nanoseconds; \<open>VOther\<close> is any other dynamic type.
\<close>

datatype goval =
    VNil | VBool bool | VInt64 int64 | VInt32 "32 word" | VBytes16 "byte list"
  | VString string | VFloat "64 word" | VTime int | VOther nat

datatype PK = PKNil | PKInt int64 | PKUuid "byte list"

fun pk_ok :: "PK \<Rightarrow> bool" where
  "pk_ok (PKUuid u) \<longleftrightarrow> length u = 16"
| "pk_ok _ \<longleftrightarrow> True"

section \<open>strconv.ParseInt(s, 10, 64)\<close>

definition is_digit :: "char \<Rightarrow> bool" where
  "is_digit c \<longleftrightarrow> (48::nat) \<le> of_char c \<and> (of_char c :: nat) \<le> 57"

definition digit_val :: "char \<Rightarrow> nat" where
  "digit_val c = of_char c - 48"

fun parse_digits :: "nat \<Rightarrow> string \<Rightarrow> nat option" where
  "parse_digits acc [] = Some acc"
| "parse_digits acc (c # cs) = (if is_digit c then parse_digits (10 * acc + digit_val c) cs else None)"

definition parse_uint :: "string \<Rightarrow> nat option" where
  "parse_uint s = (if s = [] then None else parse_digits 0 s)"

definition ParseInt10 :: "string \<Rightarrow> int64 option" where
  "ParseInt10 s =
     (case s of
        [] \<Rightarrow> None
      | c # cs \<Rightarrow>
          let neg = (c = CHR ''-'');
              ds = (if c = CHR ''+'' \<or> c = CHR ''-'' then cs else s)
          in case parse_uint ds of
               None \<Rightarrow> None
             | Some un \<Rightarrow>
                 if \<not> neg \<and> 2 ^ 63 \<le> un then None
                 else if neg \<and> 2 ^ 63 < un then None
                 else Some (if neg then - of_nat un else of_nat un))"

section \<open>encoding/hex and UUID strings\<close>

definition hextable :: string where
  "hextable = ''0123456789abcdef''"

definition hex_Encode :: "byte list \<Rightarrow> string" where
  "hex_Encode bs = concat (map (\<lambda>v. [hextable ! unat (drop_bit 4 v), hextable ! unat (v AND 15)]) bs)"

definition fromHexChar :: "char \<Rightarrow> byte option" where
  "fromHexChar c =
     (let n = of_char c :: nat
      in if 48 \<le> n \<and> n \<le> 57 then Some (of_nat (n - 48))
         else if 97 \<le> n \<and> n \<le> 102 then Some (of_nat (n - 97 + 10))
         else if 65 \<le> n \<and> n \<le> 70 then Some (of_nat (n - 65 + 10))
         else None)"

text \<open>An odd length is an error, as in \<open>hex.Decode\<close>.\<close>

fun hex_DecodeString :: "string \<Rightarrow> byte list option" where
  "hex_DecodeString [] = Some []"
| "hex_DecodeString [_] = None"
| "hex_DecodeString (p # q # s) =
     (case (fromHexChar p, fromHexChar q) of
        (Some a, Some b) \<Rightarrow> map_option (\<lambda>bs. (push_bit 4 a OR b) # bs) (hex_DecodeString s)
      | _ \<Rightarrow> None)"

text \<open>\<open>b[0:8] ... b[24:36]\<close> with the dashes at 8, 13, 18 and 23.\<close>

definition uuidToString :: "byte list \<Rightarrow> string" where
  "uuidToString u =
     hex_Encode (take 4 u) @ ''-'' @ hex_Encode (take 2 (drop 4 u)) @ ''-'' @
     hex_Encode (take 2 (drop 6 u)) @ ''-'' @ hex_Encode (take 2 (drop 8 u)) @ ''-'' @
     hex_Encode (take 6 (drop 10 u))"

definition uuidFromString :: "string \<Rightarrow> byte list option" where
  "uuidFromString s =
     (let cleaned = filter (\<lambda>c. c \<noteq> CHR ''-'') s
      in if length cleaned \<noteq> 32 then None else hex_DecodeString cleaned)"

fun uuidCmp :: "byte list \<Rightarrow> byte list \<Rightarrow> int" where
  "uuidCmp (a # as) (b # bs) = (if a \<noteq> b then (if a < b then -1 else 1) else uuidCmp as bs)"
| "uuidCmp _ _ = 0"

section \<open>The operations of PK\<close>

fun pkFromValue :: "goval \<Rightarrow> PK" where
  "pkFromValue (VInt64 x) = PKInt x"
| "pkFromValue (VInt32 x) = PKInt (scast x)"
| "pkFromValue (VBytes16 x) = PKUuid x"
| "pkFromValue (VString x) =
     (case ParseInt10 x of
        Some n \<Rightarrow> PKInt n
      | None \<Rightarrow> (case uuidFromString x of Some u \<Rightarrow> PKUuid u | None \<Rightarrow> PKNil))"
| "pkFromValue _ = PKNil"

definition IsSet :: "PK \<Rightarrow> bool" where
  "IsSet p \<longleftrightarrow> p \<noteq> PKNil"

fun pk_Next :: "PK \<Rightarrow> int \<Rightarrow> PK" where
  "pk_Next (PKInt v) n = PKInt (v + of_int n)"
| "pk_Next p n = p"

text \<open>\<open>low.value.(int64)\<close> and \<open>low.value.(UUID)\<close>: type assertions that panic on another type.\<close>

fun as_int64 :: "PK \<Rightarrow> int64 go" where
  "as_int64 (PKInt v) = Inr v"
| "as_int64 _ = Inl TypeAssertion"

fun as_uuid :: "PK \<Rightarrow> (byte list) go" where
  "as_uuid (PKUuid u) = Inr u"
| "as_uuid _ = Inl TypeAssertion"

text \<open>\<open>&&\<close> and \<open>||\<close> are evaluated from the left and stop at the first operand that decides.\<close>

fun inRange :: "PK \<Rightarrow> PK \<Rightarrow> PK \<Rightarrow> bool go" where
  "inRange (PKInt v) low high =
     go_bind (if \<not> IsSet low then Inr True else go_bind (as_int64 low) (\<lambda>l. Inr (sint l < sint v)))
       (\<lambda>above. if \<not> above then Inr False
                else if \<not> IsSet high then Inr True
                else go_bind (as_int64 high) (\<lambda>h. Inr (sint v \<le> sint h)))"
| "inRange (PKUuid v) low high =
     go_bind (if \<not> IsSet low then Inr True else go_bind (as_uuid low) (\<lambda>l. Inr (uuidCmp v l > 0)))
       (\<lambda>above. if \<not> above then Inr False
                else if \<not> IsSet high then Inr True
                else go_bind (as_uuid high) (\<lambda>h. Inr (uuidCmp v h \<le> 0)))"
| "inRange PKNil low high = Inr False"

section \<open>JSON\<close>

fun dec_nat :: "nat \<Rightarrow> string" where
  "dec_nat n = (if n < 10 then [char_of (48 + n)] else dec_nat (n div 10) @ [char_of (48 + n mod 10)])"

declare dec_nat.simps [simp del]

definition dec_int :: "int \<Rightarrow> string" where
  "dec_int i = (if i < 0 then CHR ''-'' # dec_nat (nat (- i)) else dec_nat (nat i))"

fun MarshalJSON :: "PK \<Rightarrow> string" where
  "MarshalJSON (PKInt v) = dec_int (sint v)"
| "MarshalJSON (PKUuid u) = CHR 0x22 # uuidToString u @ [CHR 0x22]"
| "MarshalJSON PKNil = ''null''"

text \<open>
  \<open>json.Unmarshal\<close> into an \<open>int64\<close>: the input must be a JSON number (no leading zero, no
  plus sign) and \<open>ParseInt\<close> must accept its text. Into a \<open>string\<close>: a quoted literal; a body
  of plain printable ASCII stands for itself, any other body is decoded by \<open>unescape\<close>, the
  escape rules of \<open>encoding/json\<close> left as a parameter.
\<close>

definition json_int :: "string \<Rightarrow> int64 option" where
  "json_int b =
     (let ds = (case b of c # cs \<Rightarrow> if c = CHR ''-'' then cs else b | [] \<Rightarrow> [])
      in if ds \<noteq> [] \<and> list_all is_digit ds \<and> (hd ds = CHR ''0'' \<longrightarrow> length ds = 1)
         then ParseInt10 b else None)"

definition plain_char :: "char \<Rightarrow> bool" where
  "plain_char c \<longleftrightarrow> (32::nat) \<le> of_char c \<and> (of_char c :: nat) < 127 \<and> c \<noteq> CHR 0x22 \<and> c \<noteq> CHR 0x5C"

definition json_string :: "(string \<Rightarrow> string option) \<Rightarrow> string \<Rightarrow> string option" where
  "json_string unescape b =
     (if length b \<ge> 2 \<and> hd b = CHR 0x22 \<and> last b = CHR 0x22
      then let body = butlast (tl b) in if list_all plain_char body then Some body else unescape body
      else None)"

definition UnmarshalJSON :: "(string \<Rightarrow> string option) \<Rightarrow> string \<Rightarrow> PK option" where
  "UnmarshalJSON unescape b =
     (if b = ''null'' then Some PKNil
      else case json_int b of
             Some n \<Rightarrow> Some (PKInt n)
           | None \<Rightarrow> (case json_string unescape b of
                        None \<Rightarrow> None
                      | Some s \<Rightarrow> map_option PKUuid (uuidFromString s)))"

section \<open>Hex round trip\<close>

lemma nibbles_join: "push_bit 4 (drop_bit 4 v) OR (v AND 15) = v" for v :: byte
proof -
  have "(15 :: byte) = mask 4" by (simp add: mask_eq_exp_minus_1)
  then show ?thesis by (auto simp: bit_eq_iff bit_simps)
qed

lemma high_nibble_lt: "unat (drop_bit 4 v) < 16" for v :: byte
proof -
  have "unat v < 2 ^ LENGTH(8)" by (rule unsigned_less)
  then show ?thesis by (simp add: drop_bit_eq_div unat_div)
qed

lemma low_nibble_lt: "unat (v AND 15) < 16" for v :: byte
proof -
  have "(15 :: byte) = mask 4" by (simp add: mask_eq_exp_minus_1)
  then have "v AND 15 = take_bit 4 v" by (simp add: take_bit_eq_mask)
  then show ?thesis using take_bit_nat_less_exp [of 4 "unat v"] by (simp add: unsigned_take_bit_eq)
qed

lemma hextable_nth:
  assumes "n < 16"
  shows "fromHexChar (hextable ! n) = Some (of_nat n) \<and> hextable ! n \<noteq> CHR ''-'' \<and> plain_char (hextable ! n)"
proof -
  have "\<forall>n \<in> set [0..<16]. fromHexChar (hextable ! n) = Some (of_nat n) \<and> hextable ! n \<noteq> CHR ''-'' \<and> plain_char (hextable ! n)"
    by code_simp
  with assms show ?thesis by simp
qed

lemma hex_Encode_simps [simp]:
  "hex_Encode [] = []"
  "hex_Encode (v # vs) = hextable ! unat (drop_bit 4 v) # hextable ! unat (v AND 15) # hex_Encode vs"
  by (simp_all add: hex_Encode_def)

lemma hex_Encode_append: "hex_Encode (xs @ ys) = hex_Encode xs @ hex_Encode ys"
  by (simp add: hex_Encode_def)

lemma length_hex_Encode: "length (hex_Encode bs) = 2 * length bs"
  by (induction bs) auto

lemma hex_Encode_chars: "c \<in> set (hex_Encode bs) \<Longrightarrow> c \<noteq> CHR ''-'' \<and> plain_char c"
  by (induction bs) (auto simp: hextable_nth [OF high_nibble_lt] hextable_nth [OF low_nibble_lt])

lemma hex_Decode_Encode: "hex_DecodeString (hex_Encode bs) = Some bs"
  by (induction bs)
    (simp_all add: hextable_nth [OF high_nibble_lt] hextable_nth [OF low_nibble_lt] nibbles_join)

lemma filter_dash_hex: "filter (\<lambda>c. c \<noteq> CHR ''-'') (hex_Encode bs) = hex_Encode bs"
  by (rule filter_True) (auto dest: hex_Encode_chars)

lemma uuid_pieces:
  assumes "length u = 16"
  shows "take 4 u @ take 2 (drop 4 u) @ take 2 (drop 6 u) @ take 2 (drop 8 u) @ take 6 (drop 10 u) = u"
proof -
  have "take n (drop i u) @ drop (i + n) u = drop i u" for i n
    by (metis add.commute append_take_drop_id drop_drop)
  from this [where i = 4 and n = 2] this [where i = 6 and n = 2] this [where i = 8 and n = 2]
  have "take 2 (drop 4 u) @ take 2 (drop 6 u) @ take 2 (drop 8 u) @ drop 10 u = drop 4 u" by simp
  moreover have "take 6 (drop 10 u) = drop 10 u" using assms by simp
  ultimately show ?thesis by simp
qed

lemma cleaned_uuidToString:
  assumes "length u = 16"
  shows "filter (\<lambda>c. c \<noteq> CHR ''-'') (uuidToString u) = hex_Encode u"
proof -
  have "filter (\<lambda>c. c \<noteq> CHR ''-'') (uuidToString u) =
      hex_Encode (take 4 u @ take 2 (drop 4 u) @ take 2 (drop 6 u) @ take 2 (drop 8 u) @ take 6 (drop 10 u))"
    by (simp add: uuidToString_def filter_dash_hex hex_Encode_append)
  with uuid_pieces [OF assms] show ?thesis by simp
qed

lemma uuidFromString_uuidToString: "length u = 16 \<Longrightarrow> uuidFromString (uuidToString u) = Some u"
  by (simp add: uuidFromString_def cleaned_uuidToString length_hex_Encode hex_Decode_Encode)

lemma length_uuidToString: "length u = 16 \<Longrightarrow> length (uuidToString u) = 36"
  by (simp add: uuidToString_def length_hex_Encode)

lemma uuidToString_plain: "list_all plain_char (uuidToString u)"
proof -
  have "plain_char CHR ''-''" by code_simp
  then show ?thesis by (auto simp: uuidToString_def list_all_iff dest: hex_Encode_chars)
qed

lemma hex_DecodeString_length: "hex_DecodeString s = Some bs \<Longrightarrow> length s = 2 * length bs"
  by (induction s arbitrary: bs rule: hex_DecodeString.induct) (auto split: option.splits)

lemma uuidFromString_length: "uuidFromString s = Some u \<Longrightarrow> length u = 16"
  by (auto simp: uuidFromString_def Let_def dest: hex_DecodeString_length split: if_splits)

section \<open>Decimal round trip\<close>

lemma digit_char:
  assumes "n < 10"
  shows "is_digit (char_of (48 + n)) \<and> digit_val (char_of (48 + n)) = n \<and>
    (char_of (48 + n) = CHR ''0'' \<longleftrightarrow> n = 0) \<and> char_of (48 + n) \<noteq> CHR ''-'' \<and> char_of (48 + n) \<noteq> CHR ''+''"
proof -
  have "\<forall>n \<in> set [0..<10]. is_digit (char_of (48 + n)) \<and> digit_val (char_of (48 + n)) = n \<and>
    (char_of (48 + n) = CHR ''0'' \<longleftrightarrow> n = 0) \<and> char_of (48 + n) \<noteq> CHR ''-'' \<and> char_of (48 + n) \<noteq> CHR ''+''"
    by code_simp
  with assms show ?thesis by simp
qed

lemma parse_digits_append:
  "parse_digits a (xs @ ys) = (case parse_digits a xs of None \<Rightarrow> None | Some b \<Rightarrow> parse_digits b ys)"
  by (induction xs arbitrary: a) auto

lemma dec_nat_digits: "list_all is_digit (dec_nat n) \<and> dec_nat n \<noteq> []"
proof (induction n rule: dec_nat.induct)
  case (1 n)
  then show ?case using digit_char [of n] digit_char [of "n mod 10"]
    by (cases "n < 10") (auto simp: dec_nat.simps [of n])
qed

lemma parse_dec_nat: "parse_digits 0 (dec_nat n) = Some n"
proof (induction n rule: dec_nat.induct)
  case (1 n)
  then show ?case using digit_char [of n] digit_char [of "n mod 10"]
    by (cases "n < 10") (auto simp: dec_nat.simps [of n] parse_digits_append)
qed

lemma dec_nat_hd: "0 < n \<Longrightarrow> hd (dec_nat n) \<noteq> CHR ''0''"
proof (induction n rule: dec_nat.induct)
  case (1 n)
  then show ?case using digit_char [of n] dec_nat_digits [of "n div 10"]
    by (cases "n < 10") (auto simp: dec_nat.simps [of n])
qed

lemma dec_nat_0: "dec_nat 0 = ''0''"
  by (simp add: dec_nat.simps [of 0]) code_simp

lemma dec_nat_hd_digit: "hd (dec_nat n) \<noteq> CHR ''-'' \<and> hd (dec_nat n) \<noteq> CHR ''+''"
proof -
  have "is_digit (hd (dec_nat n))" using dec_nat_digits [of n] by (cases "dec_nat n") auto
  moreover have "\<not> is_digit CHR ''-''" "\<not> is_digit CHR ''+''" by code_simp+
  ultimately show ?thesis by metis
qed

lemma sint64_bounds: "- (2 ^ 63) \<le> sint v \<and> sint v < 2 ^ 63" for v :: int64
  using sint_lt [of v] sint_ge [of v] by simp

lemma ParseInt10_dec_int: "ParseInt10 (dec_int (sint v)) = Some v"
proof (cases "sint v < 0")
  case True
  then have "nat (- sint v) \<le> 2 ^ 63" using sint64_bounds [of v] by simp
  moreover have "- of_nat (nat (- sint v)) = v"
    using True by (simp add: of_nat_nat)
  ultimately show ?thesis using True dec_nat_digits
    by (simp add: ParseInt10_def dec_int_def parse_uint_def parse_dec_nat)
next
  case False
  define ds where "ds = dec_nat (nat (sint v))"
  have ds: "ds \<noteq> []" "hd ds \<noteq> CHR ''-''" "hd ds \<noteq> CHR ''+''" "parse_digits 0 ds = Some (nat (sint v))"
    using dec_nat_digits dec_nat_hd_digit by (simp_all add: ds_def parse_dec_nat)
  have "nat (sint v) < 2 ^ 63" using False sint64_bounds [of v] by simp
  moreover have "of_nat (nat (sint v)) = v" using False by (simp add: of_nat_nat)
  moreover have "dec_int (sint v) = ds" using False by (simp add: dec_int_def ds_def)
  ultimately show ?thesis using ds
    by (cases ds) (auto simp: ParseInt10_def parse_uint_def Let_def)
qed

lemma json_int_dec_int: "json_int (dec_int (sint v)) = Some v"
proof -
  let ?n = "nat (if sint v < 0 then - sint v else sint v)"
  have "dec_nat ?n \<noteq> [] \<and> list_all is_digit (dec_nat ?n) \<and> (hd (dec_nat ?n) = CHR ''0'' \<longrightarrow> length (dec_nat ?n) = 1)"
    using dec_nat_digits [of ?n] dec_nat_hd [of ?n] dec_nat_0 by (cases "?n = 0") auto
  moreover have "(case dec_int (sint v) of c # cs \<Rightarrow> if c = CHR ''-'' then cs else dec_int (sint v) | [] \<Rightarrow> []) = dec_nat ?n"
    using dec_nat_hd_digit [of ?n] dec_nat_digits [of ?n]
    by (cases "dec_nat ?n") (auto simp: dec_int_def split: if_splits)
  ultimately show ?thesis using ParseInt10_dec_int by (simp add: json_int_def)
qed

section \<open>The order of primary keys\<close>

text \<open>A UUID read as a big-endian number; the rank orders keys of the same kind.\<close>

fun be_val :: "nat \<Rightarrow> byte list \<Rightarrow> nat" where
  "be_val acc [] = acc"
| "be_val acc (b # bs) = be_val (256 * acc + unat b) bs"

fun pk_rank :: "PK \<Rightarrow> int" where
  "pk_rank PKNil = 0"
| "pk_rank (PKInt v) = sint v"
| "pk_rank (PKUuid u) = int (be_val 0 u)"

fun same_kind :: "PK \<Rightarrow> PK \<Rightarrow> bool" where
  "same_kind (PKInt _) (PKInt _) = True"
| "same_kind (PKUuid u) (PKUuid v) = (length u = length v)"
| "same_kind _ _ = False"

definition bound_for :: "PK \<Rightarrow> PK \<Rightarrow> bool" where
  "bound_for p b \<longleftrightarrow> b = PKNil \<or> same_kind p b"

lemma unat_byte_less: "unat (b :: byte) < 256"
  using unsigned_less [of b, where ?'a = nat] by simp

lemma be_val_less:
  "length u = length v \<Longrightarrow> a < b \<Longrightarrow> be_val a u < be_val b v"
proof (induction u v arbitrary: a b rule: list_induct2)
  case (Cons x xs y ys)
  have "256 * a + unat x < 256 * b + unat y"
    using Cons.prems unat_byte_less [of x] by linarith
  then show ?case using Cons.IH by simp
qed simp

lemma uuidCmp_be_val_acc:
  "length u = length v \<Longrightarrow>
     uuidCmp u v = (if be_val a u < be_val a v then -1 else if be_val a u = be_val a v then 0 else 1)"
proof (induction u v arbitrary: a rule: list_induct2)
  case (Cons x xs y ys)
  show ?case
  proof (cases "x = y")
    case True
    then show ?thesis using Cons.IH [of "256 * a + unat y"] by simp
  next
    case False
    then have "unat x < unat y \<or> unat y < unat x"
      by (metis linorder_neqE_nat unsigned_word_eqI)
    with False Cons.hyps be_val_less [of xs ys "256 * a + unat x" "256 * a + unat y"]
      be_val_less [of ys xs "256 * a + unat y" "256 * a + unat x"]
    show ?thesis by (auto simp: word_less_nat_alt)
  qed
qed simp

lemma uuidCmp_be_val:
  "length u = length v \<Longrightarrow>
     uuidCmp u v = (if be_val 0 u < be_val 0 v then -1 else if be_val 0 u = be_val 0 v then 0 else 1)"
  by (rule uuidCmp_be_val_acc)

lemma be_val_inj: "length u = length v \<Longrightarrow> be_val a u = be_val b v \<Longrightarrow> a = b \<Longrightarrow> u = v"
proof (induction u v arbitrary: a b rule: list_induct2)
  case (Cons x xs y ys)
  have "256 * a + unat x = 256 * b + unat y"
    using Cons.prems be_val_less [of xs ys] be_val_less [of ys xs] Cons.hyps
    by (metis be_val.simps(2) linorder_neqE_nat order_less_irrefl)
  with Cons show ?case by (auto intro: unsigned_word_eqI)
qed simp

lemma pk_rank_inj: "same_kind p q \<Longrightarrow> pk_rank p = pk_rank q \<Longrightarrow> p = q"
  by (cases "(p, q)" rule: same_kind.cases) (auto simp: be_val_inj dest: signed_word_eqI)

lemma inRange_rank:
  assumes "bound_for p low" "bound_for p high"
  shows "inRange p low high =
    Inr (p \<noteq> PKNil \<and> (low = PKNil \<or> pk_rank low < pk_rank p) \<and> (high = PKNil \<or> pk_rank p \<le> pk_rank high))"
  using assms
  by (cases p; cases low; cases high)
    (auto simp: bound_for_def IsSet_def uuidCmp_be_val)

lemma ParseInt10_uuidToString:
  assumes len: "length u = 16"
  shows "ParseInt10 (uuidToString u) = None"
proof -
  have "parse_digits acc s = None" if "CHR ''-'' \<in> set s" for acc s
    using that
  proof (induction s arbitrary: acc)
    case (Cons c cs)
    have "\<not> is_digit CHR ''-''" by code_simp
    with Cons show ?case by auto
  qed simp
  note dash = this
  have "CHR ''-'' \<in> set (tl (uuidToString u))"
  proof (cases "hex_Encode (take 4 u)")
    case Nil
    then show ?thesis using len length_hex_Encode [of "take 4 u"] by simp
  next
    case (Cons c cs)
    then show ?thesis by (simp add: uuidToString_def)
  qed
  with dash show ?thesis
    by (cases "uuidToString u") (auto simp: ParseInt10_def parse_uint_def Let_def)
qed

lemma pkFromValue_uuidToString: "length u = 16 \<Longrightarrow> pkFromValue (VString (uuidToString u)) = PKUuid u"
  by (simp add: ParseInt10_uuidToString uuidFromString_uuidToString)

section \<open>Properties\<close>

text \<open>
  \<open>uuidCmp\<close>, which compares two UUIDs byte by byte from the left, is the comparison
  of the two 128-bit big-endian numbers: negative, zero or positive as they compare.
\<close>

theorem uuidCmp_numeric:
  assumes "length u = 16" and "length v = 16"
  shows "uuidCmp u v = (if be_val 0 u < be_val 0 v then -1 else if u = v then 0 else 1)"
  using assms be_val_inj [of u v 0 0] by (auto simp: uuidCmp_be_val)

theorem uuidCmp_numeric_witness:
  "uuidCmp [0, 0, 0, 0, 0, 0, 0, 0, 0, 0, 0, 0, 0, 0, 0, 255] [0, 0, 0, 0, 0, 0, 0, 0, 0, 0, 0, 0, 0, 0, 1, 0] = -1"
  using uuidCmp_numeric [of "[0, 0, 0, 0, 0, 0, 0, 0, 0, 0, 0, 0, 0, 0, 0, 255]"
      "[0, 0, 0, 0, 0, 0, 0, 0, 0, 0, 0, 0, 0, 0, 1, 0]"] by simp

text \<open>
  Claim C30. A primary key written as JSON and read back is the same key, whatever decoder of
  escapes is used, and a UUID also survives the trip through its canonical string of 36
  characters.
\<close>

theorem pk_json_roundtrip:
  assumes "pk_ok p"
  shows "UnmarshalJSON unescape (MarshalJSON p) = Some p \<and>
    (\<forall>u. p = PKUuid u \<longrightarrow> length (uuidToString u) = 36 \<and> pkFromValue (VString (uuidToString u)) = p)"
proof (cases p)
  case PKNil
  then show ?thesis by (simp add: UnmarshalJSON_def)
next
  case (PKInt v)
  have "is_digit (last (dec_int (sint v)))"
    using dec_nat_digits last_in_set by (fastforce simp: dec_int_def list_all_iff)
  moreover have "\<not> is_digit (last ''null'')" by code_simp
  ultimately have "dec_int (sint v) \<noteq> ''null''" by metis
  with PKInt show ?thesis by (simp add: UnmarshalJSON_def json_int_dec_int)
next
  case (PKUuid u)
  with assms have len: "length u = 16" by simp
  have "json_int (CHR 0x22 # uuidToString u @ [CHR 0x22]) = None"
  proof -
    have "\<not> is_digit CHR 0x22" by code_simp
    then show ?thesis by (simp add: json_int_def)
  qed
  moreover have "ParseInt10 (uuidToString u) = None" using len by (rule ParseInt10_uuidToString)
  ultimately show ?thesis using PKUuid len uuidToString_plain length_uuidToString [OF len]
    by (simp add: UnmarshalJSON_def json_string_def Let_def uuidFromString_uuidToString)
qed

theorem pk_json_roundtrip_witness:
  "UnmarshalJSON (\<lambda>_. None) (MarshalJSON (PKInt (- 42))) = Some (PKInt (- 42)) \<and>
   pkFromValue (VString (uuidToString (replicate 16 171))) = PKUuid (replicate 16 171)"
  using pk_json_roundtrip [of "PKInt (- 42)" "\<lambda>_. None"] pk_json_roundtrip [of "PKUuid (replicate 16 171)"]
  by simp

text \<open>
  Chunk ranges are half-open, \<open>(low, high]\<close>: when \<open>mid\<close> is a key between the two
  bounds (an unset bound is unbounded), a key of the same kind lies in \<open>(low, high]\<close> exactly
  when it lies in one of \<open>(low, mid]\<close> and \<open>(mid, high]\<close>, and never in both. So the ranges of
  consecutive chunks neither overlap nor leave a gap.
\<close>

theorem chunk_ranges_partition:
  assumes "same_kind p mid" and "bound_for p low" and "bound_for p high"
    and "low = PKNil \<or> pk_rank low \<le> pk_rank mid" and "high = PKNil \<or> pk_rank mid \<le> pk_rank high"
  shows "\<exists>a b. inRange p low mid = Inr a \<and> inRange p mid high = Inr b \<and>
           inRange p low high = Inr (a \<or> b) \<and> \<not> (a \<and> b)"
proof -
  have "bound_for p mid" "p \<noteq> PKNil" "mid \<noteq> PKNil"
    using assms(1) by (auto simp: bound_for_def)
  with assms show ?thesis by (auto simp: inRange_rank)
qed

theorem chunk_ranges_partition_witness:
  "\<exists>a b. inRange (PKInt 5) PKNil (PKInt 3) = Inr a \<and> inRange (PKInt 5) (PKInt 3) (PKInt 9) = Inr b \<and>
     inRange (PKInt 5) PKNil (PKInt 9) = Inr (a \<or> b) \<and> \<not> (a \<and> b)"
  by (rule chunk_ranges_partition) (simp_all add: bound_for_def)

end
