(* ===== verification/CDC_Types.thy ===== *)
theory CDC_Types
  imports PK_Values
begin

text \<open>
  \<open>pg/types.go\<close>: the records and enumerations of the Postgres change-data-capture connector.
\<close>

record CDCTable =
  tb_Name :: string
  tb_PKColumn :: string

definition pkColumn :: "CDCTable \<Rightarrow> string" where
  "pkColumn t = (if tb_PKColumn t \<noteq> '''' then tb_PKColumn t else ''id'')"

datatype OperationType = OperationInsert | OperationUpdate | OperationDelete | OperationRead

text \<open>
  \<open>Row\<close> is a Go map that may be nil; an association list with one entry per column. Reading a
  missing column (or a nil map) gives the zero value nil.
\<close>

type_synonym Row = "(string \<times> goval) list option"

definition row_get :: "Row \<Rightarrow> string \<Rightarrow> goval" where
  "row_get r c = (case r of None \<Rightarrow> VNil | Some m \<Rightarrow> (case map_of m c of None \<Rightarrow> VNil | Some v \<Rightarrow> v))"

record CDCEvent =
  ev_Schema :: string
  ev_Table :: string
  ev_Operation :: OperationType
  ev_PK :: PK
  ev_Before :: Row
  ev_After :: Row
  ev_commitXID :: "32 word"
  ev_commitLSN :: "64 word"
  ev_chunkID :: int
  ev_chunkSize :: int
  ev_chunkHighPK :: PK

text \<open>\<open>PhaseUnset\<close> is the zero value of the string type, before any state is loaded.\<close>

datatype Phase = PhaseUnset | PhaseSnapshotting | PhaseStreaming

record PKRange =
  rg_Table :: string
  rg_Low :: PK
  rg_High :: PK
  rg_XMin :: "32 word"

record CDCState =
  st_Phase :: Phase
  st_SlotName :: string
  st_ConfirmedLSN :: "64 word"
  st_SnapshotTables :: "CDCTable list"
  st_CurrentSnapshotTable :: string
  st_SnapshotCursor :: PK
  st_ScannedPKRanges :: "PKRange list"

record walBatch =
  wb_events :: "CDCEvent list"
  wb_commitLSN :: "64 word"

section \<open>The life cycle of a connector as an order on phases\<close>

instantiation Phase :: linorder
begin

fun phase_num :: "Phase \<Rightarrow> nat" where
  "phase_num PhaseUnset = 0"
| "phase_num PhaseSnapshotting = 1"
| "phase_num PhaseStreaming = 2"

definition less_eq_Phase :: "Phase \<Rightarrow> Phase \<Rightarrow> bool" where
  "less_eq_Phase p q \<longleftrightarrow> phase_num p \<le> phase_num q"

definition less_Phase :: "Phase \<Rightarrow> Phase \<Rightarrow> bool" where
  "less_Phase p q \<longleftrightarrow> phase_num p < phase_num q"

instance
proof
  fix p q r :: Phase
  show "p < q \<longleftrightarrow> p \<le> q \<and> \<not> q \<le> p" "p \<le> p" "p \<le> q \<or> q \<le> p"
    by (auto simp: less_eq_Phase_def less_Phase_def)
  show "p \<le> q \<Longrightarrow> q \<le> r \<Longrightarrow> p \<le> r" by (simp add: less_eq_Phase_def)
  show "p \<le> q \<Longrightarrow> q \<le> p \<Longrightarrow> p = q"
    by (cases p; cases q) (auto simp: less_eq_Phase_def)
qed

end

lemma phase_le_simps [simp]:
  "PhaseUnset \<le> p"
  "p \<le> PhaseStreaming"
  "PhaseStreaming \<le> p \<longleftrightarrow> p = PhaseStreaming"
  "PhaseSnapshotting \<le> p \<longleftrightarrow> p \<noteq> PhaseUnset"
  by (cases p; simp add: less_eq_Phase_def)+

end
