(* ===== verification/Merger.thy ===== *)
theory Merger
  imports CDC_Types "HOL-Library.Sublist"
begin

text \<open>
  \<open>pg/merger.go\<close>: the merger of snapshot READ events and WAL batches. A method changes the
  state while it holds the mutex and collects events in a local \<open>toEmit\<close>, which it sends on
  \<open>output\<close> after unlocking. The two parts are separate steps: an operation below is the locked
  section and leaves the collected events in \<open>mg_toEmit\<close> (of the snapshot goroutine) or
  \<open>mg_walToEmit\<close> (of the WAL goroutine); each send of one event is a step of its own, so the
  sends of the two goroutines interleave with each other and with the other's locked sections.
  The channel is the list \<open>mg_output\<close>, in the order of the sends. A step that panics
  (a type assertion on primary keys of two kinds) is \<open>Inl\<close>: the process crashes.
\<close>

section \<open>State and operations\<close>

record chunk =
  ck_chunkID :: int
  ck_table :: string
  ck_pkLow :: PK
  ck_pkHigh :: PK

record merger =
  mg_phase :: Phase
  mg_scannedRanges :: "PKRange list"
  mg_currentChunk :: "chunk option"
  mg_pendingWALEvents :: "CDCEvent list"
  mg_output :: "CDCEvent list"
  mg_toEmit :: "CDCEvent list"      \<comment> \<open>collected by the snapshot goroutine, not yet sent\<close>
  mg_walToEmit :: "CDCEvent list"   \<comment> \<open>collected by the WAL goroutine, not yet sent\<close>

definition newMerger :: "PKRange list \<Rightarrow> Phase \<Rightarrow> merger" where
  "newMerger initialRanges phase =
     \<lparr>mg_phase = phase, mg_scannedRanges = initialRanges, mg_currentChunk = None,
      mg_pendingWALEvents = [], mg_output = [], mg_toEmit = [], mg_walToEmit = []\<rparr>"

definition emit :: "CDCEvent list \<Rightarrow> merger \<Rightarrow> merger" where
  "emit es m = m\<lparr>mg_output := mg_output m @ es\<rparr>"   \<comment> \<open>the sends of \<open>es\<close> on the channel\<close>

definition onBeginChunk :: "merger \<Rightarrow> int \<Rightarrow> string \<Rightarrow> PK \<Rightarrow> PK \<Rightarrow> merger" where
  "onBeginChunk m chunkID table pkLow pkHigh =
     m\<lparr>mg_currentChunk := Some \<lparr>ck_chunkID = chunkID, ck_table = table, ck_pkLow = pkLow, ck_pkHigh = pkHigh\<rparr>\<rparr>"

text \<open>The loop over the pending events; \<open>carry\<close> is the new \<open>pendingWALEvents\<close>.\<close>

fun end_loop :: "PK \<Rightarrow> PK \<Rightarrow> 32 word \<Rightarrow> CDCEvent list \<Rightarrow> CDCEvent list \<Rightarrow> CDCEvent list
    \<Rightarrow> (CDCEvent list \<times> CDCEvent list) go" where
  "end_loop pkLow actualIDHigh xmin [] carry toEmit = Inr (carry, toEmit)"
| "end_loop pkLow actualIDHigh xmin (event # rest) carry toEmit =
     go_bind (inRange (ev_PK event) pkLow actualIDHigh)
       (\<lambda>within.
          if within
          then (if ev_commitXID event \<ge> xmin
                then end_loop pkLow actualIDHigh xmin rest carry (toEmit @ [event])
                else end_loop pkLow actualIDHigh xmin rest carry toEmit)
          else end_loop pkLow actualIDHigh xmin rest (carry @ [event]) toEmit)"

definition onEndChunk :: "merger \<Rightarrow> int \<Rightarrow> string \<Rightarrow> PK \<Rightarrow> 32 word \<Rightarrow> merger go" where
  "onEndChunk m chunkID table actualIDHigh xmin =
     (case mg_currentChunk m of
        None \<Rightarrow> Inr m
      | Some c \<Rightarrow>
          if ck_chunkID c \<noteq> chunkID then Inr m
          else let pkLow = ck_pkLow c;
                   completed = \<lparr>rg_Table = table, rg_Low = pkLow, rg_High = actualIDHigh, rg_XMin = xmin\<rparr>
               in go_bind (end_loop pkLow actualIDHigh xmin (mg_pendingWALEvents m) [] [])
                    (\<lambda>(carry, toEmit).
                       Inr (m\<lparr>mg_currentChunk := None,
                             mg_scannedRanges := mg_scannedRanges m @ [completed],
                             mg_pendingWALEvents := carry,
                             mg_toEmit := mg_toEmit m @ toEmit\<rparr>)))"

definition onSnapshotComplete :: "merger \<Rightarrow> merger" where
  "onSnapshotComplete m =
     (let overflow = mg_pendingWALEvents m
      in m\<lparr>mg_phase := PhaseStreaming, mg_currentChunk := None,
           mg_pendingWALEvents := [], mg_scannedRanges := [],
           mg_toEmit := mg_toEmit m @ overflow\<rparr>)"

definition onSnapshotEvent :: "merger \<Rightarrow> CDCEvent \<Rightarrow> merger" where
  "onSnapshotEvent m event = emit [event] m"

definition qualifyTable :: "string \<Rightarrow> string \<Rightarrow> string" where
  "qualifyTable schema table = (if schema = '''' then table else schema @ ''.'' @ table)"

fun findScannedRange :: "PKRange list \<Rightarrow> string \<Rightarrow> PK \<Rightarrow> (PKRange option) go" where
  "findScannedRange [] table pk = Inr None"
| "findScannedRange (r # rs) table pk =
     (if rg_Table r \<noteq> table then findScannedRange rs table pk
      else go_bind (inRange pk (rg_Low r) (rg_High r))
             (\<lambda>within. if within then Inr (Some r) else findScannedRange rs table pk))"

definition routeEvent :: "merger \<Rightarrow> CDCEvent \<Rightarrow> (merger \<times> CDCEvent \<times> bool) go" where
  "routeEvent m event =
     (if mg_phase m = PhaseStreaming then Inr (m, event, True)
      else let qualifiedTable = qualifyTable (ev_Schema event) (ev_Table event)
           in go_bind (findScannedRange (mg_scannedRanges m) qualifiedTable (ev_PK event))
                (\<lambda>found. case found of
                   Some r \<Rightarrow> Inr (m, event, ev_commitXID event \<ge> rg_XMin r)
                 | None \<Rightarrow>
                     (case mg_currentChunk m of
                        None \<Rightarrow> Inr (m, event, False)
                      | Some c \<Rightarrow>
                          if ck_table c \<noteq> qualifiedTable then Inr (m, event, False)
                          else go_bind (inRange (ev_PK event) (ck_pkLow c) (ck_pkHigh c))
                                 (\<lambda>within.
                                    if within
                                    then Inr (m\<lparr>mg_pendingWALEvents := mg_pendingWALEvents m @ [event]\<rparr>, event, False)
                                    else Inr (m, event, False)))))"

fun collectWALBatch :: "merger \<Rightarrow> 64 word \<Rightarrow> CDCEvent list \<Rightarrow> CDCEvent list \<Rightarrow> (merger \<times> CDCEvent list) go" where
  "collectWALBatch m commitLSN [] toEmit = Inr (m, toEmit)"
| "collectWALBatch m commitLSN (event # rest) toEmit =
     go_bind (routeEvent m (event\<lparr>ev_commitLSN := commitLSN\<rparr>))
       (\<lambda>(m', e, ok). collectWALBatch m' commitLSN rest (if ok then toEmit @ [e] else toEmit))"

definition onWALBatch :: "merger \<Rightarrow> walBatch \<Rightarrow> merger go" where
  "onWALBatch m batch =
     go_bind (collectWALBatch m (wb_commitLSN batch) (wb_events batch) [])
       (\<lambda>(m', toEmit). Inr (m'\<lparr>mg_walToEmit := mg_walToEmit m' @ toEmit\<rparr>))"

text \<open>
  The loops after the unlocks, \<open>for _, event := range toEmit { m.output <- event }\<close>: one send,
  and the rest of the sends.
\<close>

definition sendSnapshot :: "merger \<Rightarrow> merger" where
  "sendSnapshot m = emit (take 1 (mg_toEmit m)) (m\<lparr>mg_toEmit := tl (mg_toEmit m)\<rparr>)"

definition sendWAL :: "merger \<Rightarrow> merger" where
  "sendWAL m = emit (take 1 (mg_walToEmit m)) (m\<lparr>mg_walToEmit := tl (mg_walToEmit m)\<rparr>)"

definition finishSnapshot :: "merger \<Rightarrow> merger" where
  "finishSnapshot m = emit (mg_toEmit m) (m\<lparr>mg_toEmit := []\<rparr>)"

definition finishWAL :: "merger \<Rightarrow> merger" where
  "finishWAL m = emit (mg_walToEmit m) (m\<lparr>mg_walToEmit := []\<rparr>)"

section \<open>Runs\<close>

text \<open>
  The snapshot goroutine and the WAL goroutine call the merger in some interleaving; a run is
  the list of the locked sections and sends in the order in which they happen. A goroutine
  returns from a call when it has sent what it collected: its next call finds nothing left to
  send, and where a run does not list the last sends of a call they happen right before the
  goroutine's next one.
\<close>

datatype merger_op =
    BeginChunk int string PK PK
  | EndChunk int string PK "32 word"
  | SnapshotComplete
  | SnapshotEvent CDCEvent
  | WALBatch walBatch
  | SendSnapshot   \<comment> \<open>one send of the snapshot goroutine\<close>
  | SendWAL        \<comment> \<open>one send of the WAL goroutine\<close>

fun merger_step :: "merger \<Rightarrow> merger_op \<Rightarrow> merger go" where
  "merger_step m (BeginChunk i t l h) = Inr (onBeginChunk (finishSnapshot m) i t l h)"
| "merger_step m (EndChunk i t h x) = onEndChunk (finishSnapshot m) i t h x"
| "merger_step m SnapshotComplete = Inr (onSnapshotComplete (finishSnapshot m))"
| "merger_step m (SnapshotEvent e) = Inr (onSnapshotEvent (finishSnapshot m) e)"
| "merger_step m (WALBatch b) = onWALBatch (finishWAL m) b"
| "merger_step m SendSnapshot = Inr (sendSnapshot m)"
| "merger_step m SendWAL = Inr (sendWAL m)"

fun merger_run :: "merger \<Rightarrow> merger_op list \<Rightarrow> merger go" where
  "merger_run m [] = Inr m"
| "merger_run m (op # ops) = go_bind (merger_step m op) (\<lambda>m'. merger_run m' ops)"

lemma merger_run_append:
  "merger_run m (xs @ ys) = go_bind (merger_run m xs) (\<lambda>m'. merger_run m' ys)"
  by (induction xs arbitrary: m) (auto simp: go_bind_assoc)

text \<open>What the two goroutines hand to the merger, in order.\<close>

definition stamped :: "walBatch \<Rightarrow> CDCEvent list" where
  "stamped b = map (\<lambda>e. e\<lparr>ev_commitLSN := wb_commitLSN b\<rparr>) (wb_events b)"

fun op_wal :: "merger_op \<Rightarrow> CDCEvent list" where
  "op_wal (WALBatch b) = stamped b"
| "op_wal _ = []"

fun op_read :: "merger_op \<Rightarrow> CDCEvent list" where
  "op_read (SnapshotEvent e) = [e]"
| "op_read _ = []"

abbreviation qtable :: "CDCEvent \<Rightarrow> string" where
  "qtable e \<equiv> qualifyTable (ev_Schema e) (ev_Table e)"

lemma emit_simps [simp]:
  "mg_output (emit es m) = mg_output m @ es"
  "mg_phase (emit es m) = mg_phase m"
  "mg_scannedRanges (emit es m) = mg_scannedRanges m"
  "mg_currentChunk (emit es m) = mg_currentChunk m"
  "mg_pendingWALEvents (emit es m) = mg_pendingWALEvents m"
  "mg_toEmit (emit es m) = mg_toEmit m"
  "mg_walToEmit (emit es m) = mg_walToEmit m"
  by (simp_all add: emit_def)

lemma finish_simps [simp]:
  "mg_output (finishSnapshot m) = mg_output m @ mg_toEmit m"
  "mg_phase (finishSnapshot m) = mg_phase m"
  "mg_scannedRanges (finishSnapshot m) = mg_scannedRanges m"
  "mg_currentChunk (finishSnapshot m) = mg_currentChunk m"
  "mg_pendingWALEvents (finishSnapshot m) = mg_pendingWALEvents m"
  "mg_toEmit (finishSnapshot m) = []"
  "mg_walToEmit (finishSnapshot m) = mg_walToEmit m"
  "mg_output (finishWAL m) = mg_output m @ mg_walToEmit m"
  "mg_phase (finishWAL m) = mg_phase m"
  "mg_scannedRanges (finishWAL m) = mg_scannedRanges m"
  "mg_currentChunk (finishWAL m) = mg_currentChunk m"
  "mg_pendingWALEvents (finishWAL m) = mg_pendingWALEvents m"
  "mg_toEmit (finishWAL m) = mg_toEmit m"
  "mg_walToEmit (finishWAL m) = []"
  by (simp_all add: finishSnapshot_def finishWAL_def)

text \<open>Finishing is sending one event after the other.\<close>

lemma finishSnapshot_sends:
  "mg_toEmit m = es \<Longrightarrow> merger_run m (replicate (length es) SendSnapshot) = Inr (finishSnapshot m)"
proof (induction es arbitrary: m)
  case Nil
  then show ?case by (cases m) (simp add: finishSnapshot_def emit_def)
next
  case (Cons e es)
  then have "mg_toEmit (sendSnapshot m) = es" by (simp add: sendSnapshot_def)
  with Cons show ?case by (simp add: sendSnapshot_def finishSnapshot_def emit_def)
qed

lemma finishWAL_sends:
  "mg_walToEmit m = es \<Longrightarrow> merger_run m (replicate (length es) SendWAL) = Inr (finishWAL m)"
proof (induction es arbitrary: m)
  case Nil
  then show ?case by (cases m) (simp add: finishWAL_def emit_def)
next
  case (Cons e es)
  then have "mg_walToEmit (sendWAL m) = es" by (simp add: sendWAL_def)
  with Cons show ?case by (simp add: sendWAL_def finishWAL_def emit_def)
qed

lemma finish_id [simp]:
  "mg_toEmit m = [] \<Longrightarrow> finishSnapshot m = m"
  "mg_walToEmit m = [] \<Longrightarrow> finishWAL m = m"
  by (cases m; simp add: finishSnapshot_def finishWAL_def emit_def)+

text \<open>\<open>inside e l h\<close>: the range test on keys of one kind, and what it decides for the loop.\<close>

definition inside :: "CDCEvent \<Rightarrow> PK \<Rightarrow> PK \<Rightarrow> bool" where
  "inside e l h \<longleftrightarrow> inRange (ev_PK e) l h = Inr True"

lemma end_loop_filter:
  "end_loop l h x es carry out = Inr (c, t) \<Longrightarrow>
     c = carry @ filter (\<lambda>e. \<not> inside e l h) es \<and>
     t = out @ filter (\<lambda>e. inside e l h \<and> x \<le> ev_commitXID e) es"
proof (induction es arbitrary: carry out)
  case Nil
  then show ?case by simp
next
  case (Cons e es)
  from Cons.prems obtain w where w: "inRange (ev_PK e) l h = Inr w"
    by (cases "inRange (ev_PK e) l h") auto
  show ?case
  proof (cases w)
    case True
    then have "inside e l h" using w by (simp add: inside_def)
    with Cons w True show ?thesis by (cases "x \<le> ev_commitXID e") fastforce+
  next
    case False
    then have "\<not> inside e l h" using w by (simp add: inside_def)
    with Cons w False show ?thesis by fastforce
  qed
qed

lemma routeEvent_cases:
  assumes "routeEvent m e = Inr (m', e', ok)"
  shows "e' = e"
    and "mg_phase m = PhaseStreaming \<Longrightarrow> ok \<and> m' = m"
    and "mg_phase m \<noteq> PhaseStreaming \<Longrightarrow> ok \<Longrightarrow> m' = m \<and>
       (\<exists>r \<in> set (mg_scannedRanges m). rg_Table r = qtable e \<and> inside e (rg_Low r) (rg_High r) \<and> rg_XMin r \<le> ev_commitXID e)"
    and "mg_phase m \<noteq> PhaseStreaming \<Longrightarrow> \<not> ok \<Longrightarrow> m' = m \<or>
       m' = m\<lparr>mg_pendingWALEvents := mg_pendingWALEvents m @ [e]\<rparr> \<and>
       findScannedRange (mg_scannedRanges m) (qtable e) (ev_PK e) = Inr None"
proof -
  have found: "findScannedRange rs t p = Inr (Some r) \<Longrightarrow> r \<in> set rs \<and> rg_Table r = t \<and> inRange p (rg_Low r) (rg_High r) = Inr True"
    for rs t p r
    by (induction rs t p rule: findScannedRange.induct) (auto simp: go_bind_Inr_iff split: if_splits)
  show "e' = e" "mg_phase m = PhaseStreaming \<Longrightarrow> ok \<and> m' = m"
    "mg_phase m \<noteq> PhaseStreaming \<Longrightarrow> \<not> ok \<Longrightarrow> m' = m \<or>
       m' = m\<lparr>mg_pendingWALEvents := mg_pendingWALEvents m @ [e]\<rparr> \<and>
       findScannedRange (mg_scannedRanges m) (qtable e) (ev_PK e) = Inr None"
    using assms by (auto simp: routeEvent_def go_bind_Inr_iff Let_def split: if_splits option.splits)
  show "mg_phase m \<noteq> PhaseStreaming \<Longrightarrow> ok \<Longrightarrow> m' = m \<and>
       (\<exists>r \<in> set (mg_scannedRanges m). rg_Table r = qtable e \<and> inside e (rg_Low r) (rg_High r) \<and> rg_XMin r \<le> ev_commitXID e)"
    using assms found
    by (fastforce simp: routeEvent_def go_bind_Inr_iff Let_def inside_def split: if_splits option.splits)
qed

lemma findScannedRange_None:
  "findScannedRange rs t p = Inr None \<Longrightarrow> r \<in> set rs \<Longrightarrow> rg_Table r = t \<Longrightarrow> inRange p (rg_Low r) (rg_High r) \<noteq> Inr True"
  by (induction rs t p rule: findScannedRange.induct) (auto simp: go_bind_Inr_iff split: if_splits)

lemma newMerger_simps [simp]:
  "mg_phase (newMerger rs ph) = ph"
  "mg_scannedRanges (newMerger rs ph) = rs"
  "mg_currentChunk (newMerger rs ph) = None"
  "mg_pendingWALEvents (newMerger rs ph) = []"
  "mg_output (newMerger rs ph) = []"
  "mg_toEmit (newMerger rs ph) = []"
  "mg_walToEmit (newMerger rs ph) = []"
  by (simp_all add: newMerger_def)

text \<open>The WAL events inside the merger: buffered, or collected and not yet sent.\<close>

definition unsent :: "merger \<Rightarrow> CDCEvent list" where
  "unsent m = mg_pendingWALEvents m @ mg_toEmit m @ mg_walToEmit m"

lemma unsent_output [simp]:
  "unsent (m\<lparr>mg_output := out\<rparr>) = unsent m" "unsent (emit es m) = unsent m" "unsent (newMerger rs ph) = []"
  by (simp_all add: unsent_def)

section \<open>Order of the events of one row\<close>

definition row_key :: "CDCEvent \<Rightarrow> string \<times> PK" where
  "row_key e = (qtable e, ev_PK e)"

definition is_wal :: "CDCEvent \<Rightarrow> bool" where
  "is_wal e \<longleftrightarrow> ev_Operation e \<noteq> OperationRead"

definition of_row :: "string \<times> PK \<Rightarrow> CDCEvent list \<Rightarrow> CDCEvent list" where
  "of_row k es = filter (\<lambda>e. is_wal e \<and> row_key e = k) es"

text \<open>The snapshot sends READ events only, the WAL streamer never does.\<close>

fun op_kinds_ok :: "merger_op \<Rightarrow> bool" where
  "op_kinds_ok (SnapshotEvent e) \<longleftrightarrow> \<not> is_wal e"
| "op_kinds_ok (WALBatch b) \<longleftrightarrow> list_all is_wal (wb_events b)"
| "op_kinds_ok _ \<longleftrightarrow> True"

lemma of_row_append [simp]: "of_row k (xs @ ys) = of_row k xs @ of_row k ys"
  by (simp add: of_row_def)

lemma of_row_Cons: "of_row k (e # es) = (if is_wal e \<and> row_key e = k then [e] else []) @ of_row k es"
  by (simp add: of_row_def)

lemma of_row_Nil [simp]: "of_row k [] = []"
  by (simp add: of_row_def)

definition uncovered :: "merger \<Rightarrow> bool" where
  "uncovered m \<longleftrightarrow> (\<forall>e \<in> set (mg_pendingWALEvents m). \<forall>r \<in> set (mg_scannedRanges m).
     rg_Table r = qtable e \<longrightarrow> \<not> inside e (rg_Low r) (rg_High r))"

text \<open>
  The order of one row: what was sent, what the snapshot goroutine still holds, the buffer, and
  what the WAL goroutine still holds, in this order. An event the WAL goroutine holds was routed
  through a scanned range (or the merger streams), so the buffer holds none of its row.
\<close>

definition covered :: "merger \<Rightarrow> CDCEvent \<Rightarrow> bool" where
  "covered m e \<longleftrightarrow> mg_phase m = PhaseStreaming \<or>
     (\<exists>r \<in> set (mg_scannedRanges m). rg_Table r = qtable e \<and> inside e (rg_Low r) (rg_High r))"

definition order_inv :: "string \<times> PK \<Rightarrow> merger \<Rightarrow> CDCEvent list \<Rightarrow> bool" where
  "order_inv k m ins \<longleftrightarrow>
     subseq (of_row k (mg_output m) @ of_row k (mg_toEmit m) @ of_row k (mg_pendingWALEvents m) @ of_row k (mg_walToEmit m))
       (of_row k ins) \<and>
     uncovered m \<and> (\<forall>e \<in> set (mg_walToEmit m). covered m e) \<and>
     (mg_phase m = PhaseStreaming \<longrightarrow> mg_pendingWALEvents m = [])"

lemma covered_frame [simp]:
  "covered (m\<lparr>mg_walToEmit := xs\<rparr>) e = covered m e"
  "covered (m\<lparr>mg_pendingWALEvents := xs\<rparr>) e = covered m e"
  "uncovered (m\<lparr>mg_walToEmit := xs\<rparr>) = uncovered m"
  by (simp_all add: covered_def uncovered_def)

lemma order_inv_new: "order_inv k (newMerger rs ph) []"
  by (simp add: order_inv_def uncovered_def)

lemma inside_row_key: "row_key e = row_key e' \<Longrightarrow> inside e l h = inside e' l h"
  by (simp add: row_key_def inside_def)

lemma covered_row_key: "row_key e = row_key e' \<Longrightarrow> covered m e = covered m e'"
  using inside_row_key [of e e'] by (simp add: covered_def row_key_def)

lemma of_row_inside_split:
  "of_row k (filter (\<lambda>e. inside e l h \<and> P e) es) = [] \<or> of_row k (filter (\<lambda>e. \<not> inside e l h) es) = []"
proof (rule ccontr)
  assume "\<not> ?thesis"
  then obtain e e' where "row_key e = k" "inside e l h" "row_key e' = k" "\<not> inside e' l h"
    by (auto simp: of_row_def filter_empty_conv)
  then show False using inside_row_key by metis
qed

lemma covered_not_pending:
  assumes "uncovered m" and "mg_phase m = PhaseStreaming \<longrightarrow> mg_pendingWALEvents m = []"
    and "covered m e" and "row_key e = k"
  shows "of_row k (mg_pendingWALEvents m) = []"
proof -
  have "row_key p \<noteq> k" if p: "p \<in> set (mg_pendingWALEvents m)" for p
  proof
    assume "row_key p = k"
    then have "covered m p" using assms(3,4) covered_row_key by metis
    then show False using assms(1,2) p by (auto simp: covered_def uncovered_def)
  qed
  then show ?thesis by (auto simp: of_row_def filter_empty_conv)
qed

lemma order_inv_pending_or_wal:
  assumes "order_inv k m ins"
  shows "of_row k (mg_pendingWALEvents m) = [] \<or> of_row k (mg_walToEmit m) = []"
proof (rule disjCI)
  assume "of_row k (mg_walToEmit m) \<noteq> []"
  then obtain e where "e \<in> set (mg_walToEmit m)" "row_key e = k"
    by (auto simp: of_row_def filter_empty_conv)
  with assms covered_not_pending [of m e k] show "of_row k (mg_pendingWALEvents m) = []"
    by (auto simp: order_inv_def)
qed

lemma subseq_prefix_append: "subseq xs (xs @ ys)"
  by (induction xs) simp_all

lemma subseq_mid:
  "subseq (a @ b @ c @ d) z \<Longrightarrow> subseq (x @ y) c \<Longrightarrow> subseq (a @ (b @ x) @ y @ d) z"
proof -
  assume z: "subseq (a @ b @ c @ d) z" and "subseq (x @ y) c"
  then have "subseq ((x @ y) @ d) (c @ d)" by (intro list_emb_append_mono subseq_order.order_refl)
  then have "subseq (a @ b @ (x @ y) @ d) (a @ b @ c @ d)" by (simp add: subseq_append')
  with z show ?thesis by (simp add: subseq_order.order_trans)
qed

lemma order_inv_EndChunk:
  assumes inv: "order_inv k m ins" and step: "onEndChunk m i t h x = Inr m'"
  shows "order_inv k m' ins"
proof (cases "mg_currentChunk m")
  case None
  with assms show ?thesis by (simp add: onEndChunk_def)
next
  case (Some c)
  show ?thesis
  proof (cases "ck_chunkID c = i")
    case False
    with Some assms show ?thesis by (simp add: onEndChunk_def)
  next
    case True
    let ?l = "ck_pkLow c" and ?p = "mg_pendingWALEvents m"
    let ?in = "filter (\<lambda>e. inside e ?l h \<and> x \<le> ev_commitXID e) ?p"
    let ?out = "filter (\<lambda>e. \<not> inside e ?l h) ?p"
    from step Some True have m': "m' = m\<lparr>mg_currentChunk := None,
        mg_scannedRanges := mg_scannedRanges m @ [\<lparr>rg_Table = t, rg_Low = ?l, rg_High = h, rg_XMin = x\<rparr>],
        mg_pendingWALEvents := ?out, mg_toEmit := mg_toEmit m @ ?in\<rparr>"
      by (auto simp: onEndChunk_def Let_def go_bind_Inr_iff dest!: end_loop_filter)
    have "subseq (of_row k ?in @ of_row k ?out) (of_row k ?p)"
      using of_row_inside_split [of k ?l h "\<lambda>e. x \<le> ev_commitXID e" ?p]
      by (auto simp: of_row_def simp del: filter_filter)
    moreover have "subseq (of_row k (mg_output m) @ of_row k (mg_toEmit m) @ of_row k ?p @ of_row k (mg_walToEmit m)) (of_row k ins)"
      using inv by (simp only: order_inv_def)
    ultimately have "subseq (of_row k (mg_output m) @ (of_row k (mg_toEmit m) @ of_row k ?in) @ of_row k ?out @ of_row k (mg_walToEmit m))
       (of_row k ins)" by (rule subseq_mid [rotated])
    then show ?thesis using inv
      by (auto simp: m' order_inv_def uncovered_def covered_def)
  qed
qed

lemma order_inv_route:
  assumes inv: "order_inv k (m\<lparr>mg_walToEmit := out\<rparr>) ins" and e: "is_wal e"
    and route: "routeEvent m e = Inr (m', e', ok)"
  shows "order_inv k (m'\<lparr>mg_walToEmit := if ok then out @ [e'] else out\<rparr>) (ins @ [e])"
proof -
  note cases = routeEvent_cases [OF route]
  have e': "e' = e" by (rule cases(1))
  let ?pre = "of_row k (mg_output m) @ of_row k (mg_toEmit m)"
  let ?p = "of_row k (mg_pendingWALEvents m)"
  have sub: "subseq (?pre @ ?p @ of_row k out) (of_row k ins)"
    using inv by (simp add: order_inv_def)
  have sub_e: "subseq (?pre @ ?p @ of_row k out @ of_row k [e]) (of_row k (ins @ [e]))"
    using list_emb_append_mono [OF sub subseq_order.order_refl [of "of_row k [e]"]] by simp
  have one: "?p = [] \<or> of_row k out = []" using order_inv_pending_or_wal [OF inv] by simp
  show ?thesis
  proof (cases ok)
    case True
    have m': "m' = m" using cases(2,3) True by blast
    have "covered m e" using cases(2,3) True by (auto simp: covered_def)
    with inv sub_e show ?thesis by (simp add: order_inv_def m' e' True)
  next
    case False
    from cases(2,4) False have nostream: "mg_phase m \<noteq> PhaseStreaming" and two: "m' = m \<or>
        m' = m\<lparr>mg_pendingWALEvents := mg_pendingWALEvents m @ [e]\<rparr> \<and>
        findScannedRange (mg_scannedRanges m) (qtable e) (ev_PK e) = Inr None" by auto
    have keep: "subseq (?pre @ ?p @ of_row k out) (of_row k (ins @ [e]))"
      using sub by (auto intro: subseq_order.order_trans)
    from two show ?thesis
    proof
      assume "m' = m"
      with inv False keep show ?thesis by (simp add: order_inv_def)
    next
      assume buf: "m' = m\<lparr>mg_pendingWALEvents := mg_pendingWALEvents m @ [e]\<rparr> \<and>
        findScannedRange (mg_scannedRanges m) (qtable e) (ev_PK e) = Inr None"
      then have un: "\<not> covered m e"
        using nostream findScannedRange_None by (fastforce simp: covered_def inside_def)
      have "row_key w \<noteq> row_key e" if "w \<in> set out" for w
        using inv un that covered_row_key [of w e m] by (auto simp: order_inv_def)
      then have "of_row k out = []" if "row_key e = k"
        using that by (auto simp: of_row_def filter_empty_conv)
      then have "subseq (?pre @ (?p @ of_row k [e]) @ of_row k out) (of_row k (ins @ [e]))"
        using sub_e by (cases "row_key e = k") (auto simp: of_row_Cons)
      moreover have "uncovered (m\<lparr>mg_pendingWALEvents := mg_pendingWALEvents m @ [e]\<rparr>)"
        using inv un by (auto simp: order_inv_def uncovered_def covered_def)
      ultimately show ?thesis using inv buf nostream False by (simp add: order_inv_def)
    qed
  qed
qed

lemma routeEvent_walToEmit: "routeEvent m e = Inr (m', e', ok) \<Longrightarrow> mg_walToEmit m' = mg_walToEmit m"
  by (auto simp: routeEvent_def go_bind_Inr_iff Let_def split: if_splits option.splits)

lemma collect_walToEmit:
  "collectWALBatch m lsn es out = Inr (m', out') \<Longrightarrow> mg_walToEmit m' = mg_walToEmit m"
proof (induction es arbitrary: m out)
  case (Cons e es)
  then obtain m1 e1 ok where "routeEvent m (e\<lparr>ev_commitLSN := lsn\<rparr>) = Inr (m1, e1, ok)"
    "collectWALBatch m1 lsn es (if ok then out @ [e1] else out) = Inr (m', out')"
    by (auto simp: go_bind_Inr_iff)
  with Cons.IH routeEvent_walToEmit show ?case by metis
qed simp

lemma order_inv_collect:
  assumes "order_inv k (m\<lparr>mg_walToEmit := out\<rparr>) ins" and "list_all is_wal es"
    and "collectWALBatch m lsn es out = Inr (m', out')"
  shows "order_inv k (m'\<lparr>mg_walToEmit := out'\<rparr>) (ins @ map (\<lambda>e. e\<lparr>ev_commitLSN := lsn\<rparr>) es)"
  using assms
proof (induction es arbitrary: m out ins)
  case Nil
  then show ?case by simp
next
  case (Cons e es)
  let ?e = "e\<lparr>ev_commitLSN := lsn\<rparr>"
  from Cons.prems(3) obtain m1 e1 ok where r: "routeEvent m ?e = Inr (m1, e1, ok)"
    and rest: "collectWALBatch m1 lsn es (if ok then out @ [e1] else out) = Inr (m', out')"
    by (auto simp: go_bind_Inr_iff)
  have "is_wal ?e" using Cons.prems(2) by (simp add: is_wal_def)
  from Cons.IH [OF order_inv_route [OF Cons.prems(1) this r] _ rest] Cons.prems(2) show ?case by simp
qed

text \<open>
  The WAL goroutine overtakes row \<open>k\<close> when it sends an event of the row while the snapshot
  goroutine still holds one that it collected under the lock. \<open>sends_in_turn k m ops\<close> says that this
  does not happen in the run \<open>ops\<close> from \<open>m\<close>.
\<close>

fun wal_sends :: "merger \<Rightarrow> merger_op \<Rightarrow> CDCEvent list" where
  "wal_sends m SendWAL = take 1 (mg_walToEmit m)"
| "wal_sends m (WALBatch b) = mg_walToEmit m"
| "wal_sends m _ = []"

definition overtakes :: "string \<times> PK \<Rightarrow> merger \<Rightarrow> merger_op \<Rightarrow> bool" where
  "overtakes k m op \<longleftrightarrow> of_row k (wal_sends m op) \<noteq> [] \<and> of_row k (mg_toEmit m) \<noteq> []"

fun sends_in_turn :: "string \<times> PK \<Rightarrow> merger \<Rightarrow> merger_op list \<Rightarrow> bool" where
  "sends_in_turn k m [] \<longleftrightarrow> True"
| "sends_in_turn k m (op # ops) \<longleftrightarrow> \<not> overtakes k m op \<and>
     (case merger_step m op of Inl _ \<Rightarrow> True | Inr m' \<Rightarrow> sends_in_turn k m' ops)"

lemma order_inv_finishSnapshot: "order_inv k m ins \<Longrightarrow> order_inv k (finishSnapshot m) ins"
  by (simp add: order_inv_def uncovered_def covered_def)

lemma order_inv_sendSnapshot: "order_inv k m ins \<Longrightarrow> order_inv k (sendSnapshot m) ins"
  by (cases "mg_toEmit m") (auto simp: order_inv_def uncovered_def covered_def sendSnapshot_def of_row_Cons)

lemma order_inv_wal_send:
  assumes inv: "order_inv k m ins" and split: "mg_walToEmit m = xs @ ys"
    and turn: "of_row k xs = [] \<or> of_row k (mg_toEmit m) = []"
  shows "order_inv k (emit xs (m\<lparr>mg_walToEmit := ys\<rparr>)) ins"
proof (cases "of_row k xs = []")
  case True
  with inv split show ?thesis by (auto simp: order_inv_def uncovered_def covered_def)
next
  case False
  then have "of_row k (mg_pendingWALEvents m) = []" "of_row k (mg_toEmit m) = []"
    using order_inv_pending_or_wal [OF inv] split turn by auto
  with inv split show ?thesis by (auto simp: order_inv_def uncovered_def covered_def)
qed

lemma order_inv_step:
  assumes "order_inv k m ins" and "op_kinds_ok op" and "\<not> overtakes k m op" and "merger_step m op = Inr m'"
  shows "order_inv k m' (ins @ op_wal op)"
proof (cases op)
  case (BeginChunk i t l h)
  with assms order_inv_finishSnapshot [of k m ins] show ?thesis
    by (auto simp: order_inv_def uncovered_def covered_def onBeginChunk_def)
next
  case (EndChunk i t h x)
  with assms order_inv_EndChunk order_inv_finishSnapshot [of k m ins] show ?thesis by fastforce
next
  case SnapshotComplete
  with assms show ?thesis by (auto simp: order_inv_def uncovered_def covered_def onSnapshotComplete_def Let_def)
next
  case (SnapshotEvent e)
  with assms show ?thesis by (auto simp: order_inv_def uncovered_def covered_def onSnapshotEvent_def of_row_Cons)
next
  case (WALBatch b)
  then have turn: "of_row k (mg_walToEmit m) = [] \<or> of_row k (mg_toEmit m) = []"
    using assms(3) by (simp add: overtakes_def)
  from WALBatch assms(4) obtain m1 out
    where c: "collectWALBatch (finishWAL m) (wb_commitLSN b) (wb_events b) [] = Inr (m1, out)"
      and m': "m' = m1\<lparr>mg_walToEmit := mg_walToEmit m1 @ out\<rparr>"
    by (auto simp: onWALBatch_def go_bind_Inr_iff)
  have "order_inv k (finishWAL m) ins"
    unfolding finishWAL_def by (rule order_inv_wal_send [OF assms(1) _ turn]) simp
  then have "order_inv k ((finishWAL m)\<lparr>mg_walToEmit := []\<rparr>) ins" by (simp add: order_inv_def uncovered_def covered_def)
  from order_inv_collect [OF this _ c] WALBatch assms(2) collect_walToEmit [OF c] show ?thesis
    by (simp add: stamped_def m')
next
  case SendSnapshot
  with assms order_inv_sendSnapshot [of k m ins] show ?thesis by simp
next
  case SendWAL
  then have "of_row k (take 1 (mg_walToEmit m)) = [] \<or> of_row k (mg_toEmit m) = []"
    using assms(3) by (simp add: overtakes_def)
  then have "order_inv k (sendWAL m) ins"
    unfolding sendWAL_def by (intro order_inv_wal_send [OF assms(1)]) (cases "mg_walToEmit m"; simp)+
  with SendWAL assms(4) show ?thesis by simp
qed

lemma order_inv_run:
  "order_inv k m ins \<Longrightarrow> list_all op_kinds_ok ops \<Longrightarrow> sends_in_turn k m ops \<Longrightarrow> merger_run m ops = Inr m' \<Longrightarrow>
     order_inv k m' (ins @ concat (map op_wal ops))"
proof (induction ops arbitrary: m ins)
  case (Cons op ops)
  then obtain m1 where "merger_step m op = Inr m1" "merger_run m1 ops = Inr m'"
    by (auto simp: go_bind_Inr_iff)
  with Cons order_inv_step [of k m ins op m1] show ?case by fastforce
qed simp

section \<open>Accounting for every event\<close>

text \<open>
  Why an event is not delivered: its chunk's snapshot has the transaction
  (\<open>Captured xmin\<close>, \<open>commitXID < xmin\<close>), or it lies in no scanned range and outside the
  range of the chunk in progress (\<open>NotReached\<close>: the code expects a later chunk to read it).
\<close>

datatype drop_reason = Captured "32 word" | NotReached

definition route_drop :: "merger \<Rightarrow> CDCEvent \<Rightarrow> (CDCEvent \<times> drop_reason) list" where
  "route_drop m e =
     (if mg_phase m = PhaseStreaming then []
      else case findScannedRange (mg_scannedRanges m) (qtable e) (ev_PK e) of
             Inl _ \<Rightarrow> []
           | Inr (Some r) \<Rightarrow> if rg_XMin r \<le> ev_commitXID e then [] else [(e, Captured (rg_XMin r))]
           | Inr None \<Rightarrow>
               (case mg_currentChunk m of
                  None \<Rightarrow> [(e, NotReached)]
                | Some c \<Rightarrow> if ck_table c = qtable e \<and> inside e (ck_pkLow c) (ck_pkHigh c)
                            then [] else [(e, NotReached)]))"

fun collect_drops :: "merger \<Rightarrow> CDCEvent list \<Rightarrow> (CDCEvent \<times> drop_reason) list" where
  "collect_drops m [] = []"
| "collect_drops m (e # es) =
     route_drop m e @ (case routeEvent m e of Inl _ \<Rightarrow> [] | Inr (m', _) \<Rightarrow> collect_drops m' es)"

fun op_drops :: "merger \<Rightarrow> merger_op \<Rightarrow> (CDCEvent \<times> drop_reason) list" where
  "op_drops m (EndChunk i t h x) =
     (case mg_currentChunk m of
        Some c \<Rightarrow> if ck_chunkID c = i
                  then map (\<lambda>e. (e, Captured x))
                         (filter (\<lambda>e. inside e (ck_pkLow c) h \<and> \<not> x \<le> ev_commitXID e) (mg_pendingWALEvents m))
                  else []
      | None \<Rightarrow> [])"
| "op_drops m (WALBatch b) = collect_drops (finishWAL m) (stamped b)"
| "op_drops m _ = []"

fun run_drops :: "merger \<Rightarrow> merger_op list \<Rightarrow> (CDCEvent \<times> drop_reason) list" where
  "run_drops m [] = []"
| "run_drops m (op # ops) =
     op_drops m op @ (case merger_step m op of Inl _ \<Rightarrow> [] | Inr m' \<Rightarrow> run_drops m' ops)"

lemma pending_grows: "m\<lparr>mg_pendingWALEvents := mg_pendingWALEvents m @ [e]\<rparr> \<noteq> m"
proof
  assume "m\<lparr>mg_pendingWALEvents := mg_pendingWALEvents m @ [e]\<rparr> = m"
  then have "mg_pendingWALEvents (m\<lparr>mg_pendingWALEvents := mg_pendingWALEvents m @ [e]\<rparr>) = mg_pendingWALEvents m"
    by (rule arg_cong)
  then show False by simp
qed

lemma mset_three_way:
  "mset (filter (\<lambda>e. P e \<and> Q e) ps) + mset (filter (\<lambda>e. \<not> P e) ps) + mset (filter (\<lambda>e. P e \<and> \<not> Q e) ps) = mset ps"
  by (induction ps) auto

lemma route_balance:
  assumes "routeEvent m e = Inr (m', e', ok)"
  shows "mset (if ok then [e'] else []) + mset (mg_pendingWALEvents m') + image_mset fst (mset (route_drop m e))
       = mset (mg_pendingWALEvents m) + {#e#}"
    and "mg_output m' = mg_output m" and "mg_toEmit m' = mg_toEmit m"
  using assms
  by (auto simp: routeEvent_def route_drop_def go_bind_Inr_iff Let_def inside_def pending_grows
      split: if_splits option.splits sum.splits)

lemma collect_balance:
  assumes "collectWALBatch m lsn es out = Inr (m', out')"
  shows "mset out' + mset (mg_pendingWALEvents m') +
         image_mset fst (mset (collect_drops m (map (\<lambda>e. e\<lparr>ev_commitLSN := lsn\<rparr>) es)))
       = mset out + mset (mg_pendingWALEvents m) + mset (map (\<lambda>e. e\<lparr>ev_commitLSN := lsn\<rparr>) es)
       \<and> mg_output m' = mg_output m \<and> mg_toEmit m' = mg_toEmit m"
  using assms
proof (induction es arbitrary: m out)
  case Nil
  then show ?case by simp
next
  case (Cons e es)
  let ?e = "e\<lparr>ev_commitLSN := lsn\<rparr>"
  from Cons.prems obtain m1 e1 ok where r: "routeEvent m ?e = Inr (m1, e1, ok)"
    and rest: "collectWALBatch m1 lsn es (if ok then out @ [e1] else out) = Inr (m', out')"
    by (auto simp: go_bind_Inr_iff)
  let ?es = "map (\<lambda>e. e\<lparr>ev_commitLSN := lsn\<rparr>) es"
  let ?ok = "mset (if ok then [e1] else [])" and ?rd = "image_mset fst (mset (route_drop m ?e))"
    and ?cd = "image_mset fst (mset (collect_drops m1 ?es))"
  have out: "mset (if ok then out @ [e1] else out) = mset out + ?ok" by simp
  have "mset out' + mset (mg_pendingWALEvents m') + (?rd + ?cd)
      = (mset out' + mset (mg_pendingWALEvents m') + ?cd) + ?rd" by (simp add: add.commute add.left_commute)
  also have "\<dots> = (mset out + ?ok + mset (mg_pendingWALEvents m1) + mset ?es) + ?rd"
    using Cons.IH [OF rest] out by metis
  also have "\<dots> = mset out + (?ok + mset (mg_pendingWALEvents m1) + ?rd) + mset ?es"
    by (simp only: add.commute add.left_commute)
  also have "\<dots> = mset out + (mset (mg_pendingWALEvents m) + {#?e#}) + mset ?es"
    using route_balance(1) [OF r] by metis
  finally show ?case using Cons.IH [OF rest] route_balance(2,3) [OF r] r by simp
qed

text \<open>What the merger holds: sent, buffered, or collected by a goroutine and not yet sent.\<close>

definition held :: "merger \<Rightarrow> CDCEvent multiset" where
  "held m = mset (mg_output m) + mset (mg_toEmit m) + mset (mg_walToEmit m) + mset (mg_pendingWALEvents m)"

lemma held_finish [simp]: "held (finishSnapshot m) = held m" "held (finishWAL m) = held m"
  by (simp_all add: held_def)

lemma held_send [simp]: "held (sendSnapshot m) = held m" "held (sendWAL m) = held m"
  by (cases "mg_toEmit m"; simp add: held_def sendSnapshot_def)
    (cases "mg_walToEmit m"; simp add: held_def sendWAL_def)

lemma held_EndChunk:
  assumes "onEndChunk m i t h x = Inr m'"
  shows "held m' + image_mset fst (mset (op_drops m (EndChunk i t h x))) = held m"
proof (cases "\<exists>c. mg_currentChunk m = Some c \<and> ck_chunkID c = i")
  case False
  with assms show ?thesis by (auto simp: onEndChunk_def split: option.splits if_splits)
next
  case True
  then obtain c where c: "mg_currentChunk m = Some c" "ck_chunkID c = i" by auto
  let ?l = "ck_pkLow c" and ?p = "mg_pendingWALEvents m"
  have m': "mg_toEmit m' = mg_toEmit m @ filter (\<lambda>e. inside e ?l h \<and> x \<le> ev_commitXID e) ?p"
    "mg_pendingWALEvents m' = filter (\<lambda>e. \<not> inside e ?l h) ?p"
    "mg_output m' = mg_output m" "mg_walToEmit m' = mg_walToEmit m"
    using assms c by (auto simp: onEndChunk_def Let_def go_bind_Inr_iff dest!: end_loop_filter)
  have "mset (filter (\<lambda>e. inside e ?l h \<and> x \<le> ev_commitXID e) ?p) + mset (filter (\<lambda>e. \<not> inside e ?l h) ?p)
      + mset (filter (\<lambda>e. inside e ?l h \<and> \<not> x \<le> ev_commitXID e) ?p) = mset ?p"
    by (rule mset_three_way)
  with m' c show ?thesis by (simp add: held_def multiset.map_comp comp_def algebra_simps)
qed

lemma op_drops_finish: "op_drops (finishSnapshot m) (EndChunk i t h x) = op_drops m (EndChunk i t h x)"
  by (simp split: option.splits)

lemma step_balance:
  assumes "merger_step m op = Inr m'"
  shows "held m' + image_mset fst (mset (op_drops m op)) = held m + mset (op_wal op) + mset (op_read op)"
proof (cases op)
  case (EndChunk i t h x)
  with assms held_EndChunk [of "finishSnapshot m" i t h x m'] show ?thesis
    by (simp add: op_drops_finish del: op_drops.simps(1))
next
  case (WALBatch b)
  then obtain m1 out where c: "collectWALBatch (finishWAL m) (wb_commitLSN b) (wb_events b) [] = Inr (m1, out)"
    "m' = m1\<lparr>mg_walToEmit := mg_walToEmit m1 @ out\<rparr>"
    using assms by (auto simp: onWALBatch_def go_bind_Inr_iff)
  with collect_balance [OF c(1)] collect_walToEmit [OF c(1)] WALBatch show ?thesis
    by (simp add: stamped_def held_def algebra_simps)
qed (use assms in \<open>auto simp: onBeginChunk_def onSnapshotComplete_def onSnapshotEvent_def Let_def held_def held_send [unfolded held_def]\<close>)

lemma balance_chain:
  fixes h h1 h2 d1 d2 w1 w2 r1 r2 :: "'a multiset"
  assumes "h1 + d1 = h + w1 + r1" and "h2 + d2 = h1 + w2 + r2"
  shows "h2 + (d1 + d2) = h + (w1 + w2) + (r1 + r2)"
proof -
  have "h2 + (d1 + d2) = (h2 + d2) + d1" by (simp add: ac_simps)
  also have "\<dots> = (h1 + d1) + w2 + r2" unfolding assms(2) by (simp add: ac_simps)
  also have "\<dots> = h + (w1 + w2) + (r1 + r2)" unfolding assms(1) by (simp add: ac_simps)
  finally show ?thesis .
qed

lemma run_balance:
  "merger_run m ops = Inr m' \<Longrightarrow>
     held m' + image_mset fst (mset (run_drops m ops))
   = held m + mset (concat (map op_wal ops)) + mset (concat (map op_read ops))"
proof (induction ops arbitrary: m)
  case (Cons op ops)
  then obtain m1 where "merger_step m op = Inr m1" "merger_run m1 ops = Inr m'"
    by (auto simp: go_bind_Inr_iff)
  with balance_chain [OF step_balance [of m op m1] Cons.IH [of m1]] show ?case by (simp add: ac_simps)
qed simp

lemma route_drop_captured:
  "(e', Captured x) \<in> set (route_drop m e) \<Longrightarrow> e' = e \<and> ev_commitXID e' < x"
  by (auto simp: route_drop_def split: if_splits option.splits sum.splits)

lemma collect_drops_captured:
  "(e, Captured x) \<in> set (collect_drops m es) \<Longrightarrow> ev_commitXID e < x"
proof (induction m es rule: collect_drops.induct)
  case (2 m e' es)
  then show ?case by (cases "routeEvent m e'") (auto dest: route_drop_captured)
qed simp

lemma run_drops_captured:
  "(e, Captured x) \<in> set (run_drops m ops) \<Longrightarrow> ev_commitXID e < x"
proof (induction m ops rule: run_drops.induct)
  case (2 m op ops)
  have "(e, Captured x) \<in> set (op_drops m op) \<Longrightarrow> ev_commitXID e < x"
    by (cases op) (auto dest: collect_drops_captured split: option.splits if_splits)
  with 2 show ?case by (cases "merger_step m op") auto
qed simp

section \<open>Properties\<close>

text \<open>
  Claim C20. The merger delivers the changes of one row in the order in which the WAL streamer
  handed them over and never twice, as long as the WAL goroutine does not overtake: in every
  interleaving of the locked sections and sends of the two goroutines, from any restored ranges
  and phase, in which the WAL goroutine sends no event of row \<open>k\<close> while the snapshot goroutine
  still holds collected events of the row, the delivered WAL events of the row are a subsequence
  of its incoming events, and so are they followed by those the snapshot goroutine still holds.
\<close>

theorem merger_row_order:
  assumes "list_all op_kinds_ok ops" and "sends_in_turn k (newMerger rs ph) ops"
    and "merger_run (newMerger rs ph) ops = Inr m"
  shows "subseq (of_row k (mg_output m)) (of_row k (concat (map op_wal ops))) \<and>
    subseq (of_row k (mg_output m @ mg_toEmit m @ mg_pendingWALEvents m @ mg_walToEmit m))
      (of_row k (concat (map op_wal ops)))"
proof -
  have "order_inv k m ([] @ concat (map op_wal ops))"
    using order_inv_new assms by (rule order_inv_run)
  then have *: "subseq (of_row k (mg_output m @ mg_toEmit m @ mg_pendingWALEvents m @ mg_walToEmit m))
      (of_row k (concat (map op_wal ops)))"
    by (simp add: order_inv_def)
  have "subseq (of_row k (mg_output m)) (of_row k (mg_output m @ mg_toEmit m @ mg_pendingWALEvents m @ mg_walToEmit m))"
    unfolding of_row_append by (rule subseq_prefix_append)
  with * show ?thesis using subseq_order.order_trans by blast
qed

text \<open>
  Claim C23. Nothing is invented, duplicated or lost without a reason: after any run the
  delivered events, those a goroutine has collected and not yet sent, the buffered ones and the
  dropped ones are together exactly the READ and WAL events received; an event dropped as already
  captured has a transaction id below the \<open>xmin\<close> it was compared with; and after
  \<open>onSnapshotComplete\<close> nothing stays buffered, and its sends deliver all that was.
\<close>

theorem merger_accounting:
  assumes "merger_run (newMerger rs ph) ops = Inr m"
  shows "mset (mg_output m) + mset (mg_toEmit m) + mset (mg_walToEmit m) + mset (mg_pendingWALEvents m)
           + image_mset fst (mset (run_drops (newMerger rs ph) ops))
           = mset (concat (map op_wal ops)) + mset (concat (map op_read ops))
       \<and> (\<forall>e x. (e, Captured x) \<in> set (run_drops (newMerger rs ph) ops) \<longrightarrow> ev_commitXID e < x)
       \<and> mg_pendingWALEvents (onSnapshotComplete (finishSnapshot m)) = []
       \<and> mg_output (finishSnapshot (onSnapshotComplete (finishSnapshot m)))
           = mg_output m @ mg_toEmit m @ mg_pendingWALEvents m"
  using run_balance [OF assms] run_drops_captured by (simp add: onSnapshotComplete_def Let_def held_def)

text \<open>Concrete events, as the tests of the repository build them.\<close>

definition wal_event :: "string \<Rightarrow> PK \<Rightarrow> 32 word \<Rightarrow> CDCEvent" where
  "wal_event table pk xid =
     \<lparr>ev_Schema = ''public'', ev_Table = table, ev_Operation = OperationUpdate, ev_PK = pk,
      ev_Before = None, ev_After = None, ev_commitXID = xid, ev_commitLSN = 0,
      ev_chunkID = 0, ev_chunkSize = 0, ev_chunkHighPK = PKNil\<rparr>"

definition read_event :: "string \<Rightarrow> PK \<Rightarrow> CDCEvent" where
  "read_event table pk = (wal_event table pk 0)\<lparr>ev_Operation := OperationRead\<rparr>"

definition send_wal :: "CDCEvent \<Rightarrow> merger_op" where
  "send_wal e = WALBatch \<lparr>wb_events = [e], wb_commitLSN = 0\<rparr>"

lemmas example_simps = wal_event_def read_event_def send_wal_def newMerger_def onBeginChunk_def onEndChunk_def
  onSnapshotComplete_def onSnapshotEvent_def onWALBatch_def routeEvent_def qualifyTable_def emit_def IsSet_def Let_def
  finishSnapshot_def finishWAL_def sendSnapshot_def sendWAL_def

definition snapshotting :: merger where
  "snapshotting = newMerger [] PhaseSnapshotting"

text \<open>A chunk \<open>(nil, 10]\<close> of \<open>public.orders\<close> read at \<open>xmin = 900\<close> with three events in flight.\<close>

definition ops1 :: "merger_op list" where
  "ops1 = [BeginChunk 1 ''public.orders'' PKNil PKNil,
           send_wal (wal_event ''orders'' (PKInt 5) 950), send_wal (wal_event ''orders'' (PKInt 5) 850),
           send_wal (wal_event ''orders'' (PKInt 51) 950),
           EndChunk 1 ''public.orders'' (PKInt 10) 900, SnapshotEvent (read_event ''orders'' (PKInt 5))]"

lemma ops1_run: "\<exists>m. merger_run (newMerger [] PhaseSnapshotting) ops1 = Inr m \<and> mg_toEmit m = [] \<and>
    mg_output m = [wal_event ''orders'' (PKInt 5) 950, read_event ''orders'' (PKInt 5)] \<and>
    mg_pendingWALEvents m = [wal_event ''orders'' (PKInt 51) 950]"
  by (simp add: ops1_def example_simps)

theorem merger_row_order_witness:
  "\<exists>m. merger_run (newMerger [] PhaseSnapshotting) ops1 = Inr m \<and>
     subseq (of_row (''public.orders'', PKInt 5) (mg_output m))
       (of_row (''public.orders'', PKInt 5) (concat (map op_wal ops1)))"
proof -
  obtain m where "merger_run (newMerger [] PhaseSnapshotting) ops1 = Inr m" using ops1_run by blast
  moreover have "list_all op_kinds_ok ops1"
    by (simp add: ops1_def send_wal_def is_wal_def wal_event_def read_event_def)
  moreover have "sends_in_turn (''public.orders'', PKInt 5) (newMerger [] PhaseSnapshotting) ops1"
    by (simp add: ops1_def overtakes_def of_row_def example_simps)
  ultimately show ?thesis using merger_row_order [of ops1 "(''public.orders'', PKInt 5)" "[]" PhaseSnapshotting] by blast
qed

theorem merger_accounting_witness:
  "\<exists>m. merger_run (newMerger [] PhaseSnapshotting) ops1 = Inr m \<and>
     mg_output (finishSnapshot (onSnapshotComplete (finishSnapshot m))) =
       [wal_event ''orders'' (PKInt 5) 950, read_event ''orders'' (PKInt 5), wal_event ''orders'' (PKInt 51) 950]"
proof -
  obtain m where m: "merger_run (newMerger [] PhaseSnapshotting) ops1 = Inr m" "mg_toEmit m = []"
    "mg_output m = [wal_event ''orders'' (PKInt 5) 950, read_event ''orders'' (PKInt 5)]"
    "mg_pendingWALEvents m = [wal_event ''orders'' (PKInt 51) 950]" using ops1_run by blast
  with merger_accounting [OF m(1)] show ?thesis by (metis append_Cons append_Nil)
qed

text \<open>
  For a table with UUID keys no WAL event is ever buffered while a chunk after the
  first is being read: \<open>PK.Next\<close> returns a UUID unchanged, so the chunk's estimated range is
  \<open>(u, u]\<close>, which is empty. An event for a row of the chunk in progress is discarded as not
  yet scanned, although the chunk's snapshot may already have been taken.
\<close>

theorem uuid_chunk_discards:
  assumes "mg_phase m \<noteq> PhaseStreaming" and "ev_PK e = PKUuid v"
    and "findScannedRange (mg_scannedRanges m) (qualifyTable (ev_Schema e) (ev_Table e)) (ev_PK e) = Inr None"
  shows "let m' = onBeginChunk m chunkID table (PKUuid u) (pk_Next (PKUuid u) chunkSize)
         in routeEvent m' e = Inr (m', e, False) \<and> route_drop m' e = [(e, NotReached)]"
  using assms
  by (auto simp: routeEvent_def route_drop_def onBeginChunk_def inside_def IsSet_def Let_def)

theorem uuid_chunk_discards_witness:
  "let m' = onBeginChunk snapshotting 2 ''public.users'' (PKUuid (replicate 16 1)) (pk_Next (PKUuid (replicate 16 1)) 1000)
   in routeEvent m' (wal_event ''users'' (PKUuid (replicate 16 2)) 950)
      = Inr (m', wal_event ''users'' (PKUuid (replicate 16 2)) 950, False)"
  using uuid_chunk_discards [of snapshotting "wal_event ''users'' (PKUuid (replicate 16 2)) 950" "replicate 16 2"
      2 "''public.users''" "replicate 16 1" 1000]
  by (simp add: snapshotting_def wal_event_def Let_def)

text \<open>
  Changes can be lost while the snapshot runs, contrary to at-least-once delivery.
  (1) The estimated range of a chunk is \<open>chunkSize\<close> ids wide but the chunk's query reads
  \<open>chunkSize\<close> rows: with gaps in the ids, an update of row 900 that arrives during chunk
  \<open>(100, 1000]\<close>, after its snapshot at \<open>xmin = 900\<close>, lies above the estimate \<open>200\<close> and is
  dropped. (2) A row inserted into a table that has been scanned completely is dropped while
  another table is being scanned, and no later chunk will read it. (3) An overflow event of one
  table is judged by the \<open>xmin\<close> of another table's chunk. In each run the merger ends in
  streaming mode with the event neither delivered nor captured by a snapshot.
\<close>

theorem merger_loses_events:
  "(case merger_run snapshotting
       [BeginChunk 2 ''public.orders'' (PKInt 100) (pk_Next (PKInt 100) 100),
        send_wal (wal_event ''orders'' (PKInt 900) 950),
        EndChunk 2 ''public.orders'' (PKInt 1000) 900, SnapshotComplete] of Inl _ \<Rightarrow> False
      | Inr m \<Rightarrow> mg_phase m = PhaseStreaming \<and> wal_event ''orders'' (PKInt 900) 950 \<notin> set (mg_output m @ mg_toEmit m @ mg_walToEmit m @ mg_pendingWALEvents m)) \<and>
   (case merger_run snapshotting
       [BeginChunk 1 ''public.orders'' PKNil PKNil, EndChunk 1 ''public.orders'' (PKInt 10) 900,
        BeginChunk 2 ''public.orders'' (PKInt 10) (pk_Next (PKInt 10) 100),
        BeginChunk 101 ''public.users'' PKNil PKNil,
        send_wal (wal_event ''orders'' (PKInt 11) 950),
        EndChunk 101 ''public.users'' (PKInt 10) 960, SnapshotComplete] of Inl _ \<Rightarrow> False
      | Inr m \<Rightarrow> mg_phase m = PhaseStreaming \<and> wal_event ''orders'' (PKInt 11) 950 \<notin> set (mg_output m @ mg_toEmit m @ mg_walToEmit m @ mg_pendingWALEvents m)) \<and>
   (case merger_run snapshotting
       [BeginChunk 1 ''public.orders'' PKNil PKNil,
        send_wal (wal_event ''orders'' (PKInt 51) 950),
        EndChunk 1 ''public.orders'' (PKInt 10) 900,
        BeginChunk 101 ''public.users'' PKNil PKNil,
        EndChunk 101 ''public.users'' (PKInt 100) 960, SnapshotComplete] of Inl _ \<Rightarrow> False
      | Inr m \<Rightarrow> mg_phase m = PhaseStreaming \<and> wal_event ''orders'' (PKInt 51) 950 \<notin> set (mg_output m @ mg_toEmit m @ mg_walToEmit m @ mg_pendingWALEvents m))"
  by (simp add: snapshotting_def example_simps)


text \<open>
  Two captured tables whose keys are of different kinds can crash the connector: an
  overflow event of a table with integer keys is compared with the UUID bounds of the next
  table's chunk, a type assertion that panics while the merger's mutex is held.
\<close>

theorem merger_mixed_keys_panic:
  "merger_run snapshotting
     [BeginChunk 1 ''public.orders'' PKNil PKNil, send_wal (wal_event ''orders'' (PKInt 51) 950),
      EndChunk 1 ''public.orders'' (PKInt 10) 900,
      BeginChunk 101 ''public.users'' PKNil PKNil,
      EndChunk 101 ''public.users'' (PKUuid (replicate 16 7)) 960] = Inl TypeAssertion"
  by (simp add: snapshotting_def example_simps)

end
