(* ===== verification/CDC_Engine.thy ===== *)
theory CDC_Engine
  imports Merger
begin

text \<open>
  \<open>pg/connector.go\<close>, the state that the connector keeps between the pipeline's demands and
  its acknowledgements: \<open>cdcEngine\<close>, \<open>HandleDemand\<close>, \<open>Acknowledger\<close> and
  \<open>advanceSnapshotCursor\<close>. Go maps are association lists with distinct keys. Each operation
  holds the engine's mutex where it touches these fields; a run is a list of operations.
\<close>

section \<open>Configuration\<close>

record Config =
  cf_SlotName :: string
  cf_Publication :: string
  cf_Tables :: "CDCTable list"
  cf_ChunkSize :: int
  cf_BufferSize :: int
  cf_hasOffsetStore :: bool  \<comment> \<open>\<open>OffsetStore != nil\<close>\<close>

definition chunkSizeOrDefault :: "Config \<Rightarrow> int" where
  "chunkSizeOrDefault c = (if cf_ChunkSize c \<le> 0 then 1000 else cf_ChunkSize c)"

definition bufferSizeOrDefault :: "Config \<Rightarrow> int" where
  "bufferSizeOrDefault c = (if cf_BufferSize c \<le> 0 then 1000 else cf_BufferSize c)"

section \<open>The engine\<close>

text \<open>
  \<open>en_saved\<close> logs the states given to the offset store, \<open>en_advances\<close> the calls of
  \<open>advanceConfirmedLSN\<close> on the streamer, \<open>en_broadcasts\<close> counts \<open>allChunksAcked.Broadcast\<close>.
\<close>

record cdcEngine =
  en_merger :: merger
  en_hasStreamer :: bool
  en_hasStore :: bool
  en_state :: CDCState
  en_chunkSizes :: "(int \<times> int) list"
  en_chunkAcked :: "(int \<times> int) list"
  en_chunkHighPK :: "(int \<times> PK) list"
  en_chunkTable :: "(int \<times> string) list"
  en_pendingChunks :: "(int \<times> unit) list"
  en_completedChunks :: "(int \<times> PK) list"
  en_snapshotScanDone :: bool
  en_saved :: "CDCState list"
  en_advances :: "64 word list"
  en_broadcasts :: nat

definition zeroState :: CDCState where
  "zeroState =
     \<lparr>st_Phase = PhaseUnset, st_SlotName = '''', st_ConfirmedLSN = 0, st_SnapshotTables = [],
      st_CurrentSnapshotTable = '''', st_SnapshotCursor = PKNil, st_ScannedPKRanges = []\<rparr>"

definition newCDCEngine :: cdcEngine where
  "newCDCEngine =
     \<lparr>en_merger = newMerger [] PhaseUnset, en_hasStreamer = False, en_hasStore = False,
      en_state = zeroState, en_chunkSizes = [], en_chunkAcked = [], en_chunkHighPK = [],
      en_chunkTable = [], en_pendingChunks = [], en_completedChunks = [],
      en_snapshotScanDone = False, en_saved = [], en_advances = [], en_broadcasts = 0\<rparr>"

text \<open>Reading an absent key of a Go map gives the zero value.\<close>

definition lookup0 :: "(int \<times> int) list \<Rightarrow> int \<Rightarrow> int" where
  "lookup0 m k = (case map_of m k of None \<Rightarrow> 0 | Some v \<Rightarrow> v)"

definition lookup_pk :: "(int \<times> PK) list \<Rightarrow> int \<Rightarrow> PK" where
  "lookup_pk m k = (case map_of m k of None \<Rightarrow> PKNil | Some v \<Rightarrow> v)"

section \<open>HandleDemand\<close>

definition track_read :: "cdcEngine \<Rightarrow> CDCEvent \<Rightarrow> cdcEngine" where
  "track_read e event =
     (let table = (if ev_Schema event \<noteq> '''' then ev_Schema event @ ''.'' @ ev_Table event else ev_Table event)
      in e\<lparr>en_chunkSizes := AList.update (ev_chunkID event) (ev_chunkSize event) (en_chunkSizes e),
           en_chunkHighPK := AList.update (ev_chunkID event) (ev_chunkHighPK event) (en_chunkHighPK e),
           en_chunkTable := AList.update (ev_chunkID event) table (en_chunkTable e),
           en_pendingChunks := AList.update (ev_chunkID event) () (en_pendingChunks e)\<rparr>)"

text \<open>One round per unit of demand; an empty channel takes the \<open>default\<close> case and returns.\<close>

fun demand_loop :: "nat \<Rightarrow> cdcEngine \<Rightarrow> CDCEvent list \<Rightarrow> CDCEvent list \<times> cdcEngine" where
  "demand_loop 0 e result = (result, e)"
| "demand_loop (Suc n) e result =
     (case mg_output (en_merger e) of
        [] \<Rightarrow> (result, e)
      | event # rest \<Rightarrow>
          let e1 = e\<lparr>en_merger := (en_merger e)\<lparr>mg_output := rest\<rparr>\<rparr>;
              e2 = (if ev_Operation event = OperationRead then track_read e1 event else e1)
          in demand_loop n e2 (result @ [event]))"

text \<open>
  \<open>make(.., 0, demand)\<close> panics for a negative demand. With a cancelled context the call waits
  for the streamer to exit and returns nil. The payload and the metadata of every returned
  message are the event.
\<close>

definition HandleDemand :: "cdcEngine \<Rightarrow> int \<Rightarrow> bool \<Rightarrow> (CDCEvent list \<times> cdcEngine) go" where
  "HandleDemand e demand cancelled =
     (if cancelled then Inr ([], e)
      else if demand < 0 then Inl SliceBounds
      else Inr (demand_loop (nat demand) e []))"

section \<open>Acknowledger\<close>

text \<open>
  The first loop: the highest commit LSN of the WAL events and the number of READ events per
  chunk. A message whose metadata is no \<open>CDCEvent\<close> (\<open>None\<close>) is skipped.
\<close>

fun ack_scan :: "CDCEvent option list \<Rightarrow> 64 word \<Rightarrow> (int \<times> int) list \<Rightarrow> 64 word \<times> (int \<times> int) list" where
  "ack_scan [] maxLSN acks = (maxLSN, acks)"
| "ack_scan (None # ms) maxLSN acks = ack_scan ms maxLSN acks"
| "ack_scan (Some event # ms) maxLSN acks =
     (if ev_Operation event = OperationRead
      then ack_scan ms maxLSN (AList.update (ev_chunkID event) (lookup0 acks (ev_chunkID event) + 1) acks)
      else if ev_commitLSN event > maxLSN then ack_scan ms (ev_commitLSN event) acks
      else ack_scan ms maxLSN acks)"

definition complete_chunk :: "cdcEngine \<Rightarrow> int \<Rightarrow> cdcEngine" where
  "complete_chunk e chunkID =
     e\<lparr>en_completedChunks := AList.update chunkID (lookup_pk (en_chunkHighPK e) chunkID) (en_completedChunks e),
       en_pendingChunks := AList.delete chunkID (en_pendingChunks e),
       en_chunkSizes := AList.delete chunkID (en_chunkSizes e),
       en_chunkAcked := AList.delete chunkID (en_chunkAcked e),
       en_chunkHighPK := AList.delete chunkID (en_chunkHighPK e),
       en_chunkTable := AList.delete chunkID (en_chunkTable e)\<rparr>"

fun ack_chunks :: "(int \<times> int) list \<Rightarrow> cdcEngine \<Rightarrow> bool \<Rightarrow> cdcEngine \<times> bool" where
  "ack_chunks [] e advanced = (e, advanced)"
| "ack_chunks ((chunkID, cnt) # acks) e advanced =
     (let e1 = e\<lparr>en_chunkAcked := AList.update chunkID (lookup0 (en_chunkAcked e) chunkID + cnt) (en_chunkAcked e)\<rparr>
      in if lookup0 (en_chunkAcked e1) chunkID \<ge> lookup0 (en_chunkSizes e1) chunkID
         then ack_chunks acks (complete_chunk e1 chunkID) True
         else ack_chunks acks e1 advanced)"

definition MaxInt :: int where "MaxInt = 2 ^ 63 - 1"

definition min_pending :: "(int \<times> unit) list \<Rightarrow> int" where
  "min_pending pend = foldl (\<lambda>m (k, _). if k < m then k else m) MaxInt pend"

definition watermark :: "int \<Rightarrow> (int \<times> PK) list \<Rightarrow> int" where
  "watermark minPending compl =
     foldl (\<lambda>w (k, _). if k < minPending \<and> k > w then k else w) (-1) compl"

definition advanceSnapshotCursor :: "cdcEngine \<Rightarrow> cdcEngine" where
  "advanceSnapshotCursor e =
     (let minPending = min_pending (en_pendingChunks e);
          watermarkID = watermark minPending (en_completedChunks e);
          e1 = (if watermarkID \<ge> 0
                then e\<lparr>en_state := (en_state e)\<lparr>st_SnapshotCursor := lookup_pk (en_completedChunks e) watermarkID\<rparr>,
                       en_completedChunks := filter (\<lambda>(k, _). \<not> k \<le> watermarkID) (en_completedChunks e)\<rparr>
                else e)
      in if en_pendingChunks e1 = [] \<and> en_completedChunks e1 = []
         then e1\<lparr>en_broadcasts := en_broadcasts e1 + 1\<rparr> else e1)"

definition advance_lsn :: "cdcEngine \<Rightarrow> 64 word \<Rightarrow> cdcEngine" where
  "advance_lsn e maxCommitLSN =
     (if maxCommitLSN > st_ConfirmedLSN (en_state e)
      then let e1 = e\<lparr>en_state := (en_state e)\<lparr>st_ConfirmedLSN := maxCommitLSN\<rparr>\<rparr>
           in if en_hasStreamer e1 then e1\<lparr>en_advances := en_advances e1 @ [maxCommitLSN]\<rparr> else e1
      else e)"

definition check_streaming :: "cdcEngine \<Rightarrow> cdcEngine" where
  "check_streaming e =
     (if en_snapshotScanDone e \<and> st_Phase (en_state e) = PhaseSnapshotting \<and>
         en_pendingChunks e = [] \<and> en_completedChunks e = []
      then e\<lparr>en_state := (en_state e)\<lparr>st_Phase := PhaseStreaming\<rparr>\<rparr> else e)"

definition save_state :: "cdcEngine \<Rightarrow> cdcEngine" where
  "save_state e = (if en_hasStore e then e\<lparr>en_saved := en_saved e @ [en_state e]\<rparr> else e)"

definition Acknowledger :: "cdcEngine \<Rightarrow> CDCEvent option list \<Rightarrow> string option \<Rightarrow> cdcEngine" where
  "Acknowledger e messages err =
     (case err of
        Some _ \<Rightarrow> e
      | None \<Rightarrow>
          let (maxCommitLSN, chunkACKs) = ack_scan messages 0 [];
              e1 = advance_lsn e maxCommitLSN;
              (e2, advanced) = ack_chunks chunkACKs e1 False;
              e3 = (if advanced then advanceSnapshotCursor e2 else e2)
          in save_state (check_streaming e3))"

section \<open>The table switch and the end of the scan in runSnapshot\<close>

definition begin_table :: "cdcEngine \<Rightarrow> string \<Rightarrow> cdcEngine" where
  "begin_table e name =
     (if st_CurrentSnapshotTable (en_state e) \<noteq> name
      then e\<lparr>en_state := (en_state e)\<lparr>st_CurrentSnapshotTable := name, st_SnapshotCursor := PKNil\<rparr>\<rparr>
      else e)"

definition scan_done :: "cdcEngine \<Rightarrow> cdcEngine" where
  "scan_done e = e\<lparr>en_snapshotScanDone := True\<rparr>"

text \<open>The condition under which \<open>runSnapshot\<close> stops waiting and calls \<open>onSnapshotComplete\<close>.\<close>

definition all_chunks_acked :: "cdcEngine \<Rightarrow> bool" where
  "all_chunks_acked e \<longleftrightarrow> \<not> (length (en_pendingChunks e) > 0 \<or> length (en_completedChunks e) > 0)"

section \<open>Runs\<close>

datatype engine_op =
    Demand int
  | Ack "CDCEvent option list" "string option"
  | BeginTable string
  | ScanDone

fun engine_step :: "cdcEngine \<Rightarrow> engine_op \<Rightarrow> cdcEngine go" where
  "engine_step e (Demand n) = go_bind (HandleDemand e n False) (\<lambda>(_, e'). Inr e')"
| "engine_step e (Ack ms err) = Inr (Acknowledger e ms err)"
| "engine_step e (BeginTable t) = Inr (begin_table e t)"
| "engine_step e ScanDone = Inr (scan_done e)"

fun engine_run :: "cdcEngine \<Rightarrow> engine_op list \<Rightarrow> cdcEngine go" where
  "engine_run e [] = Inr e"
| "engine_run e (op # ops) = go_bind (engine_step e op) (\<lambda>e'. engine_run e' ops)"

section \<open>The watermark\<close>

lemma foldl_min_le:
  "(foldl (\<lambda>m (k, _). if k < m then k else m) a xs :: int) \<le> a \<and>
   (\<forall>k \<in> fst ` set xs. foldl (\<lambda>m (k, _). if k < m then k else m) a xs \<le> k) \<and>
   (foldl (\<lambda>m (k, _). if k < m then k else m) a xs = a \<or> foldl (\<lambda>m (k, _). if k < m then k else m) a xs \<in> fst ` set xs)"
proof (induction xs arbitrary: a)
  case Nil
  show ?case by simp
next
  case (Cons p xs)
  obtain k v where "p = (k, v)" by (cases p)
  with Cons.IH [of "if k < a then k else a"] show ?case by (auto split: if_splits)
qed

lemma min_pending_spec:
  "min_pending pend \<le> MaxInt" "k \<in> fst ` set pend \<Longrightarrow> min_pending pend \<le> k"
  "min_pending pend = MaxInt \<or> min_pending pend \<in> fst ` set pend"
  using foldl_min_le [of MaxInt pend] unfolding min_pending_def by blast+

lemma foldl_watermark:
  "let w = foldl (\<lambda>w (k, _). if k < m \<and> k > w then k else w) a xs in
   (a::int) \<le> w \<and> (\<forall>k \<in> fst ` set xs. k < m \<longrightarrow> k \<le> w) \<and> (w = a \<or> w \<in> fst ` set xs \<and> w < m)"
proof (induction xs arbitrary: a)
  case Nil
  show ?case by simp
next
  case (Cons p xs)
  obtain k v where "p = (k, v)" by (cases p)
  with Cons.IH [of "if k < m \<and> k > a then k else a"] show ?case by (auto simp: Let_def split: if_splits)
qed

lemma watermark_spec:
  "k \<in> fst ` set compl \<Longrightarrow> k < m \<Longrightarrow> k \<le> watermark m compl"
  "watermark m compl = -1 \<or> watermark m compl \<in> fst ` set compl \<and> watermark m compl < m"
  using foldl_watermark [of m "-1" compl] unfolding watermark_def Let_def by blast+

section \<open>Counting acknowledgements\<close>

definition is_read :: "CDCEvent \<Rightarrow> bool" where
  "is_read e \<longleftrightarrow> ev_Operation e = OperationRead"

definition nreads :: "int \<Rightarrow> CDCEvent list \<Rightarrow> nat" where
  "nreads c es = length (filter (\<lambda>e. is_read e \<and> ev_chunkID e = c) es)"

definition somes :: "'a option list \<Rightarrow> 'a list" where
  "somes ms = map the (filter (\<lambda>m. m \<noteq> None) ms)"

lemma nreads_simps [simp]:
  "nreads c [] = 0"
  "nreads c (e # es) = (if is_read e \<and> ev_chunkID e = c then 1 else 0) + nreads c es"
  "nreads c (xs @ ys) = nreads c xs + nreads c ys"
  by (simp_all add: nreads_def)

lemma somes_simps [simp]:
  "somes [] = []" "somes (None # ms) = somes ms" "somes (Some e # ms) = e # somes ms"
  by (simp_all add: somes_def)

lemma nreads_mset: "mset xs \<subseteq># mset ys \<Longrightarrow> nreads c xs \<le> nreads c ys"
  unfolding nreads_def by (metis mset_filter multiset_filter_mono size_mset size_mset_mono)

lemma nreads_pos: "0 < nreads c es \<longleftrightarrow> (\<exists>e \<in> set es. is_read e \<and> ev_chunkID e = c)"
  by (auto simp: nreads_def filter_empty_conv)

lemma lookup0_update: "lookup0 (AList.update k v m) c = (if c = k then v else lookup0 m c)"
  by (simp add: lookup0_def map_of_update)

lemma ack_scan_acks:
  assumes "distinct (map fst acks)" "\<forall>c \<in> fst ` set acks. 0 < lookup0 acks c"
    and "\<forall>c. 0 \<le> lookup0 acks c"
    and "ack_scan ms x acks = (x', acks')"
  shows "distinct (map fst acks') \<and> (\<forall>c \<in> fst ` set acks'. 0 < lookup0 acks' c) \<and>
    (\<forall>c. lookup0 acks' c = lookup0 acks c + int (nreads c (somes ms)))"
  using assms
proof (induction ms x acks rule: ack_scan.induct)
  case (3 event ms maxLSN acks)
  show ?case
  proof (cases "ev_Operation event = OperationRead")
    case True
    let ?acks = "AList.update (ev_chunkID event) (lookup0 acks (ev_chunkID event) + 1) acks"
    have pos: "0 \<le> lookup0 acks c" for c using "3.prems"(3) by blast
    have "distinct (map fst ?acks)" using "3.prems"(1) by (simp add: AList.distinct_update)
    moreover have "\<forall>c \<in> fst ` set ?acks. 0 < lookup0 ?acks c"
      using "3.prems"(2) pos [of "ev_chunkID event"] by (auto simp: lookup0_update dom_update)
    moreover have "\<forall>c. 0 \<le> lookup0 ?acks c" using pos by (simp add: lookup0_update add_nonneg_pos)
    moreover have "ack_scan ms maxLSN ?acks = (x', acks')" using "3.prems"(4) True by simp
    ultimately have IH: "distinct (map fst acks') \<and> (\<forall>c \<in> fst ` set acks'. 0 < lookup0 acks' c) \<and>
        (\<forall>c. lookup0 acks' c = lookup0 ?acks c + int (nreads c (somes ms)))"
      by (rule "3.IH"(1) [OF True])
    have "lookup0 acks' c = lookup0 acks c + int (nreads c (somes (Some event # ms)))" for c
      using IH True by (simp add: is_read_def lookup0_update)
    with IH show ?thesis by blast
  next
    case False
    with 3 show ?thesis by (auto simp: is_read_def split: if_splits)
  qed
qed auto

lemma ack_scan_lsn:
  "ack_scan ms x acks = (x', acks') \<Longrightarrow>
     x \<le> x' \<and> (\<forall>e \<in> set (somes ms). \<not> is_read e \<longrightarrow> ev_commitLSN e \<le> x') \<and>
     (x' = x \<or> (\<exists>e \<in> set (somes ms). \<not> is_read e \<and> ev_commitLSN e = x'))"
proof (induction ms x acks rule: ack_scan.induct)
  case (3 event ms maxLSN acks)
  then show ?case by (fastforce simp: is_read_def split: if_splits)
qed auto

section \<open>The bookkeeping invariant\<close>

text \<open>
  \<open>T c\<close>, \<open>D c\<close>, \<open>A c\<close>: the READ events of chunk \<open>c\<close> in the whole stream, drained by
  \<open>HandleDemand\<close>, and acknowledged. A chunk is pending from its first drained event to its last
  acknowledged one.
\<close>

definition open_chunk :: "(int \<Rightarrow> nat) \<Rightarrow> (int \<Rightarrow> nat) \<Rightarrow> (int \<Rightarrow> nat) \<Rightarrow> int \<Rightarrow> bool" where
  "open_chunk T D A c \<longleftrightarrow> 0 < D c \<and> A c < T c"

definition books_ok :: "(int \<Rightarrow> nat) \<Rightarrow> (int \<Rightarrow> PK) \<Rightarrow> (int \<Rightarrow> nat) \<Rightarrow> (int \<Rightarrow> nat) \<Rightarrow> cdcEngine \<Rightarrow> bool" where
  "books_ok T hi D A e \<longleftrightarrow>
     distinct (map fst (en_completedChunks e)) \<and>
     (\<forall>c. map_of (en_pendingChunks e) c = (if open_chunk T D A c then Some () else None)) \<and>
     (\<forall>c. open_chunk T D A c \<longrightarrow>
        map_of (en_chunkSizes e) c = Some (int (T c)) \<and> map_of (en_chunkHighPK e) c = Some (hi c) \<and>
        lookup0 (en_chunkAcked e) c = int (A c)) \<and>
     (\<forall>c. \<not> open_chunk T D A c \<longrightarrow> map_of (en_chunkAcked e) c = None) \<and>
     (\<forall>c v. map_of (en_completedChunks e) c = Some v \<longrightarrow> 0 < D c \<and> A c = T c \<and> v = hi c)"

definition frame :: "cdcEngine \<Rightarrow> cdcEngine \<Rightarrow> bool" where
  "frame e e' \<longleftrightarrow> en_merger e' = en_merger e \<and> en_state e' = en_state e"

lemma books_ack_one:
  assumes books: "books_ok T hi D A e" and n: "0 < n" "A c + n \<le> D c" "D c \<le> T c"
  defines "e1 \<equiv> e\<lparr>en_chunkAcked := AList.update c (lookup0 (en_chunkAcked e) c + int n) (en_chunkAcked e)\<rparr>"
  defines "A' \<equiv> A(c := A c + n)"
  shows "books_ok T hi D A'
    (if lookup0 (en_chunkAcked e1) c \<ge> lookup0 (en_chunkSizes e1) c then complete_chunk e1 c else e1)"
proof -
  have oc: "open_chunk T D A c" using n by (simp add: open_chunk_def)
  have acked: "lookup0 (en_chunkAcked e1) c = int (A c + n)"
    using books oc by (simp add: e1_def lookup0_update books_ok_def)
  have size: "lookup0 (en_chunkSizes e1) c = int (T c)"
    using books oc by (simp add: e1_def lookup0_def books_ok_def)
  have others: "open_chunk T D A' x = open_chunk T D A x" "A' x = A x" if "x \<noteq> c" for x
    using that by (simp_all add: open_chunk_def A'_def)
  have at_c: "A' c = A c + n" by (simp add: A'_def)
  show ?thesis
  proof (cases "T c \<le> A c + n")
    case True
    then have closed: "\<not> open_chunk T D A' c" and full: "A' c = T c"
      using n at_c by (simp_all add: open_chunk_def)
    have high: "lookup_pk (en_chunkHighPK e1) c = hi c"
      using books oc by (simp add: e1_def lookup_pk_def books_ok_def)
    have fields: "map_of (en_pendingChunks (complete_chunk e1 c)) = (map_of (en_pendingChunks e))(c := None)"
      "map_of (en_chunkSizes (complete_chunk e1 c)) = (map_of (en_chunkSizes e))(c := None)"
      "map_of (en_chunkHighPK (complete_chunk e1 c)) = (map_of (en_chunkHighPK e))(c := None)"
      "map_of (en_chunkAcked (complete_chunk e1 c)) = (map_of (en_chunkAcked e))(c := None)"
      "map_of (en_completedChunks (complete_chunk e1 c)) = (map_of (en_completedChunks e))(c \<mapsto> hi c)"
      "distinct (map fst (en_completedChunks (complete_chunk e1 c)))"
      using high books by (auto simp: complete_chunk_def e1_def alist_simps books_ok_def)
    have "books_ok T hi D A' (complete_chunk e1 c)"
      unfolding books_ok_def fields lookup0_def
      using books closed full n others fields(6)
      by (auto simp: books_ok_def lookup0_def split: if_splits)
    then show ?thesis using True acked size by simp
  next
    case False
    then have same: "open_chunk T D A' x = open_chunk T D A x" for x
      using oc at_c others by (cases "x = c") (auto simp: open_chunk_def)
    have fields: "map_of (en_chunkAcked e1) = (map_of (en_chunkAcked e))(c \<mapsto> int (A' c))"
      "en_pendingChunks e1 = en_pendingChunks e" "en_chunkSizes e1 = en_chunkSizes e"
      "en_chunkHighPK e1 = en_chunkHighPK e" "en_completedChunks e1 = en_completedChunks e"
      using books oc at_c by (auto simp: e1_def alist_simps books_ok_def)
    have "x \<noteq> c" if "map_of (en_completedChunks e) x = Some v" for x v
    proof -
      have "A x = T x" using books that unfolding books_ok_def by blast
      then show ?thesis using oc by (auto simp: open_chunk_def)
    qed
    then have "books_ok T hi D A' e1"
      unfolding books_ok_def fields lookup0_def same
      using books oc others
      by (auto simp: books_ok_def lookup0_def simp del: map_of_eq_Some_iff)
    then show ?thesis using False acked size by simp
  qed
qed

lemma books_ack_chunks:
  assumes "books_ok T hi D A e" and "distinct (map fst acks)"
    and "\<forall>(c, n) \<in> set acks. 0 < n \<and> int (A c) + n \<le> int (D c)" and "\<forall>c. D c \<le> T c"
    and "ack_chunks acks e adv = (e', adv')"
  shows "books_ok T hi D (\<lambda>c. A c + nat (lookup0 acks c)) e' \<and> frame e e'"
  using assms
proof (induction acks arbitrary: A e adv)
  case Nil
  then show ?case by (simp add: lookup0_def frame_def)
next
  case (Cons p acks)
  obtain chunkID cnt where p: "p = (chunkID, cnt)" by (cases p)
  let ?e1 = "e\<lparr>en_chunkAcked := AList.update chunkID (lookup0 (en_chunkAcked e) chunkID + cnt) (en_chunkAcked e)\<rparr>"
  let ?done = "lookup0 (en_chunkAcked ?e1) chunkID \<ge> lookup0 (en_chunkSizes ?e1) chunkID"
  let ?e2 = "if ?done then complete_chunk ?e1 chunkID else ?e1"
  let ?A = "A(chunkID := A chunkID + nat cnt)"
  have cnt: "0 < cnt" "int (nat cnt) = cnt" "A chunkID + nat cnt \<le> D chunkID"
    using Cons.prems(3) p by auto
  have books: "books_ok T hi D ?A ?e2"
    by (rule books_ack_one [OF Cons.prems(1), of "nat cnt" chunkID, unfolded cnt(2)])
      (use cnt Cons.prems(4) in auto)
  have frame: "frame e ?e2" by (simp add: frame_def complete_chunk_def)
  have rest: "distinct (map fst acks)" "chunkID \<notin> fst ` set acks"
    using Cons.prems(2) p by auto
  have bound: "\<forall>(c, n) \<in> set acks. 0 < n \<and> int (?A c) + n \<le> int (D c)"
    using Cons.prems(3) rest(2) by force
  have "ack_chunks acks ?e2 (if ?done then True else adv) = (e', adv')"
    using Cons.prems(5) p by (simp add: Let_def split: if_splits)
  from Cons.IH [OF books rest(1) bound Cons.prems(4) this]
  have IH: "books_ok T hi D (\<lambda>c. ?A c + nat (lookup0 acks c)) e' \<and> frame ?e2 e'" .
  have "map_of acks chunkID = None" using rest(2) by (simp add: map_of_eq_None_iff)
  then have "(\<lambda>c. ?A c + nat (lookup0 acks c)) = (\<lambda>c. A c + nat (lookup0 (p # acks) c))"
    by (auto simp: fun_eq_iff lookup0_def p)
  with IH frame show ?case by (simp add: frame_def)
qed

definition move_cursor :: "cdcEngine \<Rightarrow> int \<Rightarrow> cdcEngine" where
  "move_cursor e w =
     e\<lparr>en_state := (en_state e)\<lparr>st_SnapshotCursor := lookup_pk (en_completedChunks e) w\<rparr>,
       en_completedChunks := filter (\<lambda>(k, _). \<not> k \<le> w) (en_completedChunks e)\<rparr>"

lemma advance_cases:
  fixes e defines "w \<equiv> watermark (min_pending (en_pendingChunks e)) (en_completedChunks e)"
  defines "e1 \<equiv> if 0 \<le> w then move_cursor e w else e"
  shows "advanceSnapshotCursor e =
    (if en_pendingChunks e1 = [] \<and> en_completedChunks e1 = [] then e1\<lparr>en_broadcasts := en_broadcasts e1 + 1\<rparr> else e1)"
  unfolding advanceSnapshotCursor_def Let_def e1_def w_def move_cursor_def ..

lemma if_either: "(if b then x else y) = y \<or> (if b then x else y) = x"
  by simp

lemma books_broadcast [simp]: "books_ok T hi D A (e\<lparr>en_broadcasts := n\<rparr>) = books_ok T hi D A e"
  by (simp add: books_ok_def)

lemma advance_books:
  assumes books: "books_ok T hi D A e"
  shows "books_ok T hi D A (advanceSnapshotCursor e) \<and> en_merger (advanceSnapshotCursor e) = en_merger e \<and>
    (st_SnapshotCursor (en_state (advanceSnapshotCursor e)) = st_SnapshotCursor (en_state e) \<or>
     (\<exists>w. st_SnapshotCursor (en_state (advanceSnapshotCursor e)) = hi w \<and> 0 < D w \<and> A w = T w \<and>
          (\<forall>c \<le> w. 0 < D c \<longrightarrow> T c \<le> A c)))"
proof -
  let ?m = "min_pending (en_pendingChunks e)"
  let ?w = "watermark ?m (en_completedChunks e)"
  show ?thesis
  proof (cases "0 \<le> ?w")
    case False
    then have "advanceSnapshotCursor e = e \<or> advanceSnapshotCursor e = e\<lparr>en_broadcasts := en_broadcasts e + 1\<rparr>"
      by (simp only: advance_cases if_False if_either)
    with books show ?thesis by auto
  next
    case True
    then have w: "?w \<in> fst ` set (en_completedChunks e)" "?w < ?m"
      using watermark_spec(2) [of ?m "en_completedChunks e"] by auto
    then obtain v where v: "map_of (en_completedChunks e) ?w = Some v"
      by (auto simp: fst_set_map_of)
    with books have full: "0 < D ?w" "A ?w = T ?w" "v = hi ?w" unfolding books_ok_def by blast+
    have below: "T c \<le> A c" if "c \<le> ?w" "0 < D c" for c
    proof (rule ccontr)
      assume "\<not> T c \<le> A c"
      then have "map_of (en_pendingChunks e) c = Some ()"
        using books that by (simp add: books_ok_def open_chunk_def)
      then have "?m \<le> c" by (auto intro!: min_pending_spec(2) simp: fst_set_map_of)
      with that w show False by simp
    qed
    let ?kept = "filter (\<lambda>(k, _). \<not> k \<le> ?w) (en_completedChunks e)"
    have "distinct (map fst ?kept)" using books by (simp add: books_ok_def distinct_map_filter)
    moreover have "map_of ?kept c = Some x \<Longrightarrow> map_of (en_completedChunks e) c = Some x" for c x
      using books by (auto simp: books_ok_def distinct_map_filter)
    ultimately have moved: "books_ok T hi D A (move_cursor e ?w)"
      using books by (simp add: move_cursor_def books_ok_def del: map_of_eq_Some_iff)
    have "advanceSnapshotCursor e = move_cursor e ?w \<or>
        advanceSnapshotCursor e = (move_cursor e ?w)\<lparr>en_broadcasts := en_broadcasts (move_cursor e ?w) + 1\<rparr>"
      using True by (simp only: advance_cases if_True if_either)
    moreover have "en_merger (move_cursor e ?w) = en_merger e"
      "st_SnapshotCursor (en_state (move_cursor e ?w)) = hi ?w"
      using v full(3) by (simp_all add: move_cursor_def lookup_pk_def)
    ultimately show ?thesis using moved full(1,2) below by auto
  qed
qed

lemma books_frame [simp]:
  "books_ok T hi D A (advance_lsn e x) = books_ok T hi D A e"
  "books_ok T hi D A (check_streaming e) = books_ok T hi D A e"
  "books_ok T hi D A (save_state e) = books_ok T hi D A e"
  "books_ok T hi D A (begin_table e t) = books_ok T hi D A e"
  "books_ok T hi D A (scan_done e) = books_ok T hi D A e"
  "books_ok T hi D A (e\<lparr>en_merger := mg\<rparr>) = books_ok T hi D A e"
  by (auto simp: books_ok_def advance_lsn_def check_streaming_def save_state_def begin_table_def scan_done_def Let_def)

lemma merger_frame [simp]:
  "en_merger (advance_lsn e x) = en_merger e"
  "en_merger (check_streaming e) = en_merger e"
  "en_merger (save_state e) = en_merger e"
  "en_merger (begin_table e t) = en_merger e"
  "en_merger (scan_done e) = en_merger e"
  by (auto simp: advance_lsn_def check_streaming_def save_state_def begin_table_def scan_done_def Let_def)

lemma cursor_frame [simp]:
  "st_SnapshotCursor (en_state (advance_lsn e x)) = st_SnapshotCursor (en_state e)"
  "st_SnapshotCursor (en_state (check_streaming e)) = st_SnapshotCursor (en_state e)"
  "st_SnapshotCursor (en_state (save_state e)) = st_SnapshotCursor (en_state e)"
  "st_SnapshotCursor (en_state (scan_done e)) = st_SnapshotCursor (en_state e)"
  by (auto simp: advance_lsn_def check_streaming_def save_state_def scan_done_def Let_def)

lemma Acknowledger_books:
  assumes books: "books_ok T hi D A e"
    and fits: "\<forall>c. A c + nreads c (somes ms) \<le> D c" and total: "\<forall>c. D c \<le> T c"
  defines "A' \<equiv> \<lambda>c. A c + nreads c (somes ms)" and "e' \<equiv> Acknowledger e ms None"
  shows "books_ok T hi D A' e' \<and> en_merger e' = en_merger e \<and>
    (st_SnapshotCursor (en_state e') = st_SnapshotCursor (en_state e) \<or>
     (\<exists>w. st_SnapshotCursor (en_state e') = hi w \<and> 0 < D w \<and> A' w = T w \<and> (\<forall>c \<le> w. 0 < D c \<longrightarrow> T c \<le> A' c)))"
proof -
  obtain x acks where scan: "ack_scan ms 0 [] = (x, acks)" by fastforce
  have "distinct (map fst acks) \<and> (\<forall>c \<in> fst ` set acks. 0 < lookup0 acks c) \<and>
      (\<forall>c. lookup0 acks c = lookup0 [] c + int (nreads c (somes ms)))"
    by (rule ack_scan_acks [OF _ _ _ scan]) (simp_all add: lookup0_def)
  then have counts: "distinct (map fst acks)" "\<forall>c \<in> fst ` set acks. 0 < lookup0 acks c"
    "lookup0 acks c = int (nreads c (somes ms))" for c
    by (blast, blast, simp add: lookup0_def [of "[]"])
  let ?e1 = "advance_lsn e x"
  obtain e2 adv where chunks: "ack_chunks acks ?e1 False = (e2, adv)" by fastforce
  have "\<forall>(c, n) \<in> set acks. 0 < n \<and> int (A c) + n \<le> int (D c)"
  proof clarify
    fix c n assume cn: "(c, n) \<in> set acks"
    then have "lookup0 acks c = n" using counts(1) by (simp add: lookup0_def)
    with cn counts(2,3) have "0 < n" "n = int (nreads c (somes ms))" by force+
    with fits show "0 < n \<and> int (A c) + n \<le> int (D c)" by (metis of_nat_add of_nat_mono)
  qed
  with books_ack_chunks [OF _ counts(1) _ total chunks] books
  have books2: "books_ok T hi D A' e2" and frame2: "frame ?e1 e2"
    by (auto simp: A'_def counts(3))
  let ?e3 = "if adv then advanceSnapshotCursor e2 else e2"
  have e': "e' = save_state (check_streaming ?e3)"
    using scan chunks by (simp add: e'_def Acknowledger_def Let_def)
  from advance_books [OF books2] frame2 books2 show ?thesis
    unfolding e' by (auto simp: frame_def)
qed

section \<open>The client of the engine\<close>

text \<open>
  The whole stream \<open>S\<close> of events that the connector will put on the channel: the READ events
  come chunk by chunk in the order of the chunk ids, each carries the number of rows of its
  chunk and the chunk's highest key \<open>hi\<close>, as \<open>snapshotter.run\<close> fills them in.
\<close>

definition stream_ok :: "(int \<Rightarrow> PK) \<Rightarrow> CDCEvent list \<Rightarrow> bool" where
  "stream_ok hi S \<longleftrightarrow>
     sorted (map ev_chunkID (filter is_read S)) \<and>
     (\<forall>e \<in> set S. is_read e \<longrightarrow>
        ev_chunkSize e = int (nreads (ev_chunkID e) S) \<and> ev_chunkHighPK e = hi (ev_chunkID e))"

text \<open>
  The pipeline around the engine: the channel receives further events of the stream, demands
  are served, and messages that were delivered are acknowledged in any order and any grouping,
  each at most once with success. The state is the engine with the delivered events and the
  acknowledged READ events.
\<close>

inductive client_step :: "CDCEvent list \<Rightarrow> cdcEngine \<times> CDCEvent list \<times> CDCEvent list \<Rightarrow>
    cdcEngine \<times> CDCEvent list \<times> CDCEvent list \<Rightarrow> bool" for S where
  produce: "prefix (d @ mg_output (en_merger e) @ es) S \<Longrightarrow>
    client_step S (e, d, a) (e\<lparr>en_merger := emit es (en_merger e)\<rparr>, d, a)"
| demand: "HandleDemand e n cancelled = Inr (out, e') \<Longrightarrow> client_step S (e, d, a) (e', d @ out, a)"
| ack_ok: "mset (a @ filter is_read (somes ms)) \<subseteq># mset d \<Longrightarrow>
    client_step S (e, d, a) (Acknowledger e ms None, d, a @ filter is_read (somes ms))"
| ack_failed: "client_step S (e, d, a) (Acknowledger e ms (Some err), d, a)"
| next_table: "client_step S (e, d, a) (begin_table e t, d, a)"
| scanned: "client_step S (e, d, a) (scan_done e, d, a)"

inductive client_reach :: "CDCEvent list \<Rightarrow> cdcEngine \<Rightarrow> cdcEngine \<times> CDCEvent list \<times> CDCEvent list \<Rightarrow> bool"
  for S e0 where
  start: "client_reach S e0 (e0, [], [])"
| step: "client_reach S e0 s \<Longrightarrow> client_step S s s' \<Longrightarrow> client_reach S e0 s'"

inductive_cases client_stepE: "client_step S (e, d, a) s'"

definition fresh_engine :: "cdcEngine \<Rightarrow> bool" where
  "fresh_engine e \<longleftrightarrow>
     en_chunkSizes e = [] \<and> en_chunkAcked e = [] \<and> en_chunkHighPK e = [] \<and> en_pendingChunks e = [] \<and>
     en_completedChunks e = [] \<and> mg_output (en_merger e) = []"

definition acked_upto :: "CDCEvent list \<Rightarrow> CDCEvent list \<Rightarrow> int \<Rightarrow> bool" where
  "acked_upto S a w \<longleftrightarrow> 0 < nreads w a \<and> (\<forall>c \<le> w. nreads c S \<le> nreads c a)"

text \<open>
  A cursor is safe when it is the one the engine started with, unset (a table was begun), or
  the highest key of a chunk up to which every READ event of the stream is acknowledged.
\<close>

definition cursor_safe :: "(int \<Rightarrow> PK) \<Rightarrow> CDCEvent list \<Rightarrow> PK \<Rightarrow> CDCEvent list \<Rightarrow> PK \<Rightarrow> bool" where
  "cursor_safe hi S cur0 a cur \<longleftrightarrow> cur \<in> {cur0, PKNil} \<or> (\<exists>w. cur = hi w \<and> acked_upto S a w)"

definition client_inv :: "(int \<Rightarrow> PK) \<Rightarrow> CDCEvent list \<Rightarrow> PK \<Rightarrow> cdcEngine \<times> CDCEvent list \<times> CDCEvent list \<Rightarrow> bool" where
  "client_inv hi S cur0 s \<longleftrightarrow> (case s of (e, d, a) \<Rightarrow>
     prefix (d @ mg_output (en_merger e)) S \<and>
     mset a \<subseteq># mset d \<and>
     books_ok (\<lambda>c. nreads c S) hi (\<lambda>c. nreads c d) (\<lambda>c. nreads c a) e \<and>
     cursor_safe hi S cur0 a (st_SnapshotCursor (en_state e)) \<and>
     (\<forall>st \<in> set (en_saved e). cursor_safe hi S cur0 a (st_SnapshotCursor st)))"

lemma sorted_prefix_reads:
  assumes "sorted (map ev_chunkID (filter is_read S))" and "prefix d S"
    and "0 < nreads w d" and "c < w"
  shows "nreads c S = nreads c d"
proof -
  from assms(2) obtain r where S: "S = d @ r" by (auto elim: prefixE)
  from assms(3) obtain e where e: "e \<in> set d" "is_read e" "ev_chunkID e = w"
    by (auto simp: nreads_pos)
  have "\<not> 0 < nreads c r"
  proof
    assume "0 < nreads c r"
    then obtain e' where "e' \<in> set r" "is_read e'" "ev_chunkID e' = c" by (auto simp: nreads_pos)
    with assms(1) S e have "w \<le> c" by (auto simp: sorted_append)
    with assms(4) show False by simp
  qed
  then show ?thesis by (simp add: S)
qed

lemma nreads_filter [simp]: "nreads c (filter is_read es) = nreads c es"
  by (simp add: nreads_def conj_commute)

lemma books_track:
  assumes books: "books_ok T hi D A e" and le: "\<forall>c. A c \<le> D c"
    and size: "ev_chunkSize ev = int (T (ev_chunkID ev))" "ev_chunkHighPK ev = hi (ev_chunkID ev)"
    and more: "D (ev_chunkID ev) < T (ev_chunkID ev)"
  shows "books_ok T hi (D(ev_chunkID ev := Suc (D (ev_chunkID ev)))) A (track_read e ev)"
proof -
  let ?c = "ev_chunkID ev" and ?D = "D(ev_chunkID ev := Suc (D (ev_chunkID ev)))"
  have Ac: "A ?c < T ?c" using le more by (meson le_less_trans)
  have others: "open_chunk T ?D A x = open_chunk T D A x" if "x \<noteq> ?c" for x
    using that by (auto simp: open_chunk_def)
  have oc: "open_chunk T ?D A ?c" using Ac by (simp add: open_chunk_def)
  have acked: "lookup0 (en_chunkAcked e) ?c = int (A ?c)"
  proof (cases "open_chunk T D A ?c")
    case True
    with books show ?thesis by (simp add: books_ok_def)
  next
    case False
    then have "D ?c = 0" using Ac by (simp add: open_chunk_def)
    then have "A ?c = 0" using le by (metis le_0_eq)
    moreover have "map_of (en_chunkAcked e) ?c = None"
      using False books by (simp add: books_ok_def)
    ultimately show ?thesis by (simp add: lookup0_def)
  qed
  have "x \<noteq> ?c" if "map_of (en_completedChunks e) x = Some v" for x v
  proof -
    have "A x = T x" using books that unfolding books_ok_def by blast
    then show ?thesis using Ac by auto
  qed
  moreover have "\<not> open_chunk T D A x" if "\<not> open_chunk T ?D A x" for x
    using that oc others by (cases "x = ?c") auto
  moreover have "open_chunk T ?D A x \<longleftrightarrow> x = ?c \<or> open_chunk T D A x" for x
    using oc others by (cases "x = ?c") auto
  moreover have "map_of (en_pendingChunks (track_read e ev)) = (map_of (en_pendingChunks e))(?c \<mapsto> ())"
    "map_of (en_chunkSizes (track_read e ev)) = (map_of (en_chunkSizes e))(?c \<mapsto> int (T ?c))"
    "map_of (en_chunkHighPK (track_read e ev)) = (map_of (en_chunkHighPK e))(?c \<mapsto> hi ?c)"
    "en_chunkAcked (track_read e ev) = en_chunkAcked e"
    "en_completedChunks (track_read e ev) = en_completedChunks e"
    by (simp_all add: track_read_def Let_def alist_simps size)
  ultimately show ?thesis
    using books oc acked unfolding books_ok_def by (auto simp del: map_of_eq_Some_iff)
qed

lemma prefix_nreads: "prefix d S \<Longrightarrow> nreads c d \<le> nreads c S"
  by (auto elim!: prefixE)

lemma demand_loop_inv:
  assumes ok: "stream_ok hi S"
  shows "prefix (d @ res @ mg_output (en_merger e)) S \<Longrightarrow>
    books_ok (\<lambda>c. nreads c S) hi (\<lambda>c. nreads c (d @ res)) A e \<Longrightarrow> \<forall>c. A c \<le> nreads c (d @ res) \<Longrightarrow>
    demand_loop n e res = (out, e') \<Longrightarrow>
    prefix (d @ out @ mg_output (en_merger e')) S \<and> prefix res out \<and>
    books_ok (\<lambda>c. nreads c S) hi (\<lambda>c. nreads c (d @ out)) A e' \<and>
    en_state e' = en_state e \<and> en_saved e' = en_saved e"
proof (induction n arbitrary: e res)
  case 0
  then show ?case by simp
next
  case (Suc n)
  show ?case
  proof (cases "mg_output (en_merger e)")
    case Nil
    with Suc.prems show ?thesis by simp
  next
    case (Cons ev rest)
    let ?e1 = "e\<lparr>en_merger := (en_merger e)\<lparr>mg_output := rest\<rparr>\<rparr>"
    let ?e2 = "if ev_Operation ev = OperationRead then track_read ?e1 ev else ?e1"
    have ev: "ev \<in> set S" using Suc.prems(1) Cons by (auto elim!: prefixE)
    have more: "nreads (ev_chunkID ev) (d @ res) < nreads (ev_chunkID ev) S" if "is_read ev"
      using prefix_nreads [OF Suc.prems(1), of "ev_chunkID ev"] Cons that by simp
    have out2: "mg_output (en_merger ?e2) = rest" and st2: "en_state ?e2 = en_state e" "en_saved ?e2 = en_saved e"
      by (simp_all add: track_read_def Let_def)
    have books2: "books_ok (\<lambda>c. nreads c S) hi (\<lambda>c. nreads c (d @ res @ [ev])) A ?e2"
    proof (cases "is_read ev")
      case True
      then have "ev_chunkSize ev = int (nreads (ev_chunkID ev) S)" "ev_chunkHighPK ev = hi (ev_chunkID ev)"
        using ok ev by (simp_all add: stream_ok_def)
      then have "books_ok (\<lambda>c. nreads c S) hi
          ((\<lambda>c. nreads c (d @ res))(ev_chunkID ev := Suc (nreads (ev_chunkID ev) (d @ res)))) A (track_read ?e1 ev)"
        using Suc.prems(2,3) more [OF True] by (intro books_track) simp_all
      moreover have "(\<lambda>c. nreads c (d @ res))(ev_chunkID ev := Suc (nreads (ev_chunkID ev) (d @ res)))
          = (\<lambda>c. nreads c (d @ res @ [ev]))" using True by (auto simp: fun_eq_iff)
      ultimately show ?thesis using True by (simp add: is_read_def)
    next
      case False
      have "(\<lambda>c. nreads c (d @ res @ [ev])) = (\<lambda>c. nreads c (d @ res))" using False by simp
      then show ?thesis using False Suc.prems(2) by (simp add: is_read_def)
    qed
    have "prefix (d @ (res @ [ev]) @ mg_output (en_merger ?e2)) S" using Suc.prems(1) Cons out2 by simp
    moreover have "\<forall>c. A c \<le> nreads c (d @ (res @ [ev]))" using Suc.prems(3) by (simp add: le_SucI)
    moreover have "demand_loop n ?e2 (res @ [ev]) = (out, e')" using Suc.prems(4) Cons by (simp add: Let_def)
    ultimately show ?thesis using Suc.IH [of "res @ [ev]" ?e2] books2 st2 by (auto dest: append_prefixD)
  qed
qed

lemma saved_frame [simp]:
  "en_saved (advance_lsn e x) = en_saved e"
  "en_saved (check_streaming e) = en_saved e"
  "en_saved (begin_table e t) = en_saved e"
  "en_saved (scan_done e) = en_saved e"
  "en_saved (advanceSnapshotCursor e) = en_saved e"
  by (auto simp: advance_lsn_def check_streaming_def begin_table_def scan_done_def advanceSnapshotCursor_def Let_def)

lemma ack_chunks_saved: "en_saved (fst (ack_chunks acks e adv)) = en_saved e"
  by (induction acks e adv rule: ack_chunks.induct) (auto simp: Let_def complete_chunk_def)

lemma Acknowledger_saved:
  "en_saved (Acknowledger e ms None) = en_saved e @ (if en_hasStore e then [en_state (Acknowledger e ms None)] else [])"
proof -
  obtain x acks where scan: "ack_scan ms 0 [] = (x, acks)" by fastforce
  obtain e2 adv where chunks: "ack_chunks acks (advance_lsn e x) False = (e2, adv)" by fastforce
  have "en_hasStore (fst (ack_chunks acks e' b)) = en_hasStore e'" for e' b
    by (induction acks e' b rule: ack_chunks.induct) (auto simp: Let_def complete_chunk_def)
  from this [of "advance_lsn e x" False] have store: "en_hasStore e2 = en_hasStore e"
    using chunks by (simp add: advance_lsn_def Let_def)
  let ?e4 = "check_streaming (if adv then advanceSnapshotCursor e2 else e2)"
  have "en_hasStore ?e4 = en_hasStore e" using store
    by (auto simp: check_streaming_def advanceSnapshotCursor_def Let_def)
  moreover have "en_saved ?e4 = en_saved e"
    using ack_chunks_saved [of acks "advance_lsn e x" False] chunks by simp
  moreover have "Acknowledger e ms None = save_state ?e4"
    using scan chunks by (simp add: Acknowledger_def)
  ultimately show ?thesis by (simp add: save_state_def)
qed

lemma acked_upto_mono: "acked_upto S a w \<Longrightarrow> acked_upto S (a @ b) w"
  by (auto simp: acked_upto_def intro: le_trans)

lemma cursor_safe_mono: "cursor_safe hi S cur0 a cur \<Longrightarrow> cursor_safe hi S cur0 (a @ b) cur"
  by (auto simp: cursor_safe_def intro: acked_upto_mono)

lemma acked_upto_from_books:
  assumes ok: "stream_ok hi S" and pre: "prefix d S" and sub: "\<forall>c. nreads c a \<le> nreads c d"
    and w: "0 < nreads w d" "nreads w a = nreads w S" "\<forall>c \<le> w. 0 < nreads c d \<longrightarrow> nreads c S \<le> nreads c a"
  shows "acked_upto S a w"
proof -
  have "nreads c S \<le> nreads c a" if "c \<le> w" for c
  proof (cases "0 < nreads c d")
    case True
    with w(3) that show ?thesis by blast
  next
    case False
    then have "c < w" using w(1) that by (cases "c = w") auto
    then have "nreads c S = nreads c d"
      using sorted_prefix_reads [OF _ pre w(1)] ok by (simp add: stream_ok_def)
    with False show ?thesis by simp
  qed
  moreover have "0 < nreads w a" using w(1,2) prefix_nreads [OF pre, of w] by simp
  ultimately show ?thesis by (simp add: acked_upto_def)
qed

lemma client_inv_step:
  assumes ok: "stream_ok hi S" and inv: "client_inv hi S cur0 s" and step: "client_step S s s'"
  shows "client_inv hi S cur0 s'"
  using step inv
proof (induction rule: client_step.induct)
  case (produce d e es a)
  then show ?case by (simp add: client_inv_def)
next
  case (demand e n cancelled out e' d a)
  show ?case
  proof (cases cancelled)
    case True
    with demand show ?thesis by (simp add: HandleDemand_def)
  next
    case False
    then have loop: "demand_loop (nat n) e [] = (out, e')"
      using demand.hyps by (simp add: HandleDemand_def split: if_splits)
    have "\<forall>c. nreads c a \<le> nreads c d" using demand.prems by (auto simp: client_inv_def intro: nreads_mset)
    with demand_loop_inv [OF ok _ _ _ loop, of d "\<lambda>c. nreads c a"] demand.prems
    show ?thesis by (auto simp: client_inv_def intro: subset_mset.order_trans)
  qed
next
  case (ack_ok a ms d e)
  let ?a = "a @ filter is_read (somes ms)" and ?e' = "Acknowledger e ms None"
  have pre: "prefix d S" using ack_ok.prems by (auto simp: client_inv_def dest: append_prefixD)
  have sub: "\<forall>c. nreads c ?a \<le> nreads c d" using ack_ok.hyps nreads_mset by blast
  have books: "books_ok (\<lambda>c. nreads c S) hi (\<lambda>c. nreads c d) (\<lambda>c. nreads c a) e"
    using ack_ok.prems by (simp add: client_inv_def)
  have fits: "\<forall>c. nreads c a + nreads c (somes ms) \<le> nreads c d" using sub by simp
  have "\<forall>c. nreads c d \<le> nreads c S" using prefix_nreads [OF pre] by blast
  from Acknowledger_books [OF books fits this]
  have post: "books_ok (\<lambda>c. nreads c S) hi (\<lambda>c. nreads c d) (\<lambda>c. nreads c ?a) ?e'"
    "en_merger ?e' = en_merger e"
    "st_SnapshotCursor (en_state ?e') = st_SnapshotCursor (en_state e) \<or>
      (\<exists>w. st_SnapshotCursor (en_state ?e') = hi w \<and> acked_upto S ?a w)"
    using acked_upto_from_books [OF ok pre sub] by auto
  have "cursor_safe hi S cur0 ?a (st_SnapshotCursor (en_state ?e'))"
    using post(3)
  proof
    assume "st_SnapshotCursor (en_state ?e') = st_SnapshotCursor (en_state e)"
    moreover have "cursor_safe hi S cur0 a (st_SnapshotCursor (en_state e))"
      using ack_ok.prems by (simp add: client_inv_def)
    ultimately show ?thesis by (simp add: cursor_safe_mono)
  qed (auto simp: cursor_safe_def)
  then show ?case using ack_ok post(1,2)
    by (auto simp: client_inv_def Acknowledger_saved cursor_safe_mono)
next
  case (ack_failed e d a ms err)
  then show ?case by (simp add: Acknowledger_def)
next
  case (next_table e d a t)
  have "cursor_safe hi S cur0 a (st_SnapshotCursor (en_state (begin_table e t)))"
    using next_table by (auto simp: client_inv_def begin_table_def cursor_safe_def)
  with next_table show ?case by (simp add: client_inv_def)
next
  case (scanned e d a)
  then show ?case by (simp add: client_inv_def)
qed

lemma client_inv_fresh:
  "fresh_engine e0 \<Longrightarrow> en_saved e0 = [] \<Longrightarrow> client_inv hi S (st_SnapshotCursor (en_state e0)) (e0, [], [])"
  by (simp add: client_inv_def fresh_engine_def books_ok_def open_chunk_def cursor_safe_def)

lemma client_reach_inv:
  assumes "stream_ok hi S" and "fresh_engine e0" and "en_saved e0 = []"
  shows "client_reach S e0 s \<Longrightarrow> client_inv hi S (st_SnapshotCursor (en_state e0)) s"
  by (induction rule: client_reach.induct) (auto intro: client_inv_fresh client_inv_step assms)

section \<open>The WAL position and the phase\<close>

fun acked_lsns :: "engine_op list \<Rightarrow> 64 word list" where
  "acked_lsns [] = []"
| "acked_lsns (Ack ms None # ops) = map ev_commitLSN (filter (\<lambda>e. \<not> is_read e) (somes ms)) @ acked_lsns ops"
| "acked_lsns (_ # ops) = acked_lsns ops"

lemma foldl_max_bounds:
  fixes a :: "'a :: linorder"
  shows "a \<le> foldl max a xs \<and> (\<forall>x \<in> set xs. x \<le> foldl max a xs) \<and> (foldl max a xs = a \<or> foldl max a xs \<in> set xs)"
proof (induction xs arbitrary: a)
  case (Cons x xs)
  from Cons.IH [of "max a x"] show ?case by (auto simp: max_def split: if_splits)
qed simp

lemma ack_scan_foldl:
  "ack_scan ms x acks = (x', acks') \<Longrightarrow> x' = foldl max x (map ev_commitLSN (filter (\<lambda>e. \<not> is_read e) (somes ms)))"
  by (induction ms x acks rule: ack_scan.induct) (auto simp: is_read_def max_def split: if_splits)

lemma foldl_max_max: "foldl max (max a b) xs = max a (foldl max b xs)" for a :: "'a :: linorder"
  by (induction xs arbitrary: b) (auto simp: max.assoc)

lemma lsn_frame [simp]:
  "st_ConfirmedLSN (en_state (check_streaming e)) = st_ConfirmedLSN (en_state e)"
  "st_ConfirmedLSN (en_state (save_state e)) = st_ConfirmedLSN (en_state e)"
  "st_ConfirmedLSN (en_state (begin_table e t)) = st_ConfirmedLSN (en_state e)"
  "st_ConfirmedLSN (en_state (scan_done e)) = st_ConfirmedLSN (en_state e)"
  "st_ConfirmedLSN (en_state (advanceSnapshotCursor e)) = st_ConfirmedLSN (en_state e)"
  "st_ConfirmedLSN (en_state (advance_lsn e x)) = max (st_ConfirmedLSN (en_state e)) x"
  by (auto simp: check_streaming_def save_state_def begin_table_def scan_done_def advanceSnapshotCursor_def
      advance_lsn_def max_def Let_def)

lemma phase_frame [simp]:
  "st_Phase (en_state (advance_lsn e x)) = st_Phase (en_state e)"
  "st_Phase (en_state (save_state e)) = st_Phase (en_state e)"
  "st_Phase (en_state (begin_table e t)) = st_Phase (en_state e)"
  "st_Phase (en_state (scan_done e)) = st_Phase (en_state e)"
  "st_Phase (en_state (advanceSnapshotCursor e)) = st_Phase (en_state e)"
  "st_Phase (en_state e) \<le> st_Phase (en_state (check_streaming e))"
  by (auto simp: check_streaming_def save_state_def begin_table_def scan_done_def advanceSnapshotCursor_def
      advance_lsn_def Let_def)

lemma Acknowledger_lsn:
  "st_ConfirmedLSN (en_state (Acknowledger e ms None)) =
     foldl max (st_ConfirmedLSN (en_state e)) (map ev_commitLSN (filter (\<lambda>e. \<not> is_read e) (somes ms)))
   \<and> st_Phase (en_state e) \<le> st_Phase (en_state (Acknowledger e ms None))"
proof -
  let ?xs = "map ev_commitLSN (filter (\<lambda>e. \<not> is_read e) (somes ms))"
  obtain x acks where scan: "ack_scan ms 0 [] = (x, acks)" by fastforce
  obtain e2 adv where chunks: "ack_chunks acks (advance_lsn e x) False = (e2, adv)" by fastforce
  have "en_state (fst (ack_chunks acks e' b)) = en_state e'" for e' b
    by (induction acks e' b rule: ack_chunks.induct) (auto simp: Let_def complete_chunk_def)
  from this [of "advance_lsn e x" False] have "en_state e2 = en_state (advance_lsn e x)"
    using chunks by simp
  moreover have "Acknowledger e ms None = save_state (check_streaming (if adv then advanceSnapshotCursor e2 else e2))"
    using scan chunks by (simp add: Acknowledger_def)
  moreover have "x = foldl max 0 ?xs" using ack_scan_foldl [OF scan] .
  moreover have "max (st_ConfirmedLSN (en_state e)) (foldl max 0 ?xs) = foldl max (st_ConfirmedLSN (en_state e)) ?xs"
    using foldl_max_max [of "st_ConfirmedLSN (en_state e)" 0 ?xs] by (simp add: max_def)
  moreover have "st_Phase (en_state (if adv then advanceSnapshotCursor e2 else e2)) = st_Phase (en_state e)"
    using \<open>en_state e2 = en_state (advance_lsn e x)\<close> by simp
  ultimately show ?thesis
    using phase_frame(6) [of "if adv then advanceSnapshotCursor e2 else e2"] by simp
qed

lemma demand_loop_state: "en_state (snd (demand_loop n e res)) = en_state e"
  by (induction n e res rule: demand_loop.induct) (auto simp: Let_def track_read_def split: list.splits)

lemma engine_run_lsn:
  "engine_run e ops = Inr e' \<Longrightarrow>
     st_ConfirmedLSN (en_state e') = foldl max (st_ConfirmedLSN (en_state e)) (acked_lsns ops) \<and>
     st_Phase (en_state e) \<le> st_Phase (en_state e')"
proof (induction ops arbitrary: e)
  case (Cons op ops)
  then obtain e1 where e1: "engine_step e op = Inr e1" and run: "engine_run e1 ops = Inr e'"
    by (auto simp: go_bind_Inr_iff)
  note IH = Cons.IH [OF run]
  show ?case
  proof (cases op)
    case (Demand n)
    with e1 have "en_state e1 = en_state e"
      using demand_loop_state [of "nat n" e "[]"] by (auto simp: HandleDemand_def go_bind_Inr_iff split: if_splits)
    with IH Demand show ?thesis by simp
  next
    case (Ack ms err)
    show ?thesis
    proof (cases err)
      case None
      with Ack e1 have e1: "e1 = Acknowledger e ms None" by simp
      from IH Acknowledger_lsn [of e ms] Ack None show ?thesis
        unfolding e1 by (auto intro: order.trans)
    next
      case (Some x)
      with Ack e1 IH show ?thesis by (simp add: Acknowledger_def)
    qed
  qed (use e1 IH in auto)
qed simp

section \<open>Properties\<close>


text \<open>
  Claim C29. The confirmed WAL position is exactly the highest commit LSN that was acknowledged
  without error (or the position the engine started from), for any order of acknowledgements,
  and the phase never goes back.
\<close>

theorem confirmed_lsn_is_max:
  assumes "engine_run e ops = Inr e'"
  shows "st_ConfirmedLSN (en_state e') = Max (insert (st_ConfirmedLSN (en_state e)) (set (acked_lsns ops)))
    \<and> st_Phase (en_state e) \<le> st_Phase (en_state e')"
proof -
  have "foldl max a xs = Max (insert a (set xs))" for a :: "64 word" and xs
    using foldl_max_bounds [of a xs] by (intro Max_eqI [symmetric]) auto
  with engine_run_lsn [OF assms] show ?thesis by simp
qed

text \<open>An engine in the snapshotting phase with a store, whose channel holds \<open>es\<close>.\<close>

definition engine_with :: "CDCEvent list \<Rightarrow> cdcEngine" where
  "engine_with es =
     newCDCEngine\<lparr>en_hasStore := True, en_merger := (newMerger [] PhaseSnapshotting)\<lparr>mg_output := es\<rparr>,
       en_state := zeroState\<lparr>st_Phase := PhaseSnapshotting, st_CurrentSnapshotTable := ''public.orders''\<rparr>\<rparr>"

definition row_read :: "string \<Rightarrow> int \<Rightarrow> int \<Rightarrow> PK \<Rightarrow> PK \<Rightarrow> CDCEvent" where
  "row_read table c n pk high =
     (read_event table pk)\<lparr>ev_chunkID := c, ev_chunkSize := n, ev_chunkHighPK := high\<rparr>"

definition change :: "64 word \<Rightarrow> CDCEvent" where
  "change lsn = (wal_event ''orders'' (PKInt 1) 950)\<lparr>ev_commitLSN := lsn\<rparr>"

lemmas engine_example_simps = engine_with_def row_read_def change_def read_event_def wal_event_def newCDCEngine_def
  zeroState_def newMerger_def HandleDemand_def Acknowledger_def track_read_def advance_lsn_def complete_chunk_def
  advanceSnapshotCursor_def check_streaming_def save_state_def begin_table_def scan_done_def lookup0_def lookup_pk_def
  min_pending_def watermark_def MaxInt_def all_chunks_acked_def Let_def

definition rows2 :: "CDCEvent list" where
  "rows2 = [row_read ''orders'' 1 1 (PKInt 10) (PKInt 10), row_read ''orders'' 2 1 (PKInt 20) (PKInt 20)]"

definition high2 :: "int \<Rightarrow> PK" where
  "high2 c = (if c = 1 then PKInt 10 else PKInt 20)"


theorem confirmed_lsn_is_max_witness:
  "\<exists>e'. engine_run (engine_with []) [Ack [Some (change 20)] None, Ack [Some (change 10)] None] = Inr e' \<and>
     st_ConfirmedLSN (en_state e') = 20"
proof -
  obtain e' where e': "engine_run (engine_with []) [Ack [Some (change 20)] None, Ack [Some (change 10)] None] = Inr e'"
    by simp
  have "st_ConfirmedLSN (en_state e') = Max {0, 20, 10}"
    using confirmed_lsn_is_max [OF e'] by (simp add: change_def wal_event_def is_read_def engine_with_def zeroState_def)
  with e' show ?thesis by simp
qed

text \<open>
  What is persisted does not always allow a safe resume. (1) The WAL position passes
  a change whose processing failed: after an error for LSN 10 and a success for LSN 20 the
  saved position is 20. (2) The phase becomes streaming while READ events are still in the
  connector's buffer: with chunk 1 acknowledged and chunk 2 not yet demanded, no chunk is
  pending, so the streaming phase is saved and \<open>runSnapshot\<close> stops waiting. (3) When the scan
  has moved to the next table, an acknowledgement for the previous table's chunk stores its
  highest key as the cursor of the new table.
\<close>

theorem engine_unsafe_resume:
  "(case engine_run (engine_with [change 10, change 20])
          [Demand 2, Ack [Some (change 10)] (Some ''failed''), Ack [Some (change 20)] None] of
      Inl _ \<Rightarrow> False
    | Inr e \<Rightarrow> map st_ConfirmedLSN (en_saved e) = [20]) \<and>
   (case engine_run (engine_with rows2) [Demand 1, ScanDone, Ack [Some (hd rows2)] None] of
      Inl _ \<Rightarrow> False
    | Inr e \<Rightarrow> map st_Phase (en_saved e) = [PhaseStreaming] \<and> all_chunks_acked e \<and>
             mg_output (en_merger e) = [row_read ''orders'' 2 1 (PKInt 20) (PKInt 20)]) \<and>
   (case engine_run (engine_with rows2) [Demand 2, BeginTable ''public.users'', Ack (map Some rows2) None] of
      Inl _ \<Rightarrow> False
    | Inr e \<Rightarrow> map st_CurrentSnapshotTable (en_saved e) = [''public.users''] \<and>
             map st_SnapshotCursor (en_saved e) = [PKInt 20])"
  by (simp add: rows2_def engine_example_simps numeral_eq_Suc)

end
