(* ===== verification/Snapshotter.thy ===== *)
theory Snapshotter
  imports Merger
begin

text \<open>
  \<open>pg/snapshot.go\<close>: the scan of one table in ascending key order, chunk by chunk. The database
  is a parameter: what the calls of one transaction return, as a function of the query text and
  its arguments (and of the chunk, since the table may change between two chunks). The calls of
  the merger are the list of operations that the scan emits.
\<close>

section \<open>Names and queries\<close>

definition splitQualifiedTable :: "string \<Rightarrow> string \<times> string" where
  "splitQualifiedTable qualified =
     (case dropWhile (\<lambda>c. c \<noteq> CHR ''.'') qualified of
        [] \<Rightarrow> ('''', qualified)
      | _ # table \<Rightarrow> (takeWhile (\<lambda>c. c \<noteq> CHR ''.'') qualified, table))"

definition pgQuoteIdent :: "string \<Rightarrow> string" where
  "pgQuoteIdent s =
     CHR 0x22 # concat (map (\<lambda>c. if c = CHR 0x22 then [CHR 0x22, CHR 0x22] else [c]) s) @ [CHR 0x22]"

record snapshotter =
  sn_table :: string
  sn_schema :: string
  sn_tableName :: string
  sn_pkCol :: string
  sn_chunkSize :: int

definition newSnapshotter :: "string \<Rightarrow> string \<Rightarrow> int \<Rightarrow> snapshotter" where
  "newSnapshotter table pkCol chunkSize =
     (let (schema, tableName) = splitQualifiedTable table
      in \<lparr>sn_table = table, sn_schema = schema, sn_tableName = tableName, sn_pkCol = pkCol,
          sn_chunkSize = chunkSize\<rparr>)"

text \<open>The query text and its arguments; an argument \<open>cursor.Value()\<close> is the key itself.\<close>

definition buildChunkQuery :: "snapshotter \<Rightarrow> PK \<Rightarrow> string \<times> PK list" where
  "buildChunkQuery s cursor =
     (let sb = ''SELECT * FROM '' @ sn_table s;
          quotedPK = pgQuoteIdent (sn_pkCol s);
          (args, sb) = (if IsSet cursor then ([cursor], sb @ '' WHERE '' @ quotedPK @ '' > $1'') else ([], sb))
      in (sb @ '' ORDER BY '' @ quotedPK @ '' LIMIT '' @ dec_int (sn_chunkSize s), args))"

text \<open>
  \<open>fmt.Sscanf(s, "%d:", &xmin)\<close> into a \<open>uint32\<close>: leading blanks are skipped, the longest run of
  digits is parsed as a \<open>uint64\<close>, and a value that does not fit in 32 bits is an error. The
  error is ignored, so \<open>xmin\<close> stays 0 then. The colon is matched after the assignment.
\<close>

definition is_blank :: "char \<Rightarrow> bool" where
  "is_blank c \<longleftrightarrow> c \<in> {CHR 0x20, CHR 0x09, CHR 0x0B, CHR 0x0C, CHR 0x0D}"

definition parseXMin :: "string \<Rightarrow> 32 word" where
  "parseXMin s =
     (case parse_uint (takeWhile is_digit (dropWhile is_blank s)) of
        None \<Rightarrow> 0
      | Some n \<Rightarrow> if n < 2 ^ 32 then of_nat n else 0)"

section \<open>One chunk\<close>

text \<open>What the calls of a transaction return: an error, or their result.\<close>

record chunk_tx =
  tx_begin :: "string option"
  tx_snapshot :: "string + string"
  tx_query :: "string + string list"        \<comment> \<open>the names of the columns\<close>
  tx_rows :: "(string + goval list) list"   \<comment> \<open>\<open>Values()\<close> of each row\<close>
  tx_rows_err :: "string option"
  tx_commit :: "string option"

text \<open>\<open>for i, col := range colNames { row[col] = vals[i] }\<close>.\<close>

fun fill_row :: "string list \<Rightarrow> goval list \<Rightarrow> (string \<times> goval) list \<Rightarrow> (string \<times> goval) list go" where
  "fill_row [] vals row = Inr row"
| "fill_row (col # cols) (v # vals) row = fill_row cols vals (AList.update col v row)"
| "fill_row (col # cols) [] row = Inl IndexOutOfRange"

fun read_rows :: "string list \<Rightarrow> (string + goval list) list \<Rightarrow> Row list \<Rightarrow> (string + Row list) go" where
  "read_rows cols [] rows = Inr (Inr rows)"
| "read_rows cols (Inl err # rest) rows = Inr (Inl err)"
| "read_rows cols (Inr vals # rest) rows =
     go_bind (fill_row cols vals []) (\<lambda>row. read_rows cols rest (rows @ [Some row]))"

definition readChunk :: "snapshotter \<Rightarrow> (string \<Rightarrow> PK list \<Rightarrow> chunk_tx) \<Rightarrow> PK
    \<Rightarrow> (string + Row list \<times> 32 word \<times> PK) go" where
  "readChunk s db cursor =
     (let (query, args) = buildChunkQuery s cursor; tx = db query args
      in case tx_begin tx of
           Some err \<Rightarrow> Inr (Inl err)
         | None \<Rightarrow>
         (case tx_snapshot tx of
            Inl err \<Rightarrow> Inr (Inl err)
          | Inr snapshotText \<Rightarrow>
          (case tx_query tx of
             Inl err \<Rightarrow> Inr (Inl err)
           | Inr colNames \<Rightarrow>
             go_bind (read_rows colNames (tx_rows tx) [])
               (\<lambda>r. case r of
                  Inl err \<Rightarrow> Inr (Inl err)
                | Inr rows \<Rightarrow>
                  (case tx_rows_err tx of
                     Some err \<Rightarrow> Inr (Inl err)
                   | None \<Rightarrow>
                   (case tx_commit tx of
                      Some err \<Rightarrow> Inr (Inl err)
                    | None \<Rightarrow>
                        Inr (Inr (rows, parseXMin snapshotText,
                                  if length rows > 0 then pkFromValue (row_get (last rows) (sn_pkCol s))
                                  else PKNil))))))))"

section \<open>The scan\<close>

datatype scan_end =
    Scanned                \<comment> \<open>an empty chunk: the table is fully scanned\<close>
  | ScanError string
  | ScanCancelled
  | ScanPanic go_panic
  | ScanFuel               \<comment> \<open>still running\<close>

definition read_row_event :: "snapshotter \<Rightarrow> int \<Rightarrow> int \<Rightarrow> PK \<Rightarrow> Row \<Rightarrow> CDCEvent" where
  "read_row_event s chunkID n actualHigh row =
     \<lparr>ev_Schema = sn_schema s, ev_Table = sn_tableName s, ev_Operation = OperationRead,
      ev_PK = pkFromValue (row_get row (sn_pkCol s)), ev_Before = None, ev_After = row,
      ev_commitXID = 0, ev_commitLSN = 0, ev_chunkID = chunkID, ev_chunkSize = n,
      ev_chunkHighPK = actualHigh\<rparr>"

text \<open>
  \<open>run\<close>: one unit of fuel per chunk. \<open>cancelled\<close> is \<open>ctx.Err() != nil\<close> at the head of the loop.
\<close>

fun snap_run :: "nat \<Rightarrow> snapshotter \<Rightarrow> (int \<Rightarrow> string \<Rightarrow> PK list \<Rightarrow> chunk_tx) \<Rightarrow> (int \<Rightarrow> bool)
    \<Rightarrow> PK \<Rightarrow> int \<Rightarrow> merger_op list \<times> scan_end" where
  "snap_run 0 s db cancelled cursor chunkID = ([], ScanFuel)"
| "snap_run (Suc fuel) s db cancelled cursor chunkID =
     (if cancelled chunkID then ([], ScanCancelled)
      else let begin = BeginChunk chunkID (sn_table s) cursor (pk_Next cursor (sn_chunkSize s))
           in case readChunk s (db chunkID) cursor of
                Inl p \<Rightarrow> ([begin], ScanPanic p)
              | Inr (Inl err) \<Rightarrow> ([begin], ScanError (''snapshot chunk '' @ dec_int chunkID @ '': '' @ err))
              | Inr (Inr (rows, xmin, actualHigh)) \<Rightarrow>
                  if length rows = 0 then ([begin], Scanned)
                  else let (ops, result) = snap_run fuel s db cancelled actualHigh (chunkID + 1)
                       in (begin # EndChunk chunkID (sn_table s) actualHigh xmin
                             # map (\<lambda>row. SnapshotEvent (read_row_event s chunkID (int (length rows)) actualHigh row)) rows
                             @ ops, result))"

definition reads_of :: "merger_op list \<Rightarrow> CDCEvent list" where
  "reads_of ops = concat (map op_read ops)"

lemma reads_of_simps [simp]:
  "reads_of [] = []"
  "reads_of (op # ops) = op_read op @ reads_of ops"
  "reads_of (xs @ ys) = reads_of xs @ reads_of ys"
  "reads_of (map (\<lambda>r. SnapshotEvent (f r)) rows) = map f rows"
  by (induction rows) (simp_all add: reads_of_def)

section \<open>Lemmas on rows and chunks\<close>

lemma fill_row_zip:
  "length vals = length cols \<Longrightarrow> distinct cols \<Longrightarrow> set cols \<inter> fst ` set row = {} \<Longrightarrow>
     fill_row cols vals row = Inr (row @ zip cols vals)"
proof (induction cols vals row rule: fill_row.induct)
  case (2 col cols v vals row)
  then have "map_of row col = None" by (simp add: map_of_eq_None_iff)
  with 2 show ?case by (auto simp: update_absent disjoint_iff)
qed auto

lemma read_rows_zip:
  assumes "distinct cols" and "\<forall>vals \<in> set vs. length vals = length cols"
  shows "read_rows cols (map Inr vs) rows = Inr (Inr (rows @ map (\<lambda>vals. Some (zip cols vals)) vs))"
  using assms(2) by (induction vs arbitrary: rows) (simp_all add: fill_row_zip assms(1))

text \<open>
  A table that does not change during the scan: \<open>cols\<close> and the rows in key order. The law of
  the parameter \<open>db\<close> is what SQL says of the query that \<open>buildChunkQuery\<close> writes: the rows
  whose key is above the argument, in key order, at most as many as the limit.
\<close>

definition key_of :: "snapshotter \<Rightarrow> string list \<Rightarrow> goval list \<Rightarrow> PK" where
  "key_of s cols vals = pkFromValue (row_get (Some (zip cols vals)) (sn_pkCol s))"

definition above :: "PK \<Rightarrow> PK \<Rightarrow> bool" where
  "above cursor k \<longleftrightarrow> cursor = PKNil \<or> pk_rank cursor < pk_rank k"

definition remaining :: "snapshotter \<Rightarrow> string list \<Rightarrow> goval list list \<Rightarrow> PK \<Rightarrow> goval list list" where
  "remaining s cols table cursor = filter (\<lambda>vals. above cursor (key_of s cols vals)) table"

definition table_answer :: "snapshotter \<Rightarrow> string list \<Rightarrow> goval list list \<Rightarrow> string \<Rightarrow> PK \<Rightarrow> chunk_tx" where
  "table_answer s cols table snapshotText cursor =
     \<lparr>tx_begin = None, tx_snapshot = Inr snapshotText, tx_query = Inr cols,
      tx_rows = map Inr (take (nat (sn_chunkSize s)) (remaining s cols table cursor)),
      tx_rows_err = None, tx_commit = None\<rparr>"

definition serves_table :: "snapshotter \<Rightarrow> (int \<Rightarrow> string \<Rightarrow> PK list \<Rightarrow> chunk_tx) \<Rightarrow> string list
    \<Rightarrow> goval list list \<Rightarrow> (int \<Rightarrow> string) \<Rightarrow> bool" where
  "serves_table s db cols table snaps \<longleftrightarrow>
     distinct cols \<and> list_all (\<lambda>vals. length vals = length cols) table \<and>
     (\<forall>c cursor. db c (fst (buildChunkQuery s cursor)) (snd (buildChunkQuery s cursor)) =
        table_answer s cols table (snaps c) cursor)"

definition row_of :: "string list \<Rightarrow> goval list \<Rightarrow> Row" where
  "row_of cols vals = Some (zip cols vals)"

lemma readChunk_table:
  assumes "serves_table s db cols table snaps"
  shows "readChunk s (db c) cursor =
    (let page = take (nat (sn_chunkSize s)) (remaining s cols table cursor)
     in Inr (Inr (map (row_of cols) page, parseXMin (snaps c), if page = [] then PKNil else key_of s cols (last page))))"
proof -
  let ?page = "take (nat (sn_chunkSize s)) (remaining s cols table cursor)"
  obtain query args where q: "buildChunkQuery s cursor = (query, args)" by fastforce
  from assms have "db c (fst (buildChunkQuery s cursor)) (snd (buildChunkQuery s cursor)) =
      table_answer s cols table (snaps c) cursor"
    unfolding serves_table_def by blast
  then have db: "db c query args = table_answer s cols table (snaps c) cursor" by (simp add: q)
  have "distinct cols" and "\<forall>vals \<in> set ?page. length vals = length cols"
    using assms by (auto simp: serves_table_def list_all_iff remaining_def dest!: in_set_takeD)
  then have "read_rows cols (map Inr ?page) [] = Inr (Inr (map (row_of cols) ?page))"
    by (simp add: read_rows_zip row_of_def [abs_def])
  with q db show ?thesis
    by (simp add: readChunk_def table_answer_def last_map key_of_def row_of_def Let_def)
qed

section \<open>The scan of a table that does not change\<close>

definition sorted_table :: "snapshotter \<Rightarrow> string list \<Rightarrow> goval list list \<Rightarrow> bool" where
  "sorted_table s cols table \<longleftrightarrow>
     sorted_wrt (\<lambda>v w. pk_rank (key_of s cols v) < pk_rank (key_of s cols w)) table \<and>
     (\<forall>v \<in> set table. \<forall>w \<in> set table. same_kind (key_of s cols v) (key_of s cols w))"

lemma sorted_table_key: "sorted_table s cols table \<Longrightarrow> v \<in> set table \<Longrightarrow> key_of s cols v \<noteq> PKNil"
  by (auto simp: sorted_table_def)

lemma page_order:
  assumes st: "sorted_table s cols table" and ne: "take n (remaining s cols table cursor) \<noteq> []"
  defines "page \<equiv> take n (remaining s cols table cursor)"
  shows "v \<in> set page \<Longrightarrow> pk_rank (key_of s cols v) \<le> pk_rank (key_of s cols (last page))"
    and "v \<in> set (drop n (remaining s cols table cursor)) \<Longrightarrow> pk_rank (key_of s cols (last page)) < pk_rank (key_of s cols v)"
proof -
  let ?R = "remaining s cols table cursor" and ?h = "key_of s cols (last page)"
  have page_ne: "page \<noteq> []" using ne by (simp add: page_def)
  have srt: "sorted_wrt (\<lambda>v w. pk_rank (key_of s cols v) < pk_rank (key_of s cols w)) (page @ drop n ?R)"
    using st by (simp add: page_def sorted_table_def remaining_def sorted_wrt_filter)
  then show "v \<in> set (drop n ?R) \<Longrightarrow> pk_rank ?h < pk_rank (key_of s cols v)"
    using page_ne by (simp add: sorted_wrt_append)
  have split: "page = butlast page @ [last page]" using page_ne by simp
  with srt have "\<forall>v \<in> set (butlast page). pk_rank (key_of s cols v) < pk_rank ?h"
    by (metis (no_types, lifting) list.set_intros(1) sorted_wrt_append)
  moreover have "set page = insert (last page) (set (butlast page))" by (subst split) simp
  ultimately show "v \<in> set page \<Longrightarrow> pk_rank (key_of s cols v) \<le> pk_rank ?h" by auto
qed

lemma remaining_drop:
  assumes st: "sorted_table s cols table" and n: "0 < n" and ne: "remaining s cols table cursor \<noteq> []"
  defines "page \<equiv> take n (remaining s cols table cursor)"
  shows "remaining s cols table (key_of s cols (last page)) = drop n (remaining s cols table cursor)"
proof -
  let ?R = "remaining s cols table cursor" and ?h = "key_of s cols (last page)"
  have page_ne: "take n ?R \<noteq> []" using n ne by simp
  then have "last page \<in> set page" by (simp add: page_def)
  then have "last page \<in> set ?R" by (auto simp: page_def dest: in_set_takeD)
  then have h: "?h \<noteq> PKNil" "above cursor ?h"
    using sorted_table_key [OF st] by (auto simp: remaining_def)
  have sub: "above ?h k \<Longrightarrow> above cursor k" for k using h by (auto simp: above_def)
  note order = page_order [OF st page_ne, folded page_def]
  have page_out: "filter (\<lambda>v. above ?h (key_of s cols v)) page = []"
    using order(1) h by (fastforce simp: filter_empty_conv above_def)
  have rest_in: "filter (\<lambda>v. above ?h (key_of s cols v)) (drop n ?R) = drop n ?R"
    using order(2) by (auto simp: filter_id_conv above_def)
  have "remaining s cols table ?h = filter (\<lambda>v. above ?h (key_of s cols v)) ?R"
    using sub by (auto simp: remaining_def intro!: filter_cong)
  also have "\<dots> = filter (\<lambda>v. above ?h (key_of s cols v)) (page @ drop n ?R)"
    by (simp add: page_def)
  also have "\<dots> = drop n ?R" using page_out rest_in by simp
  finally show ?thesis .
qed

lemma merger_run_reads:
  "unsent m = [] \<Longrightarrow> merger_run m (map (\<lambda>r. SnapshotEvent (f r)) rows) = Inr (emit (map f rows) m)"
  by (induction rows arbitrary: m) (simp_all add: unsent_def onSnapshotEvent_def emit_def)

definition chunk_range :: "snapshotter \<Rightarrow> PK \<Rightarrow> PK \<Rightarrow> 32 word \<Rightarrow> PKRange" where
  "chunk_range s low high xmin = \<lparr>rg_Table = sn_table s, rg_Low = low, rg_High = high, rg_XMin = xmin\<rparr>"

text \<open>A whole chunk, with no WAL event buffered: its range is recorded, its rows are sent.\<close>

lemma merger_run_chunk:
  assumes "unsent m = []"
  shows "merger_run m (BeginChunk c (sn_table s) low est # EndChunk c (sn_table s) high xmin
      # map (\<lambda>r. SnapshotEvent (f r)) rows) =
    Inr (emit (map f rows) (m\<lparr>mg_currentChunk := None,
      mg_scannedRanges := mg_scannedRanges m @ [chunk_range s low high xmin]\<rparr>))"
  using assms by (simp add: unsent_def merger_run_reads onBeginChunk_def onEndChunk_def chunk_range_def emit_def Let_def)

lemma snap_run_page:
  assumes serves: "serves_table s db cols table snaps" and n: "0 < sn_chunkSize s"
  defines "page \<equiv> \<lambda>cursor. take (nat (sn_chunkSize s)) (remaining s cols table cursor)"
  shows "snap_run (Suc fuel) s db (\<lambda>_. False) cursor c =
    (if remaining s cols table cursor = []
     then ([BeginChunk c (sn_table s) cursor (pk_Next cursor (sn_chunkSize s))], Scanned)
     else let high = key_of s cols (last (page cursor));
              (ops, result) = snap_run fuel s db (\<lambda>_. False) high (c + 1)
          in (BeginChunk c (sn_table s) cursor (pk_Next cursor (sn_chunkSize s))
                # EndChunk c (sn_table s) high (parseXMin (snaps c))
                # map (\<lambda>vals. SnapshotEvent (read_row_event s c (int (length (page cursor))) high (row_of cols vals))) (page cursor)
                @ ops, result))"
  using n by (simp add: readChunk_table [OF serves] page_def Let_def case_prod_beta)

lemma snap_run_static:
  assumes serves: "serves_table s db cols table snaps" and n: "0 < sn_chunkSize s"
    and st: "sorted_table s cols table"
  shows "\<forall>v \<in> set table. bound_for (key_of s cols v) cursor \<Longrightarrow> length (remaining s cols table cursor) < fuel \<Longrightarrow>
    unsent m = [] \<Longrightarrow>
    \<exists>ops m' rs. snap_run fuel s db (\<lambda>_. False) cursor c = (ops, Scanned) \<and>
      map ev_After (reads_of ops) = map (row_of cols) (remaining s cols table cursor) \<and>
      map ev_PK (reads_of ops) = map (key_of s cols) (remaining s cols table cursor) \<and>
      merger_run m ops = Inr m' \<and> unsent m' = [] \<and>
      mg_output m' = mg_output m @ reads_of ops \<and> mg_phase m' = mg_phase m \<and>
      mg_scannedRanges m' = mg_scannedRanges m @ rs \<and>
      (\<forall>e \<in> set (reads_of ops). \<exists>r. findScannedRange rs (sn_table s) (ev_PK e) = Inr (Some r) \<and>
         rg_XMin r = parseXMin (snaps (ev_chunkID e)))"
proof (induction fuel arbitrary: cursor c m)
  case 0
  then show ?case by simp
next
  case (Suc fuel)
  let ?R = "remaining s cols table cursor"
  let ?n = "nat (sn_chunkSize s)"
  show ?case
  proof (cases "?R = []")
    case True
    then show ?thesis using Suc.prems
      by (auto simp: snap_run_page [OF serves n] onBeginChunk_def unsent_def simp del: snap_run.simps(2))
  next
    case False
    define page where "page = take ?n ?R"
    define high where "high = key_of s cols (last page)"
    define r0 where "r0 = chunk_range s cursor high (parseXMin (snaps c))"
    define f where "f = (\<lambda>vals. read_row_event s c (int (length page)) high (row_of cols vals))"
    define m1 where "m1 = emit (map f page) (m\<lparr>mg_currentChunk := None, mg_scannedRanges := mg_scannedRanges m @ [r0]\<rparr>)"
    have page_ne: "page \<noteq> []" using False n by (simp add: page_def)
    then have "last page \<in> set page" by simp
    then have lastR: "last page \<in> set ?R" by (auto simp: page_def dest: in_set_takeD)
    then have last_t: "last page \<in> set table" by (simp add: remaining_def)
    have next_R: "remaining s cols table high = drop ?n ?R"
      unfolding high_def page_def using st n False by (intro remaining_drop) auto
    have bounds: "\<forall>v \<in> set table. bound_for (key_of s cols v) high"
      using st last_t by (auto simp: sorted_table_def bound_for_def high_def)
    have "length (remaining s cols table high) < fuel"
      using Suc.prems(2) False n by (cases ?R) (auto simp: next_R)
    moreover have "unsent m1 = []" using Suc.prems(3) by (simp add: m1_def unsent_def)
    ultimately obtain ops m' rs where IH: "snap_run fuel s db (\<lambda>_. False) high (c + 1) = (ops, Scanned)"
        "map ev_After (reads_of ops) = map (row_of cols) (drop ?n ?R)"
        "map ev_PK (reads_of ops) = map (key_of s cols) (drop ?n ?R)"
        "merger_run m1 ops = Inr m'" "unsent m' = []"
        "mg_output m' = mg_output m1 @ reads_of ops" "mg_phase m' = mg_phase m1"
        "mg_scannedRanges m' = mg_scannedRanges m1 @ rs"
        "\<forall>e \<in> set (reads_of ops). \<exists>r. findScannedRange rs (sn_table s) (ev_PK e) = Inr (Some r) \<and>
           rg_XMin r = parseXMin (snaps (ev_chunkID e))"
      using Suc.IH [OF bounds, of m1 "c + 1"] unfolding next_R by blast
    define pre where "pre = BeginChunk c (sn_table s) cursor (pk_Next cursor (sn_chunkSize s))
        # EndChunk c (sn_table s) high (parseXMin (snaps c)) # map (\<lambda>v. SnapshotEvent (f v)) page"
    have run: "snap_run (Suc fuel) s db (\<lambda>_. False) cursor c = (pre @ ops, Scanned)"
      using False IH(1) by (simp add: snap_run_page [OF serves n] pre_def f_def high_def page_def Let_def del: snap_run.simps(2))
    have "merger_run m pre = Inr m1"
      unfolding pre_def m1_def r0_def by (rule merger_run_chunk [OF Suc.prems(3)])
    then have merged: "merger_run m (pre @ ops) = Inr m'" using IH(4) by (simp add: merger_run_append)
    have reads: "reads_of (pre @ ops) = map f page @ reads_of ops" by (simp add: pre_def)
    have "map ev_After (map f page) = map (row_of cols) page" "map ev_PK (map f page) = map (key_of s cols) page"
      by (simp_all add: f_def read_row_event_def key_of_def row_of_def)
    then have "map ev_After (reads_of (pre @ ops)) = map (row_of cols) (page @ drop ?n ?R)"
        "map ev_PK (reads_of (pre @ ops)) = map (key_of s cols) (page @ drop ?n ?R)"
      using IH(2,3) unfolding reads by (simp_all del: map_map)
    moreover have "page @ drop ?n ?R = ?R" by (simp add: page_def)
    ultimately have rows: "map ev_After (reads_of (pre @ ops)) = map (row_of cols) ?R"
        "map ev_PK (reads_of (pre @ ops)) = map (key_of s cols) ?R" by metis+
    have in_table: "v \<in> set page \<Longrightarrow> v \<in> set table" "v \<in> set (drop ?n ?R) \<Longrightarrow> v \<in> set table" for v
      by (auto simp: page_def remaining_def dest: in_set_takeD in_set_dropD)
    note order = page_order [OF st, of ?n cursor, folded page_def high_def, OF page_ne]
    have in_range: "inRange (key_of s cols v) cursor high = Inr (v \<in> set page)" if "v \<in> set page \<or> v \<in> set (drop ?n ?R)" for v
    proof -
      have v: "v \<in> set ?R" "v \<in> set table" using that in_table by (auto simp: page_def dest: in_set_takeD in_set_dropD)
      then have "key_of s cols v \<noteq> PKNil" "above cursor (key_of s cols v)"
        using sorted_table_key [OF st] by (auto simp: remaining_def)
      then show ?thesis
        using that order v Suc.prems(1) bounds sorted_table_key [OF st last_t]
        by (fastforce simp: inRange_rank above_def high_def)
    qed
    have found: "\<exists>r. findScannedRange (r0 # rs) (sn_table s) (ev_PK e) = Inr (Some r) \<and> rg_XMin r = parseXMin (snaps (ev_chunkID e))"
      if "e \<in> set (reads_of (pre @ ops))" for e
    proof (cases "e \<in> f ` set page")
      case True
      then obtain v where "v \<in> set page" "e = f v" by blast
      moreover have "ev_PK (f v) = key_of s cols v" "ev_chunkID (f v) = c"
        by (simp_all add: f_def read_row_event_def key_of_def row_of_def)
      ultimately show ?thesis using in_range [of v] by (simp add: r0_def chunk_range_def)
    next
      case False
      with that have e: "e \<in> set (reads_of ops)" unfolding reads by simp
      then have "ev_PK e \<in> set (map ev_PK (reads_of ops))" by simp
      then have "ev_PK e \<in> key_of s cols ` set (drop ?n ?R)" unfolding IH(3) by simp
      then obtain v where "v \<in> set (drop ?n ?R)" "ev_PK e = key_of s cols v" by blast
      moreover have "v \<notin> set page" if "v \<in> set (drop ?n ?R)" for v
        using order [of v] that by fastforce
      ultimately have "inRange (ev_PK e) cursor high = Inr False" using in_range [of v] by simp
      then show ?thesis using IH(9) e by (simp add: r0_def chunk_range_def)
    qed
    have outs: "mg_output m' = mg_output m @ reads_of (pre @ ops)" "mg_phase m' = mg_phase m"
      "mg_scannedRanges m' = mg_scannedRanges m @ r0 # rs"
      using IH(6-8) unfolding reads by (simp_all add: m1_def)
    show ?thesis
      by (intro exI [of _ "pre @ ops"] exI [of _ m'] exI [of _ "r0 # rs"] conjI ballI run rows merged IH(5) found outs)
  qed
qed

text \<open>Keys that \<open>pkFromValue\<close> does not support: every chunk starts from the beginning again.\<close>

lemma snap_run_unset_keys:
  assumes serves: "serves_table s db cols table snaps" and n: "0 < sn_chunkSize s"
    and ne: "table \<noteq> []" and unset: "\<forall>v \<in> set table. key_of s cols v = PKNil"
  shows "\<exists>ops. snap_run fuel s db (\<lambda>_. False) PKNil c = (ops, ScanFuel) \<and>
    map ev_After (reads_of ops) = concat (replicate fuel (map (row_of cols) (take (nat (sn_chunkSize s)) table)))"
proof (induction fuel arbitrary: c)
  case 0
  show ?case by simp
next
  case (Suc fuel)
  let ?page = "take (nat (sn_chunkSize s)) table"
  have R: "remaining s cols table PKNil = table" by (simp add: remaining_def above_def)
  have "?page \<noteq> []" using ne n by simp
  then have "last ?page \<in> set ?page" by (rule last_in_set)
  then have high: "key_of s cols (last ?page) = PKNil" using unset by (blast dest: in_set_takeD)
  from Suc.IH [of "c + 1"] obtain ops where "snap_run fuel s db (\<lambda>_. False) PKNil (c + 1) = (ops, ScanFuel)"
    "map ev_After (reads_of ops) = concat (replicate fuel (map (row_of cols) ?page))" by blast
  then show ?case using ne
    by (simp add: snap_run_page [OF serves n] R high Let_def read_row_event_def o_def del: snap_run.simps(2))
qed

lemma digit_not_blank: "is_digit c \<Longrightarrow> \<not> is_blank c"
  by (auto simp: is_blank_def is_digit_def)

lemma takeWhile_digits: "list_all is_digit ds \<Longrightarrow> \<not> is_digit c \<Longrightarrow> takeWhile is_digit (ds @ c # cs) = ds"
  by (induction ds) auto

fun sql_quoted :: "string \<Rightarrow> (string \<times> string) option" where
  "sql_quoted [] = None"
| "sql_quoted (c # cs) =
     (if c \<noteq> CHR 0x22 then map_option (\<lambda>(s, r). (c # s, r)) (sql_quoted cs)
      else case cs of
             [] \<Rightarrow> Some ([], [])
           | d # ds \<Rightarrow> if d = CHR 0x22 then map_option (\<lambda>(s, r). (CHR 0x22 # s, r)) (sql_quoted ds)
                      else Some ([], cs))"

section \<open>Properties\<close>

text \<open>
  Claim C33. The scan of a table that does not change is complete and ends: with fuel for one
  chunk per remaining row, \<open>run\<close> returns because the table is fully scanned, and it has sent
  one READ event for every row whose key is above the cursor, in ascending key order, each
  exactly once, whatever the chunk size.
\<close>

theorem snapshot_scans_table:
  assumes "serves_table s db cols table snaps" and "0 < sn_chunkSize s" and "sorted_table s cols table"
    and "\<forall>v \<in> set table. bound_for (key_of s cols v) cursor"
    and "length (remaining s cols table cursor) < fuel"
  shows "\<exists>ops. snap_run fuel s db (\<lambda>_. False) cursor c = (ops, Scanned) \<and>
    map ev_After (reads_of ops) = map (row_of cols) (remaining s cols table cursor) \<and>
    map ev_PK (reads_of ops) = map (key_of s cols) (remaining s cols table cursor)"
  using snap_run_static [OF assms, of "newMerger [] PhaseSnapshotting" c] by auto

text \<open>
  Claim C34. After such a scan the merger knows every row it delivered: the calls of the scan
  never panic, the merger has put exactly the READ events on its channel, and for the key of
  each of them \<open>findScannedRange\<close> finds a range whose \<open>xmin\<close> is the one of the transaction
  that read the row.
\<close>

theorem snapshot_ranges_cover:
  assumes "serves_table s db cols table snaps" and "0 < sn_chunkSize s" and "sorted_table s cols table"
    and "\<forall>v \<in> set table. bound_for (key_of s cols v) cursor"
    and "length (remaining s cols table cursor) < fuel"
  shows "\<exists>m. merger_run (newMerger [] PhaseSnapshotting) (fst (snap_run fuel s db (\<lambda>_. False) cursor c)) = Inr m \<and>
    mg_output m = reads_of (fst (snap_run fuel s db (\<lambda>_. False) cursor c)) \<and>
    (\<forall>e \<in> set (mg_output m). \<exists>r. findScannedRange (mg_scannedRanges m) (sn_table s) (ev_PK e) = Inr (Some r) \<and>
       rg_XMin r = parseXMin (snaps (ev_chunkID e)))"
  using snap_run_static [OF assms, of "newMerger [] PhaseSnapshotting" c] by auto

text \<open>
  The scan never ends on a table whose keys \<open>pkFromValue\<close> turns into the unset key
  (texts, or \<open>smallint\<close> values, which pgx returns as \<open>int16\<close>): after any number of chunks it
  is still running, and each chunk has sent the first rows of the table again.
\<close>

theorem snapshot_unset_keys_diverge:
  assumes "serves_table s db cols table snaps" and "0 < sn_chunkSize s"
    and "table \<noteq> []" and "\<forall>v \<in> set table. key_of s cols v = PKNil"
  shows "\<exists>ops. snap_run fuel s db (\<lambda>_. False) PKNil c = (ops, ScanFuel) \<and>
    map ev_After (reads_of ops) = concat (replicate fuel (map (row_of cols) (take (nat (sn_chunkSize s)) table)))"
  using assms by (rule snap_run_unset_keys)

text \<open>
  \<open>parseXMin\<close> reads the \<open>xmin\<close> of a snapshot text \<open>xmin:xmax:list\<close> if it fits in 32
  bits; the ids of \<open>txid_current_snapshot()\<close> carry the epoch in the upper bits, so after the
  first wrap-around of the transaction counter the result is 0.
\<close>

theorem parseXMin_value:
  "parseXMin (dec_nat n @ '':'' @ rest) = (if n < 2 ^ 32 then of_nat n else 0)"
proof -
  have digits: "list_all is_digit (dec_nat n)" "dec_nat n \<noteq> []" using dec_nat_digits by auto
  then obtain d ds where d: "dec_nat n = d # ds" by (cases "dec_nat n") auto
  with digits have "dropWhile is_blank (dec_nat n @ '':'' @ rest) = dec_nat n @ '':'' @ rest"
    by (simp add: digit_not_blank)
  moreover have "\<not> is_digit CHR '':''" by code_simp
  ultimately have "takeWhile is_digit (dropWhile is_blank (dec_nat n @ '':'' @ rest)) = dec_nat n"
    using takeWhile_digits [OF digits(1), of "CHR '':''" rest] by simp
  then show ?thesis using digits parse_dec_nat [of n] by (simp add: parseXMin_def parse_uint_def)
qed

text \<open>
  A column name is quoted so that SQL reads it back: scanning the quoted identifier up
  to its closing quote gives the name, whatever quotes it contains, and leaves the rest of the
  query.
\<close>

theorem pgQuoteIdent_roundtrip:
  assumes "take 1 rest \<noteq> [CHR 0x22]"
  shows "hd (pgQuoteIdent s @ rest) = CHR 0x22 \<and> sql_quoted (tl (pgQuoteIdent s @ rest)) = Some (s, rest)"
proof -
  have "sql_quoted (concat (map (\<lambda>c. if c = CHR 0x22 then [CHR 0x22, CHR 0x22] else [c]) s) @ CHR 0x22 # rest) = Some (s, rest)"
    using assms by (induction s) (auto split: list.splits)
  then show ?thesis by (simp add: pgQuoteIdent_def)
qed

text \<open>
  The READ events carry the two halves of the configured table name, and the merger
  joins them again to the name under which the chunk was announced, unless that name starts
  with a dot.
\<close>

theorem qualify_split:
  "(let s = newSnapshotter table pkCol n in qualifyTable (sn_schema s) (sn_tableName s) = sn_table s)
     \<longleftrightarrow> take 1 table \<noteq> ''.''"
proof (cases "dropWhile (\<lambda>c. c \<noteq> CHR ''.'') table")
  case Nil
  then have "take 1 table \<noteq> ''.''" by (cases table) (auto split: if_splits)
  moreover have "splitQualifiedTable table = ('''', table)"
    by (simp only: splitQualifiedTable_def Nil list.case)
  ultimately show ?thesis by (simp add: newSnapshotter_def qualifyTable_def)
next
  case (Cons d t)
  then have "d = CHR ''.''" by (metis (mono_tags, lifting) hd_dropWhile list.distinct(1) list.sel(1))
  with Cons have split: "table = takeWhile (\<lambda>c. c \<noteq> CHR ''.'') table @ ''.'' @ t"
    using takeWhile_dropWhile_id [of "\<lambda>c. c \<noteq> CHR ''.''" table] by simp
  have "takeWhile (\<lambda>c. c \<noteq> CHR ''.'') table = [] \<longleftrightarrow> take 1 table = ''.''"
    using Cons by (cases table) auto
  moreover have "t \<noteq> ''.'' @ t" by simp
  moreover have "splitQualifiedTable table = (takeWhile (\<lambda>c. c \<noteq> CHR ''.'') table, t)"
    by (simp only: splitQualifiedTable_def Cons list.case)
  ultimately show ?thesis using split by (auto simp: newSnapshotter_def qualifyTable_def)
qed

text \<open>A database that answers from a fixed table, and a table of three rows read two at a time.\<close>

definition fixed_db :: "snapshotter \<Rightarrow> string list \<Rightarrow> goval list list \<Rightarrow> string \<Rightarrow> int \<Rightarrow> string \<Rightarrow> PK list \<Rightarrow> chunk_tx" where
  "fixed_db s cols table txt c query args =
     table_answer s cols table txt (case args of [] \<Rightarrow> PKNil | k # _ \<Rightarrow> k)"

lemma serves_fixed_db:
  assumes "distinct cols" "list_all (\<lambda>vals. length vals = length cols) table"
  shows "serves_table s (fixed_db s cols table txt) cols table (\<lambda>_. txt)"
  using assms by (simp add: serves_table_def fixed_db_def buildChunkQuery_def IsSet_def Let_def)

definition orders2 :: snapshotter where
  "orders2 = newSnapshotter ''public.orders'' ''id'' 2"

definition orders_table :: "goval list list" where
  "orders_table = [[VInt64 1, VString ''a''], [VInt64 5, VString ''b''], [VInt64 9, VString ''c'']]"

definition names_table :: "goval list list" where
  "names_table = [[VString ''alice'', VString ''a''], [VString ''bob'', VString ''b'']]"

lemmas table_example_simps = orders2_def orders_table_def names_table_def newSnapshotter_def splitQualifiedTable_def
  sorted_table_def key_of_def row_get_def remaining_def above_def bound_for_def row_of_def

lemma orders_served: "serves_table orders2 (fixed_db orders2 [''id'', ''name''] orders_table ''900:905:'') [''id'', ''name''] orders_table (\<lambda>_. ''900:905:'')"
  by (rule serves_fixed_db) (simp_all add: orders_table_def)

theorem snapshot_scans_table_witness:
  "\<exists>ops. snap_run 4 orders2 (fixed_db orders2 [''id'', ''name''] orders_table ''900:905:'') (\<lambda>_. False) PKNil 1 = (ops, Scanned) \<and>
     map ev_PK (reads_of ops) = [PKInt 1, PKInt 5, PKInt 9]"
  using snapshot_scans_table [OF orders_served, of PKNil 4 1]
  by (fastforce simp: table_example_simps)

theorem snapshot_ranges_cover_witness:
  "\<exists>m. merger_run (newMerger [] PhaseSnapshotting)
      (fst (snap_run 4 orders2 (fixed_db orders2 [''id'', ''name''] orders_table ''900:905:'') (\<lambda>_. False) PKNil 1)) = Inr m \<and>
    mg_output m = reads_of (fst (snap_run 4 orders2 (fixed_db orders2 [''id'', ''name''] orders_table ''900:905:'') (\<lambda>_. False) PKNil 1))"
  using snapshot_ranges_cover [OF orders_served, of PKNil 4 1]
  by (fastforce simp: table_example_simps)

theorem snapshot_unset_keys_diverge_witness:
  "\<exists>ops. snap_run 2 orders2 (fixed_db orders2 [''id'', ''name''] names_table ''900:905:'') (\<lambda>_. False) PKNil 1 = (ops, ScanFuel) \<and>
     length (reads_of ops) = 4"
proof -
  have served: "serves_table orders2 (fixed_db orders2 [''id'', ''name''] names_table ''900:905:'') [''id'', ''name''] names_table (\<lambda>_. ''900:905:'')"
    by (rule serves_fixed_db) (simp_all add: names_table_def)
  have "\<forall>v \<in> set names_table. key_of orders2 [''id'', ''name''] v = PKNil" by code_simp
  moreover have "0 < sn_chunkSize orders2" "names_table \<noteq> []" by code_simp+
  ultimately obtain ops where ops: "snap_run 2 orders2 (fixed_db orders2 [''id'', ''name''] names_table ''900:905:'') (\<lambda>_. False) PKNil 1 = (ops, ScanFuel)"
    "map ev_After (reads_of ops) = concat (replicate 2 (map (row_of [''id'', ''name'']) (take (nat (sn_chunkSize orders2)) names_table)))"
    using snapshot_unset_keys_diverge [OF served, of 2 1] by blast
  have "length (reads_of ops) = length (map ev_After (reads_of ops))" by simp
  also have "\<dots> = 4" unfolding ops(2) by code_simp
  finally show ?thesis using ops(1) by blast
qed

theorem pgQuoteIdent_roundtrip_witness:
  "sql_quoted (tl (pgQuoteIdent [CHR ''a'', CHR 0x22, CHR ''b''] @ '' > $1'')) = Some ([CHR ''a'', CHR 0x22, CHR ''b''], '' > $1'')"
  using pgQuoteIdent_roundtrip [of "'' > $1''" "[CHR ''a'', CHR 0x22, CHR ''b'']"] by simp

end
