(* ===== verification/WAL_Streamer.thy ===== *)
theory WAL_Streamer
  imports Merger
begin

text \<open>
  \<open>pg/wal.go\<close>: the consumer of the replication slot. The protocol library pglogrepl parses the
  messages; its message types are data here. One round of the loop in \<open>run\<close> is a step on the
  streamer's state, driven by what \<open>ReceiveMessage\<close> and the clock give in that round. The calls
  of \<open>onWALBatch\<close> and the standby status updates are logged in the state.
\<close>

section \<open>Messages\<close>

record tuple_column =
  tc_DataType :: char
  tc_Data :: string

record relation_column =
  rc_Flags :: "8 word"
  rc_Name :: string
  rc_DataType :: "32 word"

record relation_msg =
  rl_RelationID :: "32 word"
  rl_Namespace :: string
  rl_RelationName :: string
  rl_Columns :: "relation_column list"

type_synonym tuple_data = "tuple_column list option"  \<comment> \<open>a pointer that may be nil\<close>

datatype logical_msg =
    RelationMessage relation_msg
  | BeginMessage "32 word"
  | InsertMessage "32 word" tuple_data
  | UpdateMessage "32 word" tuple_data tuple_data  \<comment> \<open>old tuple, new tuple\<close>
  | DeleteMessage "32 word" tuple_data
  | CommitMessage "64 word"
  | OtherMessage

section \<open>Decoding\<close>

text \<open>
  \<open>strconv.ParseFloat(s, 64)\<close> and \<open>time.Parse(layout, s)\<close> are parameters: the bits of the
  float and the instant, or an error.
\<close>

record text_parsers =
  tp_ParseFloat :: "string \<Rightarrow> 64 word option"
  tp_time_Parse :: "string \<Rightarrow> string \<Rightarrow> int option"

definition or_else :: "goval option \<Rightarrow> goval \<Rightarrow> goval" where
  "or_else r d = (case r of None \<Rightarrow> d | Some v \<Rightarrow> v)"

definition decodeText :: "text_parsers \<Rightarrow> string \<Rightarrow> 32 word \<Rightarrow> goval" where
  "decodeText tp s oid =
     (if oid = 16 then VBool (s = ''t'' \<or> s = ''true'' \<or> s = ''TRUE'')
      else if oid \<in> {20, 21, 23, 26} then or_else (map_option VInt64 (ParseInt10 s)) (VString s)
      else if oid \<in> {700, 701} then or_else (map_option VFloat (tp_ParseFloat tp s)) (VString s)
      else if oid = 1700 then or_else (map_option VFloat (tp_ParseFloat tp s)) (VString s)
      else if oid \<in> {1082, 1114}
        then or_else (map_option VTime (tp_time_Parse tp ''2006-01-02 15:04:05'' s))
               (or_else (map_option VTime (tp_time_Parse tp ''2006-01-02'' s)) (VString s))
      else if oid = 1184
        then or_else (map_option VTime (tp_time_Parse tp ''2006-01-02 15:04:05.999999999-07'' s))
               (or_else (map_option VTime (tp_time_Parse tp ''2006-01-02 15:04:05-07'' s)) (VString s))
      else VString s)"

text \<open>The loop stops at the end of the shorter list; an unchanged TOAST value is left out.\<close>

fun decode_columns :: "text_parsers \<Rightarrow> relation_column list \<Rightarrow> tuple_column list
    \<Rightarrow> (string \<times> goval) list \<Rightarrow> (string \<times> goval) list" where
  "decode_columns tp (col # cols) (tc # tcs) row =
     decode_columns tp cols tcs
       (if tc_DataType tc = CHR ''n'' then AList.update (rc_Name col) VNil row
        else if tc_DataType tc = CHR ''t''
          then AList.update (rc_Name col) (decodeText tp (tc_Data tc) (rc_DataType col)) row
        else row)"
| "decode_columns tp _ _ row = row"

definition decodeTuple :: "text_parsers \<Rightarrow> relation_msg \<Rightarrow> tuple_data \<Rightarrow> Row" where
  "decodeTuple tp rel tuple =
     (case tuple of None \<Rightarrow> None | Some tcs \<Rightarrow> Some (decode_columns tp (rl_Columns rel) tcs []))"

definition extractPKFromRelation :: "relation_msg \<Rightarrow> Row \<Rightarrow> PK" where
  "extractPKFromRelation rel row =
     (case find (\<lambda>col. rc_Flags col = 1) (rl_Columns rel) of
        Some col \<Rightarrow> pkFromValue (row_get row (rc_Name col))
      | None \<Rightarrow> (case rl_Columns rel of
                   [] \<Rightarrow> PKNil
                 | col # _ \<Rightarrow> pkFromValue (row_get row (rc_Name col))))"

definition change_event :: "relation_msg \<Rightarrow> OperationType \<Rightarrow> Row \<Rightarrow> Row \<Rightarrow> Row \<Rightarrow> 32 word \<Rightarrow> CDCEvent" where
  "change_event rel op keyrow before after xid =
     \<lparr>ev_Schema = rl_Namespace rel, ev_Table = rl_RelationName rel, ev_Operation = op,
      ev_PK = extractPKFromRelation rel keyrow, ev_Before = before, ev_After = after,
      ev_commitXID = xid, ev_commitLSN = 0, ev_chunkID = 0, ev_chunkSize = 0, ev_chunkHighPK = PKNil\<rparr>"

definition decodeInsert :: "text_parsers \<Rightarrow> relation_msg \<Rightarrow> tuple_data \<Rightarrow> 32 word \<Rightarrow> CDCEvent" where
  "decodeInsert tp rel tuple xid =
     (let after = decodeTuple tp rel tuple
      in change_event rel OperationInsert after None after xid)"

definition decodeUpdate :: "text_parsers \<Rightarrow> relation_msg \<Rightarrow> tuple_data \<Rightarrow> tuple_data \<Rightarrow> 32 word \<Rightarrow> CDCEvent" where
  "decodeUpdate tp rel oldTuple newTuple xid =
     (let after = decodeTuple tp rel newTuple;
          before = (if oldTuple \<noteq> None then decodeTuple tp rel oldTuple else None)
      in change_event rel OperationUpdate after before after xid)"

definition decodeDelete :: "text_parsers \<Rightarrow> relation_msg \<Rightarrow> tuple_data \<Rightarrow> 32 word \<Rightarrow> CDCEvent" where
  "decodeDelete tp rel oldTuple xid =
     (let before = decodeTuple tp rel oldTuple
      in change_event rel OperationDelete before before None xid)"

section \<open>The streamer\<close>

text \<open>
  \<open>ws_currentXID\<close>, \<open>ws_batch\<close> and \<open>ws_due\<close> (the deadline was set to the zero time) are the
  local variables of \<open>run\<close>; \<open>ws_batches\<close> and \<open>ws_status\<close> log what was handed to the merger
  and reported to Postgres; \<open>ws_confirmedLSNCh\<close> is the channel of capacity 64.
\<close>

record walStreamer =
  ws_slotName :: string
  ws_publication :: string
  ws_relations :: "(32 word \<times> relation_msg) list"
  ws_confirmedLSN :: "64 word"
  ws_confirmedLSNCh :: "64 word list"
  ws_currentXID :: "32 word"
  ws_batch :: "CDCEvent list"
  ws_due :: bool
  ws_batches :: "walBatch list"
  ws_status :: "64 word list"

definition newWALStreamer :: "string \<Rightarrow> string \<Rightarrow> 64 word \<Rightarrow> walStreamer" where
  "newWALStreamer slotName publication startLSN =
     \<lparr>ws_slotName = slotName, ws_publication = publication, ws_relations = [],
      ws_confirmedLSN = startLSN, ws_confirmedLSNCh = [], ws_currentXID = 0, ws_batch = [],
      ws_due = False, ws_batches = [], ws_status = []\<rparr>"

definition advanceConfirmedLSN :: "walStreamer \<Rightarrow> 64 word \<Rightarrow> walStreamer" where
  "advanceConfirmedLSN w lsn =
     (if length (ws_confirmedLSNCh w) < 64
      then w\<lparr>ws_confirmedLSNCh := ws_confirmedLSNCh w @ [lsn]\<rparr> else w)"

definition append_event :: "walStreamer \<Rightarrow> 32 word \<Rightarrow> (relation_msg \<Rightarrow> CDCEvent) \<Rightarrow> walStreamer" where
  "append_event w relationID decode =
     (case map_of (ws_relations w) relationID of
        None \<Rightarrow> w
      | Some rel \<Rightarrow> w\<lparr>ws_batch := ws_batch w @ [decode rel]\<rparr>)"

fun handle_logical :: "text_parsers \<Rightarrow> walStreamer \<Rightarrow> logical_msg \<Rightarrow> walStreamer" where
  "handle_logical tp w (RelationMessage m) =
     w\<lparr>ws_relations := AList.update (rl_RelationID m) m (ws_relations w)\<rparr>"
| "handle_logical tp w (BeginMessage xid) = w\<lparr>ws_currentXID := xid, ws_batch := []\<rparr>"
| "handle_logical tp w (InsertMessage i t) =
     append_event w i (\<lambda>rel. decodeInsert tp rel t (ws_currentXID w))"
| "handle_logical tp w (UpdateMessage i old new) =
     append_event w i (\<lambda>rel. decodeUpdate tp rel old new (ws_currentXID w))"
| "handle_logical tp w (DeleteMessage i old) =
     append_event w i (\<lambda>rel. decodeDelete tp rel old (ws_currentXID w))"
| "handle_logical tp w (CommitMessage lsn) =
     w\<lparr>ws_batches := ws_batches w @ [\<lparr>wb_events = ws_batch w, wb_commitLSN = lsn\<rparr>], ws_batch := []\<rparr>"
| "handle_logical tp w OtherMessage = w"

text \<open>
  What one round receives: an error of \<open>ReceiveMessage\<close> (a timeout, or any other with the
  context cancelled or not), a message of the backend, or replication data with its parse result.
\<close>

datatype received =
    RecvTimeout
  | RecvError bool string                \<comment> \<open>\<open>ctx.Err() != nil\<close>, the error\<close>
  | ErrorResponse string
  | NotCopyData
  | EmptyCopyData
  | Keepalive "string + bool"            \<comment> \<open>parse error, or \<open>ReplyRequested\<close>\<close>
  | XLogData "string + string + logical_msg"  \<comment> \<open>\<open>ParseXLogData\<close> error, \<open>ParseV2\<close> error, message\<close>
  | OtherByte

datatype wal_next = Running | Returned "string option"

text \<open>
  \<open>round\<close>: \<open>passed\<close> is whether the clock is past the deadline, \<open>sent\<close> the error of
  \<open>SendStandbyStatusUpdate\<close> if it is called.
\<close>

record wal_input =
  in_passed :: bool
  in_sent :: "string option"
  in_received :: received

definition drain_confirmed :: "walStreamer \<Rightarrow> walStreamer" where
  "drain_confirmed w =
     (case ws_confirmedLSNCh w of
        [] \<Rightarrow> w
      | lsn # rest \<Rightarrow>
          let w1 = w\<lparr>ws_confirmedLSNCh := rest\<rparr>
          in if lsn > ws_confirmedLSN w1 then w1\<lparr>ws_confirmedLSN := lsn\<rparr> else w1)"

fun handle_received :: "text_parsers \<Rightarrow> walStreamer \<Rightarrow> received \<Rightarrow> walStreamer \<times> wal_next" where
  "handle_received tp w RecvTimeout = (w, Running)"
| "handle_received tp w (RecvError cancelled err) =
     (w, Returned (if cancelled then None else Some (''receive message: '' @ err)))"
| "handle_received tp w (ErrorResponse msg) = (w, Returned (Some (''postgres replication error: '' @ msg)))"
| "handle_received tp w NotCopyData = (w, Running)"
| "handle_received tp w EmptyCopyData = (w, Running)"
| "handle_received tp w (Keepalive (Inl err)) = (w, Returned (Some (''parse keepalive: '' @ err)))"
| "handle_received tp w (Keepalive (Inr reply)) = (if reply then w\<lparr>ws_due := True\<rparr> else w, Running)"
| "handle_received tp w (XLogData (Inl err)) = (w, Returned (Some (''parse xlog data: '' @ err)))"
| "handle_received tp w (XLogData (Inr (Inl err))) = (w, Returned (Some (''parse logical msg: '' @ err)))"
| "handle_received tp w (XLogData (Inr (Inr m))) = (handle_logical tp w m, Running)"
| "handle_received tp w OtherByte = (w, Running)"

definition wal_round :: "text_parsers \<Rightarrow> walStreamer \<Rightarrow> wal_input \<Rightarrow> walStreamer \<times> wal_next" where
  "wal_round tp w i =
     (let w1 = drain_confirmed w
      in if ws_due w1 \<or> in_passed i
         then (case in_sent i of
                 Some err \<Rightarrow> (w1, Returned (Some (''standby status update: '' @ err)))
               | None \<Rightarrow> handle_received tp
                   (w1\<lparr>ws_status := ws_status w1 @ [ws_confirmedLSN w1], ws_due := False\<rparr>) (in_received i))
         else handle_received tp w1 (in_received i))"

text \<open>The loop, with the calls of \<open>advanceConfirmedLSN\<close> by the acknowledger between its rounds.\<close>

datatype wal_action = Round wal_input | Advance "64 word"

fun wal_loop :: "text_parsers \<Rightarrow> walStreamer \<Rightarrow> wal_action list \<Rightarrow> walStreamer \<times> wal_next" where
  "wal_loop tp w [] = (w, Running)"
| "wal_loop tp w (Advance lsn # acts) = wal_loop tp (advanceConfirmedLSN w lsn) acts"
| "wal_loop tp w (Round i # acts) =
     (case wal_round tp w i of
        (w', Running) \<Rightarrow> wal_loop tp w' acts
      | (w', Returned r) \<Rightarrow> (w', Returned r))"

definition wal_run :: "text_parsers \<Rightarrow> walStreamer \<Rightarrow> string option \<Rightarrow> wal_action list \<Rightarrow> walStreamer \<times> wal_next" where
  "wal_run tp w start_err acts =
     (case start_err of
        Some err \<Rightarrow> (w, Returned (Some (''start replication: '' @ err)))
      | None \<Rightarrow> wal_loop tp w acts)"

section \<open>Transactions\<close>

text \<open>The logical messages of the rounds, and the part of the state they act on.\<close>

fun logical_of :: "received \<Rightarrow> logical_msg list" where
  "logical_of (XLogData (Inr (Inr m))) = [m]"
| "logical_of _ = []"

fun msgs_of :: "wal_action list \<Rightarrow> logical_msg list" where
  "msgs_of [] = []"
| "msgs_of (Round i # acts) = logical_of (in_received i) @ msgs_of acts"
| "msgs_of (Advance lsn # acts) = msgs_of acts"

fun advances_of :: "wal_action list \<Rightarrow> 64 word list" where
  "advances_of [] = []"
| "advances_of (Round i # acts) = advances_of acts"
| "advances_of (Advance lsn # acts) = lsn # advances_of acts"

definition decoding :: "walStreamer \<Rightarrow> (32 word \<times> relation_msg) list \<times> 32 word \<times> CDCEvent list \<times> walBatch list" where
  "decoding w = (ws_relations w, ws_currentXID w, ws_batch w, ws_batches w)"

lemma decoding_frame [simp]:
  "decoding (w\<lparr>ws_due := b\<rparr>) = decoding w"
  "decoding (w\<lparr>ws_status := s\<rparr>) = decoding w"
  "decoding (drain_confirmed w) = decoding w"
  "decoding (advanceConfirmedLSN w lsn) = decoding w"
  by (simp_all add: decoding_def drain_confirmed_def advanceConfirmedLSN_def Let_def split: list.splits)

lemma handle_logical_decoding:
  "decoding w = decoding v \<Longrightarrow> decoding (handle_logical tp w m) = decoding (handle_logical tp v m)"
  by (cases m) (simp_all add: decoding_def append_event_def split: option.splits)

lemma handle_logicals_decoding:
  "decoding w = decoding v \<Longrightarrow> decoding (foldl (handle_logical tp) w ms) = decoding (foldl (handle_logical tp) v ms)"
proof (induction ms arbitrary: w v)
  case (Cons m ms)
  from Cons.IH [OF handle_logical_decoding [OF Cons.prems]] show ?case by simp
qed simp

lemma handle_received_decoding:
  "handle_received tp w r = (w', Running) \<Longrightarrow> decoding w' = decoding (foldl (handle_logical tp) w (logical_of r))"
  by (cases "(tp, w, r)" rule: handle_received.cases) auto

lemma wal_round_decoding:
  assumes "wal_round tp w i = (w', Running)"
  shows "decoding w' = decoding (foldl (handle_logical tp) w (logical_of (in_received i)))"
proof -
  obtain v where v: "decoding v = decoding w" "handle_received tp v (in_received i) = (w', Running)"
  proof (cases "ws_due (drain_confirmed w) \<or> in_passed i")
    case True
    with assms have "in_sent i = None" by (cases "in_sent i") (auto simp: wal_round_def Let_def)
    with True assms show ?thesis
      by (intro that [of "(drain_confirmed w)\<lparr>ws_status := ws_status (drain_confirmed w) @ [ws_confirmedLSN (drain_confirmed w)],
            ws_due := False\<rparr>"]) (auto simp: wal_round_def Let_def)
  next
    case False
    with assms show ?thesis by (intro that [of "drain_confirmed w"]) (auto simp: wal_round_def Let_def)
  qed
  from handle_received_decoding [OF v(2)] handle_logicals_decoding [OF v(1)] show ?thesis by simp
qed

lemma wal_loop_decoding:
  "wal_loop tp w acts = (w', Running) \<Longrightarrow> decoding w' = decoding (foldl (handle_logical tp) w (msgs_of acts))"
proof (induction tp w acts rule: wal_loop.induct)
  case (2 tp w lsn acts)
  with handle_logicals_decoding [of "advanceConfirmedLSN w lsn" w] show ?case by simp
next
  case (3 tp w i acts)
  obtain w1 where w1: "wal_round tp w i = (w1, Running)" and loop: "wal_loop tp w1 acts = (w', Running)"
    using "3.prems" by (cases "wal_round tp w i") (auto split: wal_next.splits)
  with "3.IH" [OF w1 [symmetric] refl loop] handle_logicals_decoding [OF wal_round_decoding [OF w1]]
  show ?case by simp
qed simp

text \<open>A transaction of the logical protocol and the events that its body stands for.\<close>

type_synonym wal_tx = "32 word \<times> logical_msg list \<times> 64 word"

fun tx_msgs :: "wal_tx \<Rightarrow> logical_msg list" where
  "tx_msgs (xid, body, lsn) = BeginMessage xid # body @ [CommitMessage lsn]"

fun is_body :: "logical_msg \<Rightarrow> bool" where
  "is_body (BeginMessage _) = False"
| "is_body (CommitMessage _) = False"
| "is_body _ = True"

type_synonym relations = "(32 word \<times> relation_msg) list"

definition decode_change :: "text_parsers \<Rightarrow> relations \<Rightarrow> 32 word \<Rightarrow> logical_msg \<Rightarrow> CDCEvent list" where
  "decode_change tp rels xid m =
     (let decoded = (\<lambda>i f. case map_of rels i of None \<Rightarrow> [] | Some rel \<Rightarrow> [f rel])
      in case m of
           InsertMessage i t \<Rightarrow> decoded i (\<lambda>rel. decodeInsert tp rel t xid)
         | UpdateMessage i old new \<Rightarrow> decoded i (\<lambda>rel. decodeUpdate tp rel old new xid)
         | DeleteMessage i old \<Rightarrow> decoded i (\<lambda>rel. decodeDelete tp rel old xid)
         | _ \<Rightarrow> [])"

fun next_rels :: "relations \<Rightarrow> logical_msg \<Rightarrow> relations" where
  "next_rels rels (RelationMessage m) = AList.update (rl_RelationID m) m rels"
| "next_rels rels _ = rels"

fun body_events :: "text_parsers \<Rightarrow> relations \<Rightarrow> 32 word \<Rightarrow> logical_msg list \<Rightarrow> CDCEvent list" where
  "body_events tp rels xid [] = []"
| "body_events tp rels xid (m # ms) = decode_change tp rels xid m @ body_events tp (next_rels rels m) xid ms"

text \<open>The batches that a list of complete transactions stands for.\<close>

fun tx_batches :: "text_parsers \<Rightarrow> relations \<Rightarrow> wal_tx list \<Rightarrow> walBatch list" where
  "tx_batches tp rels [] = []"
| "tx_batches tp rels ((xid, body, lsn) # txs) =
     \<lparr>wb_events = body_events tp rels xid body, wb_commitLSN = lsn\<rparr>
       # tx_batches tp (foldl next_rels rels body) txs"

lemma handle_body:
  "list_all is_body body \<Longrightarrow> decoding w = (rels, xid, b, bs) \<Longrightarrow>
     decoding (foldl (handle_logical tp) w body) = (foldl next_rels rels body, xid, b @ body_events tp rels xid body, bs)"
proof (induction body arbitrary: w rels b)
  case (Cons m body)
  have "decoding (handle_logical tp w m) = (next_rels rels m, xid, b @ decode_change tp rels xid m, bs)"
    using Cons.prems by (cases m) (auto simp: decoding_def append_event_def decode_change_def split: option.splits)
  with Cons show ?case by simp
qed simp

lemma handle_txs:
  assumes "list_all (\<lambda>(xid, body, lsn). list_all is_body body) txs"
  shows "decoding w = (rels, xid, b, bs) \<Longrightarrow>
    \<exists>rels' xid' b'. decoding (foldl (handle_logical tp) w (concat (map tx_msgs txs))) = (rels', xid', b', bs @ tx_batches tp rels txs)"
  using assms
proof (induction txs arbitrary: w rels xid b bs)
  case (Cons tx txs)
  obtain x body lsn where tx: "tx = (x, body, lsn)" by (cases tx)
  let ?w1 = "handle_logical tp w (BeginMessage x)"
  let ?w2 = "foldl (handle_logical tp) ?w1 body"
  have "decoding ?w1 = (rels, x, [], bs)" using Cons.prems by (simp add: decoding_def)
  with Cons.prems have "decoding ?w2 = (foldl next_rels rels body, x, body_events tp rels x body, bs)"
    using handle_body [of body ?w1 rels x "[]" bs tp] by (simp add: tx)
  then have "decoding (handle_logical tp ?w2 (CommitMessage lsn)) =
      (foldl next_rels rels body, x, [], bs @ [\<lparr>wb_events = body_events tp rels x body, wb_commitLSN = lsn\<rparr>])"
    by (simp add: decoding_def)
  from Cons.IH [OF this] Cons.prems show ?case by (simp add: tx)
qed auto

lemma body_events_kind:
  "e \<in> set (body_events tp rels xid body) \<Longrightarrow> is_wal e \<and> ev_commitXID e = xid"
proof (induction tp rels xid body rule: body_events.induct)
  case (2 tp rels xid m ms)
  then show ?case
    by (cases m) (auto simp: decode_change_def decodeInsert_def decodeUpdate_def decodeDelete_def change_event_def is_wal_def
        Let_def split: option.splits)
qed simp

section \<open>The confirmed position\<close>

lemma handle_logical_confirm [simp]:
  "ws_confirmedLSN (handle_logical tp w m) = ws_confirmedLSN w"
  "ws_confirmedLSNCh (handle_logical tp w m) = ws_confirmedLSNCh w"
  "ws_status (handle_logical tp w m) = ws_status w"
  by (cases m; simp add: append_event_def split: option.splits)+

lemma handle_received_confirm:
  "handle_received tp w r = (w', nx) \<Longrightarrow> ws_confirmedLSN w' = ws_confirmedLSN w \<and>
     ws_confirmedLSNCh w' = ws_confirmedLSNCh w \<and> ws_status w' = ws_status w"
  by (cases "(tp, w, r)" rule: handle_received.cases) (auto split: if_splits)

text \<open>
  \<open>P\<close>: the positions that may be reported: the start and the acknowledged ones. What was
  reported is in order and not above what is confirmed now.
\<close>

definition confirm_inv :: "64 word set \<Rightarrow> walStreamer \<Rightarrow> bool" where
  "confirm_inv P w \<longleftrightarrow> ws_confirmedLSN w \<in> P \<and> set (ws_confirmedLSNCh w) \<subseteq> P \<and> set (ws_status w) \<subseteq> P \<and>
     sorted (ws_status w @ [ws_confirmedLSN w])"

lemma confirm_inv_round:
  assumes "confirm_inv P w" and "wal_round tp w i = (w', nx)"
  shows "confirm_inv P w'"
proof -
  have sorted_up: "sorted (xs @ [a]) \<Longrightarrow> a \<le> b \<Longrightarrow> sorted (xs @ [b]) \<and> sorted (xs @ [a, a])" for xs and a b :: "64 word"
    by (auto simp: sorted_append)
  have drain: "confirm_inv P (drain_confirmed w)"
    using assms(1) by (auto simp: confirm_inv_def drain_confirmed_def Let_def sorted_append split: list.splits)
  have "confirm_inv P (v\<lparr>ws_status := ws_status v @ [ws_confirmedLSN v], ws_due := False\<rparr>)" if "confirm_inv P v" for v
    using that by (auto simp: confirm_inv_def sorted_append)
  then have "\<exists>v. confirm_inv P v \<and> (w' = v \<or> handle_received tp v (in_received i) = (w', nx))"
    using assms(2) drain by (auto simp: wal_round_def Let_def split: if_splits option.splits)
  then show ?thesis
    using handle_received_confirm by (fastforce simp: confirm_inv_def)
qed

lemma confirm_inv_loop:
  "confirm_inv P w \<Longrightarrow> set (advances_of acts) \<subseteq> P \<Longrightarrow> wal_loop tp w acts = (w', nx) \<Longrightarrow> confirm_inv P w'"
proof (induction tp w acts rule: wal_loop.induct)
  case (2 tp w lsn acts)
  then have "confirm_inv P (advanceConfirmedLSN w lsn)" by (auto simp: confirm_inv_def advanceConfirmedLSN_def)
  with 2 show ?case by auto
next
  case (3 tp w i acts)
  obtain w1 n1 where r: "wal_round tp w i = (w1, n1)" by fastforce
  with 3 confirm_inv_round [OF "3.prems"(1) r] show ?case by (cases n1) auto
qed auto

text \<open>What fits into the channel when nobody reads it.\<close>

lemma advances_loop:
  "length (ws_confirmedLSNCh w) \<le> 64 \<Longrightarrow>
     wal_loop tp w (map Advance xs @ acts) =
     wal_loop tp (w\<lparr>ws_confirmedLSNCh := take 64 (ws_confirmedLSNCh w @ xs)\<rparr>) acts"
proof (induction xs arbitrary: w)
  case (Cons x xs)
  show ?case
  proof (cases "length (ws_confirmedLSNCh w) < 64")
    case True
    with Cons.IH [of "advanceConfirmedLSN w x"] show ?thesis by (simp add: advanceConfirmedLSN_def)
  next
    case False
    with Cons have "advanceConfirmedLSN w x = w" "length (ws_confirmedLSNCh w) = 64"
      by (simp_all add: advanceConfirmedLSN_def)
    with Cons.IH [of w] show ?thesis by simp
  qed
qed simp

lemma rounds_confirm:
  "set (ws_confirmedLSNCh w) \<subseteq> P \<Longrightarrow> ws_confirmedLSN w \<in> P \<Longrightarrow> wal_loop tp w (map Round is) = (w', nx)
     \<Longrightarrow> ws_confirmedLSN w' \<in> P"
proof (induction "is" arbitrary: w)
  case (Cons i "is")
  obtain w1 n1 where r: "wal_round tp w i = (w1, n1)" by fastforce
  have "set (ws_confirmedLSNCh (drain_confirmed w)) \<subseteq> P \<and> ws_confirmedLSN (drain_confirmed w) \<in> P"
    using Cons.prems(1,2) by (auto simp: drain_confirmed_def Let_def split: list.splits)
  then have "set (ws_confirmedLSNCh w1) \<subseteq> P \<and> ws_confirmedLSN w1 \<in> P"
    using r by (auto simp: wal_round_def Let_def split: if_splits option.splits dest!: handle_received_confirm)
  with Cons.IH Cons.prems(3) r show ?case by (cases n1) auto
qed simp

section \<open>Properties\<close>

text \<open>
  Claim C12. Only complete, committed transactions reach the merger, in commit order. When the
  messages received so far are the transactions \<open>txs\<close> and possibly the beginning of another
  one, mixed with timeouts, keepalives, status updates and acknowledgements in any way, the
  batches handed over are exactly those of \<open>txs\<close>: the decoded changes of each body, in order,
  with the relations known at that point, stamped with the transaction's id and commit LSN.
\<close>

theorem wal_transactions:
  assumes "wal_loop tp (newWALStreamer slot publ startLSN) acts = (w, Running)"
    and "msgs_of acts = concat (map tx_msgs txs) @ partial"
    and "list_all (\<lambda>(xid, body, lsn). list_all is_body body) txs"
    and "partial = [] \<or> (\<exists>xid body. partial = BeginMessage xid # body \<and> list_all is_body body)"
  shows "ws_batches w = tx_batches tp [] txs \<and>
    (\<forall>b \<in> set (ws_batches w). \<exists>(xid, body, lsn) \<in> set txs. wb_commitLSN b = lsn \<and>
       (\<forall>e \<in> set (wb_events b). ev_commitXID e = xid \<and> ev_Operation e \<noteq> OperationRead))"
proof -
  let ?w0 = "newWALStreamer slot publ startLSN"
  let ?w1 = "foldl (handle_logical tp) ?w0 (concat (map tx_msgs txs))"
  have "decoding ?w0 = ([], 0, [], [])" by (simp add: decoding_def newWALStreamer_def)
  from handle_txs [OF assms(3) this, of tp] obtain rels xid b
    where w1: "decoding ?w1 = (rels, xid, b, tx_batches tp [] txs)" by auto
  have "decoding w = decoding (foldl (handle_logical tp) ?w1 partial)"
    using wal_loop_decoding [OF assms(1)] by (simp add: assms(2))
  moreover have "ws_batches (foldl (handle_logical tp) ?w1 partial) = tx_batches tp [] txs"
    using assms(4)
  proof
    assume "\<exists>xid body. partial = BeginMessage xid # body \<and> list_all is_body body"
    then obtain xid body where p: "partial = BeginMessage xid # body" "list_all is_body body" by blast
    have "decoding (handle_logical tp ?w1 (BeginMessage xid)) = (rels, xid, [], tx_batches tp [] txs)"
      using w1 by (simp add: decoding_def)
    from handle_body [OF p(2) this] show ?thesis by (simp add: decoding_def p(1))
  qed (use w1 in \<open>simp add: decoding_def\<close>)
  ultimately have batches: "ws_batches w = tx_batches tp [] txs" by (simp add: decoding_def)
  have "b \<in> set (tx_batches tp rels txs) \<Longrightarrow> \<exists>(xid, body, lsn) \<in> set txs. wb_commitLSN b = lsn \<and>
       (\<forall>e \<in> set (wb_events b). ev_commitXID e = xid \<and> ev_Operation e \<noteq> OperationRead)" for b rels
    by (induction tp rels txs rule: tx_batches.induct) (auto dest: body_events_kind [unfolded is_wal_def])
  with batches show ?thesis by auto
qed

text \<open>
  Postgres is never told to discard WAL that was not acknowledged: the positions sent
  in status updates never decrease, and each is the start position or one that the acknowledger
  passed to \<open>advanceConfirmedLSN\<close>.
\<close>

theorem wal_status_monotone:
  assumes "wal_loop tp (newWALStreamer slot publ startLSN) acts = (w, nx)"
  shows "sorted (ws_status w @ [ws_confirmedLSN w]) \<and>
    set (ws_status w @ [ws_confirmedLSN w]) \<subseteq> insert startLSN (set (advances_of acts))"
proof -
  have "confirm_inv (insert startLSN (set (advances_of acts))) (newWALStreamer slot publ startLSN)"
    by (simp add: confirm_inv_def newWALStreamer_def)
  from confirm_inv_loop [OF this _ assms] show ?thesis by (auto simp: confirm_inv_def)
qed

text \<open>
  The channel holds 64 positions and drops the newest: when more than 64
  acknowledgements arrive while the streamer waits for a message, no number of later rounds
  ever confirms a position after the 64th, until the next acknowledgement.
\<close>

theorem wal_advance_dropped:
  assumes "wal_loop tp (newWALStreamer slot publ startLSN) (map Advance lsns @ map Round is) = (w, nx)"
  shows "ws_confirmedLSN w \<in> insert startLSN (set (take 64 lsns))"
proof -
  let ?w = "newWALStreamer slot publ startLSN"
  have "wal_loop tp (?w\<lparr>ws_confirmedLSNCh := take 64 lsns\<rparr>) (map Round is) = (w, nx)"
    using assms advances_loop [of ?w tp lsns "map Round is"] by (simp add: newWALStreamer_def)
  then show ?thesis
    by (rule rounds_confirm [rotated 2]) (auto simp: newWALStreamer_def)
qed

text \<open>
  The snapshot and the WAL give the same row the same key. The snapshot gets the value
  from pgx (an \<open>int64\<close>, an \<open>int32\<close> or 16 bytes), the WAL gets its text: decoding the text by the
  column's type and reading the key from it gives the key of the pgx value.
\<close>

theorem wal_key_agrees:
  "pkFromValue (decodeText tp (dec_int (sint n)) 20) = pkFromValue (VInt64 n) \<and>
   pkFromValue (decodeText tp (dec_int (sint i)) 23) = pkFromValue (VInt32 i) \<and>
   (length u = 16 \<longrightarrow> pkFromValue (decodeText tp (uuidToString u) 2950) = pkFromValue (VBytes16 u))"
proof (intro conjI impI)
  show "pkFromValue (decodeText tp (dec_int (sint n)) 20) = pkFromValue (VInt64 n)"
    by (simp add: decodeText_def or_else_def ParseInt10_dec_int)
  have "sint (scast i :: 64 word) = sint i" by (simp add: sint_up_scast is_up)
  then show "pkFromValue (decodeText tp (dec_int (sint i)) 23) = pkFromValue (VInt32 i)"
    using ParseInt10_dec_int [of "scast i"] by (simp add: decodeText_def or_else_def)
  assume "length u = 16"
  then have "pk_ok (PKUuid u)" by simp
  then show "pkFromValue (decodeText tp (uuidToString u) 2950) = pkFromValue (VBytes16 u)"
    using pkFromValue_uuidToString by (simp add: decodeText_def)
qed

lemma small_numbers:
  "ParseInt10 ''1'' = Some 1" "ParseInt10 ''5'' = Some 5" "ParseInt10 ''7'' = Some 7"
  by (simp_all add: ParseInt10_def parse_uint_def is_digit_def digit_val_def)

text \<open>
  Where the two keys differ. A \<open>smallint\<close> key is a number in the WAL but unset in the
  snapshot, since pgx returns an \<open>int16\<close>. Under \<open>REPLICA IDENTITY FULL\<close> every column is marked,
  and the key of a change is then its first column: for a table \<open>(qty, id)\<close> the update of the
  row with id 7 is delivered with the key 5.
\<close>

theorem wal_key_mismatch:
  "pkFromValue (decodeText tp ''7'' 21) = PKInt 7 \<and> pkFromValue (VOther n) = PKNil \<and>
   (let rel = \<lparr>rl_RelationID = 1, rl_Namespace = ''public'', rl_RelationName = ''stock'',
                rl_Columns = [\<lparr>rc_Flags = 1, rc_Name = ''qty'', rc_DataType = 20\<rparr>,
                              \<lparr>rc_Flags = 1, rc_Name = ''id'', rc_DataType = 20\<rparr>]\<rparr>;
        e = decodeUpdate tp rel None (Some [\<lparr>tc_DataType = CHR ''t'', tc_Data = ''5''\<rparr>,
                                            \<lparr>tc_DataType = CHR ''t'', tc_Data = ''7''\<rparr>]) 950
    in row_get (ev_After e) ''id'' = VInt64 7 \<and> ev_PK e = PKInt 5)"
  by (simp add: decodeText_def or_else_def decodeUpdate_def decodeTuple_def change_event_def
      extractPKFromRelation_def row_get_def small_numbers Let_def)

text \<open>A stream with one complete transaction and the beginning of a second one.\<close>

definition rel_orders :: relation_msg where
  "rel_orders =
     \<lparr>rl_RelationID = 16384, rl_Namespace = ''public'', rl_RelationName = ''orders'',
      rl_Columns = [\<lparr>rc_Flags = 1, rc_Name = ''id'', rc_DataType = 20\<rparr>]\<rparr>"

definition insert_order :: "string \<Rightarrow> logical_msg" where
  "insert_order s = InsertMessage 16384 (Some [\<lparr>tc_DataType = CHR ''t'', tc_Data = s\<rparr>])"

definition receive :: "received \<Rightarrow> wal_action" where
  "receive r = Round \<lparr>in_passed = False, in_sent = None, in_received = r\<rparr>"

definition wal_acts :: "wal_action list" where
  "wal_acts =
     [receive (XLogData (Inr (Inr (BeginMessage 950)))), receive RecvTimeout,
      receive (XLogData (Inr (Inr (RelationMessage rel_orders)))), Advance 60,
      receive (XLogData (Inr (Inr (insert_order ''1'')))), receive (Keepalive (Inr True)),
      receive (XLogData (Inr (Inr (CommitMessage 77)))),
      receive (XLogData (Inr (Inr (BeginMessage 951)))),
      receive (XLogData (Inr (Inr (insert_order ''2''))))]"

definition no_parsers :: text_parsers where
  "no_parsers = \<lparr>tp_ParseFloat = (\<lambda>_. None), tp_time_Parse = (\<lambda>_ _. None)\<rparr>"

lemmas wal_example_simps = wal_acts_def receive_def insert_order_def rel_orders_def newWALStreamer_def wal_round_def
  drain_confirmed_def advanceConfirmedLSN_def append_event_def decodeInsert_def change_event_def Let_def

lemma wal_acts_run: "\<exists>w. wal_loop no_parsers (newWALStreamer ''slot'' ''pub'' 5) wal_acts = (w, Running)"
  by (simp add: wal_example_simps)

theorem wal_transactions_witness:
  "\<exists>w. wal_loop no_parsers (newWALStreamer ''slot'' ''pub'' 5) wal_acts = (w, Running) \<and>
     map wb_commitLSN (ws_batches w) = [77] \<and> map (map ev_PK \<circ> wb_events) (ws_batches w) = [[PKInt 1]]"
proof -
  obtain w where w: "wal_loop no_parsers (newWALStreamer ''slot'' ''pub'' 5) wal_acts = (w, Running)"
    using wal_acts_run by blast
  let ?txs = "[(950, [RelationMessage rel_orders, insert_order ''1''], 77)]"
  have "msgs_of wal_acts = concat (map tx_msgs ?txs) @ [BeginMessage 951, insert_order ''2'']"
    by (simp add: wal_acts_def receive_def)
  from wal_transactions [OF w this] have "ws_batches w = tx_batches no_parsers [] ?txs"
    by (simp add: insert_order_def)
  moreover have "map wb_commitLSN (tx_batches no_parsers [] ?txs) = [77] \<and>
      map (map ev_PK \<circ> wb_events) (tx_batches no_parsers [] ?txs) = [[PKInt 1]]"
    by (simp add: wal_example_simps decode_change_def decodeText_def or_else_def decodeTuple_def
        extractPKFromRelation_def row_get_def small_numbers)
  ultimately show ?thesis using w by metis
qed

theorem wal_status_monotone_witness:
  "\<exists>w. wal_loop no_parsers (newWALStreamer ''slot'' ''pub'' 5) wal_acts = (w, Running) \<and>
     set (ws_status w) \<subseteq> {5, 60} \<and> ws_status w \<noteq> []"
proof -
  obtain w where w: "wal_loop no_parsers (newWALStreamer ''slot'' ''pub'' 5) wal_acts = (w, Running)"
    using wal_acts_run by blast
  have "set (ws_status w) \<subseteq> {5, 60}"
    using wal_status_monotone [OF w] by (auto simp: wal_acts_def receive_def)
  moreover have "ws_status w \<noteq> []" using w by (auto simp: wal_example_simps)
  ultimately show ?thesis using w by blast
qed

theorem wal_advance_dropped_witness:
  "\<exists>w nx. wal_loop no_parsers (newWALStreamer ''slot'' ''pub'' 0) (map Advance (replicate 64 10 @ [20]) @ map Round []) = (w, nx)
     \<and> ws_confirmedLSN w \<noteq> 20"
proof -
  obtain w nx where w: "wal_loop no_parsers (newWALStreamer ''slot'' ''pub'' 0)
      (map Advance (replicate 64 10 @ [20]) @ map Round []) = (w, nx)" by fastforce
  have "ws_confirmedLSN w \<in> {0, 10}" using wal_advance_dropped [OF w] by auto
  then have "ws_confirmedLSN w \<noteq> 20" by auto
  with w show ?thesis by blast
qed

theorem wal_key_agrees_witness:
  "pkFromValue (decodeText no_parsers (uuidToString (replicate 16 7)) 2950) = PKUuid (replicate 16 7)"
  using wal_key_agrees [of no_parsers 0 0 "replicate 16 7"] by simp

end
