(* ===== verification/Connector.thy ===== *)
theory Connector
  imports CDC_Engine Snapshotter WAL_Streamer
begin

text \<open>
  \<open>pg/connector.go\<close>, the start of the connector and the snapshot goroutine: \<open>start\<close>,
  \<open>runSnapshot\<close>, \<open>ensurePublication\<close>, \<open>ensureSlot\<close>. The results of the calls to Postgres are
  parameters. \<open>runSnapshot\<close> yields the list of its actions on the engine and the merger; the
  system is every interleaving of these actions with WAL batches, demands and acknowledgements.
\<close>

section \<open>Publication and slot\<close>

fun strings_Join :: "string list \<Rightarrow> string \<Rightarrow> string" where
  "strings_Join [] sep = ''''"
| "strings_Join [s] sep = s"
| "strings_Join (s # t # rest) sep = s @ sep @ strings_Join (t # rest) sep"

text \<open>\<open>exists\<close> is the result of the query on \<open>pg_publication\<close>, \<open>exec\<close> the error of a statement.\<close>

definition ensurePublication :: "Config \<Rightarrow> string + bool \<Rightarrow> (string \<Rightarrow> string option) \<Rightarrow> string list \<times> string option" where
  "ensurePublication c exists exec =
     (case exists of
        Inl err \<Rightarrow> ([], Some err)
      | Inr ex \<Rightarrow>
          let tables = map tb_Name (cf_Tables c);
              stmt = (if ex
                then ''ALTER PUBLICATION '' @ pgQuoteIdent (cf_Publication c) @ '' SET TABLE '' @ strings_Join tables '', ''
                else ''CREATE PUBLICATION '' @ pgQuoteIdent (cf_Publication c) @ '' FOR TABLE '' @ strings_Join tables '', '')
          in ([stmt], exec stmt))"

text \<open>The result of \<open>CreateReplicationSlot\<close>: the consistent point, or an error with its code.\<close>

datatype slot_result = SlotCreated string | SlotError "string option" string

definition ensureSlot :: "(string \<Rightarrow> string + 64 word) \<Rightarrow> slot_result \<Rightarrow> string + 64 word" where
  "ensureSlot ParseLSN result =
     (case result of
        SlotError code err \<Rightarrow> if code = Some ''42710'' then Inr 0 else Inl err
      | SlotCreated consistentPoint \<Rightarrow> ParseLSN consistentPoint)"

section \<open>start\<close>

text \<open>What the calls to Postgres return while the connector starts.\<close>

record start_env =
  se_connect :: "string option"
  se_store_init :: "string option"
  se_load :: "string + CDCState \<times> bool"
  se_repl :: "string option"
  se_pub_exists :: "string + bool"
  se_exec :: "string \<Rightarrow> string option"
  se_slot :: slot_result
  se_ParseLSN :: "string \<Rightarrow> string + 64 word"
  se_snap_connect :: "string option"

definition initial_state :: "Config \<Rightarrow> CDCState" where
  "initial_state c =
     zeroState\<lparr>st_Phase := PhaseSnapshotting, st_SlotName := cf_SlotName c, st_SnapshotTables := cf_Tables c\<rparr>"

text \<open>
  The engine and the streamer that the goroutines work on, and the state from which
  \<open>runSnapshot\<close> is launched, if it is. Every failure is a panic of \<open>Init\<close>.
\<close>

definition start :: "Config \<Rightarrow> start_env \<Rightarrow> cdcEngine \<Rightarrow> (cdcEngine \<times> walStreamer \<times> CDCState option) go" where
  "start c env e =
     (if se_connect env \<noteq> None then Inl (UserPanic (''connect: '' @ the (se_connect env)))
      else if \<not> cf_hasOffsetStore c \<and> se_store_init env \<noteq> None
        then Inl (UserPanic (''init offset store: '' @ the (se_store_init env)))
      else case se_load env of
        Inl err \<Rightarrow> Inl (UserPanic (''load state: '' @ err))
      | Inr (loaded, found) \<Rightarrow>
          let state = (if \<not> found then initial_state c else loaded);
              savedRanges = map (\<lambda>r. \<lparr>rg_Table = rg_Table r, rg_Low = rg_Low r, rg_High = rg_High r, rg_XMin = rg_XMin r\<rparr>)
                (st_ScannedPKRanges state);
              m = newMerger savedRanges (st_Phase state)
          in if se_repl env \<noteq> None then Inl (UserPanic (''open replication conn: '' @ the (se_repl env)))
             else case snd (ensurePublication c (se_pub_exists env) (se_exec env)) of
               Some err \<Rightarrow> Inl (UserPanic (''ensure publication: '' @ err))
             | None \<Rightarrow>
               (case ensureSlot (se_ParseLSN env) (se_slot env) of
                  Inl err \<Rightarrow> Inl (UserPanic (''ensure slot: '' @ err))
                | Inr slotLSN \<Rightarrow>
                  let startLSN = (if st_ConfirmedLSN state = 0 then slotLSN else st_ConfirmedLSN state);
                      streamer = newWALStreamer (cf_SlotName c) (cf_Publication c) startLSN;
                      e1 = e\<lparr>en_hasStore := True, en_state := state, en_merger := m, en_hasStreamer := True,
                             en_chunkSizes := [], en_chunkAcked := [], en_chunkHighPK := [], en_chunkTable := [],
                             en_pendingChunks := [], en_completedChunks := []\<rparr>
                  in if st_Phase state = PhaseSnapshotting
                     then (if se_snap_connect env \<noteq> None
                           then Inl (UserPanic (''snapshot connect: '' @ the (se_snap_connect env)))
                           else Inr (e1, streamer, Some state))
                     else Inr (e1, streamer, None)))"

section \<open>runSnapshot\<close>

datatype snap_action =
    OnTable string           \<comment> \<open>switch of \<open>CurrentSnapshotTable\<close> under the engine's mutex\<close>
  | OnMerger merger_op       \<comment> \<open>a call of the snapshotter on the merger\<close>
  | OnScanDone               \<comment> \<open>\<open>snapshotScanDone = true\<close>\<close>
  | OnComplete               \<comment> \<open>the wait for all acknowledgements, then \<open>onSnapshotComplete\<close>\<close>

text \<open>The table to start with: the first one named in the state, or the first one.\<close>

fun find_table :: "CDCTable list \<Rightarrow> string \<Rightarrow> CDCTable list option" where
  "find_table [] name = None"
| "find_table (t # ts) name = (if tb_Name t = name then Some (t # ts) else find_table ts name)"

definition tables_from :: "CDCState \<Rightarrow> CDCTable list" where
  "tables_from state =
     (case find_table (st_SnapshotTables state) (st_CurrentSnapshotTable state) of
        Some ts \<Rightarrow> ts
      | None \<Rightarrow> st_SnapshotTables state)"

text \<open>
  \<open>db t\<close> answers the queries on the table \<open>t\<close>; \<open>cancelled t c\<close> is \<open>ctx.Err() != nil\<close> before
  chunk \<open>c\<close> of it (and, for the first chunk, before the table). Each scan gets \<open>fuel\<close> chunks.
\<close>

fun snap_tables :: "nat \<Rightarrow> int \<Rightarrow> (string \<Rightarrow> int \<Rightarrow> string \<Rightarrow> PK list \<Rightarrow> chunk_tx) \<Rightarrow> (string \<Rightarrow> int \<Rightarrow> bool)
    \<Rightarrow> CDCTable list \<Rightarrow> PK \<Rightarrow> int \<Rightarrow> snap_action list" where
  "snap_tables fuel chunkSize db cancelled [] cursor chunkID = [OnScanDone, OnComplete]"
| "snap_tables fuel chunkSize db cancelled (table # tables) cursor chunkID =
     (if cancelled (tb_Name table) chunkID then []
      else let (ops, result) = snap_run fuel (newSnapshotter (tb_Name table) (pkColumn table) chunkSize)
                 (db (tb_Name table)) (cancelled (tb_Name table)) cursor chunkID
           in OnTable (tb_Name table) # map OnMerger ops @
              (if result = Scanned
               then snap_tables fuel chunkSize db cancelled tables PKNil (chunkID + chunkSize)
               else []))"

definition runSnapshot :: "nat \<Rightarrow> Config \<Rightarrow> (string \<Rightarrow> int \<Rightarrow> string \<Rightarrow> PK list \<Rightarrow> chunk_tx) \<Rightarrow> (string \<Rightarrow> int \<Rightarrow> bool)
    \<Rightarrow> CDCState \<Rightarrow> snap_action list" where
  "runSnapshot fuel c db cancelled state =
     snap_tables fuel (chunkSizeOrDefault c) db cancelled (tables_from state) (st_SnapshotCursor state) 1"

text \<open>
  One action on the engine. \<open>None\<close>: the goroutine waits on \<open>allChunksAcked\<close>.
\<close>

fun apply_action :: "cdcEngine \<Rightarrow> snap_action \<Rightarrow> cdcEngine go option" where
  "apply_action e (OnTable t) = Some (Inr (begin_table e t))"
| "apply_action e (OnMerger op) =
     Some (go_bind (merger_step (en_merger e) op) (\<lambda>m. Inr (e\<lparr>en_merger := m\<rparr>)))"
| "apply_action e OnScanDone = Some (Inr (scan_done e))"
| "apply_action e OnComplete =
     (if all_chunks_acked e then Some (Inr (e\<lparr>en_merger := onSnapshotComplete (finishSnapshot (en_merger e))\<rparr>)) else None)"

section \<open>The whole connector\<close>

text \<open>
  The state: the engine, the actions that the snapshot goroutine still has to do, the events
  delivered by \<open>HandleDemand\<close> and the READ events acknowledged with success. The WAL goroutine
  hands over any batches of changes. What a goroutine collected in the merger it sends one by one
  (\<open>send\<close>), whatever the other does in between.
\<close>

type_synonym system = "cdcEngine \<times> snap_action list \<times> CDCEvent list \<times> CDCEvent list"

inductive system_step :: "system \<Rightarrow> system \<Rightarrow> bool" where
  snap: "apply_action e act = Some (Inr e') \<Longrightarrow> system_step (e, act # acts, d, a) (e', acts, d, a)"
| wal: "list_all is_wal (wb_events b) \<Longrightarrow> merger_step (en_merger e) (WALBatch b) = Inr m \<Longrightarrow>
    system_step (e, acts, d, a) (e\<lparr>en_merger := m\<rparr>, acts, d, a)"
| send: "op = SendSnapshot \<or> op = SendWAL \<Longrightarrow> merger_step (en_merger e) op = Inr m \<Longrightarrow>
    system_step (e, acts, d, a) (e\<lparr>en_merger := m\<rparr>, acts, d, a)"
| demand: "HandleDemand e n cancelled = Inr (out, e') \<Longrightarrow> system_step (e, acts, d, a) (e', acts, d @ out, a)"
| ack: "mset (a @ filter is_read (somes ms)) \<subseteq># mset d \<Longrightarrow>
    system_step (e, acts, d, a) (Acknowledger e ms None, acts, d, a @ filter is_read (somes ms))"
| nack: "system_step (e, acts, d, a) (Acknowledger e ms (Some err), acts, d, a)"

inductive system_reach :: "system \<Rightarrow> system \<Rightarrow> bool" for s0 where
  start: "system_reach s0 s0"
| step: "system_reach s0 s \<Longrightarrow> system_step s s' \<Longrightarrow> system_reach s0 s'"

inductive_cases system_stepE: "system_step (e, acts, d, a) s'"

section \<open>The READ events of a plan\<close>

fun action_ops :: "snap_action list \<Rightarrow> merger_op list" where
  "action_ops [] = []"
| "action_ops (OnMerger op # acts) = op # action_ops acts"
| "action_ops (_ # acts) = action_ops acts"

lemma action_ops_append [simp]: "action_ops (xs @ ys) = action_ops xs @ action_ops ys"
  by (induction xs rule: action_ops.induct) auto

lemma action_ops_map [simp]: "action_ops (map OnMerger ops) = ops"
  by (induction ops) auto

abbreviation plan_reads :: "snap_action list \<Rightarrow> CDCEvent list" where
  "plan_reads acts \<equiv> reads_of (action_ops acts)"

text \<open>
  No chunk id is used by two tables: the READ events of each table stay below the id at which
  the next table starts.
\<close>

fun ids_fit :: "int \<Rightarrow> int \<Rightarrow> snap_action list \<Rightarrow> bool" where
  "ids_fit chunkSize base [] = True"
| "ids_fit chunkSize base (OnTable _ # acts) = ids_fit chunkSize (base + chunkSize) acts"
| "ids_fit chunkSize base (OnMerger (SnapshotEvent e) # acts) = (ev_chunkID e < base \<and> ids_fit chunkSize base acts)"
| "ids_fit chunkSize base (_ # acts) = ids_fit chunkSize base acts"

definition read_stream :: "int \<Rightarrow> CDCEvent list \<Rightarrow> bool" where
  "read_stream c R \<longleftrightarrow> list_all is_read R \<and> (\<forall>e \<in> set R. c \<le> ev_chunkID e) \<and> (\<exists>hi. stream_ok hi R)"

lemma read_stream_Nil [simp]: "read_stream c []"
  by (simp add: read_stream_def stream_ok_def)

lemma nreads_outside: "\<forall>e \<in> set R. ev_chunkID e \<noteq> c \<Longrightarrow> nreads c R = 0"
  by (induction R) auto

lemma read_stream_append:
  assumes R: "read_stream c R" and below: "\<forall>e \<in> set R. ev_chunkID e < b" and R': "read_stream b R'" and "c \<le> b"
  shows "read_stream c (R @ R')"
proof -
  from R R' obtain h h' where h: "stream_ok h R" and h': "stream_ok h' R'" by (auto simp: read_stream_def)
  have ge: "\<forall>e \<in> set R'. b \<le> ev_chunkID e" using R' by (simp add: read_stream_def)
  have "nreads (ev_chunkID e) R' = 0" if "e \<in> set R" for e
    using below ge that by (intro nreads_outside) fastforce
  moreover have "nreads (ev_chunkID e) R = 0" if "e \<in> set R'" for e
    using below ge that by (intro nreads_outside) fastforce
  moreover have "sorted (map ev_chunkID (filter is_read R) @ map ev_chunkID (filter is_read R'))"
    using h h' below ge by (fastforce simp: stream_ok_def sorted_append)
  ultimately have "stream_ok (\<lambda>i. if i < b then h i else h' i) (R @ R')"
    using h h' below ge by (fastforce simp: stream_ok_def)
  then show ?thesis using R R' \<open>c \<le> b\<close> ge by (fastforce simp: read_stream_def)
qed

lemma is_read_row_event [simp]: "is_read (read_row_event s c n high row)" "ev_chunkID (read_row_event s c n high row) = c"
  by (simp_all add: read_row_event_def is_read_def)

lemma nreads_chunk: "nreads c (map (read_row_event s c n high) rows) = length rows"
  by (induction rows) auto

lemma read_stream_chunk: "read_stream c (map (read_row_event s c (int (length rows)) high) rows)"
proof -
  have "sorted (map ev_chunkID (filter is_read (map (read_row_event s c n high) rows)))" for n
    by (induction rows) auto
  then have "stream_ok (\<lambda>_. high) (map (read_row_event s c (int (length rows)) high) rows)"
    by (auto simp: stream_ok_def nreads_chunk) (simp_all add: read_row_event_def)
  then show ?thesis by (auto simp: read_stream_def list_all_iff)
qed

lemma snap_run_read_stream:
  "read_stream c (reads_of (fst (snap_run fuel s db cancelled cursor c)))"
proof (induction fuel arbitrary: cursor c)
  case (Suc fuel)
  consider "cancelled c" | p where "readChunk s (db c) cursor = Inl p"
    | err where "readChunk s (db c) cursor = Inr (Inl err)"
    | rows xmin high where "readChunk s (db c) cursor = Inr (Inr (rows, xmin, high))"
    by (metis old.sum.exhaust prod_cases3)
  then show ?case
  proof cases
    case 4
    have "read_stream c (map (read_row_event s c (int (length rows)) high) rows
        @ reads_of (fst (snap_run fuel s db cancelled high (c + 1))))"
      by (rule read_stream_append [OF read_stream_chunk _ Suc.IH]) auto
    with 4 show ?thesis by (cases "cancelled c") (simp_all add: Let_def case_prod_beta)
  qed (auto simp: Let_def)
qed simp

lemma ids_fit_ops:
  "ids_fit n base (map OnMerger ops @ acts) \<longleftrightarrow> (\<forall>e \<in> set (reads_of ops). ev_chunkID e < base) \<and> ids_fit n base acts"
proof (induction ops)
  case (Cons op ops)
  then show ?case by (cases op) auto
qed simp

lemma snap_tables_read_stream:
  "0 \<le> n \<Longrightarrow> ids_fit n c (snap_tables fuel n db cancelled ts cursor c) \<Longrightarrow>
     read_stream c (plan_reads (snap_tables fuel n db cancelled ts cursor c))"
proof (induction ts arbitrary: cursor c)
  case (Cons t ts)
  let ?s = "newSnapshotter (tb_Name t) (pkColumn t) n"
  obtain ops r where run: "snap_run fuel ?s (db (tb_Name t)) (cancelled (tb_Name t)) cursor c = (ops, r)" by fastforce
  have ops: "read_stream c (reads_of ops)"
    using snap_run_read_stream [of c fuel ?s "db (tb_Name t)" "cancelled (tb_Name t)" cursor] by (simp add: run)
  show ?case
  proof (cases "cancelled (tb_Name t) c \<or> r \<noteq> Scanned")
    case True
    with ops run show ?thesis by auto
  next
    case False
    with Cons.prems run have "\<forall>e \<in> set (reads_of ops). ev_chunkID e < c + n"
      and "ids_fit n (c + n) (snap_tables fuel n db cancelled ts PKNil (c + n))"
      by (simp_all add: ids_fit_ops)
    with Cons.IH [OF Cons.prems(1)] ops Cons.prems(1) False run show ?thesis
      by (auto intro!: read_stream_append)
  qed
qed simp

section \<open>The invariant of the system\<close>

lemma collect_emits_wal:
  "collectWALBatch m lsn es out = Inr (m', out') \<Longrightarrow> list_all is_wal es \<Longrightarrow> list_all is_wal out \<Longrightarrow>
     list_all is_wal (unsent m) \<Longrightarrow>
     list_all is_wal out' \<and> list_all is_wal (unsent m') \<and> mg_output m' = mg_output m"
proof (induction m lsn es out rule: collectWALBatch.induct)
  case (2 m lsn e es out)
  let ?e = "e\<lparr>ev_commitLSN := lsn\<rparr>"
  from "2.prems"(1) obtain m1 e1 ok where r: "routeEvent m ?e = Inr (m1, e1, ok)"
    and rest: "collectWALBatch m1 lsn es (if ok then out @ [e1] else out) = Inr (m', out')"
    by (auto simp: go_bind_Inr_iff)
  have e: "is_wal ?e" using "2.prems"(2) by (simp add: is_wal_def)
  have e1: "e1 = ?e" using routeEvent_cases(1) [OF r] .
  have "m1 = m \<or> m1 = m\<lparr>mg_pendingWALEvents := mg_pendingWALEvents m @ [?e]\<rparr>"
    using routeEvent_cases(2-4) [OF r] by blast
  then have m1: "list_all is_wal (unsent m1)" "mg_output m1 = mg_output m"
    using e "2.prems"(4) by (auto simp: unsent_def)
  have "list_all is_wal (if ok then out @ [e1] else out)" using e e1 "2.prems"(3) by auto
  from "2.IH" [OF rest _ this m1(1)] "2.prems"(2) m1(2) show ?case by auto
qed simp

lemma merger_step_emits:
  assumes "merger_step m op = Inr m'" and "op_kinds_ok op" and un: "list_all is_wal (unsent m)"
  shows "list_all is_wal (unsent m') \<and>
    (\<exists>es. mg_output m' = mg_output m @ es @ op_read op \<and> list_all is_wal es)"
proof (cases op)
  case (EndChunk i t h x)
  with assms show ?thesis
    by (auto simp: unsent_def onEndChunk_def Let_def go_bind_Inr_iff list_all_iff dest!: end_loop_filter
        split: option.splits if_splits)
next
  case (WALBatch b)
  with assms(1) obtain m1 out
    where c: "collectWALBatch (finishWAL m) (wb_commitLSN b) (wb_events b) [] = Inr (m1, out)"
      "m' = m1\<lparr>mg_walToEmit := mg_walToEmit m1 @ out\<rparr>"
    by (auto simp: onWALBatch_def go_bind_Inr_iff)
  have "list_all is_wal (unsent (finishWAL m))" using un by (simp add: unsent_def)
  with collect_emits_wal [OF c(1)] WALBatch assms(2) c(2) un show ?thesis by (simp add: unsent_def)
next
  case SendSnapshot
  with assms show ?thesis by (cases "mg_toEmit m") (auto simp: unsent_def sendSnapshot_def)
next
  case SendWAL
  with assms show ?thesis by (cases "mg_walToEmit m") (auto simp: unsent_def sendWAL_def)
qed (use assms in \<open>auto simp: unsent_def onBeginChunk_def onSnapshotComplete_def onSnapshotEvent_def Let_def\<close>)

lemma client_inv_merger:
  "mg_output m = mg_output (en_merger e) \<Longrightarrow>
     client_inv hi S cur0 (e\<lparr>en_merger := m\<rparr>, d, a) = client_inv hi S cur0 (e, d, a)"
  by (simp add: client_inv_def books_ok_def)

text \<open>The invariant only depends on the READ events of the stream.\<close>

lemma nreads_only: "nreads c (filter is_read S) = nreads c S"
  by (simp add: nreads_def conj_commute)

lemma client_inv_stream:
  assumes "client_inv hi S cur0 (e, d, a)" and "filter is_read S = filter is_read S'"
    and "prefix (d @ mg_output (en_merger e)) S'"
  shows "client_inv hi S' cur0 (e, d, a)"
proof -
  have "nreads c S = nreads c S'" for c using assms(2) by (metis nreads_only)
  with assms(1,3) show ?thesis by (simp add: client_inv_def cursor_safe_def acked_upto_def)
qed

lemma stream_ok_reads:
  assumes "filter is_read S = R" shows "stream_ok hi S = stream_ok hi R"
proof -
  have "nreads c S = nreads c R" for c using assms by (metis nreads_only)
  moreover have "filter is_read R = R" using assms by auto
  moreover have "(\<forall>e \<in> set S. is_read e \<longrightarrow> P e) = (\<forall>e \<in> set R. is_read e \<longrightarrow> P e)" for P
    using assms by auto
  ultimately show ?thesis by (simp add: stream_ok_def assms)
qed

lemma demand_loop_output:
  "demand_loop n e res = (out, e') \<Longrightarrow> out @ mg_output (en_merger e') = res @ mg_output (en_merger e) \<and>
     unsent (en_merger e') = unsent (en_merger e)"
  by (induction n e res rule: demand_loop.induct) (auto simp: Let_def track_read_def split: list.splits if_splits)

lemma HandleDemand_output:
  "HandleDemand e n cancelled = Inr (out, e') \<Longrightarrow> out @ mg_output (en_merger e') = mg_output (en_merger e) \<and>
     unsent (en_merger e') = unsent (en_merger e)"
  by (auto simp: HandleDemand_def dest: demand_loop_output split: if_splits)

lemma cursor_merger [simp]: "en_merger (advanceSnapshotCursor e) = en_merger e"
  by (simp add: advanceSnapshotCursor_def Let_def)

lemma ack_chunks_merger: "ack_chunks acks e b = (e', b') \<Longrightarrow> en_merger e' = en_merger e"
  by (induction acks e b rule: ack_chunks.induct) (auto simp: Let_def complete_chunk_def split: if_splits)

lemma Acknowledger_merger [simp]: "en_merger (Acknowledger e ms err) = en_merger e"
proof (cases err)
  case None
  obtain x acks where scan: "ack_scan ms 0 [] = (x, acks)" by fastforce
  obtain e2 adv where chunks: "ack_chunks acks (advance_lsn e x) False = (e2, adv)" by fastforce
  have "Acknowledger e ms err = save_state (check_streaming (if adv then advanceSnapshotCursor e2 else e2))"
    using scan chunks None by (simp add: Acknowledger_def)
  then show ?thesis using ack_chunks_merger [OF chunks] by simp
qed (simp add: Acknowledger_def)

definition sys_inv :: "(int \<Rightarrow> PK) \<Rightarrow> CDCEvent list \<Rightarrow> PK \<Rightarrow> system \<Rightarrow> bool" where
  "sys_inv hi R cur0 s \<longleftrightarrow> (case s of (e, acts, d, a) \<Rightarrow>
     list_all is_wal (unsent (en_merger e)) \<and> list_all op_kinds_ok (action_ops acts) \<and>
     list_all is_read a \<and> filter is_read (d @ mg_output (en_merger e)) @ plan_reads acts = R \<and>
     client_inv hi (d @ mg_output (en_merger e) @ plan_reads acts) cur0 (e, d, a))"

lemma wal_not_read: "is_wal e \<longleftrightarrow> \<not> is_read e"
  by (simp add: is_wal_def is_read_def)

lemma filter_wal: "list_all is_wal es \<Longrightarrow> filter is_read es = []"
  by (induction es) (auto simp: wal_not_read)

lemma op_reads: "op_kinds_ok op \<Longrightarrow> filter is_read (op_read op) = op_read op"
  by (cases op) (auto simp: wal_not_read)

lemma plan_all_read: "list_all op_kinds_ok ops \<Longrightarrow> filter is_read (reads_of ops) = reads_of ops"
  by (induction ops) (auto simp: op_reads)

text \<open>
  What the snapshot has planned to read is delivered, waits in the merger's output, or is still to be
  read, in this order, whatever happens in between.
\<close>

definition plan_inv :: "CDCEvent list \<Rightarrow> system \<Rightarrow> bool" where
  "plan_inv R s \<longleftrightarrow> (case s of (e, acts, d, a) \<Rightarrow>
     list_all is_wal (unsent (en_merger e)) \<and> list_all op_kinds_ok (action_ops acts) \<and>
     filter is_read (d @ mg_output (en_merger e)) @ plan_reads acts = R)"

lemma plan_inv_step:
  assumes "system_step s s'" and "plan_inv R s"
  shows "plan_inv R s'"
  using assms
proof (induction rule: system_step.induct)
  case (snap e act e' acts d a)
  show ?case
  proof (cases act)
    case (OnMerger op)
    with snap obtain m where m: "merger_step (en_merger e) op = Inr m" "e' = e\<lparr>en_merger := m\<rparr>"
      by (auto simp: go_bind_Inr_iff)
    have op: "op_kinds_ok op" and pend: "list_all is_wal (unsent (en_merger e))"
      using snap.prems OnMerger by (simp_all add: plan_inv_def)
    from merger_step_emits [OF m(1) op pend] obtain es
      where es: "mg_output m = mg_output (en_merger e) @ es @ op_read op" "list_all is_wal es"
        "list_all is_wal (unsent m)" by blast
    then show ?thesis using snap.prems OnMerger by (simp add: plan_inv_def m(2) filter_wal op_reads [OF op])
    next
    case OnComplete
    with snap have m: "merger_step (en_merger e) SnapshotComplete = Inr (en_merger e')"
      by (auto split: if_splits)
    have pend: "list_all is_wal (unsent (en_merger e))" using snap.prems by (simp add: plan_inv_def)
    from merger_step_emits [OF m _ pend] snap.prems OnComplete show ?thesis
      by (auto simp: plan_inv_def filter_wal)
  qed (use snap in \<open>auto simp: plan_inv_def begin_table_def scan_done_def\<close>)
next
  case (wal b e m acts d a)
  then have pend: "list_all is_wal (unsent (en_merger e))" by (simp add: plan_inv_def)
  from merger_step_emits [OF wal.hyps(2) _ pend] wal.hyps(1) obtain es
    where es: "mg_output m = mg_output (en_merger e) @ es" "list_all is_wal es"
      "list_all is_wal (unsent m)" by auto
  then show ?case using wal.prems by (simp add: plan_inv_def filter_wal)
next
  case (send op e m acts d a)
  then have pend: "list_all is_wal (unsent (en_merger e))" by (simp add: plan_inv_def)
  from merger_step_emits [OF send.hyps(2) _ pend] send.hyps(1) obtain es
    where es: "mg_output m = mg_output (en_merger e) @ es" "list_all is_wal es"
      "list_all is_wal (unsent m)" by auto
  then show ?case using send.prems by (simp add: plan_inv_def filter_wal)
next
  case (demand e n cancelled out e' acts d a)
  then show ?case using HandleDemand_output [OF demand.hyps] by (simp add: plan_inv_def flip: filter_append)
qed (simp_all add: plan_inv_def)

text \<open>The merger sends changes and the READ events of one call; the rest of the plan shrinks.\<close>

lemma sys_inv_emit:
  assumes inv: "sys_inv hi R cur0 (e, acts, d, a)" and ok: "stream_ok hi R"
    and out: "mg_output m = mg_output (en_merger e) @ es @ r" and es: "list_all is_wal es"
    and pend: "list_all is_wal (unsent m)"
    and plan: "plan_reads acts = r @ plan_reads acts'" and kinds: "list_all op_kinds_ok (action_ops acts')"
  shows "sys_inv hi R cur0 (e\<lparr>en_merger := m\<rparr>, acts', d, a)"
proof -
  let ?o = "mg_output (en_merger e)"
  let ?S = "d @ ?o @ r @ plan_reads acts'" and ?S' = "d @ (?o @ es @ r) @ plan_reads acts'"
  have I: "list_all is_read a" "filter is_read (d @ ?o) @ plan_reads acts = R" "client_inv hi ?S cur0 (e, d, a)"
    "list_all op_kinds_ok (action_ops acts)"
    using inv by (simp_all add: sys_inv_def plan)
  have reads: "filter is_read (r @ plan_reads acts') = r @ plan_reads acts'"
    using plan_all_read [OF I(4)] by (simp add: plan)
  have same: "filter is_read ?S = filter is_read ?S'" using filter_wal [OF es] by simp
  have "filter is_read ?S = R" using I(2) reads by (simp add: plan)
  with same have ok': "stream_ok hi ?S'" using ok stream_ok_reads by metis
  have "client_inv hi ?S' cur0 (e, d, a)"
    by (rule client_inv_stream [OF I(3) same]) simp
  then have "client_inv hi ?S' cur0 (e\<lparr>en_merger := emit (es @ r) (en_merger e)\<rparr>, d, a)"
    by (rule client_inv_step [OF ok' _ client_step.produce]) simp
  then have "client_inv hi ?S' cur0 (e\<lparr>en_merger := m\<rparr>, d, a)"
    using client_inv_merger [of m "e\<lparr>en_merger := emit (es @ r) (en_merger e)\<rparr>" hi ?S' cur0 d a] by (simp add: out)
  moreover have "filter is_read r = r" using reads by (auto simp: filter_id_conv simp del: filter_append)
  ultimately show ?thesis using I pend kinds filter_wal [OF es]
    by (simp add: sys_inv_def out plan)
qed

lemma sys_inv_client:
  assumes inv: "sys_inv hi R cur0 (e, acts, d, a)" and ok: "stream_ok hi R"
    and step: "\<And>S. client_step S (e, d, a) (e', d', a')"
    and out: "d' @ mg_output (en_merger e') = d @ mg_output (en_merger e)"
    and pend: "unsent (en_merger e') = unsent (en_merger e)"
    and a': "list_all is_read a'" and plan: "action_ops acts' = action_ops acts"
  shows "sys_inv hi R cur0 (e', acts', d', a')"
proof -
  let ?S = "d @ mg_output (en_merger e) @ plan_reads acts"
  have I: "client_inv hi ?S cur0 (e, d, a)" "filter is_read (d @ mg_output (en_merger e)) @ plan_reads acts = R"
    "list_all op_kinds_ok (action_ops acts)"
    using inv by (simp_all add: sys_inv_def)
  then have "filter is_read ?S = R" by (simp add: plan_all_read)
  then have "stream_ok hi ?S" using ok stream_ok_reads by metis
  from client_inv_step [OF this I(1) step] have "client_inv hi ?S cur0 (e', d', a')" .
  moreover have "d' @ mg_output (en_merger e') @ plan_reads acts = ?S" using out by (metis append_assoc)
  ultimately have "client_inv hi (d' @ mg_output (en_merger e') @ plan_reads acts) cur0 (e', d', a')" by metis
  moreover have "filter is_read (d' @ mg_output (en_merger e')) @ plan_reads acts = R"
    unfolding out using I(2) .
  ultimately show ?thesis using inv pend a' plan
    by (simp add: sys_inv_def del: filter_append)
qed

lemma sys_inv_step:
  assumes "system_step s s'" and "sys_inv hi R cur0 s" and ok: "stream_ok hi R"
  shows "sys_inv hi R cur0 s'"
  using assms(1,2)
proof (induction rule: system_step.induct)
  case (snap e act e' acts d a)
  have reads: "list_all is_read a" and pend: "list_all is_wal (unsent (en_merger e))"
    and kinds: "list_all op_kinds_ok (action_ops (act # acts))"
    using snap.prems by (simp_all add: sys_inv_def)
  show ?case
  proof (cases act)
    case (OnTable t)
    with snap have e': "e' = begin_table e t" by simp
    show ?thesis using OnTable reads unfolding e'
      by (intro sys_inv_client [OF snap.prems ok client_step.next_table]) auto
  next
    case (OnMerger op)
    with snap obtain m where m: "merger_step (en_merger e) op = Inr m" "e' = e\<lparr>en_merger := m\<rparr>"
      by (auto simp: go_bind_Inr_iff)
    have op: "op_kinds_ok op" "list_all op_kinds_ok (action_ops acts)" using kinds OnMerger by simp_all
    from merger_step_emits [OF m(1) op(1) pend] obtain es
      where es: "mg_output m = mg_output (en_merger e) @ es @ op_read op" "list_all is_wal es"
        "list_all is_wal (unsent m)" by blast
    show ?thesis unfolding m(2)
      by (rule sys_inv_emit [OF snap.prems ok es]) (simp_all add: OnMerger op)
  next
    case OnScanDone
    with snap have e': "e' = scan_done e" by simp
    show ?thesis using OnScanDone reads unfolding e'
      by (intro sys_inv_client [OF snap.prems ok client_step.scanned]) auto
  next
    case OnComplete
    with snap have e': "e' = e\<lparr>en_merger := onSnapshotComplete (finishSnapshot (en_merger e))\<rparr>" by (simp split: if_splits)
    from merger_step_emits [of "en_merger e" SnapshotComplete "en_merger e'"] pend obtain es
      where es: "mg_output (en_merger e') = mg_output (en_merger e) @ es @ []" "list_all is_wal es"
        "list_all is_wal (unsent (en_merger e'))" by (auto simp: e')
    have "sys_inv hi R cur0 (e\<lparr>en_merger := en_merger e'\<rparr>, acts, d, a)"
      by (rule sys_inv_emit [OF snap.prems ok es]) (use kinds OnComplete in simp_all)
    then show ?thesis by (simp add: e')
  qed
next
  case (wal b e m acts d a)
  have pend: "list_all is_wal (unsent (en_merger e))" and kinds: "list_all op_kinds_ok (action_ops acts)"
    using wal.prems by (simp_all add: sys_inv_def)
  from merger_step_emits [OF wal.hyps(2) _ pend] wal.hyps(1) obtain es
    where es: "mg_output m = mg_output (en_merger e) @ es @ []" "list_all is_wal es"
      "list_all is_wal (unsent m)" by auto
  show ?case by (rule sys_inv_emit [OF wal.prems ok es]) (simp_all add: kinds)
next
  case (send op e m acts d a)
  have pend: "list_all is_wal (unsent (en_merger e))" and kinds: "list_all op_kinds_ok (action_ops acts)"
    using send.prems by (simp_all add: sys_inv_def)
  from merger_step_emits [OF send.hyps(2) _ pend] send.hyps(1) obtain es
    where es: "mg_output m = mg_output (en_merger e) @ es @ []" "list_all is_wal es"
      "list_all is_wal (unsent m)" by auto
  show ?case by (rule sys_inv_emit [OF send.prems ok es]) (simp_all add: kinds)
next
  case (demand e n cancelled out e' acts d a)
  have reads: "list_all is_read a" using demand.prems by (simp add: sys_inv_def)
  show ?case using HandleDemand_output [OF demand.hyps] reads
    by (intro sys_inv_client [OF demand.prems ok client_step.demand [OF demand.hyps]]) auto
next
  case (ack a ms d e acts)
  have reads: "list_all is_read a" using ack.prems by (simp add: sys_inv_def)
  show ?case using reads
    by (intro sys_inv_client [OF ack.prems ok client_step.ack_ok [OF ack.hyps]]) (auto simp: list_all_iff)
next
  case (nack e acts d a ms err)
  have reads: "list_all is_read a" using nack.prems by (simp add: sys_inv_def)
  show ?case using reads by (intro sys_inv_client [OF nack.prems ok client_step.ack_failed]) auto
qed

lemma sys_inv_reach:
  "system_reach s0 s \<Longrightarrow> sys_inv hi R cur0 s0 \<Longrightarrow> stream_ok hi R \<Longrightarrow> sys_inv hi R cur0 s"
  by (induction rule: system_reach.induct) (auto intro: sys_inv_step)

lemma start_engine:
  assumes "start c env e = Inr (e0, w, snap)"
  shows "fresh_engine e0" and "en_saved e0 = en_saved e" and "unsent (en_merger e0) = []"
    and "snap = (if st_Phase (en_state e0) = PhaseSnapshotting then Some (en_state e0) else None)"
  using assms
  by (auto simp: start_def fresh_engine_def Let_def split: if_splits sum.splits option.splits prod.splits)

lemma snap_run_kinds: "list_all op_kinds_ok (fst (snap_run fuel s db cancelled cursor c))"
  by (induction fuel arbitrary: cursor c)
    (auto simp: Let_def case_prod_beta list_all_iff wal_not_read split: sum.splits)

lemma snap_tables_kinds: "list_all op_kinds_ok (action_ops (snap_tables fuel n db cancelled ts cursor c))"
proof (induction ts arbitrary: cursor c)
  case (Cons t ts)
  let ?run = "snap_run fuel (newSnapshotter (tb_Name t) (pkColumn t) n) (db (tb_Name t)) (cancelled (tb_Name t)) cursor c"
  obtain ops r where "?run = (ops, r)" by fastforce
  moreover from this snap_run_kinds have "list_all op_kinds_ok ops" by (metis fst_conv)
  ultimately show ?case using Cons.IH by simp
qed simp

text \<open>READ events counted chunk by chunk, and as a multiset.\<close>

lemma acked_chunk:
  assumes sub: "mset a \<subseteq># mset R" and reads: "list_all is_read R" and le: "nreads c R \<le> nreads c a"
    and r: "ev_chunkID r = c"
  shows "count (mset a) r = count (mset R) r"
proof -
  let ?P = "\<lambda>e. is_read e \<and> ev_chunkID e = c"
  have n: "nreads c xs = size (filter_mset ?P (mset xs))" for xs
    by (simp add: nreads_def flip: mset_filter)
  have sub': "filter_mset ?P (mset a) \<subseteq># filter_mset ?P (mset R)" using sub by (rule multiset_filter_mono)
  then have "filter_mset ?P (mset a) = filter_mset ?P (mset R)"
    using le unfolding n by (meson mset_subset_size not_le subset_mset.le_imp_less_or_eq)
  then have "count (filter_mset ?P (mset a)) r = count (filter_mset ?P (mset R)) r" by simp
  moreover have "is_read r" if "r \<in># mset R" using that reads by (auto simp: list_all_iff)
  moreover have "count (mset a) r \<le> count (mset R) r" using sub by (simp add: subseteq_mset_def)
  ultimately show ?thesis using r
    by (cases "r \<in># mset R") (auto, metis count_eq_zero_iff le_zero_eq set_mset_mset)
qed

text \<open>What a plan still has to deliver.\<close>

lemma plan_delivered:
  assumes "start c env newCDCEngine = Inr (e0, w, Some st)" and "acts = runSnapshot fuel c db cancelled st"
    and "system_reach (e0, acts, [], []) (e, rest, d, a)"
  shows "filter is_read (d @ mg_output (en_merger e)) @ plan_reads rest = plan_reads acts"
proof -
  note start = start_engine [OF assms(1)]
  have "list_all op_kinds_ok (action_ops acts)" using snap_tables_kinds by (simp add: assms(2) runSnapshot_def)
  then have "plan_inv (plan_reads acts) (e0, acts, [], [])"
    using start(1,3) by (simp add: plan_inv_def fresh_engine_def)
  with assms(3) have "plan_inv (plan_reads acts) (e, rest, d, a)"
    by (induction rule: system_reach.induct) (auto intro: plan_inv_step)
  then show ?thesis by (simp add: plan_inv_def)
qed

section \<open>Properties\<close>

text \<open>The saved cursor when chunk ids are not shared, whatever sees to that.\<close>

lemma saved_cursor_acked:
  assumes "start c env newCDCEngine = Inr (e0, w, Some st)"
    and "acts = runSnapshot fuel c db cancelled st"
    and "read_stream 1 (plan_reads acts)"
    and "system_reach (e0, acts, [], []) (e, rest, d, a)"
  shows "\<forall>cur \<in> st_SnapshotCursor ` insert (en_state e) (set (en_saved e)).
    cur = st_SnapshotCursor st \<or> cur = PKNil \<or>
    (\<exists>r \<in> set a. r \<in> set (plan_reads acts) \<and> cur = ev_chunkHighPK r \<and>
       (\<forall>r' \<in> set (plan_reads acts). ev_chunkID r' \<le> ev_chunkID r \<longrightarrow>
          count (mset a) r' = count (mset (plan_reads acts)) r'))"
proof
  let ?R = "plan_reads acts"
  note start = start_engine [OF assms(1)]
  have st: "st = en_state e0" using start(4) by (simp split: if_splits)
  have kinds: "list_all op_kinds_ok (action_ops acts)"
    using snap_tables_kinds by (simp add: assms(2) runSnapshot_def)
  obtain hi where hi: "stream_ok hi ?R" using assms(3) by (auto simp: read_stream_def)
  have saved0: "en_saved e0 = []" using start(2) by (simp add: newCDCEngine_def)
  have "mg_output (en_merger e0) = []" using start(1) by (simp add: fresh_engine_def)
  then have "sys_inv hi ?R (st_SnapshotCursor st) (e0, acts, [], [])"
    using client_inv_fresh [OF start(1) saved0, of hi ?R] start(3) kinds by (simp add: sys_inv_def st)
  from sys_inv_reach [OF assms(4) this hi] have inv: "sys_inv hi ?R (st_SnapshotCursor st) (e, rest, d, a)" .
  let ?S = "d @ mg_output (en_merger e) @ plan_reads rest"
  have I: "list_all is_read a" "filter is_read (d @ mg_output (en_merger e)) @ plan_reads rest = ?R"
    "client_inv hi ?S (st_SnapshotCursor st) (e, d, a)" "list_all op_kinds_ok (action_ops rest)"
    using inv by (simp_all add: sys_inv_def)
  have SR: "filter is_read ?S = ?R" using I(2) plan_all_read [OF I(4)] by simp
  have n: "nreads c ?S = nreads c ?R" for c using nreads_only [of c ?S] unfolding SR by simp
  have "mset a \<subseteq># mset ?S" using I(3) by (auto simp: client_inv_def intro: subset_mset.order_trans)
  then have "filter_mset is_read (mset a) \<subseteq># filter_mset is_read (mset ?S)" by (rule multiset_filter_mono)
  moreover have "filter is_read a = a" using I(1) by (simp add: filter_id_conv list_all_iff)
  ultimately have sub: "mset a \<subseteq># mset ?R" using SR by (metis mset_filter)
  have R: "list_all is_read ?R" using plan_all_read [OF kinds] by (simp add: filter_id_conv list_all_iff)
  fix cur assume "cur \<in> st_SnapshotCursor ` insert (en_state e) (set (en_saved e))"
  then have "cursor_safe hi ?S (st_SnapshotCursor st) a cur" using I(3) by (auto simp: client_inv_def)
  then consider "cur = st_SnapshotCursor st" | "cur = PKNil" | v where "cur = hi v" "acked_upto ?S a v"
    by (auto simp: cursor_safe_def)
  then show "cur = st_SnapshotCursor st \<or> cur = PKNil \<or> (\<exists>r \<in> set a. r \<in> set ?R \<and> cur = ev_chunkHighPK r \<and>
      (\<forall>r' \<in> set ?R. ev_chunkID r' \<le> ev_chunkID r \<longrightarrow> count (mset a) r' = count (mset ?R) r'))"
  proof cases
    case 3
    then obtain r where r: "r \<in> set a" "is_read r" "ev_chunkID r = v"
      by (auto simp: acked_upto_def nreads_pos)
    then have rR: "r \<in> set ?R" using mset_subset_eqD [OF sub, of r] by simp
    with hi r have "cur = ev_chunkHighPK r" using 3(1) by (simp add: stream_ok_def)
    moreover have "\<forall>r' \<in> set ?R. ev_chunkID r' \<le> ev_chunkID r \<longrightarrow> count (mset a) r' = count (mset ?R) r'"
    proof (intro ballI impI)
      fix r' :: CDCEvent assume "ev_chunkID r' \<le> ev_chunkID r"
      then have "nreads (ev_chunkID r') ?R \<le> nreads (ev_chunkID r') a"
        using 3(2) r(3) unfolding acked_upto_def n by blast
      then show "count (mset a) r' = count (mset ?R) r'" by (rule acked_chunk [OF sub R]) simp
    qed
    ultimately show ?thesis using r(1) rR by blast
  qed auto
qed

text \<open>
  Claim C5. When no two tables share a chunk id, the saved cursor is the key of a chunk that is acknowledged
  together with all before it. Start with any saved state and any answers of the database, plan the scan of
  all tables, and interleave its calls with any WAL batches, sends, demands and acknowledgements. If
  \<open>ids_fit\<close> holds of the plan, the value of the cursor in memory and in every saved state is the one of the
  start, or unset, or the high key of a chunk such that every READ event of this chunk and of all chunks
  with smaller ids, in whatever table, is acknowledged. The claim is about the value alone: the state
  may name another table than the chunk's, and a restart then skips rows of that table (\<open>engine_unsafe_resume\<close>).
\<close>

theorem connector_cursor_safe:
  assumes "start c env newCDCEngine = Inr (e0, w, Some st)"
    and "acts = runSnapshot fuel c db cancelled st"
    and "ids_fit (chunkSizeOrDefault c) 1 acts"
    and "system_reach (e0, acts, [], []) (e, rest, d, a)"
  shows "\<forall>cur \<in> st_SnapshotCursor ` insert (en_state e) (set (en_saved e)).
    cur = st_SnapshotCursor st \<or> cur = PKNil \<or>
    (\<exists>r \<in> set a. cur = ev_chunkHighPK r \<and>
       (\<forall>r' \<in> set (plan_reads acts). ev_chunkID r' \<le> ev_chunkID r \<longrightarrow>
          count (mset a) r' = count (mset (plan_reads acts)) r'))"
proof -
  have "0 \<le> chunkSizeOrDefault c" by (simp add: chunkSizeOrDefault_def)
  with snap_tables_read_stream assms(2,3) have "read_stream 1 (plan_reads acts)" by (simp add: runSnapshot_def)
  from saved_cursor_acked [OF assms(1,2) this assms(4)] show ?thesis by blast
qed

text \<open>A plan on an engine with nothing to interleave.\<close>

fun run_actions :: "cdcEngine \<Rightarrow> snap_action list \<Rightarrow> cdcEngine go option" where
  "run_actions e [] = Some (Inr e)"
| "run_actions e (act # acts) =
     (case apply_action e act of
        Some (Inr e') \<Rightarrow> run_actions e' acts
      | r \<Rightarrow> r)"

lemma run_actions_reach:
  "run_actions e acts = Some (Inr e') \<Longrightarrow> system_reach s0 (e, acts @ rest, d, a) \<Longrightarrow> system_reach s0 (e', rest, d, a)"
proof (induction e acts rule: run_actions.induct)
  case (2 e act acts)
  then show ?case
    by (fastforce split: option.splits sum.splits intro: system_reach.step system_step.snap)
qed simp

text \<open>Two tables with one integer key column: \<open>public.orders\<close> with the ids 1 and 2, \<open>public.users\<close> with 7.\<close>

definition two_tables :: "CDCTable list" where
  "two_tables = [\<lparr>tb_Name = ''public.orders'', tb_PKColumn = ''id''\<rparr>, \<lparr>tb_Name = ''public.users'', tb_PKColumn = ''id''\<rparr>]"

definition two_config :: "int \<Rightarrow> Config" where
  "two_config n = \<lparr>cf_SlotName = ''slot'', cf_Publication = ''pub'', cf_Tables = two_tables,
     cf_ChunkSize = n, cf_BufferSize = 0, cf_hasOffsetStore = True\<rparr>"

definition good_env :: start_env where
  "good_env = \<lparr>se_connect = None, se_store_init = None, se_load = Inr (zeroState, False), se_repl = None,
     se_pub_exists = Inr False, se_exec = (\<lambda>_. None), se_slot = SlotCreated ''0/10'',
     se_ParseLSN = (\<lambda>_. Inr 16), se_snap_connect = None\<rparr>"

definition two_db :: "int \<Rightarrow> string \<Rightarrow> int \<Rightarrow> string \<Rightarrow> PK list \<Rightarrow> chunk_tx" where
  "two_db n t = fixed_db (newSnapshotter t ''id'' n) [''id'']
     (if t = ''public.orders'' then [[VInt64 1], [VInt64 2]] else [[VInt64 7]]) ''900:900:''"

definition order_read :: "int \<Rightarrow> int \<Rightarrow> PK \<Rightarrow> PK \<Rightarrow> CDCEvent" where
  "order_read c n k high =
     read_row_event (newSnapshotter ''public.orders'' ''id'' n) c n high (Some [(''id'', (case k of PKInt v \<Rightarrow> VInt64 v | _ \<Rightarrow> VNil))])"

lemma xmin900: "parseXMin ''900:900:'' = 900"
  by (simp add: parseXMin_def is_blank_def is_digit_def parse_uint_def digit_val_def)

lemmas plan_example_simps = runSnapshot_def tables_from_def two_config_def two_tables_def two_db_def fixed_db_def
  initial_state_def zeroState_def chunkSizeOrDefault_def pkColumn_def newSnapshotter_def splitQualifiedTable_def
  readChunk_def buildChunkQuery_def table_answer_def remaining_def above_def key_of_def row_get_def IsSet_def
  read_row_event_def xmin900 Let_def

definition two_state :: "int \<Rightarrow> CDCState" where
  "two_state n = initial_state (two_config n)"

definition two_engine :: "int \<Rightarrow> cdcEngine" where
  "two_engine n = newCDCEngine\<lparr>en_hasStore := True, en_state := two_state n,
     en_merger := newMerger [] PhaseSnapshotting, en_hasStreamer := True\<rparr>"

definition two_plan :: "int \<Rightarrow> snap_action list" where
  "two_plan n = runSnapshot 3 (two_config n) (two_db n) (\<lambda>_ _. False) (two_state n)"

lemma two_start: "start (two_config n) good_env newCDCEngine =
    Inr (two_engine n, newWALStreamer ''slot'' ''pub'' 16, Some (two_state n))"
  by (simp add: start_def good_env_def two_engine_def two_state_def ensurePublication_def ensureSlot_def two_config_def
      initial_state_def zeroState_def newCDCEngine_def Let_def)

definition plan_read :: "string \<Rightarrow> int \<Rightarrow> int \<Rightarrow> int64 \<Rightarrow> int64 \<Rightarrow> CDCEvent" where
  "plan_read t c n k high =
     \<lparr>ev_Schema = ''public'', ev_Table = t, ev_Operation = OperationRead, ev_PK = PKInt k, ev_Before = None,
      ev_After = Some [(''id'', VInt64 k)], ev_commitXID = 0, ev_commitLSN = 0, ev_chunkID = c, ev_chunkSize = n,
      ev_chunkHighPK = PKInt high\<rparr>"

lemma plan_read_simps [simp]:
  "ev_Schema (plan_read t c n k h) = ''public''" "ev_Table (plan_read t c n k h) = t"
  "ev_Operation (plan_read t c n k h) = OperationRead" "ev_PK (plan_read t c n k h) = PKInt k"
  "ev_chunkID (plan_read t c n k h) = c" "ev_chunkSize (plan_read t c n k h) = n"
  "ev_chunkHighPK (plan_read t c n k h) = PKInt h" "is_read (plan_read t c n k h)"
  by (simp_all add: plan_read_def is_read_def)

lemma two_plan_1: "two_plan 1 =
  [OnTable ''public.orders'', OnMerger (BeginChunk 1 ''public.orders'' PKNil PKNil),
   OnMerger (EndChunk 1 ''public.orders'' (PKInt 1) 900), OnMerger (SnapshotEvent (plan_read ''orders'' 1 1 1 1)),
   OnMerger (BeginChunk 2 ''public.orders'' (PKInt 1) (PKInt 2)),
   OnMerger (EndChunk 2 ''public.orders'' (PKInt 2) 900), OnMerger (SnapshotEvent (plan_read ''orders'' 2 1 2 2)),
   OnMerger (BeginChunk 3 ''public.orders'' (PKInt 2) (PKInt 3)),
   OnTable ''public.users'', OnMerger (BeginChunk 2 ''public.users'' PKNil PKNil),
   OnMerger (EndChunk 2 ''public.users'' (PKInt 7) 900), OnMerger (SnapshotEvent (plan_read ''users'' 2 1 7 7)),
   OnMerger (BeginChunk 3 ''public.users'' (PKInt 7) (PKInt 8)), OnScanDone, OnComplete]"
  by (simp add: plan_example_simps two_plan_def two_state_def plan_read_def numeral_eq_Suc)

lemma two_plan_2: "two_plan 2 =
  [OnTable ''public.orders'', OnMerger (BeginChunk 1 ''public.orders'' PKNil PKNil),
   OnMerger (EndChunk 1 ''public.orders'' (PKInt 2) 900),
   OnMerger (SnapshotEvent (plan_read ''orders'' 1 2 1 2)), OnMerger (SnapshotEvent (plan_read ''orders'' 1 2 2 2)),
   OnMerger (BeginChunk 2 ''public.orders'' (PKInt 2) (PKInt 4)),
   OnTable ''public.users'', OnMerger (BeginChunk 3 ''public.users'' PKNil PKNil),
   OnMerger (EndChunk 3 ''public.users'' (PKInt 7) 900), OnMerger (SnapshotEvent (plan_read ''users'' 3 1 7 7)),
   OnMerger (BeginChunk 4 ''public.users'' (PKInt 7) (PKInt 9)), OnScanDone, OnComplete]"
  by (simp add: plan_example_simps two_plan_def two_state_def plan_read_def numeral_eq_Suc)

lemmas merger_call_simps = finishSnapshot_def onBeginChunk_def onEndChunk_def onSnapshotEvent_def emit_def newMerger_def Let_def

lemma two_scan_1:
  "run_actions (two_engine 1) (butlast (two_plan 1)) =
     Some (Inr ((two_engine 1)\<lparr>
       en_state := (two_state 1)\<lparr>st_CurrentSnapshotTable := ''public.users''\<rparr>,
       en_snapshotScanDone := True,
       en_merger := \<lparr>mg_phase = PhaseSnapshotting,
         mg_scannedRanges = [\<lparr>rg_Table = ''public.orders'', rg_Low = PKNil, rg_High = PKInt 1, rg_XMin = 900\<rparr>,
           \<lparr>rg_Table = ''public.orders'', rg_Low = PKInt 1, rg_High = PKInt 2, rg_XMin = 900\<rparr>,
           \<lparr>rg_Table = ''public.users'', rg_Low = PKNil, rg_High = PKInt 7, rg_XMin = 900\<rparr>],
         mg_currentChunk = Some \<lparr>ck_chunkID = 3, ck_table = ''public.users'', ck_pkLow = PKInt 7, ck_pkHigh = PKInt 8\<rparr>,
         mg_pendingWALEvents = [],
         mg_output = [plan_read ''orders'' 1 1 1 1, plan_read ''orders'' 2 1 2 2, plan_read ''users'' 2 1 7 7], mg_toEmit = [], mg_walToEmit = []\<rparr>\<rparr>))"
  unfolding two_plan_1
  by (simp add: two_engine_def newCDCEngine_def two_state_def initial_state_def zeroState_def two_config_def
     begin_table_def scan_done_def merger_call_simps)


lemma two_scan_2:
  "run_actions (two_engine 2) (butlast (two_plan 2)) =
     Some (Inr ((two_engine 2)\<lparr>
       en_state := (two_state 2)\<lparr>st_CurrentSnapshotTable := ''public.users''\<rparr>,
       en_snapshotScanDone := True,
       en_merger := \<lparr>mg_phase = PhaseSnapshotting,
         mg_scannedRanges = [\<lparr>rg_Table = ''public.orders'', rg_Low = PKNil, rg_High = PKInt 2, rg_XMin = 900\<rparr>,
           \<lparr>rg_Table = ''public.users'', rg_Low = PKNil, rg_High = PKInt 7, rg_XMin = 900\<rparr>],
         mg_currentChunk = Some \<lparr>ck_chunkID = 4, ck_table = ''public.users'', ck_pkLow = PKInt 7, ck_pkHigh = PKInt 9\<rparr>,
         mg_pendingWALEvents = [],
         mg_output = [plan_read ''orders'' 1 2 1 2, plan_read ''orders'' 1 2 2 2, plan_read ''users'' 3 1 7 7], mg_toEmit = [], mg_walToEmit = []\<rparr>\<rparr>))"
  unfolding two_plan_2
  by (simp add: two_engine_def newCDCEngine_def two_state_def initial_state_def zeroState_def two_config_def
     begin_table_def scan_done_def merger_call_simps)


lemma three: "3 = Suc (Suc (Suc 0))" by simp

lemma two_demand_1:
  "case run_actions (two_engine 1) (butlast (two_plan 1)) of
      Some (Inr e1) \<Rightarrow> HandleDemand e1 3 False =
        Inr ([plan_read ''orders'' 1 1 1 1, plan_read ''orders'' 2 1 2 2, plan_read ''users'' 2 1 7 7],
          e1\<lparr>en_merger := (en_merger e1)\<lparr>mg_output := []\<rparr>,
             en_chunkSizes := [(1, 1), (2, 1)], en_chunkHighPK := [(1, PKInt 1), (2, PKInt 7)],
             en_chunkTable := [(1, ''public.orders''), (2, ''public.users'')], en_pendingChunks := [(1, ()), (2, ())]\<rparr>)
    | _ \<Rightarrow> False"
  unfolding two_scan_1
  by (simp add: HandleDemand_def three track_read_def two_engine_def newCDCEngine_def Let_def)

lemma ack_scan_12: "ack_scan [Some (plan_read ''orders'' 1 1 1 1), Some (plan_read ''orders'' 2 1 2 2)] 0 [] = (0, [(1, 1), (2, 1)])"
  by (simp add: lookup0_def)

lemma two_ack_1:
  assumes "en_chunkSizes e = [(1, 1), (2, 1)]" "en_chunkHighPK e = [(1, PKInt 1), (2, PKInt 7)]"
    "en_pendingChunks e = [(1, ()), (2, ())]" "en_completedChunks e = []" "en_chunkAcked e = []"
    "en_snapshotScanDone e" "en_hasStore e" "en_saved e = []" "st_Phase (en_state e) = PhaseSnapshotting"
  shows "en_saved (Acknowledger e [Some (plan_read ''orders'' 1 1 1 1), Some (plan_read ''orders'' 2 1 2 2)] None) =
    [(en_state e)\<lparr>st_SnapshotCursor := PKInt 7, st_Phase := PhaseStreaming\<rparr>]"
  unfolding Acknowledger_def ack_scan_12
  by (simp add: assms advance_lsn_def complete_chunk_def advanceSnapshotCursor_def check_streaming_def save_state_def
      lookup0_def lookup_pk_def min_pending_def watermark_def MaxInt_def Let_def)

text \<open>
  Claim C35. Chunk ids can collide: one concrete run. The next table starts at \<open>chunkID + chunkSize\<close>, so a table
  that has more chunks than \<open>chunkSize\<close> reaches the ids of its successor. In the run, \<open>ChunkSize\<close> is
  1, the orders 1 and 2 are the chunks 1 and 2 of the first table, and user 7 is chunk 2 of the
  second one. When the two orders are acknowledged, the saved state says that everything is scanned
  and acknowledged, with the cursor of \<open>public.users\<close> at 7, although user 7 is still in flight.
\<close>

theorem chunk_ids_collide:
  "\<not> ids_fit 1 1 (two_plan 1) \<and>
   (\<exists>e1 e2 o1 o2 u7. run_actions (two_engine 1) (butlast (two_plan 1)) = Some (Inr e1) \<and>
      HandleDemand e1 3 False = Inr ([o1, o2, u7], e2) \<and> map ev_chunkID [o1, o2, u7] = [1, 2, 2] \<and>
      ev_PK u7 = PKInt 7 \<and>
      (let e3 = Acknowledger e2 [Some o1, Some o2] None
       in map st_CurrentSnapshotTable (en_saved e3) = [''public.users''] \<and>
          map st_SnapshotCursor (en_saved e3) = [PKInt 7] \<and> map st_Phase (en_saved e3) = [PhaseStreaming]))"
proof -
  have "\<not> ids_fit 1 1 (two_plan 1)" unfolding two_plan_1 by simp
  moreover obtain e1 where e1: "run_actions (two_engine 1) (butlast (two_plan 1)) = Some (Inr e1)"
    "st_CurrentSnapshotTable (en_state e1) = ''public.users''" "st_Phase (en_state e1) = PhaseSnapshotting"
    "en_completedChunks e1 = []" "en_chunkAcked e1 = []" "en_snapshotScanDone e1" "en_hasStore e1" "en_saved e1 = []"
    unfolding two_scan_1 by (simp add: two_engine_def newCDCEngine_def two_state_def initial_state_def)
  moreover obtain e2 where e2: "HandleDemand e1 3 False =
      Inr ([plan_read ''orders'' 1 1 1 1, plan_read ''orders'' 2 1 2 2, plan_read ''users'' 2 1 7 7], e2)"
    "e2 = e1\<lparr>en_merger := (en_merger e1)\<lparr>mg_output := []\<rparr>,
       en_chunkSizes := [(1, 1), (2, 1)], en_chunkHighPK := [(1, PKInt 1), (2, PKInt 7)],
       en_chunkTable := [(1, ''public.orders''), (2, ''public.users'')], en_pendingChunks := [(1, ()), (2, ())]\<rparr>"
    using two_demand_1 e1(1) by simp
  moreover have "en_saved (Acknowledger e2 [Some (plan_read ''orders'' 1 1 1 1), Some (plan_read ''orders'' 2 1 2 2)] None) =
    [(en_state e1)\<lparr>st_SnapshotCursor := PKInt 7, st_Phase := PhaseStreaming\<rparr>]"
    using two_ack_1 [of e2] e1 e2(2) by simp
  ultimately show ?thesis by (intro conjI exI) (assumption | simp)+
qed

lemma two_ack_2:
  assumes "en_chunkSizes e = [(1, 2), (3, 1)]" "en_chunkHighPK e = [(1, PKInt 2), (3, PKInt 7)]"
    "en_pendingChunks e = [(1, ()), (3, ())]" "en_completedChunks e = []" "en_chunkAcked e = []"
  shows "st_SnapshotCursor (en_state (Acknowledger e [Some (plan_read ''orders'' 1 2 1 2), Some (plan_read ''orders'' 1 2 2 2)] None)) = PKInt 2"
proof -
  have "ack_scan [Some (plan_read ''orders'' 1 2 1 2), Some (plan_read ''orders'' 1 2 2 2)] 0 [] = (0, [(1, 2)])"
    by (simp add: lookup0_def)
  then show ?thesis
    by (simp add: Acknowledger_def assms advance_lsn_def complete_chunk_def advanceSnapshotCursor_def check_streaming_def
        save_state_def lookup0_def lookup_pk_def min_pending_def watermark_def MaxInt_def Let_def)
qed

lemma two_run_2:
  "\<exists>e1 e2. run_actions (two_engine 2) (butlast (two_plan 2)) = Some (Inr e1) \<and>
     HandleDemand e1 3 False =
       Inr ([plan_read ''orders'' 1 2 1 2, plan_read ''orders'' 1 2 2 2, plan_read ''users'' 3 1 7 7], e2) \<and>
     st_SnapshotCursor (en_state (Acknowledger e2 [Some (plan_read ''orders'' 1 2 1 2), Some (plan_read ''orders'' 1 2 2 2)] None)) = PKInt 2"
proof -
  obtain e1 where e1: "run_actions (two_engine 2) (butlast (two_plan 2)) = Some (Inr e1)"
    "mg_output (en_merger e1) = [plan_read ''orders'' 1 2 1 2, plan_read ''orders'' 1 2 2 2, plan_read ''users'' 3 1 7 7]"
    "en_chunkSizes e1 = []" "en_chunkHighPK e1 = []" "en_pendingChunks e1 = []" "en_completedChunks e1 = []" "en_chunkAcked e1 = []"
    unfolding two_scan_2 by (simp add: two_engine_def newCDCEngine_def)
  obtain e2 where e2: "HandleDemand e1 3 False =
      Inr ([plan_read ''orders'' 1 2 1 2, plan_read ''orders'' 1 2 2 2, plan_read ''users'' 3 1 7 7], e2)"
    "en_chunkSizes e2 = [(1, 2), (3, 1)]" "en_chunkHighPK e2 = [(1, PKInt 2), (3, PKInt 7)]"
    "en_pendingChunks e2 = [(1, ()), (3, ())]" "en_completedChunks e2 = []" "en_chunkAcked e2 = []"
    by (simp add: HandleDemand_def three track_read_def e1 Let_def)
  from e1(1) e2(1) two_ack_2 [OF e2(2-)] show ?thesis by blast
qed

theorem connector_cursor_safe_witness:
  "\<exists>e d a r. system_reach (two_engine 2, two_plan 2, [], []) (e, [OnComplete], d, a) \<and>
     st_SnapshotCursor (en_state e) = PKInt 2 \<and> r \<in> set a \<and> ev_chunkHighPK r = PKInt 2"
proof -
  let ?o1 = "plan_read ''orders'' 1 2 1 2" and ?o2 = "plan_read ''orders'' 1 2 2 2" and ?u = "plan_read ''users'' 3 1 7 7"
  let ?s0 = "(two_engine 2, two_plan 2, [], [])"
  have fit: "ids_fit (chunkSizeOrDefault (two_config 2)) 1 (two_plan 2)"
    unfolding two_plan_2 by (simp add: chunkSizeOrDefault_def two_config_def)
  have plan: "two_plan 2 = butlast (two_plan 2) @ [OnComplete]" unfolding two_plan_2 by simp
  obtain e1 e2 where e1: "run_actions (two_engine 2) (butlast (two_plan 2)) = Some (Inr e1)"
    and e2: "HandleDemand e1 3 False = Inr ([?o1, ?o2, ?u], e2)"
    and cur: "st_SnapshotCursor (en_state (Acknowledger e2 [Some ?o1, Some ?o2] None)) = PKInt 2"
    using two_run_2 by blast
  have "system_reach ?s0 (two_engine 2, butlast (two_plan 2) @ [OnComplete], [], [])"
    using system_reach.start [of ?s0] plan by simp
  then have r1: "system_reach ?s0 (e1, [OnComplete], [], [])" by (rule run_actions_reach [OF e1])
  have r2: "system_reach ?s0 (e2, [OnComplete], [?o1, ?o2, ?u], [])"
    using system_reach.step [OF r1 system_step.demand [OF e2]] by simp
  let ?e3 = "Acknowledger e2 [Some ?o1, Some ?o2] None"
  have "system_step (e2, [OnComplete], [?o1, ?o2, ?u], [])
      (?e3, [OnComplete], [?o1, ?o2, ?u], [] @ filter is_read (somes [Some ?o1, Some ?o2]))"
    by (rule system_step.ack) simp
  then have r3: "system_reach ?s0 (?e3, [OnComplete], [?o1, ?o2, ?u], [?o1, ?o2])"
    using system_reach.step [OF r2] by simp
  have start: "PKInt 2 \<noteq> st_SnapshotCursor (two_state 2)" by (simp add: two_state_def initial_state_def zeroState_def)
  have "st_SnapshotCursor (en_state ?e3) \<in> st_SnapshotCursor ` insert (en_state ?e3) (set (en_saved ?e3))"
    by (rule imageI) (rule insertI1)
  with connector_cursor_safe [OF two_start two_plan_def fit r3] have "PKInt 2 = st_SnapshotCursor (two_state 2) \<or> PKInt 2 = PKNil \<or>
      (\<exists>r \<in> set [?o1, ?o2]. PKInt 2 = ev_chunkHighPK r \<and> (\<forall>r' \<in> set (plan_reads (two_plan 2)).
         ev_chunkID r' \<le> ev_chunkID r \<longrightarrow> count (mset [?o1, ?o2]) r' = count (mset (plan_reads (two_plan 2))) r'))"
    unfolding cur by (rule bspec)
  with start obtain r where "r \<in> set [?o1, ?o2]" "ev_chunkHighPK r = PKInt 2" by fastforce
  with r3 cur show ?thesis by blast
qed


text \<open>What no step changes in the state: slot, tables and scanned ranges.\<close>

definition fixed_part :: "CDCState \<Rightarrow> string \<times> CDCTable list \<times> PKRange list" where
  "fixed_part s = (st_SlotName s, st_SnapshotTables s, st_ScannedPKRanges s)"

lemma fixed_frame [simp]:
  "fixed_part (en_state (check_streaming e)) = fixed_part (en_state e)"
  "fixed_part (en_state (begin_table e t)) = fixed_part (en_state e)"
  "fixed_part (en_state (scan_done e)) = fixed_part (en_state e)"
  "fixed_part (en_state (advanceSnapshotCursor e)) = fixed_part (en_state e)"
  "fixed_part (en_state (advance_lsn e x)) = fixed_part (en_state e)"
  by (simp_all add: fixed_part_def check_streaming_def begin_table_def scan_done_def advanceSnapshotCursor_def advance_lsn_def Let_def)

lemma saved_unchanged [simp]:
  "en_saved (check_streaming e) = en_saved e" "en_saved (begin_table e t) = en_saved e"
  "en_saved (scan_done e) = en_saved e" "en_saved (advanceSnapshotCursor e) = en_saved e"
  "en_saved (advance_lsn e x) = en_saved e"
  by (simp_all add: check_streaming_def begin_table_def scan_done_def advanceSnapshotCursor_def advance_lsn_def Let_def)

definition fixed_const :: "string \<times> CDCTable list \<times> PKRange list \<Rightarrow> cdcEngine \<Rightarrow> bool" where
  "fixed_const x e \<longleftrightarrow> (\<forall>s \<in> insert (en_state e) (set (en_saved e)). fixed_part s = x)"

lemma ack_chunks_state:
  "ack_chunks acks e b = (e', b') \<Longrightarrow> en_state e' = en_state e \<and> en_saved e' = en_saved e"
  by (induction acks e b rule: ack_chunks.induct) (auto simp: Let_def complete_chunk_def split: if_splits)

lemma fixed_const_Acknowledger:
  assumes "fixed_const x e" shows "fixed_const x (Acknowledger e ms err)"
proof (cases err)
  case None
  obtain lsn acks where scan: "ack_scan ms 0 [] = (lsn, acks)" by fastforce
  obtain e2 adv where chunks: "ack_chunks acks (advance_lsn e lsn) False = (e2, adv)" by fastforce
  have ack: "Acknowledger e ms err = save_state (check_streaming (if adv then advanceSnapshotCursor e2 else e2))"
    using scan chunks None by (simp add: Acknowledger_def)
  have "fixed_const x e2" using assms ack_chunks_state [OF chunks] by (simp add: fixed_const_def)
  then show ?thesis unfolding ack by (auto simp: fixed_const_def save_state_def)
qed (use assms in \<open>simp add: Acknowledger_def\<close>)

lemma fixed_const_step:
  "system_step s s' \<Longrightarrow> fixed_const x (fst s) \<Longrightarrow> fixed_const x (fst s')"
proof (induction rule: system_step.induct)
  case (snap e act e' acts d a)
  then show ?case by (cases act) (auto simp: fixed_const_def go_bind_Inr_iff split: if_splits)
next
  case (demand e n cancelled out e' acts d a)
  have "demand_loop k e1 res = (o2, e2) \<Longrightarrow> en_state e2 = en_state e1 \<and> en_saved e2 = en_saved e1" for k e1 res o2 e2
    by (induction k e1 res rule: demand_loop.induct) (auto simp: Let_def track_read_def split: list.splits if_splits)
  with demand show ?case by (fastforce simp: HandleDemand_def fixed_const_def split: if_splits)
qed (auto simp: fixed_const_Acknowledger, simp_all add: fixed_const_def)

lemma fixed_const_reach:
  "system_reach s0 s \<Longrightarrow> fixed_const x (fst s0) \<Longrightarrow> fixed_const x (fst s)"
  by (induction rule: system_reach.induct) (auto intro: fixed_const_step)

lemma fixed_from_start:
  assumes "start c env newCDCEngine = Inr (e0, w, snap)" and "system_reach (e0, acts, [], []) (e, rest, d, a)"
    and "s \<in> insert (en_state e) (set (en_saved e))"
  shows "fixed_part s = fixed_part (en_state e0)"
proof -
  have "en_saved e0 = []" using start_engine(2) [OF assms(1)] by (simp add: newCDCEngine_def)
  then have "fixed_const (fixed_part (en_state e0)) e0" by (simp add: fixed_const_def)
  then have "fixed_const (fixed_part (en_state e0)) e" using fixed_const_reach [OF assms(2)] by (metis fst_conv)
  with assms(3) show ?thesis unfolding fixed_const_def by blast
qed

text \<open>
  A restart in the middle of the snapshot loses changes. No step of the connector ever
  stores the scanned ranges, so in every reachable and every saved state they are those of the
  first start (none); and a merger restarted without ranges at the saved cursor drops every
  change of a row at or below the cursor, because the row is neither in a scanned range nor in
  the chunk being read.
\<close>

theorem restart_drops_scanned_rows:
  assumes "start c env newCDCEngine = Inr (e0, w, snap)"
    and "system_reach (e0, acts, [], []) (e, rest, d, a)"
    and "cursor \<noteq> PKNil" and "bound_for (ev_PK ev) cursor" and "bound_for (ev_PK ev) est"
    and "pk_rank (ev_PK ev) \<le> pk_rank cursor"
  shows "(\<forall>s \<in> insert (en_state e) (set (en_saved e)). st_ScannedPKRanges s = st_ScannedPKRanges (en_state e0)) \<and>
    (let m = onBeginChunk (newMerger [] PhaseSnapshotting) 1 table cursor est
     in routeEvent m ev = Inr (m, ev, False))"
proof -
  have "\<forall>s \<in> insert (en_state e) (set (en_saved e)). st_ScannedPKRanges s = st_ScannedPKRanges (en_state e0)"
    using fixed_from_start [OF assms(1,2)] by (simp add: fixed_part_def)
  moreover have "inRange (ev_PK ev) cursor est = Inr False" using assms(3-6) by (simp add: inRange_rank)
  ultimately show ?thesis by (simp add: routeEvent_def onBeginChunk_def Let_def)
qed

theorem restart_drops_scanned_rows_witness:
  "let m = onBeginChunk (newMerger [] PhaseSnapshotting) 1 ''public.orders'' (PKInt 10) (PKInt 1010)
   in routeEvent m (change 20) = Inr (m, change 20, False)"
proof -
  have ev: "ev_PK (change 20) = PKInt 1" by (simp add: change_def wal_event_def)
  show ?thesis
    using restart_drops_scanned_rows [OF two_start system_reach.start, of "PKInt 10" "change 20" "PKInt 1010"]
    by (simp add: ev bound_for_def)
qed

text \<open>The rows of all tables, in scan order.\<close>

fun table_rows :: "(string \<Rightarrow> string list) \<Rightarrow> (string \<Rightarrow> goval list list) \<Rightarrow> int \<Rightarrow> CDCTable list \<Rightarrow> PK \<Rightarrow> Row list" where
  "table_rows cols tbl n [] cursor = []"
| "table_rows cols tbl n (t # ts) cursor =
     map (row_of (cols (tb_Name t)))
       (remaining (newSnapshotter (tb_Name t) (pkColumn t) n) (cols (tb_Name t)) (tbl (tb_Name t)) cursor)
     @ table_rows cols tbl n ts PKNil"

definition table_ready :: "nat \<Rightarrow> int \<Rightarrow> (string \<Rightarrow> int \<Rightarrow> string \<Rightarrow> PK list \<Rightarrow> chunk_tx) \<Rightarrow> (string \<Rightarrow> string list)
    \<Rightarrow> (string \<Rightarrow> goval list list) \<Rightarrow> (string \<Rightarrow> int \<Rightarrow> string) \<Rightarrow> CDCTable \<Rightarrow> bool" where
  "table_ready fuel n db cols tbl snaps t \<longleftrightarrow>
     (let s = newSnapshotter (tb_Name t) (pkColumn t) n; name = tb_Name t
      in serves_table s (db name) (cols name) (tbl name) (snaps name) \<and> sorted_table s (cols name) (tbl name) \<and>
         length (tbl name) < fuel)"

lemma snap_tables_rows:
  assumes n: "0 < n" and ready: "\<forall>t \<in> set ts. table_ready fuel n db cols tbl snaps t"
    and cursor: "\<forall>t ts'. ts = t # ts' \<longrightarrow> (\<forall>v \<in> set (tbl (tb_Name t)).
      bound_for (key_of (newSnapshotter (tb_Name t) (pkColumn t) n) (cols (tb_Name t)) v) cursor)"
  shows "\<exists>acts. snap_tables fuel n db (\<lambda>_ _. False) ts cursor c = acts @ [OnScanDone, OnComplete] \<and>
    map ev_After (plan_reads acts) = table_rows cols tbl n ts cursor"
  using ready cursor
proof (induction ts arbitrary: cursor c)
  case Nil
  show ?case by (rule exI [of _ "[]"]) simp
next
  case (Cons t ts)
  let ?name = "tb_Name t"
  let ?s = "newSnapshotter ?name (pkColumn t) n"
  let ?R = "remaining ?s (cols ?name) (tbl ?name) cursor"
  have s: "serves_table ?s (db ?name) (cols ?name) (tbl ?name) (snaps ?name)" "sorted_table ?s (cols ?name) (tbl ?name)"
    "length (tbl ?name) < fuel"
    using Cons.prems(1) by (simp_all add: table_ready_def Let_def)
  have "0 < sn_chunkSize ?s" using n by (simp add: newSnapshotter_def split: prod.splits)
  moreover have "\<forall>v \<in> set (tbl ?name). bound_for (key_of ?s (cols ?name) v) cursor" using Cons.prems(2) by simp
  moreover have "length ?R < fuel" using s(3) length_filter_le [of _ "tbl ?name"] unfolding remaining_def by (rule le_less_trans [rotated])
  ultimately obtain ops where ops: "snap_run fuel ?s (db ?name) (\<lambda>_. False) cursor c = (ops, Scanned)"
    "map ev_After (reads_of ops) = map (row_of (cols ?name)) ?R"
    using snap_run_static [OF s(1) _ s(2), of cursor fuel "newMerger [] PhaseSnapshotting" c] by auto
  have "\<forall>t ts'. ts = t # ts' \<longrightarrow> (\<forall>v \<in> set (tbl (tb_Name t)).
      bound_for (key_of (newSnapshotter (tb_Name t) (pkColumn t) n) (cols (tb_Name t)) v) PKNil)"
    by (simp add: bound_for_def)
  with Cons.IH [of PKNil "c + n"] Cons.prems(1) obtain acts
    where "snap_tables fuel n db (\<lambda>_ _. False) ts PKNil (c + n) = acts @ [OnScanDone, OnComplete]"
      "map ev_After (plan_reads acts) = table_rows cols tbl n ts PKNil" by auto
  with ops show ?case by (intro exI [of _ "OnTable ?name # map OnMerger ops @ acts"]) simp
qed

text \<open>
  Claim C13. A snapshot of tables that do not change delivers every row exactly once. If the
  database answers from fixed tables whose keys are supported and the context is not cancelled,
  the actions of \<open>runSnapshot\<close> end with the announcement that the scan is done, and the READ
  events they send are the rows of the table in progress above the saved cursor, then all rows
  of the remaining tables, each table in key order.
\<close>

theorem runSnapshot_complete:
  assumes "\<forall>t \<in> set (tables_from st). table_ready fuel (chunkSizeOrDefault c) db cols tbl snaps t"
    and "\<forall>t ts. tables_from st = t # ts \<longrightarrow> (\<forall>v \<in> set (tbl (tb_Name t)).
      bound_for (key_of (newSnapshotter (tb_Name t) (pkColumn t) (chunkSizeOrDefault c)) (cols (tb_Name t)) v) (st_SnapshotCursor st))"
  shows "\<exists>acts. runSnapshot fuel c db (\<lambda>_ _. False) st = acts @ [OnScanDone, OnComplete] \<and>
    map ev_After (plan_reads acts) = table_rows cols tbl (chunkSizeOrDefault c) (tables_from st) (st_SnapshotCursor st)"
proof -
  have "0 < chunkSizeOrDefault c" by (simp add: chunkSizeOrDefault_def)
  from snap_tables_rows [OF this assms] show ?thesis by (simp add: runSnapshot_def)
qed

definition two_rows :: "string \<Rightarrow> goval list list" where
  "two_rows t = (if t = ''public.orders'' then [[VInt64 1], [VInt64 2]] else [[VInt64 7]])"

theorem runSnapshot_complete_witness:
  "\<exists>acts. runSnapshot 3 (two_config 2) (two_db 2) (\<lambda>_ _. False) (two_state 2) = acts @ [OnScanDone, OnComplete] \<and>
     map ev_After (plan_reads acts) = map (\<lambda>k. Some [(''id'', VInt64 k)]) [1, 2, 7]"
proof -
  have from_ts: "tables_from (two_state 2) = two_tables"
    by (simp add: tables_from_def two_state_def initial_state_def zeroState_def two_config_def two_tables_def)
  have start: "st_SnapshotCursor (two_state 2) = PKNil" by (simp add: two_state_def initial_state_def zeroState_def)
  have n: "chunkSizeOrDefault (two_config 2) = 2" by (simp add: chunkSizeOrDefault_def two_config_def)
  have served: "serves_table (newSnapshotter t ''id'' 2) (two_db 2 t) [''id''] (two_rows t) (\<lambda>_. ''900:900:'')" for t
    unfolding two_db_def two_rows_def [symmetric] by (rule serves_fixed_db) (simp_all add: two_rows_def)
  have key: "key_of (newSnapshotter t ''id'' 2) [''id''] [VInt64 k] = PKInt k" for t k
    by (simp add: key_of_def row_get_def newSnapshotter_def split: prod.splits)
  have "table_ready 3 2 (two_db 2) (\<lambda>_. [''id'']) two_rows (\<lambda>_ _. ''900:900:'') t" if "t \<in> set two_tables" for t
    using that served [of "tb_Name t"] by (auto simp: table_ready_def two_tables_def pkColumn_def sorted_table_def two_rows_def key)
  with runSnapshot_complete [of "two_state 2" 3 "two_config 2" "two_db 2" "\<lambda>_. [''id'']" two_rows "\<lambda>_ _. ''900:900:''"]
  obtain acts where "runSnapshot 3 (two_config 2) (two_db 2) (\<lambda>_ _. False) (two_state 2) = acts @ [OnScanDone, OnComplete]"
    "map ev_After (plan_reads acts) = table_rows (\<lambda>_. [''id'']) two_rows 2 two_tables PKNil"
    by (auto simp: from_ts n bound_for_def start)
  moreover have "table_rows (\<lambda>_. [''id'']) two_rows 2 two_tables PKNil = map (\<lambda>k. Some [(''id'', VInt64 k)]) [1, 2, 7]"
    by (simp add: two_tables_def remaining_def above_def row_of_def two_rows_def)
  ultimately show ?thesis by metis
qed

end
