(* ===== verification/Messages.thy ===== *)
theory Messages
  imports Containers
begin

text \<open>
  The package \<open>broadway\<close>, what its stages share: \<open>message.go\<close>, \<open>acknowledger.go\<close>,
  \<open>request.go\<close> and the notion of a run.

  Messages are shared by pointer and written by every stage, so they live in a heap: a message
  is an address, and \<open>'a\<close> is the type of payloads and metadata (\<open>any\<close>). The heap is total; an
  address the program has not allocated is never read. An acknowledger is a function of the
  client; a call of it is logged.
\<close>

section \<open>Messages\<close>

type_synonym msg_ref = nat

record 'a message =
  ms_Payload :: 'a
  ms_Batcher :: string
  ms_BatchKey :: string
  ms_metadata :: "'a option"
  ms_partitionKey :: string
  ms_ack :: "nat option"           \<comment> \<open>which acknowledger, if any\<close>
  ms_acked :: bool
  ms_error :: "string option"

definition NewMessage :: "'a \<Rightarrow> 'a option \<Rightarrow> 'a message" where
  "NewMessage payload metadata =
     \<lparr>ms_Payload = payload, ms_Batcher = '''', ms_BatchKey = '''', ms_metadata = metadata,
      ms_partitionKey = '''', ms_ack = None, ms_acked = False, ms_error = None\<rparr>"

definition Metadata :: "'a message \<Rightarrow> 'a option" where
  "Metadata m = ms_metadata m"

text \<open>The names that stand for an unset batcher and batch key (\<open>batcher.go\<close>).\<close>

definition defaultBatcherName :: string where "defaultBatcherName = ''default''"
definition defaultBatchKey :: string where "defaultBatchKey = ''default''"

type_synonym 'a heap = "msg_ref \<Rightarrow> 'a message"

text \<open>One call of an acknowledger: which one, the messages and the error.\<close>

record ack_call =
  ac_by :: nat
  ac_msgs :: "msg_ref list"
  ac_err :: "string option"

text \<open>\<open>messages[0].ack\<close>: an empty slice panics.\<close>

definition first_ack :: "'a heap \<Rightarrow> msg_ref list \<Rightarrow> nat option go" where
  "first_ack h messages = (case messages of [] \<Rightarrow> Inl IndexOutOfRange | m # _ \<Rightarrow> Inr (ms_ack (h m)))"

text \<open>\<open>if ack := messages[0].ack; ack != nil { ack(messages, err) }\<close>.\<close>

definition call_ack :: "nat option \<Rightarrow> msg_ref list \<Rightarrow> string option \<Rightarrow> ack_call list" where
  "call_ack ack messages err =
     (case ack of None \<Rightarrow> [] | Some a \<Rightarrow> [\<lparr>ac_by = a, ac_msgs = messages, ac_err = err\<rparr>])"

lemma first_ack_Cons [simp]: "first_ack h (m # ms) = Inr (ms_ack (h m))"
  by (simp add: first_ack_def)

lemma first_ack_hd: "ms \<noteq> [] \<Longrightarrow> first_ack h ms = Inr (ms_ack (h (hd ms)))"
  by (cases ms) simp_all

lemma call_ack_simps [simp]:
  "call_ack None ms err = []"
  "call_ack (Some a) ms err = [\<lparr>ac_by = a, ac_msgs = ms, ac_err = err\<rparr>]"
  by (simp_all add: call_ack_def)

section \<open>Requests\<close>

text \<open>
  A request is shared by the producer and the processor that made it; \<open>rq_closed\<close> is the flag
  and the closed channel (both are set by the same \<open>close\<close>, which closes the channel once).
\<close>

record request =
  rq_demand :: int
  rq_messageProcessorId :: string
  rq_closed :: bool
  rq_channelClosed :: bool

definition newRequest :: "string \<Rightarrow> int \<Rightarrow> request" where
  "newRequest messageProcessorId demand =
     \<lparr>rq_demand = demand, rq_messageProcessorId = messageProcessorId, rq_closed = False, rq_channelClosed = False\<rparr>"

definition isClosed :: "request \<Rightarrow> bool" where
  "isClosed r = rq_closed r"

text \<open>\<open>close(r._closedChan)\<close> would panic on a closed channel; the flag prevents it.\<close>

definition request_close :: "request \<Rightarrow> request go" where
  "request_close r =
     (if rq_closed r then Inr r
      else if rq_channelClosed r then Inl SendOnClosed
      else Inr (r\<lparr>rq_closed := True, rq_channelClosed := True\<rparr>))"

text \<open>
  \<open>reply\<close>: the \<open>select\<close> sends if the consumer receives and gives up if the request is closed.
  When both are possible Go picks one; \<open>pick\<close> is its choice. \<open>None\<close>: the producer waits.
\<close>

definition request_reply :: "request \<Rightarrow> bool \<Rightarrow> bool \<Rightarrow> bool option" where
  "request_reply r consumer_ready pick =
     (if rq_closed r then Some False
      else if consumer_ready \<and> rq_channelClosed r then Some pick
      else if consumer_ready then Some True
      else if rq_channelClosed r then Some False
      else None)"

lemma request_close_twice:
  assumes "request_close (newRequest i d) = Inr r"
  shows "request_close r = Inr r \<and> isClosed r"
  using assms by (auto simp: request_close_def newRequest_def isClosed_def)

section \<open>Runs\<close>

text \<open>The states that a step relation reaches, and the invariants of a run.\<close>

inductive reaches :: "('s \<Rightarrow> 's \<Rightarrow> bool) \<Rightarrow> 's \<Rightarrow> 's \<Rightarrow> bool" for step and s0 where
  start: "reaches step s0 s0"
| step: "reaches step s0 s \<Longrightarrow> step s s' \<Longrightarrow> reaches step s0 s'"

lemma reaches_invariant:
  assumes "reaches step s0 s" and "I s0" and "\<And>s s'. I s \<Longrightarrow> step s s' \<Longrightarrow> I s'"
  shows "I s"
  using assms(1) by induction (auto intro: assms(2,3))

lemma reaches_trans: "reaches step s1 s2 \<Longrightarrow> reaches step s0 s1 \<Longrightarrow> reaches step s0 s2"
  by (induction rule: reaches.induct) (auto intro: reaches.step)

lemma reaches_one: "step s s' \<Longrightarrow> reaches step s s'"
  by (rule reaches.step [OF reaches.start])

end
