(* ===== verification/Batch_Processor.thy ===== *)
theory Batch_Processor
  imports Messages
begin

text \<open>
  \<open>broadway/batch_processor.go\<close>: a goroutine that receives one batch at a time, and the mutex
  by which \<open>send\<close> refuses a batch while another one is being handled. The mutex is locked by
  \<open>send\<close> and unlocked by the goroutine when the batch is done, so it is part of the state. The
  last three fields of the state are history: what was accepted, what the handler answered and
  which acknowledgers were called.
\<close>

section \<open>State and operations\<close>

text \<open>
  Where the goroutine is: waiting in \<open>range p._receiver\<close>; in \<open>Handle\<close> with a batch; after a
  panic, with the mutex already unlocked and the batch not yet acknowledged; unwinding to the
  outer \<open>recover\<close>, which calls \<open>terminate\<close>; or gone, with the value sent on \<open>_terminatedCh\<close>.
\<close>

datatype bp_phase =
    BP_Waiting
  | BP_Handling "msg_ref list"
  | BP_Failing "msg_ref list" string
  | BP_Unwinding string
  | BP_Exited "string option"

text \<open>What \<open>Handle\<close> did: it panicked, or it returned messages and an error.\<close>

type_synonym handle_result = "string + msg_ref list \<times> string option"

record batchProcessor =
  bp_id :: string
  bp_ctx :: "string option"              \<comment> \<open>\<open>ctx.Value(BatcherContextKey)\<close> of the context it runs with\<close>
  bp_phase :: bp_phase
  bp_mu :: bool                          \<comment> \<open>the mutex is held\<close>
  bp_terminated :: bool
  bp_paused :: bool
  bp_closed :: bool                      \<comment> \<open>\<open>_receiver\<close> is closed\<close>
  bp_blocked :: "msg_ref list option"    \<comment> \<open>a sender waits in \<open>p._receiver <- batch\<close>\<close>
  bp_accepted :: "msg_ref list list"     \<comment> \<open>history: batches received from \<open>_receiver\<close>\<close>
  bp_results :: "handle_result list"     \<comment> \<open>history: results of \<open>Handle\<close>\<close>
  bp_acks :: "ack_call list"             \<comment> \<open>history: calls of acknowledgers\<close>

definition newBatchProcessor :: "string \<Rightarrow> batchProcessor" where
  "newBatchProcessor i =
     \<lparr>bp_id = i, bp_ctx = None, bp_phase = BP_Waiting, bp_mu = False, bp_terminated = False,
      bp_paused = False, bp_closed = False, bp_blocked = None, bp_accepted = [], bp_results = [],
      bp_acks = []\<rparr>"

text \<open>\<open>run\<close> starts the goroutine, which waits for a batch.\<close>

definition bp_run :: "batchProcessor \<Rightarrow> string option \<Rightarrow> batchProcessor" where
  "bp_run p ctx = p\<lparr>bp_ctx := ctx, bp_phase := BP_Waiting\<rparr>"

datatype send_result = Accepted | Refused | Blocked

text \<open>
  The send on the unbuffered channel completes when the goroutine waits for a batch; otherwise
  the sender blocks with the mutex held.
\<close>

definition bp_send :: "batchProcessor \<Rightarrow> msg_ref list \<Rightarrow> (send_result \<times> batchProcessor) go" where
  "bp_send p batch =
     (if bp_mu p then Inr (Refused, p)
      else if bp_terminated p \<or> bp_paused p then Inr (Refused, p)
      else if bp_closed p then Inl SendOnClosed
      else if bp_phase p = BP_Waiting
        then Inr (Accepted, p\<lparr>bp_mu := True, bp_phase := BP_Handling batch, bp_accepted := bp_accepted p @ [batch]\<rparr>)
      else Inr (Blocked, p\<lparr>bp_mu := True, bp_blocked := Some batch\<rparr>))"

text \<open>\<open>terminate\<close>: \<open>None\<close> while it waits for the mutex.\<close>

definition bp_terminate :: "batchProcessor \<Rightarrow> batchProcessor option" where
  "bp_terminate p =
     (if bp_mu p then None
      else if bp_terminated p then Some p
      else Some (p\<lparr>bp_terminated := True, bp_closed := True\<rparr>))"

definition bp_pause :: "batchProcessor \<Rightarrow> batchProcessor" where
  "bp_pause p = p\<lparr>bp_paused := True\<rparr>"

definition bp_resume :: "batchProcessor \<Rightarrow> batchProcessor" where
  "bp_resume p = p\<lparr>bp_paused := False\<rparr>"

definition panic_text :: "batchProcessor \<Rightarrow> string \<Rightarrow> string" where
  "panic_text p r = ''batch processor '' @ bp_id p @ '' panicked: '' @ r"

definition index_panic :: string where
  "index_panic = ''runtime error: index out of range''"

text \<open>
  \<open>Handle\<close> has returned or panicked. On a return the acknowledger of the first message is
  called with the processed messages and then the mutex is unlocked; on a panic the processor is
  paused and the mutex unlocked before the batch is acknowledged with an error. Acknowledgers
  return normally.
\<close>

definition bp_handled :: "'a heap \<Rightarrow> batchProcessor \<Rightarrow> msg_ref list \<Rightarrow> handle_result \<Rightarrow> batchProcessor" where
  "bp_handled h p batch result =
     (let p = p\<lparr>bp_results := bp_results p @ [result]\<rparr> in
      case result of
        Inl r \<Rightarrow> p\<lparr>bp_paused := True, bp_mu := False, bp_phase := BP_Failing batch r\<rparr>
      | Inr (processed, err) \<Rightarrow>
          (case first_ack h batch of
             Inl _ \<Rightarrow> p\<lparr>bp_paused := True, bp_mu := False, bp_phase := BP_Failing batch index_panic\<rparr>
           | Inr ack \<Rightarrow> p\<lparr>bp_mu := False, bp_phase := BP_Waiting, bp_acks := bp_acks p @ call_ack ack processed err\<rparr>))"

text \<open>The acknowledgement of a failed batch; on an empty batch this panics again.\<close>

definition bp_fail :: "'a heap \<Rightarrow> batchProcessor \<Rightarrow> msg_ref list \<Rightarrow> string \<Rightarrow> batchProcessor" where
  "bp_fail h p batch r =
     (case first_ack h batch of
        Inl _ \<Rightarrow> p\<lparr>bp_phase := BP_Unwinding index_panic\<rparr>
      | Inr ack \<Rightarrow> p\<lparr>bp_phase := BP_Unwinding r, bp_acks := bp_acks p @ call_ack ack batch (Some (panic_text p r))\<rparr>)"

text \<open>The outer deferred function: \<open>terminate\<close> after a panic, then the value on \<open>_terminatedCh\<close>.\<close>

definition bp_exit :: "batchProcessor \<Rightarrow> batchProcessor option" where
  "bp_exit p =
     (case bp_phase p of
        BP_Unwinding r \<Rightarrow> map_option (\<lambda>p'. p'\<lparr>bp_phase := BP_Exited (Some r)\<rparr>) (bp_terminate p)
      | BP_Waiting \<Rightarrow> if bp_closed p then Some (p\<lparr>bp_phase := BP_Exited None\<rparr>) else None
      | _ \<Rightarrow> None)"

section \<open>Runs\<close>

text \<open>
  The steps of the goroutine itself, for arbitrary results of the handler, and the steps of a
  processor in its batcher. \<open>resumes\<close> says whether the batcher may call \<open>resume\<close>.
\<close>

inductive bp_own :: "'a heap \<Rightarrow> batchProcessor \<Rightarrow> batchProcessor \<Rightarrow> bool" for h where
  handled: "bp_phase p = BP_Handling batch \<Longrightarrow> bp_own h p (bp_handled h p batch result)"
| fail: "bp_phase p = BP_Failing batch r \<Longrightarrow> bp_own h p (bp_fail h p batch r)"
| exit: "bp_exit p = Some p' \<Longrightarrow> bp_own h p p'"

inductive bp_step :: "'a heap \<Rightarrow> bool \<Rightarrow> batchProcessor \<Rightarrow> batchProcessor \<Rightarrow> bool" for h and resumes where
  own: "bp_own h p p' \<Longrightarrow> bp_step h resumes p p'"
| send: "bp_send p batch = Inr (res, p') \<Longrightarrow> bp_step h resumes p p'"
| terminate: "bp_terminate p = Some p' \<Longrightarrow> bp_step h resumes p p'"
| pause: "bp_step h resumes p (bp_pause p)"
| resume: "resumes \<Longrightarrow> bp_step h resumes p (bp_resume p)"

text \<open>One case per operation, with the update it makes.\<close>

lemmas bp_op_defs =
  bp_handled_def bp_fail_def bp_exit_def bp_terminate_def bp_pause_def bp_resume_def Let_def

lemma bp_send_cases:
  assumes "bp_send p b = Inr (res, p')"
  obtains "res = Refused" "p' = p"
  | "res = Accepted" "bp_phase p = BP_Waiting" "\<not> bp_mu p" "\<not> bp_terminated p" "\<not> bp_paused p"
    "p' = p\<lparr>bp_mu := True, bp_phase := BP_Handling b, bp_accepted := bp_accepted p @ [b]\<rparr>"
  | "res = Blocked" "bp_phase p \<noteq> BP_Waiting" "\<not> bp_mu p" "\<not> bp_terminated p" "\<not> bp_paused p"
    "p' = p\<lparr>bp_mu := True, bp_blocked := Some b\<rparr>"
proof (cases "bp_mu p \<or> bp_terminated p \<or> bp_paused p")
  case True
  with assms show ?thesis by (intro that(1)) (auto simp: bp_send_def split: if_splits)
next
  case False
  with assms have "\<not> bp_closed p" by (auto simp: bp_send_def)
  with assms False show ?thesis
    by (cases "bp_phase p = BP_Waiting") (simp_all add: bp_send_def that(2,3))
qed

lemma bp_exit_cases:
  assumes "bp_exit p = Some p'"
  obtains r where "bp_phase p = BP_Unwinding r" "\<not> bp_mu p"
      "p' = p\<lparr>bp_terminated := True, bp_closed := bp_closed p \<or> \<not> bp_terminated p, bp_phase := BP_Exited (Some r)\<rparr>"
  | "bp_phase p = BP_Waiting" "bp_closed p" "p' = p\<lparr>bp_phase := BP_Exited None\<rparr>"
proof (cases "bp_phase p")
  case BP_Waiting
  with assms show ?thesis by (intro that(2)) (auto simp: bp_exit_def split: if_splits)
next
  case (BP_Unwinding r)
  with assms show ?thesis
    by (intro that(1) [of r]) (auto simp: bp_exit_def bp_terminate_def split: if_splits)
qed (use assms in \<open>simp_all add: bp_exit_def\<close>)

section \<open>The mutex\<close>

text \<open>
  The mutex is held exactly while a batch is handled or a sender is blocked; the receiver is
  closed exactly when the processor is terminated, and no batch is in work then; a blocked
  sender means that the goroutine no longer receives.
\<close>

definition bp_ok :: "batchProcessor \<Rightarrow> bool" where
  "bp_ok p \<longleftrightarrow>
     (bp_mu p \<longleftrightarrow> (\<exists>b. bp_phase p = BP_Handling b) \<or> bp_blocked p \<noteq> None) \<and>
     (bp_closed p \<longleftrightarrow> bp_terminated p) \<and>
     (bp_terminated p \<longrightarrow> \<not> bp_mu p) \<and>
     (bp_blocked p \<noteq> None \<longrightarrow> (\<exists>b r. bp_phase p = BP_Failing b r) \<or> (\<exists>r. bp_phase p = BP_Unwinding r)) \<and>
     (\<forall>r. bp_phase p = BP_Exited r \<longrightarrow> bp_terminated p)"

lemma bp_ok_new [simp]: "bp_ok (newBatchProcessor i)" "bp_ok (bp_run (newBatchProcessor i) c)"
  by (simp_all add: bp_ok_def newBatchProcessor_def bp_run_def)

lemma bp_ok_send:
  assumes "bp_ok p" and "bp_send p b = Inr (res, p')"
  shows "bp_ok p'"
  using assms(2)
proof (cases rule: bp_send_cases)
  case 1
  with assms(1) show ?thesis by simp
next
  case 2
  with assms(1) show ?thesis by (simp add: bp_ok_def)
next
  case 3
  with assms(1) show ?thesis by (cases "bp_phase p") (simp_all add: bp_ok_def)
qed

lemma bp_send_no_panic: "bp_ok p \<Longrightarrow> bp_send p b \<noteq> Inl e"
  by (auto simp: bp_send_def bp_ok_def)

lemma bp_ok_own:
  assumes "bp_ok p" and "bp_own h p p'"
  shows "bp_ok p'"
  using assms(2,1)
proof cases
  case (handled batch result)
  then show ?thesis using assms(1) by (auto simp: bp_op_defs bp_ok_def split: sum.splits prod.splits)
next
  case (fail batch r)
  then show ?thesis using assms(1) by (auto simp: bp_op_defs bp_ok_def split: sum.splits)
next
  case exit
  then show ?thesis using assms(1) by (cases rule: bp_exit_cases) (auto simp: bp_ok_def)
qed

lemma bp_ok_step:
  assumes "bp_ok p" and "bp_step h resumes p p'"
  shows "bp_ok p'"
  using assms(2)
proof cases
  case own
  then show ?thesis by (rule bp_ok_own [OF assms(1)])
next
  case (send batch res)
  then show ?thesis by (rule bp_ok_send [OF assms(1)])
qed (use assms(1) in \<open>auto simp: bp_op_defs bp_ok_def split: if_splits\<close>)

lemma bp_ok_reaches: "reaches (bp_step h resumes) p p' \<Longrightarrow> bp_ok p \<Longrightarrow> bp_ok p'"
  by (erule reaches_invariant [where I = bp_ok]) (auto intro: bp_ok_step)

lemma bp_id_step: "bp_step h resumes p p' \<Longrightarrow> bp_id p' = bp_id p"
proof (erule bp_step.cases, goal_cases)
  case (1 p p')
  from 1(3) show ?case
  proof cases
    case exit
    then show ?thesis using 1 by (cases rule: bp_exit_cases) auto
  qed (use 1 in \<open>auto simp: bp_op_defs split: sum.splits prod.splits\<close>)
next
  case (2 p batch res p')
  from 2(3) show ?case by (cases rule: bp_send_cases) (use 2 in auto)
qed (auto simp: bp_op_defs split: if_splits)

section \<open>Acknowledgements\<close>

text \<open>The call that a batch is due for a result of the handler; none for an empty batch.\<close>

definition bp_expected :: "'a heap \<Rightarrow> string \<Rightarrow> msg_ref list \<Rightarrow> handle_result \<Rightarrow> ack_call list" where
  "bp_expected h i batch result =
     (case batch of [] \<Rightarrow> []
      | m # _ \<Rightarrow> (case result of
          Inl r \<Rightarrow> call_ack (ms_ack (h m)) batch (Some (''batch processor '' @ i @ '' panicked: '' @ r))
        | Inr (processed, err) \<Rightarrow> call_ack (ms_ack (h m)) processed err))"

definition bp_in_hand :: "batchProcessor \<Rightarrow> msg_ref list list" where
  "bp_in_hand p = (case bp_phase p of BP_Handling b \<Rightarrow> [b] | _ \<Rightarrow> [])"

definition bp_owed :: "'a heap \<Rightarrow> batchProcessor \<Rightarrow> ack_call list" where
  "bp_owed h p = (case bp_phase p of BP_Failing b r \<Rightarrow> bp_expected h (bp_id p) b (Inl r) | _ \<Rightarrow> [])"

definition bp_log_ok :: "'a heap \<Rightarrow> batchProcessor \<Rightarrow> bool" where
  "bp_log_ok h p \<longleftrightarrow>
     (\<exists>dn. bp_accepted p = dn @ bp_in_hand p \<and> length dn = length (bp_results p) \<and>
       bp_acks p @ bp_owed h p = concat (map2 (bp_expected h (bp_id p)) dn (bp_results p)))"

lemma map2_snoc: "length xs = length ys \<Longrightarrow> map2 f (xs @ [x]) (ys @ [y]) = map2 f xs ys @ [f x y]"
  by simp

lemma bp_log_ok_handled:
  assumes "bp_log_ok h p" and "bp_phase p = BP_Handling batch"
  shows "bp_log_ok h (bp_handled h p batch result)"
proof -
  obtain dn where dn: "bp_accepted p = dn @ [batch]" "length dn = length (bp_results p)"
    "bp_acks p = concat (map2 (bp_expected h (bp_id p)) dn (bp_results p))"
    using assms by (auto simp: bp_log_ok_def bp_in_hand_def bp_owed_def)
  let ?p = "bp_handled h p batch result"
  have fields: "bp_accepted ?p = dn @ [batch]" "bp_results ?p = bp_results p @ [result]" "bp_id ?p = bp_id p"
    "bp_in_hand ?p = []"
    using dn(1) by (auto simp: bp_handled_def bp_in_hand_def Let_def split: sum.splits prod.splits)
  have "bp_acks ?p @ bp_owed h ?p = bp_acks p @ bp_expected h (bp_id p) batch result"
    by (cases batch) (auto simp: bp_handled_def bp_owed_def bp_expected_def first_ack_def Let_def
          split: sum.splits prod.splits)
  with dn fields show ?thesis
    unfolding bp_log_ok_def by (intro exI [of _ "dn @ [batch]"]) (simp add: map2_snoc)
qed

lemma bp_log_ok_fail:
  assumes "bp_log_ok h p" and "bp_phase p = BP_Failing batch r"
  shows "bp_log_ok h (bp_fail h p batch r)"
proof -
  have "bp_accepted (bp_fail h p batch r) = bp_accepted p" "bp_results (bp_fail h p batch r) = bp_results p"
    "bp_id (bp_fail h p batch r) = bp_id p" "bp_in_hand (bp_fail h p batch r) = bp_in_hand p"
    using assms(2) by (auto simp: bp_fail_def bp_in_hand_def split: sum.splits)
  moreover have "bp_acks (bp_fail h p batch r) @ bp_owed h (bp_fail h p batch r) = bp_acks p @ bp_owed h p"
    using assms(2) by (cases batch) (auto simp: bp_fail_def bp_owed_def bp_expected_def first_ack_def panic_text_def)
  ultimately show ?thesis using assms(1) by (simp add: bp_log_ok_def)
qed

text \<open>The other steps keep the history and what is in hand or owed.\<close>

lemma bp_log_ok_same:
  assumes "bp_log_ok h p" and "bp_accepted p' = bp_accepted p" and "bp_results p' = bp_results p"
    and "bp_acks p' = bp_acks p" and "bp_id p' = bp_id p"
    and "bp_in_hand p' = bp_in_hand p" and "bp_owed h p' = bp_owed h p"
  shows "bp_log_ok h p'"
  using assms by (simp add: bp_log_ok_def)

lemma bp_log_ok_phase:
  assumes "bp_log_ok h p" and "bp_phase p' = bp_phase p" and "bp_accepted p' = bp_accepted p"
    and "bp_results p' = bp_results p" and "bp_acks p' = bp_acks p" and "bp_id p' = bp_id p"
  shows "bp_log_ok h p'"
  by (rule bp_log_ok_same [OF assms(1)]) (simp_all add: assms(2-6) bp_in_hand_def bp_owed_def cong: bp_phase.case_cong)

lemma bp_log_ok_own:
  assumes "bp_log_ok h p" and "bp_own h p p'"
  shows "bp_log_ok h p'"
  using assms(2)
proof cases
  case exit
  then show ?thesis
    by (cases rule: bp_exit_cases) (rule bp_log_ok_same [OF assms(1)]; simp add: bp_in_hand_def bp_owed_def)+
qed (use assms(1) bp_log_ok_handled bp_log_ok_fail in blast)+

lemma bp_log_ok_send:
  assumes "bp_log_ok h p" and "bp_send p b = Inr (res, p')"
  shows "bp_log_ok h p'"
  using assms(2)
proof (cases rule: bp_send_cases)
  case 2
  with assms(1) show ?thesis by (auto simp: bp_log_ok_def bp_in_hand_def bp_owed_def)
next
  case 3
  then show ?thesis by (intro bp_log_ok_phase [OF assms(1)]) simp_all
qed (use assms(1) in simp)

lemma bp_log_ok_step:
  assumes "bp_log_ok h p" and "bp_step h resumes p p'"
  shows "bp_log_ok h p'"
  using assms(2)
proof cases
  case own
  then show ?thesis by (rule bp_log_ok_own [OF assms(1)])
next
  case (send batch res)
  then show ?thesis by (rule bp_log_ok_send [OF assms(1)])
next
  case terminate
  then have "p' = p \<or> p' = p\<lparr>bp_terminated := True, bp_closed := True\<rparr>" by (auto simp: bp_terminate_def split: if_splits)
  then show ?thesis by (elim disjE; intro bp_log_ok_phase [OF assms(1)]) simp_all
qed (intro bp_log_ok_phase [OF assms(1)]; simp add: bp_pause_def bp_resume_def)+

lemma bp_log_ok_new [simp]: "bp_log_ok h (newBatchProcessor i)" "bp_log_ok h (bp_run (newBatchProcessor i) c)"
  by (simp_all add: bp_log_ok_def bp_in_hand_def bp_owed_def newBatchProcessor_def bp_run_def)

lemma bp_reaches_facts:
  assumes "reaches (bp_step h resumes) (bp_run (newBatchProcessor i) c) p"
  shows "bp_ok p" and "bp_log_ok h p" and "bp_id p = i"
proof -
  show "bp_ok p" using bp_ok_reaches [OF assms] by simp
  show "bp_log_ok h p" by (rule reaches_invariant [OF assms, where I = "bp_log_ok h"]) (auto intro: bp_log_ok_step)
  show "bp_id p = i" by (rule reaches_invariant [OF assms, where I = "\<lambda>p. bp_id p = i"])
      (auto simp: bp_id_step newBatchProcessor_def bp_run_def)
qed

text \<open>
  Claim C18. In every run of a batch processor, with any handler and any calls of \<open>send\<close>,
  \<open>pause\<close>, \<open>resume\<close> and \<open>terminate\<close>: the handler got the accepted batches in the order of
  acceptance, one at a time; every batch it has finished is acknowledged exactly once, in that
  order, by the acknowledger of its first message, with what \<open>Handle\<close> returned or, when it
  panicked, with the whole batch and the panic as the error (one call is still owed between the
  panic and its acknowledgement); and \<open>send\<close> never sends on the closed channel.
\<close>

theorem batch_acknowledged_once:
  assumes "reaches (bp_step h resumes) (bp_run (newBatchProcessor i) c) p"
  shows "bp_accepted p = take (length (bp_results p)) (bp_accepted p) @ bp_in_hand p \<and>
    length (bp_accepted p) = length (bp_results p) + length (bp_in_hand p) \<and>
    bp_acks p @ bp_owed h p =
      concat (map2 (bp_expected h i) (take (length (bp_results p)) (bp_accepted p)) (bp_results p)) \<and>
    bp_send p b \<noteq> Inl e"
  using bp_reaches_facts [OF assms] bp_send_no_panic [of p b e] by (auto simp: bp_log_ok_def)

definition one_message :: "string \<Rightarrow> nat \<Rightarrow> unit heap" where
  "one_message key a = (\<lambda>_. (NewMessage () None)\<lparr>ms_BatchKey := key, ms_ack := Some a\<rparr>)"

definition bp1 :: batchProcessor where
  "bp1 = bp_run (newBatchProcessor ''p'') None"

lemma bp1_send: "bp_step h resumes bp1 (bp1\<lparr>bp_mu := True, bp_phase := BP_Handling b, bp_accepted := [b]\<rparr>)"
  by (rule bp_step.send [of _ b Accepted]) (simp add: bp_send_def bp1_def bp_run_def newBatchProcessor_def)

lemma bp1_panic:
  "bp_step h resumes (bp1\<lparr>bp_mu := True, bp_phase := BP_Handling b, bp_accepted := [b]\<rparr>)
     (bp1\<lparr>bp_paused := True, bp_phase := BP_Failing b r, bp_accepted := [b], bp_results := [Inl r]\<rparr>)"
proof -
  let ?p = "bp1\<lparr>bp_mu := True, bp_phase := BP_Handling b, bp_accepted := [b]\<rparr>"
  have "bp_handled h ?p b (Inl r) = bp1\<lparr>bp_paused := True, bp_phase := BP_Failing b r, bp_accepted := [b], bp_results := [Inl r]\<rparr>"
    by (simp add: bp_handled_def bp1_def bp_run_def newBatchProcessor_def)
  moreover have "bp_own h ?p (bp_handled h ?p b (Inl r))" by (rule bp_own.handled) simp
  ultimately show ?thesis by (metis bp_step.own)
qed

lemma bp1_failing:
  "reaches (bp_step h resumes) bp1
     (bp1\<lparr>bp_paused := True, bp_phase := BP_Failing b r, bp_accepted := [b], bp_results := [Inl r]\<rparr>)"
  by (rule reaches.step [OF reaches_one], rule bp1_send, rule bp1_panic)

theorem batch_acknowledged_once_witness:
  "bp_owed (one_message ''k'' 7) (bp1\<lparr>bp_paused := True, bp_phase := BP_Failing [0, 1] ''x'', bp_accepted := [[0, 1]], bp_results := [Inl ''x'']\<rparr>) =
     [\<lparr>ac_by = 7, ac_msgs = [0, 1], ac_err = Some ''batch processor p panicked: x''\<rparr>]"
  using batch_acknowledged_once [OF bp1_failing [where h = "one_message ''k'' 7" and resumes = True and b = "[0, 1]" and r = "''x''", unfolded bp1_def]]
  by (simp add: bp_expected_def one_message_def bp1_def bp_run_def newBatchProcessor_def NewMessage_def)

section \<open>After a panic\<close>

lemma not_resumed:
  assumes "reaches (bp_step h False) (bp_run (newBatchProcessor i) c) p"
  shows "bp_phase p = BP_Failing b r \<or> bp_phase p = BP_Unwinding r \<Longrightarrow> bp_paused p"
    and "bp_blocked p = None"
proof -
  let ?I = "\<lambda>p. ((\<exists>b r. bp_phase p = BP_Failing b r) \<or> (\<exists>r. bp_phase p = BP_Unwinding r) \<longrightarrow> bp_paused p) \<and>
    ((\<exists>r. bp_phase p = BP_Exited r) \<longrightarrow> bp_terminated p) \<and> bp_blocked p = None \<and> bp_ok p"
  have step: "?I p'" if I: "?I p" and st: "bp_step h False p p'" for p p'
  proof -
    have "bp_ok p'" using bp_ok_step [OF _ st] I by blast
    moreover from st have "((\<exists>b r. bp_phase p' = BP_Failing b r) \<or> (\<exists>r. bp_phase p' = BP_Unwinding r) \<longrightarrow> bp_paused p') \<and>
      ((\<exists>r. bp_phase p' = BP_Exited r) \<longrightarrow> bp_terminated p') \<and> bp_blocked p' = None"
    proof cases
      case own
      then show ?thesis
      proof cases
        case exit
        then show ?thesis using I by (cases rule: bp_exit_cases) (auto simp: bp_ok_def)
      qed (use I in \<open>auto simp: bp_op_defs split: sum.splits prod.splits\<close>)
    next
      case (send batch res)
      then show ?thesis
      proof (cases rule: bp_send_cases)
        case 3
        then show ?thesis using I by (cases "bp_phase p") (auto simp: bp_ok_def)
      qed (use I in auto)
    qed (use I in \<open>auto simp: bp_op_defs split: if_splits\<close>)
    ultimately show ?thesis by blast
  qed
  have "?I p"
    by (rule reaches_invariant [OF assms, where I = ?I]) (simp add: newBatchProcessor_def bp_run_def bp_ok_def, fact step)
  then show "bp_phase p = BP_Failing b r \<or> bp_phase p = BP_Unwinding r \<Longrightarrow> bp_paused p" and "bp_blocked p = None"
    by blast+
qed

definition bp_exited :: "batchProcessor \<Rightarrow> string \<Rightarrow> batchProcessor" where
  "bp_exited p r = p\<lparr>bp_terminated := True, bp_closed := True, bp_phase := BP_Exited (Some r)\<rparr>"

lemma unwinding_exits:
  assumes "bp_ok p" and "bp_phase p = BP_Unwinding r" and "bp_blocked p = None"
  shows "bp_own h p (bp_exited p r)"
proof -
  from assms have "\<not> bp_mu p" and "bp_closed p = bp_terminated p" by (auto simp: bp_ok_def)
  with assms(2) have "bp_exit p = Some (bp_exited p r)"
    by (auto simp: bp_exit_def bp_terminate_def bp_exited_def)
  then show ?thesis by (rule bp_own.exit)
qed

text \<open>
  A processor that nobody resumes cannot hang after a panic of its handler: in every
  reachable state between the panic and the exit, \<open>send\<close> refuses at once, and two steps of the
  goroutine, enabled whatever else has happened, acknowledge the whole batch with the panic,
  terminate the processor and report the panic on \<open>terminated()\<close>.
\<close>

theorem panic_is_reported:
  assumes "reaches (bp_step h False) (bp_run (newBatchProcessor i) c) p"
    and "bp_phase p = BP_Failing (m # ms) r"
  shows "bp_send p b = Inr (Refused, p) \<and>
    bp_own h p (bp_fail h p (m # ms) r) \<and>
    bp_own h (bp_fail h p (m # ms) r)
      (bp_exited (p\<lparr>bp_acks := bp_acks p @ call_ack (ms_ack (h m)) (m # ms) (Some (panic_text p r))\<rparr>) r)"
proof -
  note facts = bp_reaches_facts(1) [OF assms(1)] not_resumed [OF assms(1)]
  have fail: "bp_own h p (bp_fail h p (m # ms) r)" using assms(2) by (rule bp_own.fail)
  let ?q = "bp_fail h p (m # ms) r"
  have q: "?q = p\<lparr>bp_phase := BP_Unwinding r, bp_acks := bp_acks p @ call_ack (ms_ack (h m)) (m # ms) (Some (panic_text p r))\<rparr>"
    by (simp add: bp_fail_def)
  have "bp_own h ?q (bp_exited ?q r)"
    using bp_ok_own [OF facts(1) fail] facts(3) by (intro unwinding_exits) (simp_all add: q)
  moreover have "bp_exited ?q r = bp_exited (p\<lparr>bp_acks := bp_acks p @ call_ack (ms_ack (h m)) (m # ms) (Some (panic_text p r))\<rparr>) r"
    by (simp add: q bp_exited_def)
  ultimately show ?thesis using fail facts assms(2) by (auto simp: bp_send_def)
qed

theorem panic_is_reported_witness:
  "bp_send (bp1\<lparr>bp_paused := True, bp_phase := BP_Failing [0, 1] ''x'', bp_accepted := [[0, 1]], bp_results := [Inl ''x'']\<rparr>) [2] =
     Inr (Refused, bp1\<lparr>bp_paused := True, bp_phase := BP_Failing [0, 1] ''x'', bp_accepted := [[0, 1]], bp_results := [Inl ''x'']\<rparr>)"
  using panic_is_reported [OF bp1_failing [where h = "one_message ''k'' 7" and resumes = False and b = "[0, 1]" and r = "''x''", unfolded bp1_def], where m = 0 and ms = "[1]" and r = "''x''" and b = "[2]"]
  by (simp add: bp1_def)

section \<open>Resuming a crashed processor\<close>

lemma blocked_step:
  assumes "bp_ok p" and "bp_blocked p = Some b" and "bp_step h resumes p p'"
  shows "bp_blocked p' = Some b"
  using assms(3)
proof cases
  case own
  then show ?thesis
  proof cases
    case exit
    then show ?thesis using assms(1,2) by (cases rule: bp_exit_cases) (auto simp: bp_ok_def)
  qed (use assms(2) in \<open>auto simp: bp_op_defs split: sum.splits prod.splits\<close>)
next
  case (send batch res)
  then show ?thesis using assms(1,2) by (cases rule: bp_send_cases) (auto simp: bp_ok_def)
qed (use assms(2) in \<open>auto simp: bp_op_defs split: if_splits\<close>)

lemma blocked_forever:
  assumes "reaches (bp_step h resumes) p q" and "bp_ok p" and "bp_blocked p = Some b"
  shows "bp_ok q \<and> bp_blocked q = Some b"
  by (rule reaches_invariant [OF assms(1)]) (use assms(2,3) in \<open>auto intro: blocked_step bp_ok_step\<close>)

text \<open>
  The state after: a batch \<open>b0\<close> accepted, its handler panicked with \<open>r\<close>, the processor resumed
  and the batch \<open>b\<close> sent.
\<close>

definition bp_stuck :: "batchProcessor \<Rightarrow> msg_ref list \<Rightarrow> string \<Rightarrow> msg_ref list \<Rightarrow> batchProcessor" where
  "bp_stuck p b0 r b =
     (case bp_send (bp_resume (bp_handled (\<lambda>_. NewMessage () None) (snd (projr (bp_send p b0))) b0 (Inl r))) b of
        Inl _ \<Rightarrow> p | Inr (_, q) \<Rightarrow> q)"

lemma bp_stuck_eq:
  "bp_stuck (bp_run (newBatchProcessor i) c) b0 r b =
     (bp_run (newBatchProcessor i) c)\<lparr>bp_mu := True, bp_blocked := Some b, bp_phase := BP_Failing b0 r,
        bp_accepted := [b0], bp_results := [Inl r]\<rparr>"
  by (simp add: bp_stuck_def bp_send_def bp_resume_def bp_handled_def bp_run_def newBatchProcessor_def)

lemma bp_stuck_reached:
  "reaches (bp_step h True) (bp_run (newBatchProcessor i) c) (bp_stuck (bp_run (newBatchProcessor i) c) b0 r b)"
proof -
  let ?p = "bp_run (newBatchProcessor i) c"
  let ?p1 = "?p\<lparr>bp_mu := True, bp_phase := BP_Handling b0, bp_accepted := [b0]\<rparr>"
  let ?p2 = "bp_handled h ?p1 b0 (Inl r)"
  have 1: "bp_step h True ?p ?p1"
    by (rule bp_step.send [of _ b0 Accepted]) (simp add: bp_send_def bp_run_def newBatchProcessor_def)
  have 2: "bp_step h True ?p1 ?p2" by (intro bp_step.own bp_own.handled) simp
  have 3: "bp_step h True ?p2 (bp_resume ?p2)" by (rule bp_step.resume) simp
  have 4: "bp_step h True (bp_resume ?p2) (bp_stuck ?p b0 r b)"
    by (rule bp_step.send [of _ b Blocked])
      (unfold bp_stuck_eq, simp add: bp_send_def bp_resume_def bp_handled_def bp_run_def newBatchProcessor_def)
  show ?thesis by (rule reaches.step, rule reaches.step, rule reaches.step, rule reaches_one, rule 1, rule 2, rule 3, rule 4)
qed

text \<open>
  \<open>resume\<close> undoes the pause that a panic sets. When the batcher resumes a processor
  whose handler has just panicked (it was the key-sharing neighbour of another replacement) and
  sends it a batch before it has terminated, the sender blocks for ever with the mutex held: a
  new processor can get there, and from then on, in every continuation, \<open>terminate\<close> waits, every
  \<open>send\<close> is refused, the goroutine never exits and the batch is never received.
\<close>

theorem resume_after_panic_deadlock:
  assumes "reaches (bp_step h resumes) (bp_stuck (bp_run (newBatchProcessor i) c) b0 r b) q"
  shows "reaches (bp_step h True) (bp_run (newBatchProcessor i) c) (bp_stuck (bp_run (newBatchProcessor i) c) b0 r b) \<and>
    bp_terminate q = None \<and> bp_send q b' = Inr (Refused, q) \<and> bp_phase q \<noteq> BP_Exited v \<and> bp_blocked q = Some b"
proof -
  let ?s = "bp_stuck (bp_run (newBatchProcessor i) c) b0 r b"
  have "bp_ok ?s" "bp_blocked ?s = Some b"
    by (unfold bp_stuck_eq, simp_all add: bp_ok_def bp_run_def newBatchProcessor_def)
  from blocked_forever [OF assms this] have q: "bp_ok q" "bp_blocked q = Some b" by simp_all
  then have "bp_mu q" "bp_phase q \<noteq> BP_Exited v" by (auto simp: bp_ok_def)
  with q(2) show ?thesis using bp_stuck_reached by (simp add: bp_terminate_def bp_send_def)
qed

theorem resume_after_panic_deadlock_witness:
  "bp_terminate (bp_stuck (bp_run (newBatchProcessor ''p'') None) [0] ''x'' [1]) = None"
  using resume_after_panic_deadlock [OF reaches.start] by blast

section \<open>What the goroutine's own steps keep\<close>

lemma bp_own_history_conj:
  assumes "bp_own h p p'"
  shows "bp_accepted p' = bp_accepted p \<and> (bp_paused p \<longrightarrow> bp_paused p') \<and> bp_phase p \<noteq> BP_Exited v"
  using assms
proof cases
  case exit
  then show ?thesis by (cases rule: bp_exit_cases) auto
qed (auto simp: bp_op_defs split: sum.splits prod.splits)

lemmas bp_own_history =
  bp_own_history_conj [THEN conjunct1]
  bp_own_history_conj [THEN conjunct2, THEN conjunct1, THEN mp]
  bp_own_history_conj [THEN conjunct2, THEN conjunct2]

lemma bp_send_history:
  assumes "bp_send p b = Inr (res, p')"
  shows "bp_accepted p' = bp_accepted p @ (if res = Accepted then [b] else [])" and "bp_paused p' = bp_paused p"
  using assms by (cases rule: bp_send_cases; simp)+

lemma exited_refuses:
  assumes "bp_ok p" and "bp_phase p = BP_Exited v" and "bp_send p b = Inr (res, p')"
  shows "res = Refused \<and> p' = p"
proof -
  have "bp_terminated p" using assms(1,2) by (auto simp: bp_ok_def)
  with assms(3) show ?thesis by (auto simp: bp_send_def split: if_splits)
qed

lemma exited_stays:
  assumes "bp_ok p" and "bp_phase p = BP_Exited v" and "bp_step h resumes p p'"
  shows "bp_phase p' = BP_Exited v \<and> bp_accepted p' = bp_accepted p"
  using assms(3)
proof cases
  case own
  then show ?thesis using bp_own_history(3) assms(2) by blast
next
  case (send batch res)
  then show ?thesis using exited_refuses [OF assms(1,2)] assms(2) by blast
qed (use assms(2) in \<open>auto simp: bp_op_defs split: if_splits\<close>)

text \<open>Only a processor that accepted a batch can crash.\<close>

lemma bp_used:
  assumes "reaches (bp_step h resumes) (bp_run (newBatchProcessor i) c) p" and "bp_phase p = BP_Exited (Some r)"
  shows "bp_accepted p \<noteq> []"
proof -
  let ?I = "\<lambda>p. bp_phase p = BP_Waiting \<or> bp_phase p = BP_Exited None \<or> bp_accepted p \<noteq> []"
  have step: "?I p'" if I: "?I p" and st: "bp_step h resumes p p'" for p p'
    using st
  proof cases
    case own
    then show ?thesis
    proof cases
      case exit
      then show ?thesis using I by (cases rule: bp_exit_cases) auto
    qed (use I in \<open>auto simp: bp_op_defs split: sum.splits prod.splits\<close>)
  next
    case (send batch res)
    then show ?thesis using I by (cases rule: bp_send_cases) auto
  qed (use I in \<open>auto simp: bp_op_defs split: if_splits\<close>)
  have "?I p" by (rule reaches_invariant [OF assms(1), where I = ?I])
      (simp add: newBatchProcessor_def bp_run_def, fact step)
  with assms(2) show ?thesis by simp
qed

end
