(* ===== verification/Batcher.thy ===== *)
theory Batcher
  imports Hash_Ring Batch_Processor
begin

text \<open>
  \<open>broadway/batcher.go\<close>: the goroutine that receives messages into one queue per batch key, the
  goroutine that forms batches and hands them to a batch processor of the hash ring, the flush
  and the shutdown that follow \<open>terminate\<close>, and the replacement of a crashed processor.

  A batch processor is identified by its id, which is also what the ring hashes (\<open>toString\<close>); the
  processors themselves are a map from ids. Between two accesses to shared state every goroutine
  has a position: \<open>bt_incoming\<close> is the rest of the slice in the receive loop, \<open>bt_round\<close> and
  \<open>bt_work\<close> are where the batching goroutine is, \<open>bt_repl\<close> where \<open>handleProcessorPanic\<close> is. The
  fields \<open>bt_received\<close>, \<open>bt_delivered\<close> and \<open>bt_replaced\<close> are history.
\<close>

section \<open>Configuration and state\<close>

record batcherConfig =
  bc_Name :: string
  bc_BatchSize :: int
  bc_BatchTimeout :: int       \<comment> \<open>nanoseconds\<close>
  bc_Concurrency :: int

definition defaultBatchSize :: int where "defaultBatchSize = 100"
definition defaultBatchTimeout :: int where "defaultBatchTimeout = 3 * 1000000000"

text \<open>The batching goroutine inside \<open>processBatch\<close>: before \<open>getNode\<close>, before \<open>send\<close>, or blocked in it.\<close>

datatype bt_work =
    W_None
  | W_Batch string "msg_ref list"
  | W_Routed string "msg_ref list" string
  | W_Blocked string "msg_ref list" string

text \<open>
  \<open>processBatches\<close> runs; it has returned; the deferred function of \<open>run\<close> flushes, terminates the
  processors of \<open>getAllNodes\<close> one by one, waits for each of them, and is done.
\<close>

datatype bt_phase =
    BT_Loop
  | BT_LoopDone
  | BT_Flush
  | BT_Stopping "string list" "string list"
  | BT_Awaiting "string list"
  | BT_Done

text \<open>\<open>handleProcessorPanic\<close>: the new processor's id and the neighbour it will share keys with.\<close>

datatype bt_repl =
    RP_None
  | RP_Removed
  | RP_Found string "string option"
  | RP_Paused string "string option"
  | RP_Added string "string option"

record batcher =
  bt_config :: batcherConfig
  bt_batches :: "(string, msg_ref concurrentQueue) concurrentMap"
  bt_hr :: "string hashRing"
  bt_procs :: "string \<rightharpoonup> batchProcessor"
  bt_terminated :: bool                      \<comment> \<open>\<open>_terminated\<close>, and \<open>_receiver\<close> is closed\<close>
  bt_incoming :: "msg_ref list"
  bt_phase :: bt_phase
  bt_round :: "string list"                  \<comment> \<open>keys left in the current \<open>range\<close>\<close>
  bt_tick :: bool                            \<comment> \<open>the current round is one of the ticker\<close>
  bt_work :: bt_work
  bt_reported :: "string list"               \<comment> \<open>processors whose \<open>terminated()\<close> value was received\<close>
  bt_crashed :: "string list"                \<comment> \<open>watchers waiting for the mutex\<close>
  bt_repl :: bt_repl
  bt_fullyTerminated :: bool
  bt_received :: "msg_ref list"
  bt_delivered :: "(string \<times> string \<times> msg_ref list) list"   \<comment> \<open>processor, batch key, batch\<close>
  bt_replaced :: nat

definition newBatcher :: "batcherConfig \<Rightarrow> batcher" where
  "newBatcher config =
     (let config = (if bc_Name config = '''' then config\<lparr>bc_Name := defaultBatcherName\<rparr> else config);
          config = (if bc_BatchSize config = 0 then config\<lparr>bc_BatchSize := defaultBatchSize\<rparr> else config);
          config = (if bc_BatchTimeout config = 0 then config\<lparr>bc_BatchTimeout := defaultBatchTimeout\<rparr> else config)
      in \<lparr>bt_config = config, bt_batches = newConcurrentMap [], bt_hr = newHashRing, bt_procs = Map.empty,
          bt_terminated = False, bt_incoming = [], bt_phase = BT_Loop, bt_round = [], bt_tick = False,
          bt_work = W_None, bt_reported = [], bt_crashed = [], bt_repl = RP_None,
          bt_fullyTerminated = False, bt_received = [], bt_delivered = [], bt_replaced = 0\<rparr>)"

abbreviation ring_add :: "string hashRing \<Rightarrow> string \<Rightarrow> string hashRing" where
  "ring_add \<equiv> addNode (\<lambda>n. n)"

text \<open>
  The start of \<open>run\<close>: \<open>ids\<close> are the ids of the new processors. The loop runs \<open>Concurrency\<close> times;
  a negative number counts as none.
\<close>

definition bt_spawn :: "batcher \<Rightarrow> string \<Rightarrow> batcher" where
  "bt_spawn b i =
     b\<lparr>bt_procs := (bt_procs b)(i \<mapsto> bp_run (newBatchProcessor i) (Some (bc_Name (bt_config b)))),
       bt_hr := ring_add (bt_hr b) i\<rparr>"

definition bt_run :: "batcherConfig \<Rightarrow> string list \<Rightarrow> batcher" where
  "bt_run config ids = foldl bt_spawn (newBatcher config) ids"

text \<open>Ids are fresh UUIDs, one per processor.\<close>

definition ids_ok :: "batcherConfig \<Rightarrow> string list \<Rightarrow> bool" where
  "ids_ok config ids \<longleftrightarrow> distinct ids \<and> length ids = nat (bc_Concurrency config)"

section \<open>send, terminate and the receive loop\<close>

text \<open>
  \<open>send\<close> and \<open>terminate\<close> take the mutex, which \<open>handleProcessorPanic\<close> holds while it runs: \<open>None\<close>
  is waiting. The unbuffered channel takes the slice when the receive loop has finished the last.
\<close>

definition bt_send :: "batcher \<Rightarrow> msg_ref list \<Rightarrow> (bool \<times> batcher) option" where
  "bt_send b messages =
     (if bt_repl b \<noteq> RP_None then None
      else if bt_terminated b then Some (False, b)
      else if bt_incoming b \<noteq> [] then None
      else Some (True, b\<lparr>bt_incoming := messages, bt_received := bt_received b @ messages\<rparr>))"

definition bt_terminate :: "batcher \<Rightarrow> batcher option" where
  "bt_terminate b = (if bt_repl b \<noteq> RP_None then None else Some (b\<lparr>bt_terminated := True\<rparr>))"

definition receive_message :: "'a heap \<Rightarrow> batcher \<Rightarrow> msg_ref \<Rightarrow> batcher" where
  "receive_message h b m =
     (let k = ms_BatchKey (h m);
          batches = (case map_get (bt_batches b) k of
                       None \<Rightarrow> map_set (bt_batches b) k newConcurrentQueue
                     | Some _ \<Rightarrow> bt_batches b)
      in case map_get batches k of
           None \<Rightarrow> b
         | Some batch \<Rightarrow> b\<lparr>bt_batches := map_set batches k (enqueue batch [m])\<rparr>)"

section \<open>Forming and handing over batches\<close>

text \<open>The body of the loops of \<open>processBatches\<close> for one key, up to \<open>processBatch\<close>.\<close>

definition processBatches_key :: "batcher \<Rightarrow> string \<Rightarrow> batcher go" where
  "processBatches_key b k =
     (case map_get (bt_batches b) k of
        None \<Rightarrow> Inr b
      | Some messages \<Rightarrow>
          if bt_tick b \<or> queue_len messages \<ge> bc_BatchSize (bt_config b)
          then go_bind (dequeue messages (bc_BatchSize (bt_config b))) (\<lambda>((batch, ok), messages').
                 let b = b\<lparr>bt_batches := map_set (bt_batches b) k messages'\<rparr>
                 in Inr (if ok then b\<lparr>bt_work := W_Batch k batch\<rparr> else b))
          else Inr b)"

text \<open>The body of the loop of \<open>flush\<close>.\<close>

definition flush_key :: "batcher \<Rightarrow> string \<Rightarrow> batcher" where
  "flush_key b k =
     (case map_get (bt_batches b) k of
        None \<Rightarrow> b
      | Some messages \<Rightarrow>
          (case dequeueAll messages of
             ((batch, True), messages') \<Rightarrow>
               b\<lparr>bt_batches := map_set (bt_batches b) k messages', bt_work := W_Batch k batch\<rparr>
           | ((batch, False), messages') \<Rightarrow> b\<lparr>bt_batches := map_delete (bt_batches b) k\<rparr>))"

definition put_back :: "batcher \<Rightarrow> string \<Rightarrow> msg_ref list \<Rightarrow> batcher" where
  "put_back b k batch =
     (case map_get (bt_batches b) k of
        None \<Rightarrow> b\<lparr>bt_work := W_None\<rparr>
      | Some messages \<Rightarrow> b\<lparr>bt_batches := map_set (bt_batches b) k (prepend messages batch), bt_work := W_None\<rparr>)"

text \<open>\<open>processBatch\<close>: the ring lookup, and then the \<open>send\<close> with what follows it in the caller.\<close>

definition processBatch_route :: "batcher \<Rightarrow> string \<Rightarrow> msg_ref list \<Rightarrow> batcher" where
  "processBatch_route b k batch =
     (case getNode (\<lambda>n. n) (bt_hr b) k of
        Some i \<Rightarrow> b\<lparr>bt_work := W_Routed k batch i\<rparr>
      | None \<Rightarrow> put_back b k batch)"

definition processBatch_send :: "batcher \<Rightarrow> string \<Rightarrow> msg_ref list \<Rightarrow> string \<Rightarrow> batcher go" where
  "processBatch_send b k batch i =
     (case bt_procs b i of
        None \<Rightarrow> Inr b
      | Some p \<Rightarrow>
          go_bind (bp_send p batch) (\<lambda>(res, p').
            let b = b\<lparr>bt_procs := (bt_procs b)(i \<mapsto> p')\<rparr>
            in Inr (case res of
                 Accepted \<Rightarrow>
                   (let b = b\<lparr>bt_work := W_None, bt_delivered := bt_delivered b @ [(i, k, batch)]\<rparr>
                    in if bt_phase b = BT_Flush then b\<lparr>bt_batches := map_delete (bt_batches b) k\<rparr> else b)
               | Refused \<Rightarrow> put_back b k batch
               | Blocked \<Rightarrow> b\<lparr>bt_work := W_Blocked k batch i\<rparr>)))"

section \<open>Replacing a crashed processor\<close>

text \<open>
  The watcher of a processor receives the value of \<open>terminated()\<close> and, after a panic, calls
  \<open>handleProcessorPanic\<close>, whose steps are separate: other goroutines run in between. The
  replacement runs with the context of the pipeline, which has no \<open>BatcherContextKey\<close>.
\<close>

definition bt_watch :: "batcher \<Rightarrow> string \<Rightarrow> string option \<Rightarrow> batcher" where
  "bt_watch b i v =
     b\<lparr>bt_reported := i # bt_reported b, bt_crashed := (if v = None then bt_crashed b else bt_crashed b @ [i])\<rparr>"

definition repl_remove :: "batcher \<Rightarrow> string \<Rightarrow> batcher" where
  "repl_remove b i =
     b\<lparr>bt_crashed := remove1 i (bt_crashed b), bt_hr := removeNode (\<lambda>n. n) (bt_hr b) i,
       bt_repl := RP_Removed, bt_replaced := bt_replaced b + 1\<rparr>"

definition repl_new :: "batcher \<Rightarrow> string \<Rightarrow> batcher" where
  "repl_new b i =
     b\<lparr>bt_procs := (bt_procs b)(i \<mapsto> bp_run (newBatchProcessor i) None),
       bt_repl := RP_Found i (getNextNode (\<lambda>n. n) (bt_hr b) i)\<rparr>"

definition bt_update :: "batcher \<Rightarrow> string option \<Rightarrow> (batchProcessor \<Rightarrow> batchProcessor) \<Rightarrow> batcher" where
  "bt_update b n f =
     (case n of None \<Rightarrow> b
      | Some i \<Rightarrow> (case bt_procs b i of None \<Rightarrow> b | Some p \<Rightarrow> b\<lparr>bt_procs := (bt_procs b)(i \<mapsto> f p)\<rparr>))"

definition repl_pause :: "batcher \<Rightarrow> string \<Rightarrow> string option \<Rightarrow> batcher" where
  "repl_pause b i n = (bt_update b n bp_pause)\<lparr>bt_repl := RP_Paused i n\<rparr>"

definition repl_add :: "batcher \<Rightarrow> string \<Rightarrow> string option \<Rightarrow> batcher" where
  "repl_add b i n = b\<lparr>bt_hr := ring_add (bt_hr b) i, bt_repl := RP_Added i n\<rparr>"

definition repl_resume :: "batcher \<Rightarrow> string option \<Rightarrow> batcher" where
  "repl_resume b n = (bt_update b n bp_resume)\<lparr>bt_repl := RP_None\<rparr>"

section \<open>Runs\<close>

text \<open>
  One rule per atomic step. Go's \<open>range\<close> over a map takes the keys in any order; the ticker may
  have fired or not at the start of a round; the handlers' results are those of \<open>bp_own\<close>.
\<close>

definition bt_keys :: "batcher \<Rightarrow> string list" where
  "bt_keys b = map fst (map_toMap (bt_batches b))"

inductive bt_step :: "'a heap \<Rightarrow> batcher \<Rightarrow> batcher \<Rightarrow> bool" for h where
  send: "bt_send b ms = Some (r, b') \<Longrightarrow> bt_step h b b'"
| terminate: "bt_terminate b = Some b' \<Longrightarrow> bt_step h b b'"
| receive: "bt_incoming b = m # ms \<Longrightarrow> bt_step h b ((receive_message h b m)\<lparr>bt_incoming := ms\<rparr>)"
| round: "bt_phase b = BT_Loop \<Longrightarrow> bt_round b = [] \<Longrightarrow> bt_work b = W_None \<Longrightarrow> \<not> bt_terminated b \<Longrightarrow>
    mset ks = mset (bt_keys b) \<Longrightarrow> bt_step h b (b\<lparr>bt_round := ks, bt_tick := t\<rparr>)"
| loop_done: "bt_phase b = BT_Loop \<Longrightarrow> bt_round b = [] \<Longrightarrow> bt_work b = W_None \<Longrightarrow> bt_terminated b \<Longrightarrow>
    bt_step h b (b\<lparr>bt_phase := BT_LoopDone\<rparr>)"
| visit: "bt_phase b = BT_Loop \<Longrightarrow> bt_round b = k # ks \<Longrightarrow> bt_work b = W_None \<Longrightarrow>
    processBatches_key b k = Inr b' \<Longrightarrow> bt_step h b (b'\<lparr>bt_round := ks\<rparr>)"
| route: "bt_work b = W_Batch k batch \<Longrightarrow> bt_step h b (processBatch_route b k batch)"
| hand_over: "bt_work b = W_Routed k batch i \<Longrightarrow> processBatch_send b k batch i = Inr b' \<Longrightarrow> bt_step h b b'"
| flush: "bt_phase b = BT_LoopDone \<Longrightarrow> bt_terminated b \<Longrightarrow> bt_incoming b = [] \<Longrightarrow>
    mset ks = mset (bt_keys b) \<Longrightarrow> bt_step h b (b\<lparr>bt_phase := BT_Flush, bt_round := ks\<rparr>)"
| flush_visit: "bt_phase b = BT_Flush \<Longrightarrow> bt_round b = k # ks \<Longrightarrow> bt_work b = W_None \<Longrightarrow>
    bt_step h b ((flush_key b k)\<lparr>bt_round := ks\<rparr>)"
| flush_again: "bt_phase b = BT_Flush \<Longrightarrow> bt_round b = [] \<Longrightarrow> bt_work b = W_None \<Longrightarrow>
    map_len (bt_batches b) \<noteq> 0 \<Longrightarrow> mset ks = mset (bt_keys b) \<Longrightarrow> bt_step h b (b\<lparr>bt_round := ks\<rparr>)"
| flush_end: "bt_phase b = BT_Flush \<Longrightarrow> bt_round b = [] \<Longrightarrow> bt_work b = W_None \<Longrightarrow>
    map_len (bt_batches b) = 0 \<Longrightarrow> ps = getAllNodes (bt_hr b) \<Longrightarrow>
    bt_step h b (b\<lparr>bt_phase := BT_Stopping ps ps\<rparr>)"
| stop: "bt_phase b = BT_Stopping (i # js) ps \<Longrightarrow> bt_procs b i = Some p \<Longrightarrow> bp_terminate p = Some p' \<Longrightarrow>
    bt_step h b (b\<lparr>bt_procs := (bt_procs b)(i \<mapsto> p'), bt_phase := BT_Stopping js ps\<rparr>)"
| stopped: "bt_phase b = BT_Stopping [] ps \<Longrightarrow> bt_step h b (b\<lparr>bt_phase := BT_Awaiting ps\<rparr>)"
| await: "bt_phase b = BT_Awaiting (i # js) \<Longrightarrow> bt_procs b i = Some p \<Longrightarrow> bp_phase p = BP_Exited v \<Longrightarrow>
    bt_step h b (b\<lparr>bt_phase := BT_Awaiting js, bt_reported := i # bt_reported b\<rparr>)"
| finished: "bt_phase b = BT_Awaiting [] \<Longrightarrow> bt_step h b (b\<lparr>bt_phase := BT_Done, bt_fullyTerminated := True\<rparr>)"
| own: "bt_procs b i = Some p \<Longrightarrow> bp_own h p p' \<Longrightarrow> bt_step h b (b\<lparr>bt_procs := (bt_procs b)(i \<mapsto> p')\<rparr>)"
| watch: "bt_procs b i = Some p \<Longrightarrow> bp_phase p = BP_Exited v \<Longrightarrow> i \<notin> set (bt_reported b) \<Longrightarrow>
    bt_step h b (bt_watch b i v)"
| repl_remove: "bt_repl b = RP_None \<Longrightarrow> i \<in> set (bt_crashed b) \<Longrightarrow> bt_step h b (repl_remove b i)"
| repl_new: "bt_repl b = RP_Removed \<Longrightarrow> bt_procs b i = None \<Longrightarrow> bt_step h b (repl_new b i)"
| repl_pause: "bt_repl b = RP_Found i n \<Longrightarrow> bt_step h b (repl_pause b i n)"
| repl_add: "bt_repl b = RP_Paused i n \<Longrightarrow> bt_step h b (repl_add b i n)"
| repl_resume: "bt_repl b = RP_Added i n \<Longrightarrow> bt_step h b (repl_resume b n)"

section \<open>No message lost, duplicated or overtaken\<close>

text \<open>What of the messages of a batch key is queued, in work, and handed over.\<close>

definition queued :: "batcher \<Rightarrow> string \<Rightarrow> msg_ref list" where
  "queued b k = (case map_get (bt_batches b) k of None \<Rightarrow> [] | Some q \<Rightarrow> q_queue q)"

definition work_item :: "bt_work \<Rightarrow> (string \<times> msg_ref list) option" where
  "work_item w = (case w of W_None \<Rightarrow> None | W_Batch k xs \<Rightarrow> Some (k, xs)
     | W_Routed k xs i \<Rightarrow> Some (k, xs) | W_Blocked k xs i \<Rightarrow> Some (k, xs))"

definition in_work :: "batcher \<Rightarrow> string \<Rightarrow> msg_ref list" where
  "in_work b k = (case work_item (bt_work b) of None \<Rightarrow> [] | Some (k', xs) \<Rightarrow> if k' = k then xs else [])"

definition handed_over :: "(string \<times> string \<times> msg_ref list) list \<Rightarrow> string \<Rightarrow> msg_ref list" where
  "handed_over ds k = concat (map (\<lambda>(i, k', xs). if k' = k then xs else []) ds)"

lemma work_item_simps [simp]:
  "work_item W_None = None" "work_item (W_Batch k xs) = Some (k, xs)"
  "work_item (W_Routed k xs i) = Some (k, xs)" "work_item (W_Blocked k xs i) = Some (k, xs)"
  by (simp_all add: work_item_def)

lemma work_item_None [simp]: "work_item w = None \<longleftrightarrow> w = W_None"
  by (cases w) simp_all

lemma handed_over_simps [simp]:
  "handed_over [] k = []"
  "handed_over (ds @ [(i, k', xs)]) k = handed_over ds k @ (if k' = k then xs else [])"
  by (simp_all add: handed_over_def)

definition flushing :: "bt_phase \<Rightarrow> bool" where
  "flushing ph \<longleftrightarrow> ph \<noteq> BT_Loop \<and> ph \<noteq> BT_LoopDone"

definition flushed :: "bt_phase \<Rightarrow> bool" where
  "flushed ph \<longleftrightarrow> flushing ph \<and> ph \<noteq> BT_Flush"

definition of_key :: "'a heap \<Rightarrow> string \<Rightarrow> msg_ref list \<Rightarrow> msg_ref list" where
  "of_key h k ms = filter (\<lambda>m. ms_BatchKey (h m) = k) ms"

lemma of_key_simps [simp]:
  "of_key h k [] = []"
  "of_key h k (m # ms) = (if ms_BatchKey (h m) = k then [m] else []) @ of_key h k ms"
  "of_key h k (xs @ ys) = of_key h k xs @ of_key h k ys"
  by (simp_all add: of_key_def)

definition account :: "'a heap \<Rightarrow> batcher \<Rightarrow> string \<Rightarrow> msg_ref list" where
  "account h b k = handed_over (bt_delivered b) k @ in_work b k @ queued b k @ of_key h k (bt_incoming b)"

text \<open>
  The work in hand belongs to a key of the map; from the flush on nothing arrives, and a batch in
  work is all there is of its key; after the flush the map is empty.
\<close>

definition bt_shape :: "batcher \<Rightarrow> bool" where
  "bt_shape b \<longleftrightarrow>
     cmap_ok (bt_batches b) \<and>
     (\<forall>k xs. work_item (bt_work b) = Some (k, xs) \<longrightarrow>
        map_get (bt_batches b) k \<noteq> None \<and> (flushing (bt_phase b) \<longrightarrow> queued b k = [])) \<and>
     (flushing (bt_phase b) \<longrightarrow> bt_terminated b \<and> bt_incoming b = []) \<and>
     (bt_phase b = BT_LoopDone \<longrightarrow> bt_work b = W_None \<and> bt_terminated b) \<and>
     (flushed (bt_phase b) \<longrightarrow> bt_work b = W_None \<and> cm_map (bt_batches b) = [])"

definition bt_inv :: "'a heap \<Rightarrow> batcher \<Rightarrow> bool" where
  "bt_inv h b \<longleftrightarrow> bt_shape b \<and> (\<forall>k. account h b k = of_key h k (bt_received b))"

lemma bt_invI:
  assumes "bt_inv h b" and "bt_shape b'" and "bt_received b' = bt_received b"
    and "\<And>k. account h b' k = account h b k"
  shows "bt_inv h b'"
  using assms by (simp add: bt_inv_def)

lemma bt_inv_same:
  assumes "bt_inv h b" and "bt_batches b' = bt_batches b" and "bt_delivered b' = bt_delivered b"
    and "work_item (bt_work b') = work_item (bt_work b)" and "bt_incoming b' = bt_incoming b"
    and "bt_received b' = bt_received b" and "bt_terminated b' = bt_terminated b" and "bt_phase b' = bt_phase b"
  shows "bt_inv h b'"
proof -
  have "bt_work b' = W_None \<longleftrightarrow> bt_work b = W_None"
    using assms(4) work_item_None [of "bt_work b'"] work_item_None [of "bt_work b"] by simp
  with assms show ?thesis
    unfolding bt_inv_def bt_shape_def account_def queued_def in_work_def by simp
qed

lemma bt_update_same [simp]:
  "bt_batches (bt_update b n f) = bt_batches b" "bt_delivered (bt_update b n f) = bt_delivered b"
  "bt_work (bt_update b n f) = bt_work b" "bt_incoming (bt_update b n f) = bt_incoming b"
  "bt_received (bt_update b n f) = bt_received b" "bt_terminated (bt_update b n f) = bt_terminated b"
  "bt_phase (bt_update b n f) = bt_phase b" "bt_hr (bt_update b n f) = bt_hr b"
  "bt_round (bt_update b n f) = bt_round b" "bt_repl (bt_update b n f) = bt_repl b"
  "bt_config (bt_update b n f) = bt_config b" "bt_tick (bt_update b n f) = bt_tick b"
  "bt_crashed (bt_update b n f) = bt_crashed b" "bt_reported (bt_update b n f) = bt_reported b"
  "bt_replaced (bt_update b n f) = bt_replaced b"
  by (simp_all add: bt_update_def split: option.splits)

lemma receive_message_same [simp]:
  "bt_delivered (receive_message h b m) = bt_delivered b" "bt_work (receive_message h b m) = bt_work b"
  "bt_received (receive_message h b m) = bt_received b" "bt_terminated (receive_message h b m) = bt_terminated b"
  "bt_phase (receive_message h b m) = bt_phase b" "bt_hr (receive_message h b m) = bt_hr b"
  "bt_procs (receive_message h b m) = bt_procs b" "bt_config (receive_message h b m) = bt_config b"
  "bt_tick (receive_message h b m) = bt_tick b" "bt_repl (receive_message h b m) = bt_repl b"
  "bt_crashed (receive_message h b m) = bt_crashed b" "bt_reported (receive_message h b m) = bt_reported b"
  "bt_replaced (receive_message h b m) = bt_replaced b"
  by (simp_all add: receive_message_def Let_def split: option.splits)

lemma put_back_same [simp]:
  "bt_delivered (put_back b k xs) = bt_delivered b" "bt_incoming (put_back b k xs) = bt_incoming b"
  "bt_received (put_back b k xs) = bt_received b" "bt_terminated (put_back b k xs) = bt_terminated b"
  "bt_phase (put_back b k xs) = bt_phase b" "bt_hr (put_back b k xs) = bt_hr b"
  "bt_procs (put_back b k xs) = bt_procs b" "bt_work (put_back b k xs) = W_None"
  "bt_config (put_back b k xs) = bt_config b" "bt_tick (put_back b k xs) = bt_tick b"
  "bt_repl (put_back b k xs) = bt_repl b" "bt_crashed (put_back b k xs) = bt_crashed b"
  "bt_reported (put_back b k xs) = bt_reported b" "bt_replaced (put_back b k xs) = bt_replaced b"
  by (simp_all add: put_back_def split: option.splits)

lemma receive_message_queued:
  "map_get (bt_batches (receive_message h b m)) k =
     (if k = ms_BatchKey (h m) then Some (enqueue (case map_get (bt_batches b) k of None \<Rightarrow> newConcurrentQueue | Some q \<Rightarrow> q) [m])
      else map_get (bt_batches b) k)"
  by (auto simp: receive_message_def Let_def split: option.splits)

lemma bt_inv_receive:
  assumes "bt_inv h b" and "bt_incoming b = m # ms"
  shows "bt_inv h ((receive_message h b m)\<lparr>bt_incoming := ms\<rparr>)"
proof (rule bt_invI [OF assms(1)])
  let ?b = "(receive_message h b m)\<lparr>bt_incoming := ms\<rparr>"
  have sh: "bt_shape b" using assms(1) by (simp add: bt_inv_def)
  have "queued ?b k = queued b k @ (if ms_BatchKey (h m) = k then [m] else [])" for k
    by (auto simp: queued_def receive_message_queued split: option.splits)
  then show "account h ?b k = account h b k" for k
    by (simp add: account_def in_work_def assms(2))
  have "\<not> flushing (bt_phase b)" using sh assms(2) by (auto simp: bt_shape_def)
  moreover have "cmap_ok (bt_batches ?b)"
    using sh by (auto simp: bt_shape_def receive_message_def Let_def split: option.splits)
  moreover have "map_get (bt_batches ?b) k \<noteq> None" if "work_item (bt_work b) = Some (k, xs)" for k xs
    using sh that by (auto simp: bt_shape_def receive_message_queued)
  ultimately show "bt_shape ?b" using sh by (simp add: bt_shape_def flushed_def)
qed simp

lemma bt_inv_put_back:
  assumes "bt_inv h b" and "work_item (bt_work b) = Some (k, xs)"
  shows "bt_inv h (put_back b k xs)"
proof (rule bt_invI [OF assms(1)])
  have sh: "bt_shape b" using assms(1) by (simp add: bt_inv_def)
  with assms(2) obtain q where q: "map_get (bt_batches b) k = Some q" by (auto simp: bt_shape_def)
  then have pb: "put_back b k xs = b\<lparr>bt_batches := map_set (bt_batches b) k (prepend q xs), bt_work := W_None\<rparr>"
    by (simp add: put_back_def)
  show "account h (put_back b k xs) k' = account h b k'" for k'
    using assms(2) q by (auto simp: pb account_def in_work_def queued_def)
  have "\<not> flushed (bt_phase b)" using sh assms(2) by (auto simp: bt_shape_def)
  then show "bt_shape (put_back b k xs)" using sh by (auto simp: bt_shape_def pb)
qed simp

lemma processBatches_key_cases:
  assumes "processBatches_key b k = Inr b'"
  obtains "b' = b"
  | q batch where "map_get (bt_batches b) k = Some q"
      "bt_tick b \<or> bc_BatchSize (bt_config b) \<le> queue_len q" "0 \<le> bc_BatchSize (bt_config b)"
      "batch = take (nat (bc_BatchSize (bt_config b))) (q_queue q)"
      "b' = (let b = b\<lparr>bt_batches := map_set (bt_batches b) k (q\<lparr>q_queue := drop (nat (bc_BatchSize (bt_config b))) (q_queue q)\<rparr>)\<rparr>
             in if batch \<noteq> [] then b\<lparr>bt_work := W_Batch k batch\<rparr> else b)"
proof (cases "map_get (bt_batches b) k")
  case None
  with assms show ?thesis by (intro that(1)) (simp add: processBatches_key_def)
next
  case (Some q)
  show ?thesis
  proof (cases "bt_tick b \<or> bc_BatchSize (bt_config b) \<le> queue_len q")
    case False
    with assms Some show ?thesis by (intro that(1)) (simp add: processBatches_key_def)
  next
    case True
    with assms Some have nn: "0 \<le> bc_BatchSize (bt_config b)"
      by (auto simp: processBatches_key_def dequeue_negative not_le[symmetric] split: if_splits
            intro: ccontr)
    show ?thesis
      by (rule that(2) [OF Some True nn refl]) (use assms Some True nn in \<open>auto simp: processBatches_key_def dequeue_eq Let_def\<close>)
  qed
qed

lemma bt_inv_visit:
  assumes "bt_inv h b" and "bt_phase b = BT_Loop" and "bt_work b = W_None" and "processBatches_key b k = Inr b'"
  shows "bt_inv h b'"
  using assms(4)
proof (cases rule: processBatches_key_cases)
  case (2 q batch)
  show ?thesis
  proof (rule bt_invI [OF assms(1)])
    show "account h b' k' = account h b k'" for k'
      using assms(3) 2 by (auto simp: account_def in_work_def queued_def Let_def)
    have "bt_shape b" using assms(1) by (simp add: bt_inv_def)
    then show "bt_shape b'" using assms(2) 2(5) by (auto simp: bt_shape_def flushing_def flushed_def Let_def)
  qed (simp add: 2(5) Let_def)
qed (use assms(1) in simp)

lemma bt_inv_route:
  assumes "bt_inv h b" and "bt_work b = W_Batch k batch"
  shows "bt_inv h (processBatch_route b k batch)"
proof (cases "getNode (\<lambda>n. n) (bt_hr b) k")
  case None
  then show ?thesis using bt_inv_put_back [OF assms(1)] assms(2) by (simp add: processBatch_route_def)
next
  case (Some i)
  then show ?thesis by (intro bt_inv_same [OF assms(1)]) (simp_all add: processBatch_route_def assms(2))
qed

lemma processBatch_send_cases:
  assumes "processBatch_send b k batch i = Inr b'"
  obtains "bt_procs b i = None" "b' = b"
  | p p' where "bt_procs b i = Some p" "bp_send p batch = Inr (Refused, p')"
      "b' = put_back (b\<lparr>bt_procs := (bt_procs b)(i \<mapsto> p')\<rparr>) k batch"
  | p p' where "bt_procs b i = Some p" "bp_send p batch = Inr (Blocked, p')"
      "b' = b\<lparr>bt_procs := (bt_procs b)(i \<mapsto> p'), bt_work := W_Blocked k batch i\<rparr>"
  | p p' where "bt_procs b i = Some p" "bp_send p batch = Inr (Accepted, p')"
      "b' = (let b = b\<lparr>bt_procs := (bt_procs b)(i \<mapsto> p'), bt_work := W_None, bt_delivered := bt_delivered b @ [(i, k, batch)]\<rparr>
             in if bt_phase b = BT_Flush then b\<lparr>bt_batches := map_delete (bt_batches b) k\<rparr> else b)"
proof (cases "bt_procs b i")
  case None
  with assms show ?thesis by (intro that(1)) (simp_all add: processBatch_send_def)
next
  case (Some p)
  with assms obtain res p' where s: "bp_send p batch = Inr (res, p')"
    by (cases "bp_send p batch") (auto simp: processBatch_send_def)
  show ?thesis
  proof (cases res)
    case Accepted
    then show ?thesis using s Some assms by (intro that(4) [of p p']) (simp_all add: processBatch_send_def Let_def)
  next
    case Refused
    then show ?thesis using s Some assms by (intro that(2) [of p p']) (simp_all add: processBatch_send_def Let_def)
  next
    case Blocked
    then show ?thesis using s Some assms by (intro that(3) [of p p']) (simp_all add: processBatch_send_def Let_def)
  qed
qed

lemma bt_inv_hand_over:
  assumes "bt_inv h b" and "bt_work b = W_Routed k batch i" and "processBatch_send b k batch i = Inr b'"
  shows "bt_inv h b'"
  using assms(3)
proof (cases rule: processBatch_send_cases)
  case (2 p p')
  have "bt_inv h (b\<lparr>bt_procs := (bt_procs b)(i \<mapsto> p')\<rparr>)" by (rule bt_inv_same [OF assms(1)]) simp_all
  from bt_inv_put_back [OF this, of k batch] assms(2) 2(3) show ?thesis by simp
next
  case (3 p p')
  show ?thesis by (rule bt_inv_same [OF assms(1)]) (simp_all add: 3(3) assms(2))
next
  case (4 p p')
  show ?thesis
  proof (rule bt_invI [OF assms(1)])
    have sh: "bt_shape b" using assms(1) by (simp add: bt_inv_def)
    have flush: "queued b k = []" "bt_incoming b = []" if "bt_phase b = BT_Flush"
      using sh assms(2) that by (auto simp: bt_shape_def flushing_def)
    show "account h b' k' = account h b k'" for k'
    proof (cases "bt_phase b = BT_Flush \<and> k' = k")
      case True
      then show ?thesis using 4(3) flush assms(2) by (simp add: account_def in_work_def queued_def)
    next
      case False
      then show ?thesis using 4(3) assms(2) by (auto simp: account_def in_work_def queued_def Let_def)
    qed
    show "bt_shape b'" using sh 4(3) assms(2) by (auto simp: bt_shape_def flushed_def Let_def)
  qed (simp add: 4(3) Let_def)
qed (use assms(1) in simp)

lemma bt_inv_flush_visit:
  assumes "bt_inv h b" and "bt_phase b = BT_Flush" and "bt_work b = W_None"
  shows "bt_inv h (flush_key b k)"
proof (cases "map_get (bt_batches b) k")
  case None
  with assms(1) show ?thesis by (simp add: flush_key_def)
next
  case (Some q)
  have sh: "bt_shape b" using assms(1) by (simp add: bt_inv_def)
  show ?thesis
  proof (cases "q_queue q")
    case Nil
    then have fk: "flush_key b k = b\<lparr>bt_batches := map_delete (bt_batches b) k\<rparr>"
      using Some by (simp add: flush_key_def dequeueAll_def)
    show ?thesis
    proof (rule bt_invI [OF assms(1)])
      show "account h (flush_key b k) k' = account h b k'" for k'
        using Some Nil by (auto simp: fk account_def in_work_def queued_def)
      show "bt_shape (flush_key b k)" using sh assms(2,3) by (auto simp: fk bt_shape_def flushed_def)
    qed (simp add: fk)
  next
    case (Cons m ms)
    then have fk: "flush_key b k = b\<lparr>bt_batches := map_set (bt_batches b) k (q\<lparr>q_queue := []\<rparr>), bt_work := W_Batch k (m # ms)\<rparr>"
      using Some by (simp add: flush_key_def dequeueAll_def)
    show ?thesis
    proof (rule bt_invI [OF assms(1)])
      show "account h (flush_key b k) k' = account h b k'" for k'
        using Some Cons assms(3) by (auto simp: fk account_def in_work_def queued_def)
      show "bt_shape (flush_key b k)" using sh assms(2) by (auto simp: fk bt_shape_def flushed_def queued_def)
    qed (simp add: fk)
  qed
qed

lemma bt_inv_send:
  assumes "bt_inv h b" and "bt_send b ms = Some (r, b')"
  shows "bt_inv h b'"
proof (cases "bt_terminated b")
  case True
  with assms show ?thesis by (auto simp: bt_send_def split: if_splits)
next
  case False
  with assms(2) have b': "b' = b\<lparr>bt_incoming := ms, bt_received := bt_received b @ ms\<rparr>" and inc: "bt_incoming b = []"
    by (auto simp: bt_send_def split: if_splits)
  have "account h b' k = account h b k @ of_key h k ms" for k
    by (simp add: b' inc account_def in_work_def queued_def)
  moreover have "bt_shape b'" using assms(1) False by (auto simp: bt_inv_def bt_shape_def b' queued_def)
  ultimately show ?thesis using assms(1) by (simp add: bt_inv_def b')
qed

lemma bt_inv_phase:
  assumes "bt_inv h b" and "bt_shape (b\<lparr>bt_phase := ph, bt_round := ks\<rparr>)"
  shows "bt_inv h (b\<lparr>bt_phase := ph, bt_round := ks\<rparr>)"
  by (rule bt_invI [OF assms]) (simp_all add: account_def in_work_def queued_def)

lemma bt_inv_step:
  assumes "bt_inv h b" and "bt_step h b b'"
  shows "bt_inv h b'"
  using assms(2)
proof cases
  case (send ms r)
  then show ?thesis by (rule bt_inv_send [OF assms(1)])
next
  case terminate
  then have "b' = b\<lparr>bt_terminated := True\<rparr>" by (auto simp: bt_terminate_def split: if_splits)
  then show ?thesis using assms(1) by (auto simp: bt_inv_def bt_shape_def account_def in_work_def queued_def)
next
  case (receive m ms)
  then show ?thesis using bt_inv_receive [OF assms(1)] by simp
next
  case loop_done
  have "bt_shape (b\<lparr>bt_phase := BT_LoopDone, bt_round := bt_round b\<rparr>)"
    using assms(1) loop_done by (auto simp: bt_inv_def bt_shape_def flushing_def flushed_def)
  from bt_inv_phase [OF assms(1) this] show ?thesis
    unfolding loop_done(1) by (rule bt_inv_same) simp_all
next
  case (visit k ks b1)
  from bt_inv_visit [OF assms(1) visit(2,4,5)] show ?thesis
    unfolding visit(1) by (rule bt_inv_same) simp_all
next
  case (route k batch)
  then show ?thesis using bt_inv_route [OF assms(1)] by simp
next
  case (hand_over k batch i)
  then show ?thesis by (rule bt_inv_hand_over [OF assms(1)])
next
  case (flush ks)
  have "bt_shape (b\<lparr>bt_phase := BT_Flush, bt_round := ks\<rparr>)"
    using assms(1) flush by (auto simp: bt_inv_def bt_shape_def flushing_def flushed_def)
  from bt_inv_phase [OF assms(1) this] show ?thesis
    unfolding flush(1) by (rule bt_inv_same) simp_all
next
  case (flush_visit k ks)
  from bt_inv_flush_visit [OF assms(1) flush_visit(2,4)] show ?thesis
    unfolding flush_visit(1) by (rule bt_inv_same) simp_all
next
  case (flush_end ps)
  have "bt_shape (b\<lparr>bt_phase := BT_Stopping ps ps, bt_round := bt_round b\<rparr>)"
    using assms(1) flush_end by (auto simp: bt_inv_def bt_shape_def flushing_def flushed_def map_len_def)
  from bt_inv_phase [OF assms(1) this] show ?thesis
    unfolding flush_end(1) by (rule bt_inv_same) simp_all
next
  case (stop i js ps p p')
  have "bt_shape (b\<lparr>bt_phase := BT_Stopping js ps, bt_round := bt_round b\<rparr>)"
    using assms(1) stop by (auto simp: bt_inv_def bt_shape_def flushing_def flushed_def)
  from bt_inv_phase [OF assms(1) this] show ?thesis
    unfolding stop(1) by (rule bt_inv_same) simp_all
next
  case (stopped ps)
  have "bt_shape (b\<lparr>bt_phase := BT_Awaiting ps, bt_round := bt_round b\<rparr>)"
    using assms(1) stopped by (auto simp: bt_inv_def bt_shape_def flushing_def flushed_def)
  from bt_inv_phase [OF assms(1) this] show ?thesis
    unfolding stopped(1) by (rule bt_inv_same) simp_all
next
  case (await i js p v)
  have "bt_shape (b\<lparr>bt_phase := BT_Awaiting js, bt_round := bt_round b\<rparr>)"
    using assms(1) await by (auto simp: bt_inv_def bt_shape_def flushing_def flushed_def)
  from bt_inv_phase [OF assms(1) this] show ?thesis
    unfolding await(1) by (rule bt_inv_same) simp_all
next
  case finished
  have "bt_shape (b\<lparr>bt_phase := BT_Done, bt_round := bt_round b\<rparr>)"
    using assms(1) finished by (auto simp: bt_inv_def bt_shape_def flushing_def flushed_def)
  from bt_inv_phase [OF assms(1) this] show ?thesis
    unfolding finished(1) by (rule bt_inv_same) simp_all
qed (rule bt_inv_same [OF assms(1)]; simp add: bt_watch_def repl_remove_def repl_new_def repl_pause_def
      repl_add_def repl_resume_def)+

lemma bt_spawn_same:
  "bt_batches (foldl bt_spawn b ids) = bt_batches b" "bt_delivered (foldl bt_spawn b ids) = bt_delivered b"
  "bt_work (foldl bt_spawn b ids) = bt_work b" "bt_incoming (foldl bt_spawn b ids) = bt_incoming b"
  "bt_received (foldl bt_spawn b ids) = bt_received b" "bt_terminated (foldl bt_spawn b ids) = bt_terminated b"
  "bt_phase (foldl bt_spawn b ids) = bt_phase b" "bt_repl (foldl bt_spawn b ids) = bt_repl b"
  "bt_crashed (foldl bt_spawn b ids) = bt_crashed b" "bt_reported (foldl bt_spawn b ids) = bt_reported b"
  "bt_replaced (foldl bt_spawn b ids) = bt_replaced b" "bt_config (foldl bt_spawn b ids) = bt_config b"
  "bt_round (foldl bt_spawn b ids) = bt_round b" "bt_tick (foldl bt_spawn b ids) = bt_tick b"
  by (induction ids arbitrary: b) (simp_all add: bt_spawn_def)

lemma newBatcher_fields [simp]:
  "bt_batches (newBatcher c) = newConcurrentMap []" "bt_delivered (newBatcher c) = []" "bt_work (newBatcher c) = W_None"
  "bt_incoming (newBatcher c) = []" "bt_received (newBatcher c) = []" "bt_terminated (newBatcher c) = False"
  "bt_phase (newBatcher c) = BT_Loop" "bt_repl (newBatcher c) = RP_None" "bt_crashed (newBatcher c) = []"
  "bt_reported (newBatcher c) = []" "bt_replaced (newBatcher c) = 0" "bt_hr (newBatcher c) = newHashRing"
  "bt_procs (newBatcher c) = Map.empty" "bt_round (newBatcher c) = []" "bt_tick (newBatcher c) = False"
  by (simp_all add: newBatcher_def Let_def)

lemma bt_run_fields [simp]:
  "bt_batches (bt_run c ids) = newConcurrentMap []" "bt_delivered (bt_run c ids) = []" "bt_work (bt_run c ids) = W_None"
  "bt_incoming (bt_run c ids) = []" "bt_received (bt_run c ids) = []" "bt_terminated (bt_run c ids) = False"
  "bt_phase (bt_run c ids) = BT_Loop" "bt_repl (bt_run c ids) = RP_None" "bt_crashed (bt_run c ids) = []"
  "bt_reported (bt_run c ids) = []" "bt_replaced (bt_run c ids) = 0" "bt_round (bt_run c ids) = []"
  "bt_config (bt_run c ids) = bt_config (newBatcher c)" "bt_tick (bt_run c ids) = False"
  by (simp_all add: bt_run_def bt_spawn_same)

lemma bt_inv_run [simp]: "bt_inv h (bt_run c ids)"
  by (simp add: bt_inv_def bt_shape_def account_def in_work_def queued_def flushing_def flushed_def)

lemma bt_inv_reaches: "reaches (bt_step h) (bt_run c ids) b \<Longrightarrow> bt_inv h b"
  by (erule reaches_invariant) (auto intro: bt_inv_step)

text \<open>
  Claim C9. In every state of every run of a batcher (with any senders, handlers, panics,
  replacements of processors and refusals), for every batch key: what was handed to the batch
  processors, then the batch in work, then the queue, then the rest of the slice being received
  is exactly the sequence of the key's received messages. So nothing is lost, duplicated or
  overtaken within a key; and when the batcher is done, everything received was handed over.
\<close>

theorem batcher_order:
  assumes "reaches (bt_step h) (bt_run config ids) b"
  shows "handed_over (bt_delivered b) k @ in_work b k @ queued b k @ of_key h k (bt_incoming b) =
      of_key h k (bt_received b) \<and>
    (bt_phase b = BT_Done \<longrightarrow> handed_over (bt_delivered b) k = of_key h k (bt_received b))"
proof -
  have inv: "bt_inv h b" by (rule bt_inv_reaches [OF assms])
  then have *: "account h b k = of_key h k (bt_received b)" by (simp add: bt_inv_def)
  have "in_work b k = [] \<and> queued b k = [] \<and> bt_incoming b = []" if "bt_phase b = BT_Done"
    using inv that by (auto simp: bt_inv_def bt_shape_def flushing_def flushed_def in_work_def queued_def map_get_def)
  with * show ?thesis by (auto simp: account_def)
qed

end
