(* ===== verification/Batch_Flow.thy ===== *)
theory Batch_Flow
  imports Batcher
begin

text \<open>
  The batcher together with its batch processors and the hash ring: every processor inside a run
  of the batcher runs as \<open>Batch_Processor\<close> says, its accepted batches are those the batcher
  handed to it, and the ring, the watchers and the shutdown agree on who is alive. From this
  follow the acknowledgement of everything that was received, the routing of keys, and what a
  replacement does to the order of a key.
\<close>

section \<open>The invariant\<close>

definition batches_of :: "string \<Rightarrow> (string \<times> string \<times> msg_ref list) list \<Rightarrow> msg_ref list list" where
  "batches_of i ds = map (\<lambda>(j, k, xs). xs) (filter (\<lambda>(j, k, xs). j = i) ds)"

lemma batches_of_simps [simp]:
  "batches_of i [] = []"
  "batches_of i (ds @ [(j, k, xs)]) = batches_of i ds @ (if j = i then [xs] else [])"
  by (simp_all add: batches_of_def)

definition run_of :: "'a heap \<Rightarrow> string \<Rightarrow> batchProcessor \<Rightarrow> bool" where
  "run_of h i p \<longleftrightarrow> (\<exists>c. reaches (bp_step h True) (bp_run (newBatchProcessor i) c) p)"

lemma run_of_new: "run_of h i (bp_run (newBatchProcessor i) c)"
  by (auto simp: run_of_def intro: reaches.start)

lemma run_of_step: "run_of h i p \<Longrightarrow> bp_step h True p p' \<Longrightarrow> run_of h i p'"
  by (auto simp: run_of_def intro: reaches.step)

lemma run_of_ok: "run_of h i p \<Longrightarrow> bp_ok p"
  by (auto simp: run_of_def dest: bp_reaches_facts(1))

lemma run_of_used: "run_of h i p \<Longrightarrow> bp_phase p = BP_Exited (Some r) \<Longrightarrow> bp_accepted p \<noteq> []"
  by (auto simp: run_of_def dest: bp_used)

definition procs_ok :: "'a heap \<Rightarrow> batcher \<Rightarrow> bool" where
  "procs_ok h b \<longleftrightarrow>
     (\<forall>i p. bt_procs b i = Some p \<longrightarrow> run_of h i p \<and> bp_accepted p = batches_of i (bt_delivered b)) \<and>
     (\<forall>i. bt_procs b i = None \<longrightarrow> batches_of i (bt_delivered b) = [])"

text \<open>A processor that has a batch and whose end nobody has seen yet.\<close>

definition busy :: "batcher \<Rightarrow> string \<Rightarrow> bool" where
  "busy b i \<longleftrightarrow> (\<exists>p. bt_procs b i = Some p \<and> bp_accepted p \<noteq> []) \<and> i \<notin> set (bt_reported b)"

definition ring_inv :: "batcher \<Rightarrow> bool" where
  "ring_inv b \<longleftrightarrow>
     ring_ok (\<lambda>n. n) (bt_hr b) \<and>
     (\<forall>i \<in> set (nodes (bt_hr b)). bt_procs b i \<noteq> None) \<and>
     set (bt_crashed b) \<subseteq> set (nodes (bt_hr b)) \<inter> set (bt_reported b) \<and> distinct (bt_crashed b) \<and>
     (\<forall>i \<in> set (bt_reported b). \<exists>p v. bt_procs b i = Some p \<and> bp_phase p = BP_Exited v) \<and>
     (\<forall>i. busy b i \<longrightarrow> i \<in> set (nodes (bt_hr b))) \<and>
     (\<forall>k xs i. bt_work b = W_Routed k xs i \<longrightarrow>
        bt_procs b i \<noteq> None \<and> (i \<in> set (nodes (bt_hr b)) \<or> i \<in> set (bt_reported b)))"

definition await_list :: "bt_phase \<Rightarrow> string list option" where
  "await_list ph = (case ph of BT_Stopping _ ps \<Rightarrow> Some ps | BT_Awaiting js \<Rightarrow> Some js | BT_Done \<Rightarrow> Some [] | _ \<Rightarrow> None)"

definition stop_inv :: "batcher \<Rightarrow> bool" where
  "stop_inv b \<longleftrightarrow> (\<forall>js i. await_list (bt_phase b) = Some js \<and> busy b i \<longrightarrow> i \<in> set js)"

text \<open>During a replacement: the neighbour is the ring's successor of the new id, and is paused.\<close>

definition repl_inv :: "batcher \<Rightarrow> bool" where
  "repl_inv b \<longleftrightarrow>
     (\<forall>i n. bt_repl b = RP_Found i n \<or> bt_repl b = RP_Paused i n \<longrightarrow>
        bt_procs b i \<noteq> None \<and> n = getNextNode (\<lambda>n. n) (bt_hr b) i) \<and>
     (\<forall>i j. bt_repl b = RP_Paused i (Some j) \<or> bt_repl b = RP_Added i (Some j) \<longrightarrow>
        (\<exists>p. bt_procs b j = Some p \<and> bp_paused p))"

definition flow_inv :: "'a heap \<Rightarrow> batcher \<Rightarrow> bool" where
  "flow_inv h b \<longleftrightarrow> procs_ok h b \<and> ring_inv b \<and> stop_inv b \<and> repl_inv b"

lemmas flow_defs = flow_inv_def procs_ok_def ring_inv_def stop_inv_def repl_inv_def busy_def

lemma procs_okD:
  assumes "procs_ok h b" and "bt_procs b i = Some p"
  shows "run_of h i p" and "bp_accepted p = batches_of i (bt_delivered b)" and "bp_ok p"
  using assms by (auto simp: procs_ok_def intro: run_of_ok)

section \<open>Steps that leave the processors alone\<close>

lemma flow_same:
  assumes "flow_inv h b" and "bt_procs b' = bt_procs b" and "bt_hr b' = bt_hr b" and "bt_delivered b' = bt_delivered b"
    and "bt_crashed b' = bt_crashed b" and "bt_reported b' = bt_reported b" and "bt_repl b' = bt_repl b"
    and "await_list (bt_phase b') = await_list (bt_phase b)"
    and "\<And>k xs i. bt_work b' = W_Routed k xs i \<Longrightarrow> bt_work b = W_Routed k xs i \<or> i \<in> set (nodes (bt_hr b))"
  shows "flow_inv h b'"
proof -
  have busy: "busy b' i = busy b i" for i using assms(2,6) by (simp add: busy_def)
  have "bt_procs b' i \<noteq> None \<and> (i \<in> set (nodes (bt_hr b')) \<or> i \<in> set (bt_reported b'))"
    if "bt_work b' = W_Routed k xs i" for k xs i
    using assms(9) [OF that] assms(1-3,6) by (auto simp: flow_inv_def ring_inv_def)
  then have "ring_inv b'" using assms(1) unfolding flow_inv_def ring_inv_def busy
    unfolding assms(2-6) by blast
  moreover have "procs_ok h b'" using assms(1) unfolding flow_inv_def procs_ok_def assms(2,4) by blast
  moreover have "stop_inv b'" using assms(1) unfolding flow_inv_def stop_inv_def busy assms(8) by blast
  moreover have "repl_inv b'" using assms(1) unfolding flow_inv_def repl_inv_def assms(2,3,7) by blast
  ultimately show ?thesis by (simp add: flow_inv_def)
qed

section \<open>Steps of one processor\<close>

text \<open>A step of processor \<open>i\<close> that accepts nothing and, unless \<open>i\<close> is being resumed, keeps a pause.\<close>

lemma reported_stays:
  assumes "procs_ok h b" and "bt_procs b i = Some p" and "bp_step h True p p'" and "bp_phase p = BP_Exited v"
  shows "bp_phase p' = BP_Exited v"
  using exited_stays [OF procs_okD(3) [OF assms(1,2)] assms(4,3)] by simp

lemma flow_update:
  assumes inv: "flow_inv h b" and p: "bt_procs b i = Some p" and st: "bp_step h True p p'"
    and acc: "bp_accepted p' = bp_accepted p"
  shows "procs_ok h (b\<lparr>bt_procs := (bt_procs b)(i \<mapsto> p')\<rparr>)"
    and "ring_inv (b\<lparr>bt_procs := (bt_procs b)(i \<mapsto> p')\<rparr>)"
    and "stop_inv (b\<lparr>bt_procs := (bt_procs b)(i \<mapsto> p')\<rparr>)"
    and "(bp_paused p \<Longrightarrow> bp_paused p') \<Longrightarrow> repl_inv (b\<lparr>bt_procs := (bt_procs b)(i \<mapsto> p')\<rparr>)"
proof -
  let ?b = "b\<lparr>bt_procs := (bt_procs b)(i \<mapsto> p')\<rparr>"
  from inv have po: "procs_ok h b" and ri: "ring_inv b" and si: "stop_inv b" and rp: "repl_inv b"
    by (simp_all add: flow_inv_def)
  have busy: "busy ?b j = busy b j" for j using p acc by (auto simp: busy_def)
  from run_of_step [OF procs_okD(1) [OF po p] st] procs_okD(2) [OF po p] po acc show "procs_ok h ?b"
    by (auto simp: procs_ok_def)
  have rep: "\<exists>q v. bt_procs ?b j = Some q \<and> bp_phase q = BP_Exited v" if "j \<in> set (bt_reported b)" for j
  proof (cases "j = i")
    case True
    with that ri p obtain v where "bp_phase p = BP_Exited v" by (auto simp: ring_inv_def)
    from reported_stays [OF po p st this] True show ?thesis by simp
  next
    case False
    with that ri show ?thesis by (auto simp: ring_inv_def)
  qed
  then show "ring_inv ?b" using ri unfolding ring_inv_def busy by auto
  show "stop_inv ?b" using si unfolding stop_inv_def busy by simp
  show "repl_inv ?b" if "bp_paused p \<Longrightarrow> bp_paused p'"
    using rp p that by (auto simp: repl_inv_def)
qed

lemma flow_step_proc:
  assumes "flow_inv h b" and "bt_procs b i = Some p" and "bp_step h True p p'"
    and "bp_accepted p' = bp_accepted p" and "bp_paused p \<Longrightarrow> bp_paused p'"
  shows "flow_inv h (b\<lparr>bt_procs := (bt_procs b)(i \<mapsto> p')\<rparr>)"
  using flow_update [OF assms(1-4)] assms(5) by (simp add: flow_inv_def)

section \<open>Handing a batch over\<close>

lemma flow_accept:
  assumes inv: "flow_inv h b" and w: "bt_work b = W_Routed k xs i" and p: "bt_procs b i = Some p"
    and s: "bp_send p xs = Inr (Accepted, p')" and al: "await_list (bt_phase b) = None"
  shows "flow_inv h (b\<lparr>bt_procs := (bt_procs b)(i \<mapsto> p'), bt_work := W_None, bt_delivered := bt_delivered b @ [(i, k, xs)]\<rparr>)"
    (is "flow_inv h ?b")
proof -
  from inv have po: "procs_ok h b" and ri: "ring_inv b" and rp: "repl_inv b" by (simp_all add: flow_inv_def)
  note acc = bp_send_history [OF s]
  have nrep: "i \<notin> set (bt_reported b)"
  proof
    assume "i \<in> set (bt_reported b)"
    with ri p obtain v where "bp_phase p = BP_Exited v" by (auto simp: ring_inv_def)
    from exited_refuses [OF procs_okD(3) [OF po p] this s] show False by simp
  qed
  with ri w have node: "i \<in> set (nodes (bt_hr b))" by (auto simp: ring_inv_def)
  have busy: "busy ?b j \<longleftrightarrow> busy b j \<or> j = i" for j using p acc nrep by (auto simp: busy_def)
  have "procs_ok h ?b"
    using po p acc run_of_step [OF procs_okD(1) [OF po p] bp_step.send [OF s]] by (auto simp: procs_ok_def)
  moreover have "ring_inv ?b" using ri nrep node unfolding ring_inv_def busy by auto
  moreover have "stop_inv ?b" using al by (simp add: stop_inv_def)
  moreover have "repl_inv ?b" using rp p acc(2) by (auto simp: repl_inv_def)
  ultimately show ?thesis by (simp add: flow_inv_def)
qed

lemma flow_hand_over:
  assumes inv: "flow_inv h b" and sh: "bt_shape b" and w: "bt_work b = W_Routed k xs i"
    and s: "processBatch_send b k xs i = Inr b'"
  shows "flow_inv h b'"
  using s
proof (cases rule: processBatch_send_cases)
  case (2 p p')
  have "flow_inv h (b\<lparr>bt_procs := (bt_procs b)(i \<mapsto> p')\<rparr>)"
    using bp_send_history [OF 2(2)] by (intro flow_step_proc [OF inv 2(1) bp_step.send [OF 2(2)]]) simp_all
  then show ?thesis unfolding 2(3) by (rule flow_same) simp_all
next
  case (3 p p')
  have "flow_inv h (b\<lparr>bt_procs := (bt_procs b)(i \<mapsto> p')\<rparr>)"
    using bp_send_history [OF 3(2)] by (intro flow_step_proc [OF inv 3(1) bp_step.send [OF 3(2)]]) simp_all
  then show ?thesis unfolding 3(3) by (rule flow_same) simp_all
next
  case (4 p p')
  have "await_list (bt_phase b) = None"
    using sh w by (cases "bt_phase b") (auto simp: bt_shape_def flushed_def flushing_def await_list_def)
  from flow_accept [OF inv w 4(1,2) this] show ?thesis unfolding 4(3) Let_def by (rule flow_same) (simp_all split: if_splits)
qed (use inv in simp)

section \<open>Watchers and shutdown\<close>

lemma flow_report:
  assumes inv: "flow_inv h b" and p: "bt_procs b i = Some p" and ex: "bp_phase p = BP_Exited v"
  shows "procs_ok h (b\<lparr>bt_reported := i # bt_reported b\<rparr>)" "repl_inv (b\<lparr>bt_reported := i # bt_reported b\<rparr>)"
    "stop_inv (b\<lparr>bt_reported := i # bt_reported b\<rparr>)" "ring_inv (b\<lparr>bt_reported := i # bt_reported b\<rparr>)"
proof -
  let ?b = "b\<lparr>bt_reported := i # bt_reported b\<rparr>"
  have busy: "busy ?b j \<longleftrightarrow> busy b j \<and> j \<noteq> i" for j by (auto simp: busy_def)
  show "procs_ok h ?b" using inv by (simp add: flow_inv_def procs_ok_def)
  show "repl_inv ?b" using inv by (simp add: flow_inv_def repl_inv_def)
  show "stop_inv ?b" using inv by (simp add: flow_inv_def stop_inv_def busy)
  show "ring_inv ?b" using inv p ex unfolding flow_inv_def ring_inv_def busy by auto
qed

lemma flow_watch:
  assumes inv: "flow_inv h b" and p: "bt_procs b i = Some p" and ex: "bp_phase p = BP_Exited v"
    and new: "i \<notin> set (bt_reported b)"
  shows "flow_inv h (bt_watch b i v)"
proof (cases v)
  case None
  then show ?thesis using flow_report [OF inv p ex] by (simp add: flow_inv_def bt_watch_def)
next
  case (Some r)
  let ?b = "b\<lparr>bt_reported := i # bt_reported b\<rparr>"
  have bw: "bt_watch b i v = ?b\<lparr>bt_crashed := bt_crashed b @ [i]\<rparr>" by (simp add: bt_watch_def Some)
  from inv have po: "procs_ok h b" and ri: "ring_inv b" by (simp_all add: flow_inv_def)
  have "bp_accepted p \<noteq> []" using procs_okD(1) [OF po p] ex Some by (simp add: run_of_used)
  with p new have "busy b i" by (auto simp: busy_def)
  with ri have node: "i \<in> set (nodes (bt_hr b))" by (simp add: ring_inv_def)
  have busy: "busy (bt_watch b i v) = busy ?b" by (simp add: bw busy_def [abs_def])
  have "ring_inv (bt_watch b i v)"
    using flow_report(4) [OF inv p ex] node new ri unfolding ring_inv_def busy by (auto simp: bw)
  moreover have "procs_ok h (bt_watch b i v)" "repl_inv (bt_watch b i v)" "stop_inv (bt_watch b i v)"
    using flow_report(1-3) [OF inv p ex] by (simp_all add: bw procs_ok_def repl_inv_def stop_inv_def busy busy_def)
  ultimately show ?thesis by (simp add: flow_inv_def)
qed

lemma flow_phase:
  assumes "flow_inv h b" and "\<And>js i. await_list ph = Some js \<Longrightarrow> busy b i \<Longrightarrow> i \<in> set js"
  shows "flow_inv h (b\<lparr>bt_phase := ph\<rparr>)"
proof -
  have busy: "busy (b\<lparr>bt_phase := ph\<rparr>) i = busy b i" for i by (simp add: busy_def)
  from assms show ?thesis unfolding flow_inv_def procs_ok_def ring_inv_def stop_inv_def repl_inv_def busy by simp
qed

section \<open>Replacement\<close>

lemma flow_repl_remove:
  assumes inv: "flow_inv h b" and i: "i \<in> set (bt_crashed b)"
  shows "flow_inv h (repl_remove b i)"
proof -
  from inv have po: "procs_ok h b" and ri: "ring_inv b" and si: "stop_inv b" by (simp_all add: flow_inv_def)
  have busy: "busy (repl_remove b i) j = busy b j" for j by (simp add: busy_def repl_remove_def)
  from ri i have rep: "i \<in> set (bt_reported b)" and node: "i \<in> set (nodes (bt_hr b))" and rok: "ring_ok (\<lambda>n. n) (bt_hr b)"
    by (auto simp: ring_inv_def)
  then have nb: "\<not> busy b i" by (simp add: busy_def)
  have n': "set (nodes (removeNode (\<lambda>n. n) (bt_hr b) i)) = set (nodes (bt_hr b)) - {i}"
    by (rule ring.members_remove [OF rok node])
  have "ring_inv (repl_remove b i)"
    using ri nb rep i ring.ok_remove [OF rok node] unfolding ring_inv_def busy by (auto simp: repl_remove_def n')
  moreover have "procs_ok h (repl_remove b i)" "stop_inv (repl_remove b i)" "repl_inv (repl_remove b i)"
    using po si by (simp_all add: procs_ok_def stop_inv_def repl_inv_def busy) (simp_all add: repl_remove_def)
  ultimately show ?thesis by (simp add: flow_inv_def)
qed

lemma flow_repl_new:
  assumes inv: "flow_inv h b" and j: "bt_procs b j = None"
  shows "flow_inv h (repl_new b j)"
proof -
  from inv have po: "procs_ok h b" and ri: "ring_inv b" and si: "stop_inv b" by (simp_all add: flow_inv_def)
  have nj: "batches_of j (bt_delivered b) = []" using po j by (simp add: procs_ok_def)
  have new: "bp_accepted (bp_run (newBatchProcessor j) None) = []" by (simp add: bp_run_def newBatchProcessor_def)
  have busy: "busy (repl_new b j) i = busy b i" for i
    using j new by (auto simp: busy_def repl_new_def)
  have rep: "i \<noteq> j" if "i \<in> set (bt_reported b)" for i using that ri j by (auto simp: ring_inv_def)
  have "procs_ok h (repl_new b j)" using po nj new run_of_new by (auto simp: procs_ok_def repl_new_def)
  moreover have "ring_inv (repl_new b j)"
    using ri rep unfolding ring_inv_def busy by (auto simp: repl_new_def)
  moreover have "stop_inv (repl_new b j)" using si by (simp add: stop_inv_def busy) (simp add: repl_new_def)
  moreover have "repl_inv (repl_new b j)" by (simp add: repl_inv_def repl_new_def)
  ultimately show ?thesis by (simp add: flow_inv_def)
qed

lemma getNextNode_member: "ring_ok ts hr \<Longrightarrow> getNextNode ts hr x = Some n \<Longrightarrow> n \<in> set (nodes hr)"
  using owner_at_nearest by (fastforce simp: getNextNode_owner_at)

lemma flow_repl_pause:
  assumes inv: "flow_inv h b" and r: "bt_repl b = RP_Found i n"
  shows "flow_inv h (repl_pause b i n)"
proof (cases n)
  case None
  then have rp: "repl_pause b i n = b\<lparr>bt_repl := RP_Paused i n\<rparr>" by (simp add: repl_pause_def bt_update_def)
  have busy: "busy (b\<lparr>bt_repl := RP_Paused i n\<rparr>) j = busy b j" for j by (simp add: busy_def)
  from inv r None show ?thesis
    unfolding rp flow_inv_def procs_ok_def ring_inv_def stop_inv_def repl_inv_def busy by simp
next
  case (Some j)
  from inv r have ri: "ring_inv b" and n: "getNextNode (\<lambda>n. n) (bt_hr b) i = Some j" "bt_procs b i \<noteq> None"
    by (auto simp: flow_inv_def repl_inv_def Some)
  with getNextNode_member [of "\<lambda>n. n" "bt_hr b" i j] have "bt_procs b j \<noteq> None" by (auto simp: ring_inv_def)
  then obtain p where p: "bt_procs b j = Some p" by blast
  let ?b = "b\<lparr>bt_procs := (bt_procs b)(j \<mapsto> bp_pause p)\<rparr>"
  have "flow_inv h ?b" by (rule flow_step_proc [OF inv p bp_step.pause]) (simp_all add: bp_pause_def)
  moreover have rp: "repl_pause b i n = ?b\<lparr>bt_repl := RP_Paused i n\<rparr>" using p Some by (simp add: repl_pause_def bt_update_def)
  have busy: "busy (?b\<lparr>bt_repl := RP_Paused i n\<rparr>) j = busy ?b j" for j by (simp add: busy_def)
  ultimately show ?thesis using n Some
    unfolding rp flow_inv_def procs_ok_def ring_inv_def stop_inv_def repl_inv_def busy by (simp add: bp_pause_def)
qed

lemma flow_repl_add:
  assumes inv: "flow_inv h b" and r: "bt_repl b = RP_Paused i n"
  shows "flow_inv h (repl_add b i n)"
proof -
  have busy: "busy (repl_add b i n) j = busy b j" for j by (simp add: busy_def repl_add_def)
  from inv have po: "procs_ok h b" and ri: "ring_inv b" and si: "stop_inv b" and rp: "repl_inv b"
    by (simp_all add: flow_inv_def)
  from ri have rok: "ring_ok (\<lambda>n. n) (bt_hr b)" by (simp add: ring_inv_def)
  let ?N = "set (nodes (ring_add (bt_hr b) i))"
  have N: "set (nodes (bt_hr b)) \<subseteq> ?N" "?N \<subseteq> insert i (set (nodes (bt_hr b)))"
    using set_nodes_addNode [OF rok, of i] by auto
  have i: "bt_procs b i \<noteq> None" using rp r by (auto simp: repl_inv_def)
  have "ring_inv (repl_add b i n)"
    unfolding ring_inv_def busy
  proof (intro conjI)
    show "ring_ok (\<lambda>n. n) (bt_hr (repl_add b i n))" using ring.ok_add [OF rok] by (simp add: repl_add_def)
    show "\<forall>j \<in> set (nodes (bt_hr (repl_add b i n))). bt_procs (repl_add b i n) j \<noteq> None"
      using N(2) i ri by (auto simp: repl_add_def ring_inv_def)
    show "set (bt_crashed (repl_add b i n)) \<subseteq> set (nodes (bt_hr (repl_add b i n))) \<inter> set (bt_reported (repl_add b i n))"
      using N(1) ri by (auto simp: repl_add_def ring_inv_def)
    show "\<forall>j. busy b j \<longrightarrow> j \<in> set (nodes (bt_hr (repl_add b i n)))"
      using N(1) ri by (auto simp: repl_add_def ring_inv_def)
    show "\<forall>k xs j. bt_work (repl_add b i n) = W_Routed k xs j \<longrightarrow> bt_procs (repl_add b i n) j \<noteq> None \<and>
        (j \<in> set (nodes (bt_hr (repl_add b i n))) \<or> j \<in> set (bt_reported (repl_add b i n)))"
      using N(1) ri by (auto simp: repl_add_def ring_inv_def)
  qed (use ri in \<open>simp_all add: repl_add_def ring_inv_def\<close>)
  moreover have "procs_ok h (repl_add b i n)" "stop_inv (repl_add b i n)" "repl_inv (repl_add b i n)"
    using po si rp r unfolding procs_ok_def stop_inv_def repl_inv_def busy by (auto simp: repl_add_def)
  ultimately show ?thesis by (simp add: flow_inv_def)
qed

lemma flow_repl_resume:
  assumes inv: "flow_inv h b"
  shows "flow_inv h (repl_resume b n)"
proof -
  have same: "flow_inv h (c\<lparr>bt_repl := RP_None\<rparr>)" if "procs_ok h c" "ring_inv c" "stop_inv c" for c
  proof -
    have busy: "busy (c\<lparr>bt_repl := RP_None\<rparr>) j = busy c j" for j by (simp add: busy_def)
    from that show ?thesis unfolding flow_inv_def procs_ok_def ring_inv_def stop_inv_def repl_inv_def busy by simp
  qed
  show ?thesis
  proof (cases "\<exists>j p. n = Some j \<and> bt_procs b j = Some p")
    case True
    then obtain j p where p: "n = Some j" "bt_procs b j = Some p" by blast
    have "bp_accepted (bp_resume p) = bp_accepted p" by (simp add: bp_resume_def)
    from flow_update(1-3) [OF inv p(2) bp_step.resume [OF TrueI] this] p show ?thesis
      unfolding repl_resume_def bt_update_def by (simp add: same)
  next
    case False
    then have "repl_resume b n = b\<lparr>bt_repl := RP_None\<rparr>" by (auto simp: repl_resume_def bt_update_def split: option.splits)
    with inv same [of b] show ?thesis by (simp add: flow_inv_def)
  qed
qed

section \<open>Every step\<close>

lemma processBatches_key_same:
  assumes "processBatches_key b k = Inr b'"
  shows "bt_procs b' = bt_procs b" "bt_hr b' = bt_hr b" "bt_delivered b' = bt_delivered b"
    "bt_crashed b' = bt_crashed b" "bt_reported b' = bt_reported b" "bt_repl b' = bt_repl b"
    "bt_phase b' = bt_phase b" "bt_config b' = bt_config b" "bt_tick b' = bt_tick b" "bt_replaced b' = bt_replaced b"
    "bt_work b' = W_Routed k' xs i \<Longrightarrow> bt_work b = W_Routed k' xs i"
  using assms by (cases rule: processBatches_key_cases; auto simp: Let_def split: if_splits)+

lemma flush_key_same [simp]:
  "bt_procs (flush_key b k) = bt_procs b" "bt_hr (flush_key b k) = bt_hr b" "bt_delivered (flush_key b k) = bt_delivered b"
  "bt_crashed (flush_key b k) = bt_crashed b" "bt_reported (flush_key b k) = bt_reported b"
  "bt_repl (flush_key b k) = bt_repl b" "bt_phase (flush_key b k) = bt_phase b" "bt_config (flush_key b k) = bt_config b"
  "bt_replaced (flush_key b k) = bt_replaced b"
  by (simp_all add: flush_key_def dequeueAll_def split: option.splits bool.splits)

lemma flush_key_work: "bt_work (flush_key b k) = W_Routed k' xs i \<Longrightarrow> bt_work b = W_Routed k' xs i"
  by (auto simp: flush_key_def dequeueAll_def split: option.splits bool.splits)

lemma flow_step:
  assumes inv: "flow_inv h b" and bi: "bt_inv h b" and st: "bt_step h b b'"
  shows "flow_inv h b'"
  using st
proof cases
  case (send ms r)
  then show ?thesis by (intro flow_same [OF inv]) (auto simp: bt_send_def split: if_splits)
next
  case terminate
  then show ?thesis by (intro flow_same [OF inv]) (auto simp: bt_terminate_def split: if_splits)
next
  case (visit k ks b1)
  note same = processBatches_key_same [OF visit(5)]
  show ?thesis unfolding visit(1) by (rule flow_same [OF inv]) (use same in auto)
next
  case (route k batch)
  have mem: "getNode (\<lambda>n. n) (bt_hr b) k = Some i \<Longrightarrow> i \<in> set (nodes (bt_hr b))" for i
    using inv ring.route_member [of "\<lambda>n. n" "bt_hr b" k i] by (auto simp: flow_inv_def ring_inv_def)
  show ?thesis unfolding route(1)
    by (rule flow_same [OF inv]) (use mem in \<open>auto simp: processBatch_route_def split: option.splits\<close>)
next
  case (hand_over k batch i)
  have "bt_shape b" using bi by (simp add: bt_inv_def)
  then show ?thesis by (rule flow_hand_over [OF inv _ hand_over])
next
  case (flush_visit k ks)
  show ?thesis unfolding flush_visit(1) by (rule flow_same [OF inv]) (auto dest: flush_key_work)
next
  case (flush_end ps)
  have "busy b i \<Longrightarrow> i \<in> set ps" for i using inv flush_end by (auto simp: flow_inv_def ring_inv_def getAllNodes_def)
  then show ?thesis unfolding flush_end(1) by (intro flow_phase [OF inv]) (auto simp: await_list_def)
next
  case (stop i js ps p p')
  from stop have acc: "bp_accepted p' = bp_accepted p" "bp_paused p' = bp_paused p" by (auto simp: bp_terminate_def split: if_splits)
  have "flow_inv h (b\<lparr>bt_procs := (bt_procs b)(i \<mapsto> p')\<rparr>)"
    by (rule flow_step_proc [OF inv stop(3) bp_step.terminate [OF stop(4)]]) (simp_all add: acc)
  then show ?thesis unfolding stop(1) by (rule flow_same) (simp_all add: stop(2) await_list_def)
next
  case (stopped ps)
  then show ?thesis using inv
    by (intro flow_same [OF inv]) (simp_all add: await_list_def)
next
  case (await i js p v)
  note rep = flow_report [OF inv await(3,4)]
  let ?b = "b\<lparr>bt_reported := i # bt_reported b\<rparr>"
  have fb: "flow_inv h ?b" using rep by (simp add: flow_inv_def)
  have "j \<in> set js" if "busy ?b j" for j
  proof -
    from that have "busy b j" "j \<noteq> i" by (auto simp: busy_def)
    with inv await(2) show ?thesis by (auto simp: flow_inv_def stop_inv_def await_list_def)
  qed
  then have "flow_inv h (?b\<lparr>bt_phase := BT_Awaiting js\<rparr>)" by (intro flow_phase [OF fb]) (auto simp: await_list_def)
  then show ?thesis unfolding await(1) by (rule flow_same) simp_all
next
  case finished
  have "flow_inv h (b\<lparr>bt_phase := BT_Done\<rparr>)"
    using inv finished by (intro flow_phase [OF inv]) (auto simp: await_list_def flow_inv_def stop_inv_def)
  then show ?thesis unfolding finished(1) by (rule flow_same) simp_all
next
  case (own i p p')
  show ?thesis unfolding own(1)
    by (rule flow_step_proc [OF inv own(2) bp_step.own [OF own(3)]]) (simp_all add: bp_own_history [OF own(3)])
next
  case (watch i p v)
  then show ?thesis using flow_watch [OF inv] by simp
next
  case (repl_remove i)
  then show ?thesis using flow_repl_remove [OF inv] by simp
next
  case (repl_new i)
  then show ?thesis using flow_repl_new [OF inv] by simp
next
  case (repl_pause i n)
  then show ?thesis using flow_repl_pause [OF inv] by simp
next
  case (repl_add i n)
  then show ?thesis using flow_repl_add [OF inv] by simp
next
  case (repl_resume i n)
  then show ?thesis using flow_repl_resume [OF inv] by simp
qed (rule flow_same [OF inv]; simp add: await_list_def)+

lemma flow_spawn:
  assumes "flow_inv h b" and "bt_procs b i = None" and "bt_repl b = RP_None" and "await_list (bt_phase b) = None"
  shows "flow_inv h (bt_spawn b i)"
proof -
  from assms(1) have po: "procs_ok h b" and ri: "ring_inv b" by (simp_all add: flow_inv_def)
  have new: "bp_accepted (bp_run (newBatchProcessor i) c) = []" for c by (simp add: bp_run_def newBatchProcessor_def)
  have busy: "busy (bt_spawn b i) j = busy b j" for j using assms(2) new by (auto simp: busy_def bt_spawn_def)
  from ri have rok: "ring_ok (\<lambda>n. n) (bt_hr b)" by (simp add: ring_inv_def)
  have N: "set (nodes (bt_hr b)) \<subseteq> set (nodes (ring_add (bt_hr b) i))"
    "set (nodes (ring_add (bt_hr b) i)) \<subseteq> insert i (set (nodes (bt_hr b)))"
    using set_nodes_addNode [OF rok, of i] by auto
  have rep: "j \<noteq> i" if "j \<in> set (bt_reported b)" for j using that ri assms(2) by (auto simp: ring_inv_def)
  have "batches_of i (bt_delivered b) = []" using po assms(2) by (simp add: procs_ok_def)
  then have "procs_ok h (bt_spawn b i)" using po new run_of_new by (auto simp: procs_ok_def bt_spawn_def)
  moreover have "ring_inv (bt_spawn b i)"
    using ri N rep ring.ok_add [OF rok] unfolding ring_inv_def busy by (auto simp: bt_spawn_def)
  moreover have "stop_inv (bt_spawn b i)" using assms(4) by (simp add: stop_inv_def bt_spawn_def)
  moreover have "repl_inv (bt_spawn b i)" using assms(3) by (simp add: repl_inv_def bt_spawn_def)
  ultimately show ?thesis by (simp add: flow_inv_def)
qed

lemma flow_run:
  assumes "distinct ids"
  shows "flow_inv h (bt_run c ids)"
proof -
  have "flow_inv h (foldl bt_spawn b ids)"
    if "flow_inv h b" "distinct ids" "\<forall>i \<in> set ids. bt_procs b i = None" "bt_repl b = RP_None" "await_list (bt_phase b) = None"
    for b ids
    using that
  proof (induction ids arbitrary: b)
    case (Cons i ids)
    from Cons.prems have "flow_inv h (bt_spawn b i)" by (intro flow_spawn) simp_all
    with Cons.prems show ?case unfolding foldl.simps by (intro Cons.IH) (auto simp: bt_spawn_def)
  qed simp
  moreover have "flow_inv h (newBatcher c)"
    by (simp add: flow_defs ring_ok_new await_list_def) (simp add: newHashRing_def)
  ultimately show ?thesis using assms by (simp add: bt_run_def await_list_def)
qed

lemma flow_reaches:
  assumes "reaches (bt_step h) (bt_run c ids) b" and "distinct ids"
  shows "flow_inv h b"
proof -
  have "flow_inv h b \<and> bt_inv h b"
    by (rule reaches_invariant [OF assms(1)]) (auto simp: flow_run [OF assms(2)] intro: flow_step bt_inv_step)
  then show ?thesis ..
qed

section \<open>Everything received is acknowledged\<close>

lemma done_acknowledged:
  assumes inv: "flow_inv h b" and p: "bt_procs b i = Some p" and d: "bt_phase b = BT_Done"
  shows "length (bp_results p) = length (bp_accepted p)"
    and "bp_acks p = concat (map2 (bp_expected h i) (bp_accepted p) (bp_results p))"
proof -
  have po: "procs_ok h b" using inv by (simp add: flow_inv_def)
  from procs_okD(1) [OF po p] have log: "bp_log_ok h p" "bp_id p = i"
    by (auto simp: run_of_def dest: bp_reaches_facts)
  then obtain dn where dn: "bp_accepted p = dn @ bp_in_hand p" "length dn = length (bp_results p)"
    "bp_acks p @ bp_owed h p = concat (map2 (bp_expected h i) dn (bp_results p))" by (auto simp: bp_log_ok_def)
  have "bp_in_hand p = [] \<and> bp_owed h p = []" if "bp_accepted p \<noteq> []"
  proof -
    have "\<not> busy b i" using inv d by (auto simp: flow_inv_def stop_inv_def await_list_def)
    with p that have "i \<in> set (bt_reported b)" by (simp add: busy_def)
    with inv p obtain v where "bp_phase p = BP_Exited v" by (auto simp: flow_inv_def ring_inv_def)
    then show ?thesis by (simp add: bp_in_hand_def bp_owed_def)
  qed
  with dn have "length (bp_results p) = length (bp_accepted p) \<and>
      bp_acks p = concat (map2 (bp_expected h i) (bp_accepted p) (bp_results p))"
    by (cases "bp_accepted p = []") auto
  then show "length (bp_results p) = length (bp_accepted p)"
    and "bp_acks p = concat (map2 (bp_expected h i) (bp_accepted p) (bp_results p))" by simp_all
qed

text \<open>
  Claim C25. In every run of a batcher, each processor has accepted exactly the batches handed to
  it, in that order; and when the batcher is done, each of them has been through the handler and
  was acknowledged exactly once, with the handler's result or with its panic (\<open>bp_expected\<close>), also
  by the processors that crashed and were replaced on the way.
\<close>

theorem batcher_acknowledges:
  assumes "reaches (bt_step h) (bt_run config ids) b" and "distinct ids"
  shows "(bt_procs b i = None \<longrightarrow> batches_of i (bt_delivered b) = []) \<and>
    (bt_procs b i = Some p \<longrightarrow>
       bp_accepted p = batches_of i (bt_delivered b) \<and>
       (bt_phase b = BT_Done \<longrightarrow>
          length (bp_results p) = length (bp_accepted p) \<and>
          bp_acks p = concat (map2 (bp_expected h i) (bp_accepted p) (bp_results p))))"
proof -
  have inv: "flow_inv h b" by (rule flow_reaches [OF assms])
  then have "procs_ok h b" by (simp add: flow_inv_def)
  with done_acknowledged [OF inv] show ?thesis by (auto simp: procs_ok_def)
qed

section \<open>Routing of batch keys\<close>

lemma delivered_keys:
  assumes "bt_inv h b" and "(i, k, xs) \<in> set (bt_delivered b)" and "m \<in> set xs"
  shows "ms_BatchKey (h m) = k"
proof -
  have "m \<in> set (handed_over (bt_delivered b) k)" using assms(2,3) by (force simp: handed_over_def)
  moreover have "account h b k = of_key h k (bt_received b)" using assms(1) by (simp add: bt_inv_def)
  ultimately have "m \<in> set (of_key h k (bt_received b))" unfolding account_def by (metis Un_iff set_append)
  then show ?thesis by (simp add: of_key_def)
qed

lemma of_key_batch:
  assumes "\<forall>m \<in> set xs. ms_BatchKey (h m) = k'"
  shows "of_key h k xs = (if k' = k then xs else [])"
  using assms by (auto simp: of_key_def filter_id_conv)

lemma accepted_of_key:
  assumes "\<And>j k' xs m. (j, k', xs) \<in> set ds \<Longrightarrow> m \<in> set xs \<Longrightarrow> ms_BatchKey (h m) = k'"
    and "\<And>j xs. (j, k, xs) \<in> set ds \<Longrightarrow> j = i"
  shows "concat (map (of_key h k) (batches_of j ds)) = (if j = i then handed_over ds k else [])"
  using assms
proof (induction ds rule: rev_induct)
  case (snoc d ds)
  obtain j' k' xs where d: "d = (j', k', xs)" by (cases d)
  have IH: "concat (map (of_key h k) (batches_of j ds)) = (if j = i then handed_over ds k else [])"
    by (rule snoc.IH) (use snoc.prems in \<open>fastforce+\<close>)
  have "of_key h k xs = (if k' = k then xs else [])" by (rule of_key_batch) (use snoc.prems(1) d in auto)
  moreover have "k' = k \<Longrightarrow> j' = i" using snoc.prems(2) d by auto
  ultimately show ?case using IH by (auto simp: d)
qed simp

definition affine :: "string hashRing \<Rightarrow> batcher \<Rightarrow> bool" where
  "affine hr b \<longleftrightarrow> (bt_replaced b = 0 \<longrightarrow>
     bt_hr b = hr \<and> bt_repl b = RP_None \<and>
     (\<forall>i k xs. (i, k, xs) \<in> set (bt_delivered b) \<longrightarrow> getNode (\<lambda>n. n) hr k = Some i) \<and>
     (\<forall>k xs i. bt_work b = W_Routed k xs i \<longrightarrow> getNode (\<lambda>n. n) hr k = Some i))"

lemma affine_same:
  assumes "affine hr b" and "bt_replaced b' = bt_replaced b" and "bt_hr b' = bt_hr b" and "bt_repl b' = bt_repl b"
    and "bt_delivered b' = bt_delivered b" and "\<And>k xs i. bt_work b' = W_Routed k xs i \<Longrightarrow> bt_work b = W_Routed k xs i"
  shows "affine hr b'"
  using assms unfolding affine_def by metis

lemma affine_step:
  assumes inv: "affine hr b" and st: "bt_step h b b'"
  shows "affine hr b'"
  using st
proof cases
  case (send ms r)
  then show ?thesis by (intro affine_same [OF inv]) (auto simp: bt_send_def split: if_splits)
next
  case terminate
  then show ?thesis by (intro affine_same [OF inv]) (auto simp: bt_terminate_def split: if_splits)
next
  case (visit k ks b1)
  note same = processBatches_key_same [OF visit(5)]
  show ?thesis unfolding visit(1) by (rule affine_same [OF inv]) (use same in auto)
next
  case (route k batch)
  then show ?thesis using inv by (auto simp: affine_def processBatch_route_def split: option.splits)
next
  case (hand_over k batch i)
  from hand_over(2) show ?thesis
  proof (cases rule: processBatch_send_cases)
    case (2 p p')
    show ?thesis unfolding 2(3) by (rule affine_same [OF inv]) simp_all
  next
    case (3 p p')
    show ?thesis unfolding 3(3) by (rule affine_same [OF inv]) simp_all
  next
    case (4 p p')
    then show ?thesis using inv hand_over(1) by (auto simp: affine_def Let_def)
  qed (use inv in simp)
next
  case (flush_visit k ks)
  show ?thesis unfolding flush_visit(1) by (rule affine_same [OF inv]) (auto dest: flush_key_work)
next
  case (repl_remove i)
  then show ?thesis by (simp add: affine_def repl_remove_def)
next
  case (repl_new i)
  then show ?thesis using inv by (auto simp: affine_def repl_new_def)
next
  case (repl_pause i n)
  then show ?thesis using inv by (auto simp: affine_def repl_pause_def)
next
  case (repl_add i n)
  then show ?thesis using inv by (auto simp: affine_def repl_add_def)
next
  case (repl_resume i n)
  then show ?thesis using inv by (auto simp: affine_def repl_resume_def)
qed (rule affine_same [OF inv]; simp add: bt_watch_def)+

lemma delivered_owner:
  assumes "reaches (bt_step h) (bt_run config ids) b" and "bt_replaced b = 0"
    and "getNode (\<lambda>n. n) (bt_hr (bt_run config ids)) k = Some i" and "(j, k, xs) \<in> set (bt_delivered b)"
  shows "j = i"
proof -
  have "affine (bt_hr (bt_run config ids)) (bt_run config ids)" by (simp add: affine_def)
  with assms(1) have "affine (bt_hr (bt_run config ids)) b" by (rule reaches_invariant) (rule affine_step)
  with assms(2-4) show ?thesis by (force simp: affine_def)
qed

text \<open>
  Claim C26. As long as no processor was replaced, a batch key has one processor, the one the ring
  gives for it: that processor has accepted the key's messages in the order in which the batcher
  received them (followed by those in work, queued and arriving), and no other processor has
  accepted any. Since a processor handles one batch at a time, messages of a key are handled in
  order.
\<close>

theorem batcher_key_affinity:
  assumes "reaches (bt_step h) (bt_run config ids) b" and "distinct ids" and "bt_replaced b = 0"
    and "getNode (\<lambda>n. n) (bt_hr (bt_run config ids)) k = Some i" and "bt_procs b j = Some p"
  shows "concat (map (of_key h k) (bp_accepted p)) @
      (if j = i then in_work b k @ queued b k @ of_key h k (bt_incoming b) else []) =
    (if j = i then of_key h k (bt_received b) else [])"
proof -
  have inv: "bt_inv h b" by (rule bt_inv_reaches [OF assms(1)])
  have "bp_accepted p = batches_of j (bt_delivered b)"
    using flow_reaches [OF assms(1,2)] assms(5) by (auto simp: flow_inv_def procs_ok_def)
  with accepted_of_key [where ds = "bt_delivered b", OF delivered_keys [OF inv] delivered_owner [OF assms(1,3,4)]] inv
  show ?thesis by (auto simp: bt_inv_def account_def)
qed

section \<open>Replacing a processor\<close>

text \<open>
  While a crashed processor is being replaced, and before the new one enters the ring:
  a key that the insertion will move goes to the new processor, its present owner is the
  neighbour that \<open>handleProcessorPanic\<close> has paused, and that neighbour refuses every batch.
\<close>

theorem replacement_pauses_owner:
  assumes "reaches (bt_step h) (bt_run config ids) b" and "distinct ids" and "bt_repl b = RP_Paused i n"
    and "getNode (\<lambda>n. n) (bt_hr b) k = Some j" and "getNode (\<lambda>n. n) (bt_hr (repl_add b i n)) k \<noteq> Some j"
  shows "getNode (\<lambda>n. n) (bt_hr (repl_add b i n)) k = Some i \<and> n = Some j \<and>
    (\<exists>p. bt_procs b j = Some p \<and> bp_send p xs = Inr (Refused, p))"
proof -
  have inv: "flow_inv h b" by (rule flow_reaches [OF assms(1,2)])
  then have rok: "ring_ok (\<lambda>n. n) (bt_hr b)" by (simp add: flow_inv_def ring_inv_def)
  have ne: "set (nodes (bt_hr b)) \<noteq> {}" using ring.route_member [OF rok assms(4)] by auto
  have "getNode (\<lambda>n. n) (ring_add (bt_hr b) i) k \<noteq> getNode (\<lambda>n. n) (bt_hr b) k"
    using assms(4,5) by (simp add: repl_add_def)
  from ring.add_moves [OF rok this] ne assms(4)
  have moved: "getNode (\<lambda>n. n) (ring_add (bt_hr b) i) k = Some i" "getNextNode (\<lambda>n. n) (bt_hr b) i = Some j" by simp_all
  with inv assms(3) have n: "n = Some j" by (auto simp: flow_inv_def repl_inv_def)
  with inv assms(3) obtain p where "bt_procs b j = Some p" "bp_paused p" by (auto simp: flow_inv_def repl_inv_def)
  with moved n show ?thesis by (auto simp: repl_add_def bp_send_def)
qed

section \<open>Batch sizes\<close>

definition size_inv :: "batcher \<Rightarrow> bool" where
  "size_inv b \<longleftrightarrow>
     (\<forall>k xs. work_item (bt_work b) = Some (k, xs) \<longrightarrow> xs \<noteq> [] \<and>
        (bt_phase b = BT_Loop \<longrightarrow> int (length xs) \<le> bc_BatchSize (bt_config b) \<and>
           (\<not> bt_tick b \<longrightarrow> int (length xs) = bc_BatchSize (bt_config b)))) \<and>
     (\<forall>i k xs. (i, k, xs) \<in> set (bt_delivered b) \<longrightarrow> xs \<noteq> [] \<and>
        (\<not> flushing (bt_phase b) \<longrightarrow> int (length xs) \<le> bc_BatchSize (bt_config b)))"

lemma size_same:
  assumes "size_inv b" and "bt_config b' = bt_config b" and "bt_tick b' = bt_tick b" and "bt_delivered b' = bt_delivered b"
    and "bt_phase b' = bt_phase b" and "\<And>k xs. work_item (bt_work b') = Some (k, xs) \<Longrightarrow> work_item (bt_work b) = Some (k, xs)"
  shows "size_inv b'"
  using assms unfolding size_inv_def by metis

lemma size_phase:
  assumes "size_inv b" and "bt_config b' = bt_config b" and "bt_delivered b' = bt_delivered b" and "bt_work b' = bt_work b"
    and "bt_phase b' \<noteq> BT_Loop" and "flushing (bt_phase b) \<Longrightarrow> flushing (bt_phase b')"
  shows "size_inv b'"
  using assms(1,5,6) unfolding size_inv_def assms(2-4) by blast

lemma size_step:
  assumes inv: "size_inv b" and bi: "bt_inv h b" and st: "bt_step h b b'"
  shows "size_inv b'"
  using st
proof cases
  case (send ms r)
  then show ?thesis by (intro size_same [OF inv]) (auto simp: bt_send_def split: if_splits)
next
  case terminate
  then show ?thesis by (intro size_same [OF inv]) (auto simp: bt_terminate_def split: if_splits)
next
  case (round ks t)
  then show ?thesis using inv by (auto simp: size_inv_def)
next
  case (visit k ks b1)
  from visit(5) show ?thesis
  proof (cases rule: processBatches_key_cases)
    case (2 q batch)
    let ?n = "bc_BatchSize (bt_config b)"
    have "int (length batch) \<le> ?n" and "\<not> bt_tick b \<Longrightarrow> int (length batch) = ?n"
      using 2(2-4) by (auto simp: queue_len_def)
    with inv visit(4) show ?thesis unfolding visit(1) 2(5) by (auto simp: size_inv_def Let_def)
  next
    case 1
    show ?thesis unfolding visit(1) 1 by (rule size_same [OF inv]) simp_all
  qed
next
  case (route k batch)
  then show ?thesis by (intro size_same [OF inv]) (auto simp: processBatch_route_def split: option.splits)
next
  case (hand_over k batch i)
  from hand_over(2) show ?thesis
  proof (cases rule: processBatch_send_cases)
    case (2 p p')
    show ?thesis unfolding 2(3) by (rule size_same [OF inv]) simp_all
  next
    case (3 p p')
    show ?thesis unfolding 3(3) by (rule size_same [OF inv]) (use hand_over(1) in simp_all)
  next
    case (4 p p')
    have "bt_phase b \<noteq> BT_LoopDone" using bi hand_over(1) by (auto simp: bt_inv_def bt_shape_def)
    then show ?thesis using inv hand_over(1) unfolding 4(3) by (auto simp: size_inv_def Let_def flushing_def)
  qed (use inv in simp)
next
  case (flush_visit k ks)
  then show ?thesis using inv
    by (cases "bt_batches b"; auto simp: size_inv_def flush_key_def dequeueAll_def flushing_def split: option.splits bool.splits)
next
  case (flush ks)
  then show ?thesis by (intro size_phase [OF inv]) (simp_all add: flushing_def)
next
  case (loop_done)
  then show ?thesis by (intro size_phase [OF inv]) (simp_all add: flushing_def)
next
  case (flush_end ps)
  then show ?thesis by (intro size_phase [OF inv]) (simp_all add: flushing_def)
next
  case (stop i js ps p p')
  then show ?thesis by (intro size_phase [OF inv]) (simp_all add: flushing_def)
next
  case (stopped ps)
  then show ?thesis by (intro size_phase [OF inv]) (simp_all add: flushing_def)
next
  case (await i js p v)
  then show ?thesis by (intro size_phase [OF inv]) (simp_all add: flushing_def)
next
  case finished
  then show ?thesis by (intro size_phase [OF inv]) (simp_all add: flushing_def)
qed (rule size_same [OF inv]; simp add: bt_watch_def repl_remove_def repl_new_def repl_pause_def repl_add_def repl_resume_def)+

lemma size_reaches:
  assumes "reaches (bt_step h) (bt_run config ids) b"
  shows "size_inv b" and "bt_config b = bt_config (newBatcher config)"
proof -
  have "(size_inv b \<and> bt_config b = bt_config (newBatcher config)) \<and> bt_inv h b"
  proof (rule reaches_invariant [OF assms])
    show "(size_inv (bt_run config ids) \<and> bt_config (bt_run config ids) = bt_config (newBatcher config)) \<and> bt_inv h (bt_run config ids)"
      by (simp add: size_inv_def)
  next
    fix s s'
    assume s: "(size_inv s \<and> bt_config s = bt_config (newBatcher config)) \<and> bt_inv h s" and st: "bt_step h s s'"
    from st have "bt_config s' = bt_config s"
    proof cases
      case (visit k ks b1)
      then show ?thesis using processBatches_key_same(8) [OF visit(5)] by simp
    next
      case (hand_over k batch i)
      from hand_over(2) show ?thesis by (cases rule: processBatch_send_cases) (simp_all add: Let_def)
    qed (auto simp: bt_send_def bt_terminate_def processBatch_route_def bt_watch_def repl_remove_def repl_new_def
          repl_pause_def repl_add_def repl_resume_def split: if_splits option.splits)
    with s size_step [OF _ _ st] bt_inv_step [OF _ st]
    show "(size_inv s' \<and> bt_config s' = bt_config (newBatcher config)) \<and> bt_inv h s'" by simp
  qed
  then show "size_inv b" and "bt_config b = bt_config (newBatcher config)" by simp_all
qed

text \<open>
  Claim C32. Batches are never empty; until the flush no batch is larger than the configured size,
  and a batch formed outside the ticker has exactly that size. A configured size of 0 means 100.
  Only the flush hands over a whole queue, whatever its length.
\<close>

theorem batch_sizes:
  assumes "reaches (bt_step h) (bt_run config ids) b"
  shows "((i, k, xs) \<in> set (bt_delivered b) \<longrightarrow> xs \<noteq> [] \<and>
      (bt_phase b = BT_Loop \<longrightarrow>
         int (length xs) \<le> (if bc_BatchSize config = 0 then 100 else bc_BatchSize config))) \<and>
    (bt_work b = W_Batch k xs \<and> bt_phase b = BT_Loop \<and> \<not> bt_tick b \<longrightarrow>
       int (length xs) = (if bc_BatchSize config = 0 then 100 else bc_BatchSize config))"
proof -
  have "bc_BatchSize (bt_config (newBatcher config)) = (if bc_BatchSize config = 0 then 100 else bc_BatchSize config)"
    by (simp add: newBatcher_def defaultBatchSize_def Let_def)
  with size_reaches [OF assms] show ?thesis unfolding size_inv_def flushing_def by auto
qed

section \<open>A batcher without processors\<close>

definition no_procs :: "batcher \<Rightarrow> bool" where
  "no_procs b \<longleftrightarrow> bt_procs b = Map.empty \<and> bt_hr b = newHashRing \<and> bt_crashed b = [] \<and> bt_repl b = RP_None \<and>
     bt_delivered b = [] \<and> (\<forall>k xs i. bt_work b \<noteq> W_Routed k xs i)"

lemma no_procs_step:
  assumes inv: "no_procs b" and st: "bt_step h b b'"
  shows "no_procs b'"
  using st
proof cases
  case (visit k ks b1)
  note same = processBatches_key_same [OF visit(5)]
  have "bt_work b1 \<noteq> W_Routed k' xs i" for k' xs i using same(11) inv by (auto simp: no_procs_def)
  with same inv show ?thesis by (auto simp: no_procs_def visit(1))
next
  case (route k batch)
  have "getNode (\<lambda>n. n) (bt_hr b) k = None" using inv by (simp add: no_procs_def getNode_def newHashRing_def)
  with inv show ?thesis by (simp add: no_procs_def route(1) processBatch_route_def)
next
  case (flush_visit k ks)
  have "bt_work (flush_key b k) \<noteq> W_Routed k' xs i" for k' xs i using flush_key_work inv by (metis no_procs_def)
  with inv show ?thesis by (auto simp: no_procs_def flush_visit(1))
qed (use inv in \<open>auto simp: no_procs_def bt_send_def bt_terminate_def split: if_splits\<close>)

text \<open>
  A batcher whose \<open>Concurrency\<close> is 0 (the zero value: unlike the other options it has
  no default) accepts messages but never hands any over, and once it has received one it is never
  done: the flush goes round for ever, so \<open>terminated()\<close> is never closed.
\<close>

theorem batcher_without_processors:
  assumes "reaches (bt_step h) (bt_run config ids) b" and "ids_ok config ids" and "bc_Concurrency config = 0"
  shows "bt_delivered b = [] \<and> (bt_received b \<noteq> [] \<longrightarrow> bt_phase b \<in> {BT_Loop, BT_LoopDone, BT_Flush})"
proof -
  from assms(2,3) have ids: "ids = []" by (simp add: ids_ok_def)
  have "no_procs (bt_run config ids)" by (simp add: ids no_procs_def) (simp add: bt_run_def)
  with assms(1) have np: "no_procs b" by (rule reaches_invariant) (rule no_procs_step)
  have inv: "bt_inv h b" by (rule bt_inv_reaches [OF assms(1)])
  have "bt_received b = []" if "flushed (bt_phase b)"
  proof -
    have "account h b k = []" for k
      using inv np that by (auto simp: bt_inv_def bt_shape_def flushed_def account_def in_work_def queued_def no_procs_def map_get_def)
    with inv have "of_key h k (bt_received b) = []" for k by (simp add: bt_inv_def)
    then have "of_key h (ms_BatchKey (h (hd (bt_received b)))) (bt_received b) = []" .
    then show ?thesis by (cases "bt_received b") (simp_all add: of_key_def split: if_splits)
  qed
  with np show ?thesis by (auto simp: no_procs_def flushed_def flushing_def)
qed

end
