(* ===== verification/Batch_Runs.thy ===== *)
theory Batch_Runs
  imports Batch_Flow
begin

text \<open>
  An executable scheduler for the batcher: a list of events names who moves next, and \<open>bt_exec\<close>
  computes the state it leads to, which the step relation reaches. With it: concrete runs at which
  the properties of the batcher apply, and the run in which two processors handle batches of one
  key at the same time.
\<close>

section \<open>The scheduler\<close>

datatype bt_event =
    E_send "msg_ref list"
  | E_terminate
  | E_receive
  | E_round bool
  | E_visit
  | E_route
  | E_hand_over
  | E_loop_done
  | E_flush
  | E_flush_end
  | E_stop
  | E_handled string handle_result
  | E_fail string
  | E_exit string
  | E_watch string
  | E_repl string

definition guard :: "bool \<Rightarrow> 'b \<Rightarrow> 'b option" where
  "guard c x = (if c then Some x else None)"

lemma guard_Some [simp]: "guard c x = Some y \<longleftrightarrow> c \<and> y = x"
  by (auto simp: guard_def)

definition idle_in :: "bt_phase \<Rightarrow> batcher \<Rightarrow> bool" where
  "idle_in ph b \<longleftrightarrow> bt_phase b = ph \<and> bt_work b = W_None"

fun bt_next :: "'a heap \<Rightarrow> batcher \<Rightarrow> bt_event \<Rightarrow> batcher option" where
  "bt_next h b (E_send ms) = map_option snd (bt_send b ms)"
| "bt_next h b E_terminate = bt_terminate b"
| "bt_next h b E_receive =
     (case bt_incoming b of [] \<Rightarrow> None | m # ms \<Rightarrow> Some ((receive_message h b m)\<lparr>bt_incoming := ms\<rparr>))"
| "bt_next h b (E_round t) =
     guard (idle_in BT_Loop b \<and> bt_round b = [] \<and> \<not> bt_terminated b) (b\<lparr>bt_round := bt_keys b, bt_tick := t\<rparr>)"
| "bt_next h b E_visit =
     (case bt_round b of [] \<Rightarrow> None
      | k # ks \<Rightarrow>
          if idle_in BT_Flush b then Some ((flush_key b k)\<lparr>bt_round := ks\<rparr>)
          else if idle_in BT_Loop b
            then (case processBatches_key b k of Inl _ \<Rightarrow> None | Inr b' \<Rightarrow> Some (b'\<lparr>bt_round := ks\<rparr>))
          else None)"
| "bt_next h b E_route = (case bt_work b of W_Batch k xs \<Rightarrow> Some (processBatch_route b k xs) | _ \<Rightarrow> None)"
| "bt_next h b E_hand_over =
     (case bt_work b of
        W_Routed k xs i \<Rightarrow> (case processBatch_send b k xs i of Inl _ \<Rightarrow> None | Inr b' \<Rightarrow> Some b')
      | _ \<Rightarrow> None)"
| "bt_next h b E_loop_done =
     guard (idle_in BT_Loop b \<and> bt_round b = [] \<and> bt_terminated b) (b\<lparr>bt_phase := BT_LoopDone\<rparr>)"
| "bt_next h b E_flush =
     (if bt_phase b = BT_LoopDone then guard (bt_terminated b \<and> bt_incoming b = []) (b\<lparr>bt_phase := BT_Flush, bt_round := bt_keys b\<rparr>)
      else guard (idle_in BT_Flush b \<and> bt_round b = [] \<and> map_len (bt_batches b) \<noteq> 0) (b\<lparr>bt_round := bt_keys b\<rparr>))"
| "bt_next h b E_flush_end =
     guard (idle_in BT_Flush b \<and> bt_round b = [] \<and> map_len (bt_batches b) = 0)
       (b\<lparr>bt_phase := BT_Stopping (getAllNodes (bt_hr b)) (getAllNodes (bt_hr b))\<rparr>)"
| "bt_next h b E_stop =
     (case bt_phase b of
        BT_Stopping (i # js) ps \<Rightarrow>
          (case bt_procs b i of None \<Rightarrow> None
           | Some p \<Rightarrow> map_option (\<lambda>p'. b\<lparr>bt_procs := (bt_procs b)(i \<mapsto> p'), bt_phase := BT_Stopping js ps\<rparr>) (bp_terminate p))
      | BT_Stopping [] ps \<Rightarrow> Some (b\<lparr>bt_phase := BT_Awaiting ps\<rparr>)
      | BT_Awaiting (i # js) \<Rightarrow>
          (case bt_procs b i of None \<Rightarrow> None
           | Some p \<Rightarrow> (case bp_phase p of
               BP_Exited v \<Rightarrow> Some (b\<lparr>bt_phase := BT_Awaiting js, bt_reported := i # bt_reported b\<rparr>)
             | _ \<Rightarrow> None))
      | BT_Awaiting [] \<Rightarrow> Some (b\<lparr>bt_phase := BT_Done, bt_fullyTerminated := True\<rparr>)
      | _ \<Rightarrow> None)"
| "bt_next h b (E_handled i r) =
     (case bt_procs b i of None \<Rightarrow> None
      | Some p \<Rightarrow> (case bp_phase p of
          BP_Handling xs \<Rightarrow> Some (b\<lparr>bt_procs := (bt_procs b)(i \<mapsto> bp_handled h p xs r)\<rparr>) | _ \<Rightarrow> None))"
| "bt_next h b (E_fail i) =
     (case bt_procs b i of None \<Rightarrow> None
      | Some p \<Rightarrow> (case bp_phase p of
          BP_Failing xs r \<Rightarrow> Some (b\<lparr>bt_procs := (bt_procs b)(i \<mapsto> bp_fail h p xs r)\<rparr>) | _ \<Rightarrow> None))"
| "bt_next h b (E_exit i) =
     (case bt_procs b i of None \<Rightarrow> None
      | Some p \<Rightarrow> map_option (\<lambda>p'. b\<lparr>bt_procs := (bt_procs b)(i \<mapsto> p')\<rparr>) (bp_exit p))"
| "bt_next h b (E_watch i) =
     (case bt_procs b i of None \<Rightarrow> None
      | Some p \<Rightarrow> (case bp_phase p of BP_Exited v \<Rightarrow> guard (i \<notin> set (bt_reported b)) (bt_watch b i v) | _ \<Rightarrow> None))"
| "bt_next h b (E_repl i) =
     (case bt_repl b of
        RP_None \<Rightarrow> guard (i \<in> set (bt_crashed b)) (repl_remove b i)
      | RP_Removed \<Rightarrow> guard (bt_procs b i = None) (repl_new b i)
      | RP_Found j n \<Rightarrow> Some (repl_pause b j n)
      | RP_Paused j n \<Rightarrow> Some (repl_add b j n)
      | RP_Added j n \<Rightarrow> Some (repl_resume b n))"

lemma bt_next_step: "bt_next h b e = Some b' \<Longrightarrow> bt_step h b b'"
proof (cases e)
  case (E_send ms)
  assume "bt_next h b e = Some b'"
  with E_send obtain r where "bt_send b ms = Some (r, b')" by auto
  then show ?thesis by (rule bt_step.send)
next
  case E_visit
  assume *: "bt_next h b e = Some b'"
  then obtain k ks where k: "bt_round b = k # ks" by (auto simp: E_visit split: list.splits)
  show ?thesis
  proof (cases "idle_in BT_Flush b")
    case True
    then show ?thesis using * k by (auto simp: E_visit idle_in_def intro: bt_step.flush_visit)
  next
    case False
    with * k obtain b1 where "idle_in BT_Loop b" "processBatches_key b k = Inr b1" "b' = b1\<lparr>bt_round := ks\<rparr>"
      by (auto simp: E_visit split: if_splits sum.splits)
    then show ?thesis using k by (auto simp: idle_in_def intro: bt_step.visit)
  qed
next
  case E_flush
  assume *: "bt_next h b e = Some b'"
  show ?thesis
  proof (cases "bt_phase b = BT_LoopDone")
    case True
    with * show ?thesis by (auto simp: E_flush intro: bt_step.flush)
  next
    case False
    with * show ?thesis by (auto simp: E_flush idle_in_def intro: bt_step.flush_again)
  qed
next
  case E_stop
  assume "bt_next h b e = Some b'"
  then show ?thesis
    by (auto simp: E_stop intro: bt_step.stop bt_step.stopped bt_step.await bt_step.finished
        split: bt_phase.splits list.splits option.splits bp_phase.splits)
next
  case (E_repl i)
  assume "bt_next h b e = Some b'"
  then show ?thesis
    by (auto simp: E_repl intro: bt_step.repl_remove bt_step.repl_new bt_step.repl_pause bt_step.repl_add bt_step.repl_resume
        split: bt_repl.splits)
next
  case (E_handled i r)
  assume "bt_next h b e = Some b'"
  then show ?thesis
    by (auto simp: E_handled intro: bt_step.own bp_own.handled split: option.splits bp_phase.splits)
next
  case (E_fail i)
  assume "bt_next h b e = Some b'"
  then show ?thesis
    by (auto simp: E_fail intro: bt_step.own bp_own.fail split: option.splits bp_phase.splits)
next
  case (E_exit i)
  assume "bt_next h b e = Some b'"
  then show ?thesis
    by (auto simp: E_exit intro: bt_step.own bp_own.exit split: option.splits)
next
  case (E_watch i)
  assume "bt_next h b e = Some b'"
  then show ?thesis
    by (auto simp: E_watch intro: bt_step.watch split: option.splits bp_phase.splits)
qed (auto simp: idle_in_def intro: bt_step.terminate bt_step.receive bt_step.round bt_step.route bt_step.hand_over
      bt_step.loop_done bt_step.flush_end split: list.splits bt_work.splits sum.splits)

fun bt_exec :: "'a heap \<Rightarrow> batcher \<Rightarrow> bt_event list \<Rightarrow> batcher option" where
  "bt_exec h b [] = Some b"
| "bt_exec h b (e # es) = (case bt_next h b e of None \<Rightarrow> None | Some b' \<Rightarrow> bt_exec h b' es)"

lemma bt_exec_reaches: "bt_exec h b es = Some b' \<Longrightarrow> reaches (bt_step h) b b'"
proof (induction es arbitrary: b)
  case Nil
  then show ?case by (simp add: reaches.start)
next
  case (Cons e es)
  then obtain b1 where b1: "bt_next h b e = Some b1" "bt_exec h b1 es = Some b'" by (auto split: option.splits)
  show ?case by (rule reaches_trans [OF Cons.IH [OF b1(2)] reaches_one]) (rule bt_next_step [OF b1(1)])
qed

section \<open>A run with a replacement\<close>

text \<open>Messages 0 and 2 have the key \<open>k0\<close>, message 1 has \<open>k19\<close>; batches of one message, two processors.\<close>

definition heap3 :: "unit heap" where
  "heap3 m = (NewMessage () None)\<lparr>ms_BatchKey := (if m = 1 then ''k19'' else ''k0''), ms_ack := Some 7\<rparr>"

definition config2 :: batcherConfig where
  "config2 = \<lparr>bc_Name = ''b'', bc_BatchSize = 1, bc_BatchTimeout = 0, bc_Concurrency = 2\<rparr>"

definition one_round :: "bt_event list" where
  "one_round = [E_round False, E_visit, E_route, E_hand_over]"

definition crash_events :: "bt_event list" where
  "crash_events = [E_send [0, 1], E_receive, E_receive] @ one_round @ [E_visit, E_route, E_hand_over,
     E_handled ''p0'' (Inl ''x''), E_fail ''p0'', E_exit ''p0'', E_watch ''p0'', E_repl ''p0'', E_repl ''p2'', E_repl []]"

definition after_crash_events :: "bt_event list" where
  "after_crash_events = [E_repl [], E_repl [], E_send [2], E_receive] @ one_round"

definition run2 :: batcher where
  "run2 = bt_run config2 [''p0'', ''p1'']"

definition finish_events :: "bt_event list" where
  "finish_events = [E_handled ''p2'' (Inr ([2], None)), E_handled ''p1'' (Inr ([0], None)), E_visit, E_terminate,
     E_loop_done, E_flush, E_visit, E_visit, E_flush_end, E_stop, E_stop, E_stop, E_exit ''p1'', E_exit ''p2'',
     E_stop, E_stop, E_stop]"

text \<open>The state a list of events leads to.\<close>

definition reached :: "batcher \<Rightarrow> bt_event list \<Rightarrow> batcher" where
  "reached b es = (case bt_exec heap3 b es of None \<Rightarrow> b | Some b' \<Rightarrow> b')"

lemma reached_reaches: "reaches (bt_step heap3) b (reached b es)"
  by (auto simp: reached_def intro: reaches.start bt_exec_reaches split: option.splits)

definition crash_state :: batcher where "crash_state = reached run2 crash_events"
definition overlap_state :: batcher where "overlap_state = reached run2 (crash_events @ after_crash_events)"
definition done_state :: batcher where "done_state = reached run2 (crash_events @ after_crash_events @ finish_events)"

lemmas run2_reaches =
  reached_reaches [of run2 crash_events, folded crash_state_def, unfolded run2_def]
  reached_reaches [of run2 "crash_events @ after_crash_events", folded overlap_state_def, unfolded run2_def]
  reached_reaches [of run2 "crash_events @ after_crash_events @ finish_events", folded done_state_def, unfolded run2_def]

lemma done_state_values:
  "bt_phase done_state = BT_Done" "bt_received done_state = [0, 1, 2]"
  "bt_delivered done_state = [(''p1'', ''k0'', [0]), (''p0'', ''k19'', [1]), (''p2'', ''k0'', [2])]"
  "bt_incoming done_state = []" "bt_work done_state = W_None"
  "map_option bp_results (bt_procs done_state ''p0'') = Some [Inl ''x'']"
proof -
  have "(bt_phase done_state, bt_received done_state, bt_delivered done_state, bt_incoming done_state, bt_work done_state,
      map_option bp_results (bt_procs done_state ''p0'')) =
    (BT_Done, [0, 1, 2], [(''p1'', ''k0'', [0]), (''p0'', ''k19'', [1]), (''p2'', ''k0'', [2])], [], W_None, Some [Inl ''x''])"
    by code_simp
  then show "bt_phase done_state = BT_Done" "bt_received done_state = [0, 1, 2]"
    "bt_delivered done_state = [(''p1'', ''k0'', [0]), (''p0'', ''k19'', [1]), (''p2'', ''k0'', [2])]"
    "bt_incoming done_state = []" "bt_work done_state = W_None"
    "map_option bp_results (bt_procs done_state ''p0'') = Some [Inl ''x'']"
    by (simp_all only: prod.inject)
qed

text \<open>
  Claim C38. The pause does not wait for the batch that its processor is handling, so a
  replacement can break the order of a key. A concrete run with two processors and batches of
  one message: \<open>p1\<close> handles message 0 of key \<open>k0\<close> when \<open>p0\<close> crashes; its replacement \<open>p2\<close> takes
  the key over from \<open>p1\<close>, and message 2 of the same key is handled by \<open>p2\<close> while \<open>p1\<close> still
  handles message 0. The replacement also runs without the batcher's name in its context, which
  the processors that \<open>run\<close> starts have.
\<close>

theorem replacement_overlaps_key:
  "reaches (bt_step heap3) (bt_run config2 [''p0'', ''p1'']) overlap_state \<and>
   ms_BatchKey (heap3 0) = ms_BatchKey (heap3 2) \<and> bt_received overlap_state = [0, 1, 2] \<and>
   map_option bp_phase (bt_procs overlap_state ''p1'') = Some (BP_Handling [0]) \<and>
   map_option bp_phase (bt_procs overlap_state ''p2'') = Some (BP_Handling [2]) \<and>
   map_option bp_ctx (bt_procs overlap_state ''p1'') = Some (Some ''b'') \<and>
   map_option bp_ctx (bt_procs overlap_state ''p2'') = Some None"
proof -
  have "(bt_received overlap_state, map_option bp_phase (bt_procs overlap_state ''p1''),
      map_option bp_phase (bt_procs overlap_state ''p2''), map_option bp_ctx (bt_procs overlap_state ''p1''),
      map_option bp_ctx (bt_procs overlap_state ''p2'')) =
    ([0, 1, 2], Some (BP_Handling [0]), Some (BP_Handling [2]), Some (Some ''b''), Some None)"
    by code_simp
  then show ?thesis using run2_reaches(2) by (simp add: heap3_def)
qed

section \<open>The properties at these runs\<close>

lemma heap3_keys:
  "of_key heap3 ''k0'' [0, 1, 2] = [0, 2]" "of_key heap3 ''k0'' [0] = [0]" "of_key heap3 ''k0'' [] = []"
  "bp_expected heap3 ''p0'' [1] (Inl ''x'') = [\<lparr>ac_by = 7, ac_msgs = [1], ac_err = Some ''batch processor p0 panicked: x''\<rparr>]"
  by code_simp+

theorem batcher_order_witness:
  "handed_over (bt_delivered done_state) ''k0'' = [0, 2]"
proof -
  have "handed_over (bt_delivered done_state) ''k0'' = of_key heap3 ''k0'' (bt_received done_state)"
    using batcher_order [OF run2_reaches(3), of "''k0''"] done_state_values(1) by blast
  then show ?thesis by (simp only: done_state_values heap3_keys)
qed

theorem batcher_acknowledges_witness:
  "\<exists>p. bt_procs done_state ''p0'' = Some p \<and> bp_accepted p = [[1]] \<and>
     bp_acks p = [\<lparr>ac_by = 7, ac_msgs = [1], ac_err = Some ''batch processor p0 panicked: x''\<rparr>]"
proof -
  from done_state_values(6) obtain p where p: "bt_procs done_state ''p0'' = Some p" "bp_results p = [Inl ''x'']" by auto
  have "distinct [''p0'', ''p1'']" by simp
  from batcher_acknowledges [OF run2_reaches(3) this, of "''p0''" p] p(1) done_state_values(1)
  have "bp_accepted p = batches_of ''p0'' (bt_delivered done_state)"
    "bp_acks p = concat (map2 (bp_expected heap3 ''p0'') (bp_accepted p) (bp_results p))" by blast+
  moreover have "batches_of ''p0'' (bt_delivered done_state) = [[1]]" unfolding done_state_values by code_simp
  ultimately show ?thesis using p by (simp add: heap3_keys del: One_nat_def)
qed

theorem replacement_pauses_owner_witness:
  "getNode (\<lambda>n. n) (bt_hr (repl_add crash_state ''p2'' (Some ''p1''))) ''k0'' = Some ''p2'' \<and>
   (\<exists>p. bt_procs crash_state ''p1'' = Some p \<and> bp_send p [2] = Inr (Refused, p))"
proof -
  have "bt_repl crash_state = RP_Paused ''p2'' (Some ''p1'')" "getNode (\<lambda>n. n) (bt_hr crash_state) ''k0'' = Some ''p1''"
    "getNode (\<lambda>n. n) (bt_hr (repl_add crash_state ''p2'' (Some ''p1''))) ''k0'' \<noteq> Some ''p1''"
    by code_simp+
  from replacement_pauses_owner [OF run2_reaches(1) _ this] show ?thesis by simp
qed

definition start_events :: "bt_event list" where
  "start_events = [E_send [0, 1, 2], E_receive, E_receive, E_receive] @ one_round"

definition start_state :: batcher where "start_state = reached run2 start_events"

lemmas start_reaches = reached_reaches [of run2 start_events, folded start_state_def, unfolded run2_def]

lemma start_state_values:
  "bt_delivered start_state = [(''p1'', ''k0'', [0])]" "bt_phase start_state = BT_Loop" "bt_replaced start_state = 0"
  "bt_work start_state = W_None" "bt_incoming start_state = []" "bt_received start_state = [0, 1, 2]"
  "map_option bp_accepted (bt_procs start_state ''p1'') = Some [[0]]"
  "getNode (\<lambda>n. n) (bt_hr (bt_run config2 [''p0'', ''p1''])) ''k0'' = Some ''p1''"
  by code_simp+

theorem batcher_key_affinity_witness: "queued start_state ''k0'' = [2]"
proof -
  from start_state_values(7) obtain p where p: "bt_procs start_state ''p1'' = Some p" "bp_accepted p = [[0]]" by auto
  have "in_work start_state ''k0'' = []" by (simp add: in_work_def start_state_values)
  with batcher_key_affinity [OF start_reaches _ start_state_values(3,8) p(1)] p(2)
  show ?thesis by (simp add: start_state_values(5,6) heap3_keys del: One_nat_def of_key_simps)
qed

theorem batch_sizes_witness: "length [0::nat] \<le> 1 \<and> (''p1'', ''k0'', [0]) \<in> set (bt_delivered start_state)"
  using batch_sizes [OF start_reaches, of "''p1''" "''k0''" "[0]"] by (simp add: start_state_values config2_def)

definition idle_config :: batcherConfig where
  "idle_config = \<lparr>bc_Name = '''', bc_BatchSize = 0, bc_BatchTimeout = 0, bc_Concurrency = 0\<rparr>"

theorem batcher_without_processors_witness:
  "bt_delivered (reached (bt_run idle_config []) [E_send [0], E_receive, E_terminate]) = []"
  using batcher_without_processors [OF reached_reaches [of "bt_run idle_config []" "[E_send [0], E_receive, E_terminate]"]]
  by (simp add: ids_ok_def idle_config_def)

end
