(* ===== verification/Message_Processor.thy ===== *)
theory Message_Processor
  imports Messages "HOL-Library.Sublist"
begin

text \<open>
  \<open>broadway/message_processor.go\<close>: the worker that requests messages from producers, passes each
  to the client's handler and routes the results to the batchers, or acknowledges them.

  Messages live in a heap, because the handler, the worker and the acknowledgers see the same
  objects. The handler is a function of the client: for a message it panics or returns a message
  (or nil) and an error, and it may write to the heap. The answers of \<open>batcher.send\<close> are a
  function of the batcher's name and the attempt.
\<close>

section \<open>Configuration\<close>

record messageProcessorConfig =
  mc_Concurrency :: int
  mc_MinDemand :: int
  mc_MaxDemand :: int

definition defaultMinDemand :: int where "defaultMinDemand = 10"
definition defaultMaxDemand :: int where "defaultMaxDemand = 100"

definition mp_defaults :: "messageProcessorConfig \<Rightarrow> messageProcessorConfig" where
  "mp_defaults c =
     (let c = (if mc_MinDemand c = 0 then c\<lparr>mc_MinDemand := defaultMinDemand\<rparr> else c)
      in if mc_MaxDemand c = 0 then c\<lparr>mc_MaxDemand := defaultMaxDemand\<rparr> else c)"

section \<open>Handling a slice of messages\<close>

text \<open>
  The heap with the calls of acknowledgers and, as history, what batchers have accepted and what
  was skipped.
\<close>

record 'a mp_env =
  pv_heap :: "'a heap"
  pv_acks :: "ack_call list"
  pv_sent :: "(string \<times> msg_ref list) list"
  pv_skipped :: "msg_ref list"

type_synonym 'a handler = "'a heap \<Rightarrow> msg_ref \<Rightarrow> (string + msg_ref option \<times> string option) \<times> 'a heap"

text \<open>The default batcher and key, and the partition key as the batch key.\<close>

definition route_fields :: "'a message \<Rightarrow> 'a message" where
  "route_fields m =
     (let m = (if ms_Batcher m = '''' then m\<lparr>ms_Batcher := defaultBatcherName\<rparr> else m);
          m = (if ms_BatchKey m = '''' then m\<lparr>ms_BatchKey := defaultBatchKey\<rparr> else m)
      in if ms_partitionKey m \<noteq> '''' \<and> ms_BatchKey m = defaultBatchKey then m\<lparr>ms_BatchKey := ms_partitionKey m\<rparr> else m)"

definition process_one :: "'a handler \<Rightarrow> bool \<Rightarrow> 'a mp_env \<Rightarrow> msg_ref \<Rightarrow> (string + msg_ref) \<times> 'a mp_env" where
  "process_one handle hasBatchers e message =
     (case handle (pv_heap e) message of
        (Inl r, h) \<Rightarrow> (Inl r, e\<lparr>pv_heap := h\<rparr>)
      | (Inr (processed, err), h) \<Rightarrow>
          (let m = (case processed of None \<Rightarrow> message | Some m \<Rightarrow> m);
               h = h(m := route_fields (h m));
               e = e\<lparr>pv_heap := h\<rparr>
           in case ms_ack (h m) of
                Some a \<Rightarrow>
                  if \<not> hasBatchers \<or> err \<noteq> None
                  then (Inr m, e\<lparr>pv_acks := pv_acks e @ [\<lparr>ac_by = a, ac_msgs = [m], ac_err = err\<rparr>],
                                 pv_heap := h(m := (h m)\<lparr>ms_acked := True, ms_error := err\<rparr>)\<rparr>)
                  else (Inr m, e)
              | None \<Rightarrow> (Inr m, e)))"

text \<open>\<open>lo.Map\<close> over the slice; a panic leaves what was written before it.\<close>

fun process_map :: "'a handler \<Rightarrow> bool \<Rightarrow> 'a mp_env \<Rightarrow> msg_ref list \<Rightarrow> (string + msg_ref list) \<times> 'a mp_env" where
  "process_map handle hb e [] = (Inr [], e)"
| "process_map handle hb e (m # ms) =
     (case process_one handle hb e m of
        (Inl r, e') \<Rightarrow> (Inl r, e')
      | (Inr m', e') \<Rightarrow>
          (case process_map handle hb e' ms of
             (Inl r, e'') \<Rightarrow> (Inl r, e'')
           | (Inr ms', e'') \<Rightarrow> (Inr (m' # ms'), e'')))"

section \<open>sendToBatcher\<close>

definition maxAttempts :: nat where "maxAttempts = 10"

text \<open>The retry loop: attempts 0 to \<open>maxAttempts\<close> inclusive.\<close>

function send_attempts :: "(nat \<Rightarrow> bool) \<Rightarrow> nat \<Rightarrow> bool" where
  "send_attempts send attempts =
     (if attempts > maxAttempts then False
      else if send attempts then True
      else send_attempts send (attempts + 1))"
  by pat_completeness auto
termination by (relation "measure (\<lambda>(send, attempts). Suc maxAttempts - attempts)") (auto simp: maxAttempts_def)

declare send_attempts.simps [simp del]

definition send_error :: "string \<Rightarrow> string" where
  "send_error name = ''failed to send messages to batcher '' @ name @ '' after 10 attempts''"

definition mark_failed :: "string \<Rightarrow> 'a heap \<Rightarrow> msg_ref list \<Rightarrow> 'a heap" where
  "mark_failed err h ms = foldl (\<lambda>h m. h(m := (h m)\<lparr>ms_acked := True, ms_error := Some err\<rparr>)) h ms"

text \<open>One group; a batcher that does not exist is skipped.\<close>

definition send_group :: "string list \<Rightarrow> (string \<Rightarrow> nat \<Rightarrow> bool) \<Rightarrow> 'a mp_env \<Rightarrow> string \<times> msg_ref list \<Rightarrow> 'a mp_env" where
  "send_group batchers send e g =
     (case g of (name, ms) \<Rightarrow>
        if name \<notin> set batchers then e\<lparr>pv_skipped := pv_skipped e @ ms\<rparr>
        else if send_attempts (send name) 0 then e\<lparr>pv_sent := pv_sent e @ [(name, ms)]\<rparr>
        else (let ack = (case ms of [] \<Rightarrow> None | m # _ \<Rightarrow> ms_ack (pv_heap e m))
              in e\<lparr>pv_acks := pv_acks e @ call_ack ack ms (Some (send_error name)),
                   pv_heap := mark_failed (send_error name) (pv_heap e) ms\<rparr>))"

text \<open>The groups in the order of \<open>lo_GroupBy\<close>, which stands for one iteration order of the Go map.\<close>

definition sendToBatcher :: "string list \<Rightarrow> (string \<Rightarrow> nat \<Rightarrow> bool) \<Rightarrow> 'a mp_env \<Rightarrow> msg_ref list \<Rightarrow> msg_ref list \<times> 'a mp_env" where
  "sendToBatcher batchers send e messages =
     (messages, foldl (send_group batchers send) e (lo_GroupBy (\<lambda>m. ms_Batcher (pv_heap e m)) messages))"

definition process :: "'a handler \<Rightarrow> string list \<Rightarrow> (string \<Rightarrow> nat \<Rightarrow> bool) \<Rightarrow> 'a mp_env \<Rightarrow> msg_ref list
    \<Rightarrow> (string + msg_ref list) \<times> 'a mp_env" where
  "process handle batchers send e messages =
     (let hasBatchers = batchers \<noteq> []
      in case process_map handle hasBatchers e messages of
           (Inl r, e) \<Rightarrow> (Inl r, e)
         | (Inr ms, e) \<Rightarrow>
             if hasBatchers
             then (let (ms', e') = sendToBatcher batchers send e (filter (\<lambda>m. ms_error (pv_heap e m) = None) ms)
                   in (Inr ms', e'))
             else (Inr ms, e))"

section \<open>The retry loop\<close>

lemma send_attempts_iff: "send_attempts send a \<longleftrightarrow> (\<exists>i \<ge> a. i \<le> maxAttempts \<and> send i)"
proof (induction send a rule: send_attempts.induct)
  case (1 send a)
  show ?case
  proof (cases "a > maxAttempts")
    case True
    then show ?thesis by (subst send_attempts.simps) auto
  next
    case False
    show ?thesis
    proof (cases "send a")
      case True
      with False show ?thesis by (subst send_attempts.simps) auto
    next
      case nsend: False
      have "(\<exists>i \<ge> a. i \<le> maxAttempts \<and> send i) \<longleftrightarrow> (\<exists>i \<ge> Suc a. i \<le> maxAttempts \<and> send i)"
        using nsend by (metis Suc_leD Suc_leI le_neq_implies_less)
      with 1 [OF False nsend] False nsend show ?thesis by (subst send_attempts.simps) simp
    qed
  qed
qed

section \<open>Accounting of one slice\<close>

text \<open>
  The fields that the package does not export: a handler, which is code of another package,
  cannot write them. \<open>tame\<close> also says that the handler returns the message it was given (or nil),
  not another one.
\<close>

definition same_private :: "'a message \<Rightarrow> 'a message \<Rightarrow> bool" where
  "same_private m m' \<longleftrightarrow> ms_ack m' = ms_ack m \<and> ms_acked m' = ms_acked m \<and> ms_error m' = ms_error m \<and>
     ms_partitionKey m' = ms_partitionKey m \<and> ms_metadata m' = ms_metadata m"

definition tame :: "'a handler \<Rightarrow> bool" where
  "tame handle \<longleftrightarrow> (\<forall>h m x. same_private (h x) (snd (handle h m) x)) \<and>
     (\<forall>h m m' err. fst (handle h m) = Inr (Some m', err) \<longrightarrow> m' = m)"

text \<open>A message that has an acknowledger and nobody has acknowledged.\<close>

definition open_msg :: "'a message \<Rightarrow> bool" where
  "open_msg m \<longleftrightarrow> ms_ack m \<noteq> None \<and> \<not> ms_acked m \<and> ms_error m = None"

definition acked_msgs :: "'a mp_env \<Rightarrow> msg_ref list" where
  "acked_msgs e = concat (map ac_msgs (pv_acks e))"

definition settled :: "'a mp_env \<Rightarrow> msg_ref list" where
  "settled e = acked_msgs e @ concat (map snd (pv_sent e)) @ pv_skipped e"

lemma same_private_refl [simp]: "same_private m m" by (simp add: same_private_def)

lemma same_private_trans: "same_private a b \<Longrightarrow> same_private b c \<Longrightarrow> same_private a c" by (simp add: same_private_def)

lemma private_open: "same_private m m' \<Longrightarrow> open_msg m' = open_msg m" by (auto simp: same_private_def open_msg_def)

lemma same_private_route [simp]: "same_private m (route_fields m)"
  by (simp add: same_private_def route_fields_def Let_def)

lemma ack_route [simp]: "ms_ack (route_fields m) = ms_ack m" "ms_acked (route_fields m) = ms_acked m"
    "ms_error (route_fields m) = ms_error m"
  by (simp_all add: route_fields_def Let_def)

text \<open>What one message does: a panic, an acknowledgement, or it is left open for the batchers.\<close>

lemma process_one_cases:
  assumes tame: "tame handle" and op: "open_msg (pv_heap e m)" and p: "process_one handle hb e m = (r, e')"
  obtains (panic) s h where "r = Inl s" "e' = e\<lparr>pv_heap := h\<rparr>" "\<forall>x. same_private (pv_heap e x) (h x)"
  | (acked) h a err where "r = Inr m" "\<not> hb \<or> err \<noteq> None" "\<forall>x. same_private (pv_heap e x) (h x)"
      "e' = e\<lparr>pv_acks := pv_acks e @ [\<lparr>ac_by = a, ac_msgs = [m], ac_err = err\<rparr>],
              pv_heap := h(m := (h m)\<lparr>ms_acked := True, ms_error := err\<rparr>)\<rparr>"
  | (left) h where "r = Inr m" "hb" "e' = e\<lparr>pv_heap := h\<rparr>" "\<forall>x. same_private (pv_heap e x) (h x)"
proof -
  obtain res h where hd: "handle (pv_heap e) m = (res, h)" by fastforce
  have pr: "\<forall>x. same_private (pv_heap e x) (h x)" using tame hd unfolding tame_def by (metis snd_conv)
  show ?thesis
  proof (cases res)
    case (Inl s)
    then show ?thesis using p hd pr by (intro panic) (auto simp: process_one_def)
  next
    case (Inr q)
    obtain processed err where q: "q = (processed, err)" by (cases q)
    have pm: "(case processed of None \<Rightarrow> m | Some m \<Rightarrow> m) = m"
      using tame hd Inr q unfolding tame_def by (cases processed) (simp, metis fst_conv option.simps(5))
    let ?h = "h(m := route_fields (h m))"
    have pr2: "\<forall>x. same_private (pv_heap e x) (?h x)"
      using pr same_private_trans [OF _ same_private_route] by auto
    from op private_open [of "pv_heap e m" "h m"] pr obtain a where a: "ms_ack (h m) = Some a"
      by (auto simp: open_msg_def)
    show ?thesis
    proof (cases "\<not> hb \<or> err \<noteq> None")
      case True
      with p hd Inr q pm a pr2 show ?thesis
        by (intro acked [of err ?h a]) (auto simp: process_one_def Let_def)
    next
      case False
      with p hd Inr q pm a pr2 show ?thesis
        by (intro left [of ?h]) (auto simp: process_one_def Let_def)
    qed
  qed
qed

text \<open>The state between the two steps of \<open>process\<close>: who is acknowledged, and that the rest is open.\<close>

lemma process_map_tame:
  assumes "tame handle" and "distinct ms" and "\<forall>m \<in> set ms. open_msg (pv_heap e m)"
    and "process_map handle hb e ms = (r, e')"
  shows "(\<forall>x. x \<notin> set ms \<longrightarrow> same_private (pv_heap e x) (pv_heap e' x)) \<and>
    pv_sent e' = pv_sent e \<and> pv_skipped e' = pv_skipped e \<and>
    acked_msgs e' = acked_msgs e @ filter (\<lambda>m. ms_acked (pv_heap e' m)) ms \<and>
    (\<forall>m \<in> set ms. \<not> ms_acked (pv_heap e' m) \<longrightarrow> open_msg (pv_heap e' m)) \<and>
    (\<forall>ms'. r = Inr ms' \<longrightarrow> ms' = ms \<and>
       (\<forall>m \<in> set ms. ms_acked (pv_heap e' m) = (\<not> hb \<or> ms_error (pv_heap e' m) \<noteq> None)))"
  using assms(2-4)
proof (induction ms arbitrary: e r e')
  case Nil
  then show ?case by auto
next
  case (Cons m ms)
  obtain r1 e1 where one: "process_one handle hb e m = (r1, e1)" by fastforce
  have op: "open_msg (pv_heap e m)" using Cons.prems by simp
  have step: ?case if e1: "\<forall>x. x \<noteq> m \<longrightarrow> same_private (pv_heap e x) (pv_heap e1 x)" "r1 = Inr m"
      "pv_sent e1 = pv_sent e" "pv_skipped e1 = pv_skipped e"
      "acked_msgs e1 = acked_msgs e @ filter (\<lambda>m. ms_acked (pv_heap e1 m)) [m]"
      "ms_acked (pv_heap e1 m) = (\<not> hb \<or> ms_error (pv_heap e1 m) \<noteq> None)"
      "\<not> ms_acked (pv_heap e1 m) \<longrightarrow> open_msg (pv_heap e1 m)"
  proof -
    obtain r2 e2 where rest: "process_map handle hb e1 ms = (r2, e2)" by fastforce
    have "\<forall>x \<in> set ms. open_msg (pv_heap e1 x)"
      using Cons.prems e1(1) private_open by (metis distinct.simps(2) list.set_intros(2))
    have dist: "distinct ms" using Cons.prems(1) by simp
    from Cons.IH [OF dist \<open>\<forall>x \<in> set ms. open_msg (pv_heap e1 x)\<close> rest] have IH:
      "\<forall>x. x \<notin> set ms \<longrightarrow> same_private (pv_heap e1 x) (pv_heap e2 x)" "pv_sent e2 = pv_sent e1" "pv_skipped e2 = pv_skipped e1"
      "acked_msgs e2 = acked_msgs e1 @ filter (\<lambda>m. ms_acked (pv_heap e2 m)) ms"
      "\<forall>m \<in> set ms. \<not> ms_acked (pv_heap e2 m) \<longrightarrow> open_msg (pv_heap e2 m)"
      "\<forall>ms'. r2 = Inr ms' \<longrightarrow> ms' = ms \<and> (\<forall>m \<in> set ms. ms_acked (pv_heap e2 m) = (\<not> hb \<or> ms_error (pv_heap e2 m) \<noteq> None))"
      by blast+
    have e': "e' = e2" and r: "r = (case r2 of Inl s \<Rightarrow> Inl s | Inr ms' \<Rightarrow> Inr (m # ms'))"
      using Cons.prems(3) one rest e1(2) by (auto split: sum.splits)
    have m: "same_private (pv_heap e1 m) (pv_heap e2 m)" using IH(1) Cons.prems(1) by simp
    then have mf: "ms_acked (pv_heap e2 m) = ms_acked (pv_heap e1 m)" "ms_error (pv_heap e2 m) = ms_error (pv_heap e1 m)"
      "open_msg (pv_heap e2 m) = open_msg (pv_heap e1 m)" using private_open [OF m] by (simp_all add: same_private_def)
    have "\<forall>x. x \<notin> set (m # ms) \<longrightarrow> same_private (pv_heap e x) (pv_heap e2 x)"
      using e1(1) IH(1) same_private_trans by (metis list.set_intros(1,2))
    with IH(2-6) e1(3-7) mf show ?thesis unfolding e' r by (auto split: sum.splits)
  qed
  from assms(1) op one show ?case
  proof (cases rule: process_one_cases)
    case (panic s h)
    then have "e' = e1" "r = Inl s" using Cons.prems(3) one by auto
    moreover have same: "open_msg (h x) = open_msg (pv_heap e x)" for x
      using panic(3) private_open by blast
    have "\<forall>x \<in> set (m # ms). open_msg (pv_heap e1 x)"
      using panic(2) Cons.prems(2) same by simp
    ultimately show ?thesis using panic by (auto simp: acked_msgs_def open_msg_def filter_empty_conv)
  next
    case (acked h a err)
    then show ?thesis by (intro step) (auto simp: acked_msgs_def)
  next
    case (left h)
    have "open_msg (h m)" using left op private_open by metis
    with left show ?thesis by (intro step) (auto simp: acked_msgs_def open_msg_def)
  qed
qed

lemma mark_failed_other: "x \<notin> set ms \<Longrightarrow> mark_failed err h ms x = h x"
  by (induction ms arbitrary: h) (simp_all add: mark_failed_def)

lemma send_group_settles:
  assumes "\<forall>m \<in> set ms. ms_ack (pv_heap e m) \<noteq> None" and "ms \<noteq> []"
  shows "mset (settled (send_group bs send e (name, ms))) = mset (settled e) + mset ms \<and>
    (\<forall>x. x \<notin> set ms \<longrightarrow> pv_heap (send_group bs send e (name, ms)) x = pv_heap e x)"
proof -
  obtain m ms' where ms: "ms = m # ms'" using assms(2) by (cases ms) auto
  with assms(1) obtain a where "ms_ack (pv_heap e m) = Some a" by auto
  with ms show ?thesis
    by (auto simp: send_group_def settled_def acked_msgs_def mark_failed_other Let_def)
qed

lemma send_groups_settle:
  assumes "distinct (concat (map snd gs))" and "\<forall>g \<in> set gs. snd g \<noteq> [] \<and> (\<forall>m \<in> set (snd g). ms_ack (pv_heap e m) \<noteq> None)"
  shows "mset (settled (foldl (send_group bs send) e gs)) = mset (settled e) + mset (concat (map snd gs)) \<and>
    (\<forall>x. x \<notin> set (concat (map snd gs)) \<longrightarrow> pv_heap (foldl (send_group bs send) e gs) x = pv_heap e x)"
  using assms
proof (induction gs arbitrary: e)
  case (Cons g gs)
  obtain name ms where g: "g = (name, ms)" by (cases g)
  let ?e = "send_group bs send e g"
  have one: "mset (settled ?e) = mset (settled e) + mset ms" "\<forall>x. x \<notin> set ms \<longrightarrow> pv_heap ?e x = pv_heap e x"
    using send_group_settles [of ms e bs send name] Cons.prems(2) by (auto simp: g)
  have disj: "set ms \<inter> set (concat (map snd gs)) = {}" using Cons.prems(1) by (auto simp: g)
  have "\<forall>g' \<in> set gs. snd g' \<noteq> [] \<and> (\<forall>m \<in> set (snd g'). ms_ack (pv_heap ?e m) \<noteq> None)"
  proof (intro ballI conjI)
    fix g' m assume g': "g' \<in> set gs" and m: "m \<in> set (snd g')"
    then have "m \<in> set (concat (map snd gs))" by auto
    with disj have "m \<notin> set ms" by blast
    with one(2) Cons.prems(2) g' m show "ms_ack (pv_heap ?e m) \<noteq> None" by simp
  qed (use Cons.prems(2) in simp)
  from Cons.IH [OF _ this] Cons.prems(1) have
    "mset (settled (foldl (send_group bs send) ?e gs)) = mset (settled ?e) + mset (concat (map snd gs))"
    "\<forall>x. x \<notin> set (concat (map snd gs)) \<longrightarrow> pv_heap (foldl (send_group bs send) ?e gs) x = pv_heap ?e x" by simp_all
  with one show ?case by (simp add: g)
qed simp

lemma sendToBatcher_settles:
  assumes "distinct ms" and "\<forall>m \<in> set ms. ms_ack (pv_heap e m) \<noteq> None" and "sendToBatcher bs send e ms = (ms', e')"
  shows "ms' = ms" and "mset (settled e') = mset (settled e) + mset ms"
    and "\<forall>x. x \<notin> set ms \<longrightarrow> pv_heap e' x = pv_heap e x"
proof -
  let ?gs = "lo_GroupBy (\<lambda>m. ms_Batcher (pv_heap e m)) ms"
  have m: "mset (concat (map snd ?gs)) = mset ms" by (rule mset_lo_GroupBy)
  then have d: "distinct (concat (map snd ?gs))" and s: "set (concat (map snd ?gs)) = set ms"
    using assms(1) by (metis mset_eq_imp_distinct_iff, metis set_mset_mset)
  have "\<forall>g \<in> set ?gs. snd g \<noteq> [] \<and> (\<forall>m \<in> set (snd g). ms_ack (pv_heap e m) \<noteq> None)"
  proof (intro ballI conjI)
    fix g assume g: "g \<in> set ?gs"
    then show "snd g \<noteq> []" using lo_GroupBy_entry by (metis prod.collapse)
    fix m assume "m \<in> set (snd g)"
    with g s have "m \<in> set ms" by auto
    with assms(2) show "ms_ack (pv_heap e m) \<noteq> None" by simp
  qed
  note G = send_groups_settle [OF d this, of bs send]
  have e': "e' = foldl (send_group bs send) e ?gs" using assms(3) by (auto simp: sendToBatcher_def)
  show "ms' = ms" using assms(3) by (simp add: sendToBatcher_def)
  show "mset (settled e') = mset (settled e) + mset ms" using G unfolding e' m by blast
  show "\<forall>x. x \<notin> set ms \<longrightarrow> pv_heap e' x = pv_heap e x" using G unfolding e' s by blast
qed

text \<open>
  One call of \<open>process\<close>: after a return every message of the slice is settled once; after a panic
  those that were acknowledged are, and the others are still open.
\<close>

lemma process_settles:
  assumes "tame handle" and "distinct ms" and "\<forall>m \<in> set ms. open_msg (pv_heap e m)"
    and "process handle bs send e ms = (r, e')"
  shows "\<forall>x. x \<notin> set ms \<longrightarrow> same_private (pv_heap e x) (pv_heap e' x)"
    and "r = Inr ms' \<Longrightarrow> mset (settled e') = mset (settled e) + mset ms"
    and "r = Inl s \<Longrightarrow>
      mset (settled e') + mset (filter (\<lambda>m. \<not> ms_acked (pv_heap e' m)) ms) = mset (settled e) + mset ms \<and>
      (\<forall>m \<in> set ms. \<not> ms_acked (pv_heap e' m) \<longrightarrow> open_msg (pv_heap e' m))"
proof -
  let ?hb = "bs \<noteq> []"
  obtain r1 e1 where map: "process_map handle ?hb e ms = (r1, e1)" by fastforce
  note M = process_map_tame [OF assms(1-3) map]
  have settled1: "mset (settled e1) = mset (settled e) + mset (filter (\<lambda>m. ms_acked (pv_heap e1 m)) ms)"
    using M by (simp add: settled_def)
  have split: "mset (filter P ms) + mset (filter (\<lambda>m. \<not> P m) ms) = mset ms" for P
    by (induction ms) auto
  have goal: "(\<forall>x. x \<notin> set ms \<longrightarrow> same_private (pv_heap e x) (pv_heap e' x)) \<and>
    (\<forall>ms'. r = Inr ms' \<longrightarrow> mset (settled e') = mset (settled e) + mset ms) \<and>
    (\<forall>s. r = Inl s \<longrightarrow>
      mset (settled e') + mset (filter (\<lambda>m. \<not> ms_acked (pv_heap e' m)) ms) = mset (settled e) + mset ms \<and>
      (\<forall>m \<in> set ms. \<not> ms_acked (pv_heap e' m) \<longrightarrow> open_msg (pv_heap e' m)))"
  proof (cases r1)
    case (Inl s)
    then have "r = Inl s" "e' = e1" using assms(4) map by (auto simp: process_def)
    then show ?thesis using M settled1 split [of "\<lambda>m. ms_acked (pv_heap e1 m)"] by (simp add: add.assoc)
  next
    case (Inr ms1)
    with M have ms1: "ms1 = ms" and acked: "\<forall>m \<in> set ms. ms_acked (pv_heap e1 m) = (\<not> ?hb \<or> ms_error (pv_heap e1 m) \<noteq> None)"
      by simp_all
    show ?thesis
    proof (cases ?hb)
      case False
      then have "r = Inr ms" "e' = e1" using assms(4) map Inr ms1 by (auto simp: process_def)
      moreover have "filter (\<lambda>m. ms_acked (pv_heap e1 m)) ms = ms" using acked False by (simp add: filter_id_conv)
      ultimately show ?thesis using M settled1 by simp
    next
      case True
      let ?k = "filter (\<lambda>m. ms_error (pv_heap e1 m) = None) ms"
      have k: "?k = filter (\<lambda>m. \<not> ms_acked (pv_heap e1 m)) ms" using acked True by (intro filter_cong) auto
      obtain ms2 e2 where send: "sendToBatcher bs send e1 ?k = (ms2, e2)" by fastforce
      have e': "e' = e2" "r = Inr ms2" using assms(4) map Inr ms1 True send by (auto simp: process_def Let_def)
      have "\<forall>m \<in> set ?k. ms_ack (pv_heap e1 m) \<noteq> None" unfolding k using M by (auto simp: open_msg_def)
      from sendToBatcher_settles [OF _ this send] assms(2)
      have s2: "mset (settled e2) = mset (settled e1) + mset ?k" "\<forall>x. x \<notin> set ?k \<longrightarrow> pv_heap e2 x = pv_heap e1 x"
        by simp_all
      have "mset (settled e2) = mset (settled e) + mset ms"
        using s2(1) settled1 split [of "\<lambda>m. ms_acked (pv_heap e1 m)"] unfolding k by (simp add: add.assoc)
      moreover have "\<forall>x. x \<notin> set ms \<longrightarrow> same_private (pv_heap e x) (pv_heap e2 x)" using M s2(2) by auto
      ultimately show ?thesis using e' by simp
    qed
  qed
  then show "\<forall>x. x \<notin> set ms \<longrightarrow> same_private (pv_heap e x) (pv_heap e' x)"
    and "r = Inr ms' \<Longrightarrow> mset (settled e') = mset (settled e) + mset ms"
    and "r = Inl s \<Longrightarrow>
      mset (settled e') + mset (filter (\<lambda>m. \<not> ms_acked (pv_heap e' m)) ms) = mset (settled e) + mset ms \<and>
      (\<forall>m \<in> set ms. \<not> ms_acked (pv_heap e' m) \<longrightarrow> open_msg (pv_heap e' m))"
    by blast+
qed

section \<open>The order in which batchers get messages\<close>

definition sent_to :: "'a mp_env \<Rightarrow> string \<Rightarrow> msg_ref list" where
  "sent_to e name = concat (map (\<lambda>(n, ms). if n = name then ms else []) (pv_sent e))"

lemma send_group_sent:
  "sent_to (send_group bs send e (n, ms)) name = sent_to e name @ (if n = name \<and> n \<in> set bs \<and> send_attempts (send n) 0 then ms else [])"
  by (auto simp: send_group_def sent_to_def Let_def)

lemma send_groups_sent:
  "distinct (map fst gs) \<Longrightarrow> sent_to (foldl (send_group bs send) e gs) name =
     sent_to e name @ (case map_of gs name of None \<Rightarrow> []
       | Some ms \<Rightarrow> if name \<in> set bs \<and> send_attempts (send name) 0 then ms else [])"
proof (induction gs arbitrary: e)
  case (Cons g gs)
  obtain n ms where g: "g = (n, ms)" by (cases g)
  have "n = name \<Longrightarrow> map_of gs name = None" using Cons.prems g by (auto simp: map_of_eq_None_iff)
  with Cons show ?case by (auto simp: g send_group_sent split: option.splits)
qed simp

lemma process_order:
  assumes "tame handle" and "distinct ms" and "\<forall>m \<in> set ms. open_msg (pv_heap e m)"
    and "process handle bs send e ms = (r, e')"
  shows "\<exists>xs. subseq xs ms \<and> sent_to e' name = sent_to e name @ xs \<and> (\<forall>s. r = Inl s \<longrightarrow> xs = [])"
proof -
  obtain r1 e1 where map: "process_map handle (bs \<noteq> []) e ms = (r1, e1)" by fastforce
  note M = process_map_tame [OF assms(1-3) map]
  have same: "sent_to e1 name = sent_to e name" using M by (simp add: sent_to_def)
  show ?thesis
  proof (cases "\<exists>s. r1 = Inl s")
    case True
    then show ?thesis using assms(4) map same by (intro exI [of _ "[]"]) (auto simp: process_def)
  next
    case False
    with M have r1: "r1 = Inr ms" by (cases r1) auto
    show ?thesis
    proof (cases "bs = []")
      case True
      then show ?thesis using assms(4) map r1 same by (intro exI [of _ "[]"]) (auto simp: process_def)
    next
      case bs: False
      let ?k = "filter (\<lambda>m. ms_error (pv_heap e1 m) = None) ms"
      let ?gs = "lo_GroupBy (\<lambda>m. ms_Batcher (pv_heap e1 m)) ?k"
      let ?xs = "case map_of ?gs name of None \<Rightarrow> [] | Some ms \<Rightarrow> if name \<in> set bs \<and> send_attempts (send name) 0 then ms else []"
      have e': "e' = foldl (send_group bs send) e1 ?gs" and r: "\<exists>ms. r = Inr ms"
        using assms(4) map r1 bs by (auto simp: process_def sendToBatcher_def Let_def)
      have "sent_to e' name = sent_to e name @ ?xs"
        unfolding e' using send_groups_sent [OF distinct_lo_GroupBy] same by metis
      moreover have "subseq ?xs ms"
      proof (cases "map_of ?gs name")
        case (Some ys)
        then have "ys = filter (\<lambda>m. ms_Batcher (pv_heap e1 m) = name) ?k" using lo_GroupBy_entry map_of_SomeD by metis
        then have "subseq ys ms" by simp
        then show ?thesis by (simp add: Some)
      qed simp
      ultimately show ?thesis using r by auto
    qed
  qed
qed

section \<open>Outcomes\<close>

text \<open>
  The retry loop of \<open>sendToBatcher\<close> ends after at most 11 attempts. A group of messages
  is handed over exactly if its batcher exists and accepts one of them; if the batcher exists and
  refuses all 11, the group is acknowledged once with an error (whose text counts 10 attempts);
  if it does not exist, nothing happens at all.
\<close>

theorem retry_outcome:
  "pv_sent (send_group bs send e (name, m # ms)) =
     pv_sent e @ (if name \<in> set bs \<and> (\<exists>i. i \<le> 10 \<and> send name i) then [(name, m # ms)] else []) \<and>
   pv_acks (send_group bs send e (name, m # ms)) =
     pv_acks e @ (if name \<in> set bs \<and> (\<nexists>i. i \<le> 10 \<and> send name i)
       then call_ack (ms_ack (pv_heap e m)) (m # ms) (Some (send_error name)) else [])"
proof -
  have "send_attempts (send name) 0 = (\<exists>i. i \<le> 10 \<and> send name i)"
    by (simp add: send_attempts_iff maxAttempts_def)
  then show ?thesis by (cases "\<exists>i. i \<le> 10 \<and> send name i") (simp_all add: send_group_def Let_def)
qed

text \<open>
  Claim C31. How a message is routed, exactly. Let the handler return normally and leave the heap \<open>h\<close>.
  The message that goes on is the one the handler returned, or the one it was given if that is
  nil. It goes to the batcher the handler chose, or to the default one; its batch key is
  the handler's choice unless that is empty or the default key, then its partition key, and the
  default key if it has none. Its partition key, its payload and its acknowledger are as the
  handler left them, and every other message is untouched.
\<close>

theorem processed_message_routed:
  assumes "process_one handle hasBatchers e m = (Inr m', e')"
  shows "\<exists>processed err h. handle (pv_heap e) m = (Inr (processed, err), h) \<and>
    m' = (case processed of None \<Rightarrow> m | Some x \<Rightarrow> x) \<and>
    ms_Batcher (pv_heap e' m') = (if ms_Batcher (h m') = '''' then ''default'' else ms_Batcher (h m')) \<and>
    ms_BatchKey (pv_heap e' m') =
      (if ms_BatchKey (h m') \<noteq> '''' \<and> ms_BatchKey (h m') \<noteq> ''default'' then ms_BatchKey (h m')
       else if ms_partitionKey (h m') \<noteq> '''' then ms_partitionKey (h m') else ''default'') \<and>
    ms_partitionKey (pv_heap e' m') = ms_partitionKey (h m') \<and> ms_Payload (pv_heap e' m') = ms_Payload (h m') \<and>
    ms_ack (pv_heap e' m') = ms_ack (h m') \<and> (\<forall>x. x \<noteq> m' \<longrightarrow> pv_heap e' x = h x)"
proof -
  obtain processed err h where hd: "handle (pv_heap e) m = (Inr (processed, err), h)"
    using assms by (cases "handle (pv_heap e) m") (auto simp: process_one_def split: sum.splits prod.splits)
  define q where "q = (case processed of None \<Rightarrow> m | Some x \<Rightarrow> x)"
  have run: "process_one handle hasBatchers e m =
      (let h = h(q := route_fields (h q)); e = e\<lparr>pv_heap := h\<rparr>
       in case ms_ack (h q) of
            Some a \<Rightarrow>
              if \<not> hasBatchers \<or> err \<noteq> None
              then (Inr q, e\<lparr>pv_acks := pv_acks e @ [\<lparr>ac_by = a, ac_msgs = [q], ac_err = err\<rparr>],
                             pv_heap := h(q := (h q)\<lparr>ms_acked := True, ms_error := err\<rparr>)\<rparr>)
              else (Inr q, e)
          | None \<Rightarrow> (Inr q, e))"
    by (simp add: process_one_def hd flip: q_def)
  have q: "m' = q" using assms unfolding run by (auto simp: Let_def split: option.splits if_splits)
  have same: "ms_Batcher (pv_heap e' q) = ms_Batcher (route_fields (h q))"
    "ms_BatchKey (pv_heap e' q) = ms_BatchKey (route_fields (h q))"
    "ms_partitionKey (pv_heap e' q) = ms_partitionKey (route_fields (h q))"
    "ms_Payload (pv_heap e' q) = ms_Payload (route_fields (h q))"
    "ms_ack (pv_heap e' q) = ms_ack (route_fields (h q))" "\<forall>x. x \<noteq> q \<longrightarrow> pv_heap e' x = h x"
    using assms unfolding run by (auto simp: Let_def split: option.splits if_splits)
  show ?thesis unfolding q
    by (intro exI [of _ processed] exI [of _ err] exI [of _ h] conjI hd q_def same(6))
      (simp_all add: same route_fields_def Let_def defaultBatcherName_def defaultBatchKey_def)
qed

end
