(* ===== verification/Processor_Worker.thy ===== *)
theory Processor_Worker
  imports Message_Processor
begin

text \<open>
  The goroutine of a message processor (\<open>run\<close> in \<open>broadway/message_processor.go\<close>), its deferred
  function, \<open>pause\<close>, \<open>resume\<close>, \<open>terminate\<close> and \<open>request\<close>, and the goroutines that receive the
  responses of the producers, as steps on one state. Every message a producer delivers is
  accounted for, up to the races and the panic in \<open>flush\<close> that the last section exhibits.
\<close>

section \<open>State\<close>

text \<open>
  Where the goroutine is: in its loop; in the deferred function after a panic, before
  \<open>_panicked\<close> is set and before \<open>flushAndFailAll\<close>; before \<open>flush\<close>; before the requests are
  closed; gone.
\<close>

datatype mp_phase =
    MP_Loop
  | MP_Recovered string
  | MP_Failing string
  | MP_Flushing
  | MP_Closing "string option"
  | MP_Exited "string option"

record 'a messageProcessor =
  mp_id :: string
  mp_config :: messageProcessorConfig
  mp_messages :: "msg_ref concurrentQueue"
  mp_pendingRequests :: "(string, nat) concurrentMap"     \<comment> \<open>by producer; a request is its number\<close>
  mp_requests :: "request list"                           \<comment> \<open>the requests made so far\<close>
  mp_producers :: "(string, string) concurrentMap"
  mp_batchers :: "string list"
  mp_paused :: bool
  mp_terminated :: bool
  mp_fullyTerminated :: bool
  mp_panicked :: bool
  mp_phase :: mp_phase
  mp_arriving :: "msg_ref list list"                      \<comment> \<open>received, past the check of \<open>_panicked\<close>, not yet enqueued\<close>
  mp_env :: "'a mp_env"
  mp_received :: "msg_ref list"                           \<comment> \<open>history: what producers delivered\<close>
  mp_enqueued :: "msg_ref list"                           \<comment> \<open>history: in the order of \<open>enqueue\<close>\<close>
  mp_taken :: "msg_ref list"                              \<comment> \<open>history: processed without a panic\<close>
  mp_failed :: nat                                        \<comment> \<open>history: how many of the queue \<open>flushAndFailAll\<close> has failed\<close>
  mp_dropped :: "msg_ref list"                            \<comment> \<open>history: left over by a panic in \<open>flush\<close>\<close>

definition newMessageProcessor :: "string \<Rightarrow> messageProcessorConfig \<Rightarrow> (string \<times> string) list \<Rightarrow> string list
    \<Rightarrow> 'a heap \<Rightarrow> 'a messageProcessor" where
  "newMessageProcessor i config producers batchers h =
     \<lparr>mp_id = i, mp_config = mp_defaults config, mp_messages = newConcurrentQueue,
      mp_pendingRequests = newConcurrentMap [], mp_requests = [], mp_producers = newConcurrentMap [producers],
      mp_batchers = batchers, mp_paused = False, mp_terminated = False, mp_fullyTerminated = False,
      mp_panicked = False, mp_phase = MP_Loop, mp_arriving = [],
      mp_env = \<lparr>pv_heap = h, pv_acks = [], pv_sent = [], pv_skipped = []\<rparr>,
      mp_received = [], mp_enqueued = [], mp_taken = [], mp_failed = 0, mp_dropped = []\<rparr>"

section \<open>Requests\<close>

definition request_at :: "'a messageProcessor \<Rightarrow> nat \<Rightarrow> request" where
  "request_at p r = mp_requests p ! r"

text \<open>\<open>request\<close> for one producer; \<open>answer\<close> is the result of \<open>producer.send\<close>.\<close>

definition mp_request_one :: "(string \<Rightarrow> bool) \<Rightarrow> 'a messageProcessor \<Rightarrow> string \<Rightarrow> 'a messageProcessor" where
  "mp_request_one answer p producer =
     (let demand = mc_MaxDemand (mp_config p) - mc_MinDemand (mp_config p);
          ask = (\<lambda>p. if answer producer
                     then p\<lparr>mp_requests := mp_requests p @ [newRequest (mp_id p) demand],
                            mp_pendingRequests := map_set (mp_pendingRequests p) producer (length (mp_requests p))\<rparr>
                     else p)
      in case map_get (mp_pendingRequests p) producer of
           Some r \<Rightarrow> if isClosed (request_at p r) then ask (p\<lparr>mp_pendingRequests := map_delete (mp_pendingRequests p) producer\<rparr>)
                     else p
         | None \<Rightarrow> ask p)"

definition mp_request :: "(string \<Rightarrow> bool) \<Rightarrow> 'a messageProcessor \<Rightarrow> 'a messageProcessor" where
  "mp_request answer p = foldl (mp_request_one answer) p (map_values (mp_producers p))"

definition close_at :: "'a messageProcessor \<Rightarrow> nat \<Rightarrow> 'a messageProcessor" where
  "close_at p r = (case request_close (request_at p r) of Inl _ \<Rightarrow> p | Inr q \<Rightarrow> p\<lparr>mp_requests := (mp_requests p)[r := q]\<rparr>)"

definition close_pending :: "'a messageProcessor \<Rightarrow> 'a messageProcessor" where
  "close_pending p = foldl close_at p (map_values (mp_pendingRequests p))"

definition mp_pause :: "'a messageProcessor \<Rightarrow> 'a messageProcessor" where
  "mp_pause p = (if mp_paused p then p else close_pending (p\<lparr>mp_paused := True\<rparr>))"

definition mp_resume :: "'a messageProcessor \<Rightarrow> 'a messageProcessor" where
  "mp_resume p = p\<lparr>mp_paused := False\<rparr>"

definition mp_terminate :: "'a messageProcessor \<Rightarrow> 'a messageProcessor" where
  "mp_terminate p = p\<lparr>mp_terminated := True\<rparr>"

definition mp_setProducers :: "'a messageProcessor \<Rightarrow> (string \<times> string) list \<Rightarrow> 'a messageProcessor" where
  "mp_setProducers p producers = p\<lparr>mp_producers := map_reset (mp_producers p) producers\<rparr>"

text \<open>
  A response goroutine: it receives a slice, and either fails it because the processor has
  panicked (\<open>messages[0].ack\<close> is called without a test for nil) or goes on to enqueue it; when
  the request is closed it forgets the request.
\<close>

definition mp_respond :: "'a messageProcessor \<Rightarrow> msg_ref list \<Rightarrow> 'a messageProcessor go" where
  "mp_respond p messages =
     (if mp_panicked p
      then go_bind (first_ack (pv_heap (mp_env p)) messages) (\<lambda>ack.
             case ack of
               None \<Rightarrow> Inl NilCall
             | Some a \<Rightarrow> Inr (p\<lparr>mp_env := (mp_env p)\<lparr>pv_acks := pv_acks (mp_env p) @
                    call_ack ack messages (Some (''message processor '' @ mp_id p @ '' panicked''))\<rparr>,
                  mp_received := mp_received p @ messages\<rparr>))
      else Inr (p\<lparr>mp_arriving := mp_arriving p @ [messages], mp_received := mp_received p @ messages\<rparr>))"

definition mp_enqueue :: "'a messageProcessor \<Rightarrow> msg_ref list \<Rightarrow> 'a messageProcessor" where
  "mp_enqueue p messages =
     p\<lparr>mp_messages := enqueue (mp_messages p) messages, mp_arriving := remove1 messages (mp_arriving p),
       mp_enqueued := mp_enqueued p @ messages\<rparr>"

definition mp_forget :: "'a messageProcessor \<Rightarrow> string \<Rightarrow> nat \<Rightarrow> 'a messageProcessor" where
  "mp_forget p producer r = (close_at p r)\<lparr>mp_pendingRequests := map_delete (mp_pendingRequests p) producer\<rparr>"

section \<open>The loop and the deferred function\<close>

definition slice_panic :: string where
  "slice_panic = ''runtime error: slice bounds out of range''"

text \<open>
  One round of the loop. The queue can grow between the calls of \<open>len\<close> and \<open>dequeue\<close>; what comes
  in then stays behind what is dequeued, so it can as well come after the round.
\<close>

definition mp_round :: "'a handler \<Rightarrow> (string \<Rightarrow> nat \<Rightarrow> bool) \<Rightarrow> (string \<Rightarrow> bool) \<Rightarrow> 'a messageProcessor \<Rightarrow> 'a messageProcessor" where
  "mp_round handle send answer p =
     (if mp_terminated p then p\<lparr>mp_phase := MP_Flushing\<rparr>
      else if mp_paused p then p
      else
        (let p = (if queue_len (mp_messages p) < mc_MinDemand (mp_config p) then mp_request answer p else p);
             total = min (mc_MaxDemand (mp_config p) - mc_MinDemand (mp_config p)) (queue_len (mp_messages p))
         in case dequeue (mp_messages p) total of
              Inl _ \<Rightarrow> p\<lparr>mp_phase := MP_Recovered slice_panic\<rparr>
            | Inr ((messages, ok), q) \<Rightarrow>
                if \<not> ok then p\<lparr>mp_messages := q\<rparr>
                else (case process handle (mp_batchers p) send (mp_env p) messages of
                        (Inr _, e) \<Rightarrow> p\<lparr>mp_messages := q, mp_env := e, mp_taken := mp_taken p @ messages\<rparr>
                      | (Inl r, e) \<Rightarrow>
                          p\<lparr>mp_messages := prepend q (filter (\<lambda>m. \<not> ms_acked (pv_heap e m)) messages),
                            mp_env := e, mp_phase := MP_Recovered r\<rparr>)))"

definition flushAndFailAll :: "'a messageProcessor \<Rightarrow> string \<Rightarrow> 'a messageProcessor" where
  "flushAndFailAll p r =
     (let messages = queue_toSlice (mp_messages p)
      in case messages of
           [] \<Rightarrow> p
         | m # _ \<Rightarrow>
             p\<lparr>mp_env := (mp_env p)\<lparr>pv_acks := pv_acks (mp_env p) @
                 call_ack (ms_ack (pv_heap (mp_env p) m)) messages
                   (Some (''message processor '' @ mp_id p @ '' panicked '' @ r))\<rparr>,
               mp_failed := length messages\<rparr>)"

definition mp_flush :: "'a handler \<Rightarrow> (string \<Rightarrow> nat \<Rightarrow> bool) \<Rightarrow> 'a messageProcessor \<Rightarrow> 'a messageProcessor" where
  "mp_flush handle send p =
     (case dequeueAll (mp_messages p) of
        ((messages, False), q) \<Rightarrow> p\<lparr>mp_messages := q\<rparr>
      | ((messages, True), q) \<Rightarrow>
          (case process handle (mp_batchers p) send (mp_env p) messages of
             (Inr _, e) \<Rightarrow> p\<lparr>mp_messages := q, mp_env := e, mp_taken := mp_taken p @ messages\<rparr>
           | (Inl r, e) \<Rightarrow> p\<lparr>mp_messages := q, mp_env := e,
                             mp_dropped := filter (\<lambda>m. \<not> ms_acked (pv_heap e m)) messages\<rparr>))"

text \<open>The deferred function of \<open>run\<close> after the \<open>prepend\<close>, one step per access to shared state.\<close>

definition mp_unwind :: "'a handler \<Rightarrow> (string \<Rightarrow> nat \<Rightarrow> bool) \<Rightarrow> 'a messageProcessor \<Rightarrow> 'a messageProcessor" where
  "mp_unwind handle send p =
     (case mp_phase p of
        MP_Loop \<Rightarrow> p
      | MP_Recovered r \<Rightarrow> p\<lparr>mp_panicked := True, mp_phase := MP_Failing r\<rparr>
      | MP_Failing r \<Rightarrow> (mp_terminate (flushAndFailAll p r))\<lparr>mp_phase := MP_Closing (Some r)\<rparr>
      | MP_Flushing \<Rightarrow> (mp_flush handle send p)\<lparr>mp_phase := MP_Closing None\<rparr>
      | MP_Closing v \<Rightarrow> (close_pending p)\<lparr>mp_fullyTerminated := True, mp_phase := MP_Exited v\<rparr>
      | MP_Exited v \<Rightarrow> p)"

section \<open>Runs\<close>

text \<open>
  A producer delivers messages it has just made: they are distinct, not seen before, and have an
  acknowledger and neither result yet.
\<close>

definition fresh_messages :: "'a messageProcessor \<Rightarrow> msg_ref list \<Rightarrow> bool" where
  "fresh_messages p ms \<longleftrightarrow> distinct ms \<and> ms \<noteq> [] \<and> set ms \<inter> set (mp_received p) = {} \<and>
     (\<forall>m \<in> set ms. open_msg (pv_heap (mp_env p) m))"

inductive mp_step :: "'a messageProcessor \<Rightarrow> 'a messageProcessor \<Rightarrow> bool" where
  round: "mp_phase p = MP_Loop \<Longrightarrow> tame handle \<Longrightarrow> mp_step p (mp_round handle send answer p)"
| unwind: "mp_phase p \<noteq> MP_Loop \<Longrightarrow> tame handle \<Longrightarrow> mp_step p (mp_unwind handle send p)"
| respond: "fresh_messages p ms \<Longrightarrow> mp_respond p ms = Inr p' \<Longrightarrow> mp_step p p'"
| enqueue: "ms \<in> set (mp_arriving p) \<Longrightarrow> mp_step p (mp_enqueue p ms)"
| forget: "r < length (mp_requests p) \<Longrightarrow> isClosed (request_at p r) \<or> mp_panicked p \<Longrightarrow> mp_step p (mp_forget p producer r)"
| pause: "mp_step p (mp_pause p)"
| resume: "mp_step p (mp_resume p)"
| terminate: "mp_step p (mp_terminate p)"
| setProducers: "mp_step p (mp_setProducers p producers)"

section \<open>What the operations on requests leave alone\<close>

definition same_work :: "'a messageProcessor \<Rightarrow> 'a messageProcessor \<Rightarrow> bool" where
  "same_work p p' \<longleftrightarrow> mp_messages p' = mp_messages p \<and> mp_arriving p' = mp_arriving p \<and> mp_env p' = mp_env p \<and>
     mp_received p' = mp_received p \<and> mp_enqueued p' = mp_enqueued p \<and> mp_taken p' = mp_taken p \<and>
     mp_failed p' = mp_failed p \<and> mp_dropped p' = mp_dropped p \<and> mp_phase p' = mp_phase p \<and>
     mp_batchers p' = mp_batchers p \<and> mp_config p' = mp_config p \<and> mp_panicked p' = mp_panicked p"

lemma same_work_refl [simp]: "same_work p p" by (simp add: same_work_def)

lemma same_work_foldl: "(\<And>p x. same_work p (f p x)) \<Longrightarrow> same_work p (foldl f p xs)"
  by (induction xs arbitrary: p) (simp, force simp: same_work_def)

lemma same_work_ops [simp]:
  "same_work p (mp_request answer p)" "same_work p (close_at p r)" "same_work p (close_pending p)"
  "same_work p (mp_pause p)" "same_work p (mp_resume p)" "same_work p (mp_terminate p)"
  "same_work p (mp_setProducers p ps)" "same_work p (mp_forget p i r)"
proof -
  have one: "same_work p (mp_request_one answer p i)" for p :: "'a messageProcessor" and i
    by (auto simp: same_work_def mp_request_one_def Let_def split: option.splits)
  show "same_work p (mp_request answer p)" unfolding mp_request_def by (rule same_work_foldl) (rule one)
  show ca: "same_work p (close_at p r)" for p :: "'a messageProcessor" and r
    by (auto simp: same_work_def close_at_def split: sum.splits)
  show cp: "same_work p (close_pending p)" for p :: "'a messageProcessor"
    unfolding close_pending_def by (rule same_work_foldl) (rule ca)
  show "same_work p (mp_pause p)" using cp [of "p\<lparr>mp_paused := True\<rparr>"] by (simp add: mp_pause_def same_work_def)
  show "same_work p (mp_forget p i r)" using ca [of p r] by (simp add: mp_forget_def same_work_def)
qed (simp_all add: same_work_def mp_resume_def mp_terminate_def mp_setProducers_def)

section \<open>Accounting\<close>

definition unresolved :: "'a messageProcessor \<Rightarrow> msg_ref list" where
  "unresolved p = drop (mp_failed p) (q_queue (mp_messages p)) @ concat (mp_arriving p)"

definition running :: "mp_phase \<Rightarrow> bool" where
  "running ph \<longleftrightarrow> (\<forall>v. ph \<noteq> MP_Closing v \<and> ph \<noteq> MP_Exited v)"

definition mp_inv :: "'a messageProcessor \<Rightarrow> bool" where
  "mp_inv p \<longleftrightarrow>
     distinct (mp_received p) \<and>
     mset (settled (mp_env p)) + mset (mp_dropped p) + mset (unresolved p) = mset (mp_received p) \<and>
     (\<forall>m \<in> set (unresolved p). open_msg (pv_heap (mp_env p) m)) \<and>
     mp_failed p \<le> length (q_queue (mp_messages p)) \<and>
     (running (mp_phase p) \<longrightarrow> mp_failed p = 0 \<and> mp_dropped p = []) \<and>
     (\<forall>name. subseq (sent_to (mp_env p) name) (mp_taken p)) \<and>
     prefix (mp_taken p) (mp_enqueued p) \<and>
     (mp_phase p = MP_Loop \<or> mp_phase p = MP_Flushing \<longrightarrow> mp_enqueued p = mp_taken p @ q_queue (mp_messages p))"

lemma mp_inv_new: "mp_inv (newMessageProcessor i c ps bs h)"
  by (simp add: mp_inv_def newMessageProcessor_def settled_def acked_msgs_def unresolved_def sent_to_def)

lemma mp_inv_same: "mp_inv p \<Longrightarrow> same_work p p' \<Longrightarrow> mp_inv p'"
  by (simp add: mp_inv_def same_work_def unresolved_def)

lemma mp_inv_phase:
  assumes "mp_inv p" and "same_work p p'" and "running ph \<Longrightarrow> running (mp_phase p)"
    and "ph = MP_Loop \<or> ph = MP_Flushing \<Longrightarrow> mp_phase p = MP_Loop \<or> mp_phase p = MP_Flushing"
  shows "mp_inv (p'\<lparr>mp_phase := ph\<rparr>)"
  using assms by (auto simp: mp_inv_def same_work_def unresolved_def)

lemma mp_inv_unresolved:
  assumes "mp_inv p"
  shows "distinct (unresolved p)" and "distinct (settled (mp_env p))"
    and "set (settled (mp_env p)) \<inter> set (unresolved p) = {}"
proof -
  have "mset (settled (mp_env p) @ mp_dropped p @ unresolved p) = mset (mp_received p)"
    using assms by (simp add: mp_inv_def add.assoc)
  then have "distinct (settled (mp_env p) @ mp_dropped p @ unresolved p)"
    using assms by (metis mset_eq_imp_distinct_iff mp_inv_def)
  then show "distinct (unresolved p)" and "distinct (settled (mp_env p))"
    and "set (settled (mp_env p)) \<inter> set (unresolved p) = {}" by auto
qed

text \<open>Processing a part of what is unresolved; what is not in the slice stays open.\<close>

lemma process_inv:
  assumes inv: "mp_inv p" and f: "mp_failed p = 0" "mp_dropped p = []" and tame: "tame handle"
    and q: "q_queue (mp_messages p) = ms @ rest"
    and pr: "process handle bs send (mp_env p) ms = (r, e)"
  shows "r = Inr ms' \<Longrightarrow> mset (settled e) + mset (rest @ concat (mp_arriving p)) = mset (mp_received p)"
    and "r = Inl s \<Longrightarrow> mset (settled e) + mset (filter (\<lambda>m. \<not> ms_acked (pv_heap e m)) ms) +
      mset (rest @ concat (mp_arriving p)) = mset (mp_received p)"
    and "\<forall>m \<in> set (rest @ concat (mp_arriving p)). open_msg (pv_heap e m)"
    and "r = Inl s \<Longrightarrow> \<forall>m \<in> set ms. \<not> ms_acked (pv_heap e m) \<longrightarrow> open_msg (pv_heap e m)"
    and "r = Inr ms' \<Longrightarrow> subseq (sent_to e name) (mp_taken p @ ms)"
    and "r = Inl s \<Longrightarrow> subseq (sent_to e name) (mp_taken p)"
proof -
  have un: "unresolved p = ms @ rest @ concat (mp_arriving p)" using f(1) q by (simp add: unresolved_def)
  have d: "distinct ms" and disj: "set ms \<inter> set (rest @ concat (mp_arriving p)) = {}"
    using mp_inv_unresolved(1) [OF inv] unfolding un by auto
  have op: "\<forall>m \<in> set (ms @ rest @ concat (mp_arriving p)). open_msg (pv_heap (mp_env p) m)"
    using inv unfolding mp_inv_def un by blast
  have acc: "mset (settled (mp_env p)) + mset ms + mset (rest @ concat (mp_arriving p)) = mset (mp_received p)"
    using inv f(2) unfolding mp_inv_def un by (simp add: add.assoc)
  have op': "\<forall>m \<in> set ms. open_msg (pv_heap (mp_env p) m)" using op by simp
  note S = process_settles [OF tame d op' pr]
  show "r = Inr ms' \<Longrightarrow> mset (settled e) + mset (rest @ concat (mp_arriving p)) = mset (mp_received p)"
    using S(2) acc by simp
  show "r = Inl s \<Longrightarrow> mset (settled e) + mset (filter (\<lambda>m. \<not> ms_acked (pv_heap e m)) ms) +
      mset (rest @ concat (mp_arriving p)) = mset (mp_received p)"
    using S(3) acc by simp
  show "\<forall>m \<in> set (rest @ concat (mp_arriving p)). open_msg (pv_heap e m)"
  proof
    fix m assume m: "m \<in> set (rest @ concat (mp_arriving p))"
    with disj S(1) have "same_private (pv_heap (mp_env p) m) (pv_heap e m)" by blast
    with op m show "open_msg (pv_heap e m)" using private_open by (metis Un_iff set_append)
  qed
  show "r = Inl s \<Longrightarrow> \<forall>m \<in> set ms. \<not> ms_acked (pv_heap e m) \<longrightarrow> open_msg (pv_heap e m)"
    using S(3) by simp
  obtain xs where xs: "subseq xs ms" "sent_to e name = sent_to (mp_env p) name @ xs" "\<forall>s. r = Inl s \<longrightarrow> xs = []"
    using process_order [OF tame d op' pr] by blast
  have old: "subseq (sent_to (mp_env p) name) (mp_taken p)" using inv by (simp add: mp_inv_def)
  show "subseq (sent_to e name) (mp_taken p @ ms)" unfolding xs(2) by (rule list_emb_append_mono [OF old xs(1)])
  show "r = Inl s \<Longrightarrow> subseq (sent_to e name) (mp_taken p)" using old xs(2,3) by simp
qed

text \<open>The round after the request.\<close>

lemma mp_round_eq:
  assumes "\<not> mp_terminated p" and "\<not> mp_paused p"
    and "p1 = (if queue_len (mp_messages p) < mc_MinDemand (mp_config p) then mp_request answer p else p)"
  shows "mp_round handle send answer p =
      (case dequeue (mp_messages p1) (min (mc_MaxDemand (mp_config p1) - mc_MinDemand (mp_config p1)) (queue_len (mp_messages p1))) of
         Inl _ \<Rightarrow> p1\<lparr>mp_phase := MP_Recovered slice_panic\<rparr>
       | Inr ((messages, ok), q) \<Rightarrow>
           if \<not> ok then p1\<lparr>mp_messages := q\<rparr>
           else (case process handle (mp_batchers p1) send (mp_env p1) messages of
                   (Inr _, e) \<Rightarrow> p1\<lparr>mp_messages := q, mp_env := e, mp_taken := mp_taken p1 @ messages\<rparr>
                 | (Inl r, e) \<Rightarrow>
                     p1\<lparr>mp_messages := prepend q (filter (\<lambda>m. \<not> ms_acked (pv_heap e m)) messages),
                       mp_env := e, mp_phase := MP_Recovered r\<rparr>))"
proof -
  have "mp_terminated p = False" and "mp_paused p = False" using assms by simp_all
  then show ?thesis unfolding mp_round_def Let_def assms(3) by (simp only: if_False)
qed

lemma mp_inv_round:
  assumes inv: "mp_inv p" and ph: "mp_phase p = MP_Loop" and tame: "tame handle"
  shows "mp_inv (mp_round handle send answer p)"
proof (cases "mp_terminated p \<or> mp_paused p")
  case True
  then show ?thesis using inv ph mp_inv_phase [OF inv same_work_refl, of MP_Flushing] by (auto simp: mp_round_def running_def)
next
  case False
  define p1 where "p1 = (if queue_len (mp_messages p) < mc_MinDemand (mp_config p) then mp_request answer p else p)"
  have same: "same_work p p1" by (simp add: p1_def)
  have inv1: "mp_inv p1" by (rule mp_inv_same [OF inv same])
  have ph1: "mp_phase p1 = MP_Loop" using same ph by (simp add: same_work_def)
  then have f: "mp_failed p1 = 0" "mp_dropped p1 = []" and en: "mp_enqueued p1 = mp_taken p1 @ q_queue (mp_messages p1)"
    using inv1 by (auto simp: mp_inv_def running_def)
  let ?total = "min (mc_MaxDemand (mp_config p1) - mc_MinDemand (mp_config p1)) (queue_len (mp_messages p1))"
  have nt: "\<not> mp_terminated p" "\<not> mp_paused p" using False by simp_all
  note rd = mp_round_eq [OF nt p1_def, of handle send]
  show ?thesis
  proof (cases "dequeue (mp_messages p1) ?total")
    case (Inl e)
    then show ?thesis unfolding rd using mp_inv_phase [OF inv1 same_work_refl, of "MP_Recovered slice_panic"] ph1
      by (simp add: running_def)
  next
    case (Inr w)
    obtain ms ok q where w: "w = ((ms, ok), q)" by (metis prod.collapse)
    have qs: "q_queue (mp_messages p1) = ms @ q_queue q" and ok: "ok \<longleftrightarrow> ms \<noteq> []"
      using cq.deq_splits cq.deq_ok Inr w by blast+
    show ?thesis
    proof (cases ok)
      case False
      then show ?thesis using inv1 qs ok unfolding rd by (simp add: Inr w mp_inv_def unresolved_def)
    next
      case True
      obtain r e where pr: "process handle (mp_batchers p1) send (mp_env p1) ms = (r, e)" by fastforce
      note P = process_inv [OF inv1 f tame qs pr]
      show ?thesis
      proof (cases r)
        case (Inr ms')
        show ?thesis unfolding rd
          using P(1,5) [OF Inr] P(3) inv1 f en qs ph1 Inr True
          by (simp add: \<open>dequeue (mp_messages p1) ?total = Inr w\<close> w pr mp_inv_def unresolved_def)
      next
        case (Inl s)
        have "mp_round handle send answer p =
            p1\<lparr>mp_messages := prepend q (filter (\<lambda>m. \<not> ms_acked (pv_heap e m)) ms), mp_env := e, mp_phase := MP_Recovered s\<rparr>"
          unfolding rd using True by (simp add: \<open>dequeue (mp_messages p1) ?total = Inr w\<close> w pr Inl)
        then show ?thesis using P(2,4,6) [OF Inl] P(3) inv1 f
          by (auto simp: mp_inv_def unresolved_def ac_simps)
      qed
    qed
  qed
qed

lemma mp_inv_fail:
  assumes inv: "mp_inv p" and ph: "mp_phase p = MP_Failing r"
  shows "mp_inv ((flushAndFailAll p r)\<lparr>mp_phase := MP_Closing (Some r)\<rparr>)"
proof (cases "q_queue (mp_messages p)")
  case Nil
  then show ?thesis using mp_inv_phase [OF inv same_work_refl, of "MP_Closing (Some r)"]
    by (simp add: flushAndFailAll_def queue_toSlice_def running_def)
next
  case (Cons m ms)
  from inv ph have f: "mp_failed p = 0" by (simp add: mp_inv_def running_def)
  then have "open_msg (pv_heap (mp_env p) m)" using inv Cons by (simp add: mp_inv_def unresolved_def)
  then obtain a where "ms_ack (pv_heap (mp_env p) m) = Some a" by (auto simp: open_msg_def)
  with inv f Cons show ?thesis
    by (auto simp: flushAndFailAll_def queue_toSlice_def mp_inv_def unresolved_def settled_def acked_msgs_def
        running_def sent_to_def ac_simps)
qed

lemma mp_inv_flush:
  assumes inv: "mp_inv p" and ph: "mp_phase p = MP_Flushing" and tame: "tame handle"
  shows "mp_inv ((mp_flush handle send p)\<lparr>mp_phase := MP_Closing None\<rparr>)"
proof (cases "q_queue (mp_messages p)")
  case Nil
  then have "(mp_flush handle send p)\<lparr>mp_phase := MP_Closing None\<rparr> = (p\<lparr>mp_messages := (mp_messages p)\<lparr>q_queue := []\<rparr>\<rparr>)\<lparr>mp_phase := MP_Closing None\<rparr>"
    by (simp add: mp_flush_def dequeueAll_def)
  with inv Nil show ?thesis by (simp add: mp_inv_def unresolved_def running_def)
next
  case (Cons m ms)
  from inv ph have f: "mp_failed p = 0" "mp_dropped p = []" and en: "mp_enqueued p = mp_taken p @ q_queue (mp_messages p)"
    by (auto simp: mp_inv_def running_def)
  have q: "q_queue (mp_messages p) = (m # ms) @ []" using Cons by simp
  obtain r e where pr: "process handle (mp_batchers p) send (mp_env p) (m # ms) = (r, e)" by fastforce
  note P = process_inv [OF inv f tame q pr]
  show ?thesis
  proof (cases r)
    case (Inr ms')
    show ?thesis using P(1,5) [OF Inr] P(3) inv f en Inr Cons
      by (simp add: mp_flush_def dequeueAll_def pr mp_inv_def unresolved_def running_def)
  next
    case (Inl s)
    show ?thesis using P(2,4,6) [OF Inl] P(3) inv f Inl Cons
      by (simp add: mp_flush_def dequeueAll_def pr mp_inv_def unresolved_def running_def)
  qed
qed

lemma mp_inv_unwind:
  assumes inv: "mp_inv p" and tame: "tame handle"
  shows "mp_inv (mp_unwind handle send p)"
proof (cases "mp_phase p")
  case (MP_Recovered r)
  have "mp_inv (p\<lparr>mp_panicked := True\<rparr>)" using inv by (simp add: mp_inv_def unresolved_def)
  from mp_inv_phase [OF this same_work_refl, of "MP_Failing r"] MP_Recovered show ?thesis
    by (simp add: mp_unwind_def running_def)
next
  case (MP_Failing r)
  from mp_inv_fail [OF inv this] have "mp_inv ((mp_terminate (flushAndFailAll p r))\<lparr>mp_phase := MP_Closing (Some r)\<rparr>)"
    by (rule mp_inv_same) (simp add: same_work_def mp_terminate_def)
  then show ?thesis by (simp add: mp_unwind_def MP_Failing)
next
  case MP_Flushing
  then show ?thesis using mp_inv_flush [OF inv _ tame] by (simp add: mp_unwind_def)
next
  case (MP_Closing v)
  have "same_work p ((close_pending p)\<lparr>mp_fullyTerminated := True\<rparr>)"
    using same_work_ops(3) [of p] by (simp add: same_work_def)
  from mp_inv_phase [OF inv this, of "MP_Exited v"] show ?thesis
    by (simp add: mp_unwind_def MP_Closing running_def)
qed (use inv in \<open>simp_all add: mp_unwind_def\<close>)

lemma mset_concat_remove1: "x \<in> set xss \<Longrightarrow> mset (concat xss) = mset x + mset (concat (remove1 x xss))"
  by (induction xss) auto

lemma mp_inv_respond:
  assumes inv: "mp_inv p" and fr: "fresh_messages p ms" and r: "mp_respond p ms = Inr p'"
  shows "mp_inv p'"
proof -
  have acc: "mset (settled (mp_env p)) + mset (mp_dropped p) + mset (unresolved p) = mset (mp_received p)"
    using inv by (simp add: mp_inv_def)
  have d: "distinct (mp_received p @ ms)" using inv fr by (auto simp: mp_inv_def fresh_messages_def)
  show ?thesis
  proof (cases "mp_panicked p")
    case False
    then have p': "p' = p\<lparr>mp_arriving := mp_arriving p @ [ms], mp_received := mp_received p @ ms\<rparr>"
      using r by (simp add: mp_respond_def)
    have un: "unresolved p' = unresolved p @ ms" by (simp add: p' unresolved_def)
    have "mset (settled (mp_env p')) + mset (mp_dropped p') + mset (unresolved p') = mset (mp_received p')"
      unfolding un using acc by (simp add: p' flip: add.assoc)
    then show ?thesis using inv d fr unfolding mp_inv_def un by (auto simp: p' fresh_messages_def)
  next
    case True
    then obtain a where p': "p' = p\<lparr>mp_env := (mp_env p)\<lparr>pv_acks := pv_acks (mp_env p) @
          call_ack (Some a) ms (Some (''message processor '' @ mp_id p @ '' panicked''))\<rparr>, mp_received := mp_received p @ ms\<rparr>"
      using r by (auto simp: mp_respond_def go_bind_Inr_iff split: option.splits)
    have "mset (settled (mp_env p')) = mset (settled (mp_env p)) + mset ms"
      by (simp add: p' settled_def acked_msgs_def)
    then have "mset (settled (mp_env p')) + mset (mp_dropped p') + mset (unresolved p') = mset (mp_received p')"
      using acc by (simp add: p' unresolved_def ac_simps)
    then show ?thesis using inv d unfolding mp_inv_def by (simp add: p' unresolved_def sent_to_def)
  qed
qed

lemma mp_inv_enqueue:
  assumes inv: "mp_inv p" and ms: "ms \<in> set (mp_arriving p)"
  shows "mp_inv (mp_enqueue p ms)"
proof -
  have f: "mp_failed p \<le> length (q_queue (mp_messages p))" using inv by (simp add: mp_inv_def)
  have "mset (unresolved (mp_enqueue p ms)) = mset (unresolved p)"
    using f mset_concat_remove1 [OF ms] by (simp add: unresolved_def mp_enqueue_def)
  moreover from this have "set (unresolved (mp_enqueue p ms)) = set (unresolved p)" by (rule mset_eq_setD)
  ultimately show ?thesis using inv unfolding mp_inv_def by (auto simp: mp_enqueue_def prefix_def)
qed

lemma mp_inv_step:
  assumes inv: "mp_inv p" and st: "mp_step p p'"
  shows "mp_inv p'"
  using st
proof cases
  case (round handle send answer)
  then show ?thesis using mp_inv_round [OF inv] by simp
next
  case (unwind handle send)
  then show ?thesis using mp_inv_unwind [OF inv] by simp
next
  case (respond ms)
  then show ?thesis using mp_inv_respond [OF inv] by simp
next
  case (enqueue ms)
  then show ?thesis using mp_inv_enqueue [OF inv] by simp
qed (simp_all add: mp_inv_same [OF inv])

lemma mp_inv_reaches: "reaches mp_step (newMessageProcessor i c ps bs h) p \<Longrightarrow> mp_inv p"
  by (erule reaches_invariant) (auto intro: mp_inv_new mp_inv_step)

text \<open>
  Claim C16. In every run of a message processor, with any handler, any answers of batchers and
  producers, and any pauses, panics and terminations: every message that a producer delivered is
  in exactly one place, exactly once. It is settled (acknowledged, or accepted by a batcher, or
  skipped because it names a batcher that does not exist), or left over by a panic inside
  \<open>flush\<close>, or still waiting. So no message is acknowledged twice, or acknowledged by the worker
  and sent on; and nothing is left over while the loop runs.
\<close>

theorem processor_accounting:
  assumes "reaches mp_step (newMessageProcessor i config producers batchers h) p"
  shows "mset (settled (mp_env p)) + mset (mp_dropped p) + mset (unresolved p) = mset (mp_received p) \<and>
    distinct (settled (mp_env p)) \<and> set (settled (mp_env p)) \<inter> set (unresolved p) = {} \<and>
    (running (mp_phase p) \<longrightarrow> mp_dropped p = [])"
  using mp_inv_reaches [OF assms] mp_inv_unresolved [of p] by (simp add: mp_inv_def)

text \<open>
  Claim C27. Each batcher gets its messages in the order in which they entered the processor's
  queue: what the processor has sent to a batcher is a subsequence of what it has processed, and
  that is a prefix of what was enqueued (a panic puts messages back only to fail them).
\<close>

theorem processor_order:
  assumes "reaches mp_step (newMessageProcessor i config producers batchers h) p"
  shows "subseq (sent_to (mp_env p) name) (mp_taken p) \<and> prefix (mp_taken p) (mp_enqueued p) \<and>
    (mp_phase p = MP_Loop \<longrightarrow> mp_enqueued p = mp_taken p @ q_queue (mp_messages p))"
  using mp_inv_reaches [OF assms] by (simp add: mp_inv_def)

text \<open>
  When the handler has panicked, \<open>flushAndFailAll\<close> acknowledges everything in the queue,
  the unacknowledged part of the slice in work included, with one call that carries the panic;
  only slices that are received but not enqueued yet remain.
\<close>

theorem panic_fails_queue:
  assumes "reaches mp_step (newMessageProcessor i config producers batchers h) p"
    and "mp_phase p = MP_Failing r" and "q_queue (mp_messages p) = m # ms"
  shows "\<exists>a. pv_acks (mp_env (mp_unwind handle send p)) = pv_acks (mp_env p) @
      [\<lparr>ac_by = a, ac_msgs = m # ms, ac_err = Some (''message processor '' @ mp_id p @ '' panicked '' @ r)\<rparr>] \<and>
    ms_ack (pv_heap (mp_env p) m) = Some a \<and>
    unresolved (mp_unwind handle send p) = concat (mp_arriving p) \<and>
    mp_terminated (mp_unwind handle send p)"
proof -
  have inv: "mp_inv p" by (rule mp_inv_reaches [OF assms(1)])
  with assms(2) have "mp_failed p = 0" by (simp add: mp_inv_def running_def)
  then have "open_msg (pv_heap (mp_env p) m)" using inv assms(3) by (simp add: mp_inv_def unresolved_def)
  then obtain a where "ms_ack (pv_heap (mp_env p) m) = Some a" by (auto simp: open_msg_def)
  then show ?thesis using assms(2,3)
    by (simp add: mp_unwind_def flushAndFailAll_def queue_toSlice_def mp_terminate_def unresolved_def)
qed

section \<open>The demand window\<close>

text \<open>
  A round takes at most \<open>MaxDemand - MinDemand\<close> messages. If the two are equal (after the
  defaults) a processor never processes anything, whatever is queued; if \<open>MaxDemand\<close> is smaller,
  each round panics, so that every processor that replaces it panics as well.
\<close>

theorem demand_window:
  assumes "\<not> mp_terminated p" and "\<not> mp_paused p"
  shows "(mc_MaxDemand (mp_config p) < mc_MinDemand (mp_config p) \<longrightarrow>
      mp_phase (mp_round handle send answer p) = MP_Recovered slice_panic) \<and>
    (mc_MaxDemand (mp_config p) = mc_MinDemand (mp_config p) \<longrightarrow>
      mp_env (mp_round handle send answer p) = mp_env p \<and> mp_messages (mp_round handle send answer p) = mp_messages p \<and>
      mp_phase (mp_round handle send answer p) = mp_phase p)"
proof -
  define p1 where "p1 = (if queue_len (mp_messages p) < mc_MinDemand (mp_config p) then mp_request answer p else p)"
  have same: "same_work p p1" by (simp add: p1_def)
  then have c: "mp_config p1 = mp_config p" "mp_messages p1 = mp_messages p" "mp_env p1 = mp_env p" "mp_phase p1 = mp_phase p"
    by (simp_all add: same_work_def)
  note rd = mp_round_eq [OF assms p1_def, of handle send, unfolded c(1,2)]
  show ?thesis
  proof (intro conjI impI)
    assume "mc_MaxDemand (mp_config p) < mc_MinDemand (mp_config p)"
    then show "mp_phase (mp_round handle send answer p) = MP_Recovered slice_panic"
      by (simp add: rd Let_def dequeue_negative)
  next
    assume eq: "mc_MaxDemand (mp_config p) = mc_MinDemand (mp_config p)"
    have "dequeue (mp_messages p) 0 = Inr (([], False), mp_messages p)" by (simp add: dequeue_eq)
    then have "mp_round handle send answer p = p1\<lparr>mp_messages := mp_messages p\<rparr>" using eq by (simp add: rd Let_def queue_len_def)
    then show "mp_env (mp_round handle send answer p) = mp_env p"
      and "mp_messages (mp_round handle send answer p) = mp_messages p"
      and "mp_phase (mp_round handle send answer p) = mp_phase p" by (simp_all add: c)
  qed
qed

section \<open>Concrete runs\<close>

definition heap_acked :: "unit heap" where
  "heap_acked = (\<lambda>_. (NewMessage () None)\<lparr>ms_ack := Some 7\<rparr>)"

text \<open>A handler that panics on message 0 and accepts every other one.\<close>

definition fragile :: "unit handler" where
  "fragile h m = (if m = 0 then Inl ''x'' else Inr (Some m, None), h)"

lemma fragile_tame: "tame fragile"
  by (simp add: tame_def fragile_def)

definition mp_cfg0 :: messageProcessorConfig where
  "mp_cfg0 = \<lparr>mc_Concurrency = 1, mc_MinDemand = 0, mc_MaxDemand = 0\<rparr>"

definition mp0 :: "unit messageProcessor" where
  "mp0 = newMessageProcessor ''m'' mp_cfg0 [] [] heap_acked"

definition mp_queued :: "unit messageProcessor" where
  "mp_queued = mp_enqueue (projr (mp_respond mp0 [0])) [0]"

definition mp_round0 :: "unit messageProcessor \<Rightarrow> unit messageProcessor" where
  "mp_round0 = mp_round fragile (\<lambda>_ _. True) (\<lambda>_. True)"

definition mp_unwind0 :: "unit messageProcessor \<Rightarrow> unit messageProcessor" where
  "mp_unwind0 = mp_unwind fragile (\<lambda>_ _. True)"

definition mp_failing0 :: "unit messageProcessor" where
  "mp_failing0 = mp_unwind0 (mp_round0 (projr (mp_respond mp_queued [1])))"

definition mp_late :: "unit messageProcessor" where
  "mp_late = mp_enqueue (mp_unwind0 (mp_unwind0 mp_failing0)) [1]"

definition mp_flushed :: "unit messageProcessor" where
  "mp_flushed = mp_unwind0 (mp_unwind0 (mp_round0 (mp_terminate mp_queued)))"

lemma mp0_simps: "mp_phase mp0 = MP_Loop"
  by (simp add: mp0_def newMessageProcessor_def)

lemma step_respond:
  assumes "reaches mp_step p0 p" and "fresh_messages p ms" and "\<not> mp_panicked p"
  shows "reaches mp_step p0 (projr (mp_respond p ms))"
  by (rule reaches.step [OF assms(1) mp_step.respond [OF assms(2)]]) (simp add: mp_respond_def assms(3))

lemma mp_queued_reached: "reaches mp_step mp0 mp_queued"
  unfolding mp_queued_def
proof (rule reaches.step [OF step_respond [OF reaches.start] mp_step.enqueue])
  show "fresh_messages mp0 [0]"
    by (simp add: fresh_messages_def mp0_def newMessageProcessor_def heap_acked_def open_msg_def NewMessage_def)
  show "\<not> mp_panicked mp0" by (simp add: mp0_def newMessageProcessor_def)
  show "[0] \<in> set (mp_arriving (projr (mp_respond mp0 [0])))" by code_simp
qed

lemma step_round0: "reaches mp_step p0 p \<Longrightarrow> mp_phase p = MP_Loop \<Longrightarrow> reaches mp_step p0 (mp_round0 p)"
  unfolding mp_round0_def by (erule reaches.step) (rule mp_step.round [OF _ fragile_tame])

lemma step_unwind0: "reaches mp_step p0 p \<Longrightarrow> mp_phase p \<noteq> MP_Loop \<Longrightarrow> reaches mp_step p0 (mp_unwind0 p)"
  unfolding mp_unwind0_def by (erule reaches.step) (rule mp_step.unwind [OF _ fragile_tame])

lemma mp_failing0_reached: "reaches mp_step mp0 mp_failing0"
  unfolding mp_failing0_def
proof (rule step_unwind0 [OF step_round0 [OF step_respond [OF mp_queued_reached]]])
  show "fresh_messages mp_queued [1]"
    by (simp add: fresh_messages_def) (intro conjI; code_simp)
qed code_simp+

lemma mp_late_reached: "reaches mp_step mp0 mp_late"
  unfolding mp_late_def
  by (rule reaches.step [OF step_unwind0 [OF step_unwind0 [OF mp_failing0_reached]] mp_step.enqueue]) code_simp+

lemma mp_flushed_reached: "reaches mp_step mp0 mp_flushed"
  unfolding mp_flushed_def
  by (rule step_unwind0 [OF step_unwind0 [OF step_round0 [OF reaches.step [OF mp_queued_reached mp_step.terminate]]]]) code_simp+

text \<open>
  Two ways in which a message processor loses messages. A response goroutine tests
  \<open>_panicked\<close> before it enqueues: when the handler panics in between, message 1 is enqueued after
  \<open>flushAndFailAll\<close> and the processor is gone with the message neither acknowledged nor sent. And
  a handler that panics while \<open>flush\<close> runs at shutdown is recovered without failing anything:
  message 0 is dropped.
\<close>

theorem processor_loses_messages:
  "reaches mp_step mp0 mp_late \<and> mp_phase mp_late = MP_Exited (Some ''x'') \<and> mp_arriving mp_late = [] \<and>
     mp_received mp_late = [0, 1] \<and> settled (mp_env mp_late) = [0] \<and> unresolved mp_late = [1] \<and>
   reaches mp_step mp0 mp_flushed \<and> mp_phase mp_flushed = MP_Exited None \<and>
     mp_received mp_flushed = [0] \<and> settled (mp_env mp_flushed) = [] \<and> mp_dropped mp_flushed = [0]"
proof -
  have "(mp_phase mp_late, mp_arriving mp_late, mp_received mp_late, settled (mp_env mp_late), unresolved mp_late) =
      (MP_Exited (Some ''x''), [], [0, 1], [0], [1])" by code_simp
  moreover have "(mp_phase mp_flushed, mp_received mp_flushed, settled (mp_env mp_flushed), mp_dropped mp_flushed) =
      (MP_Exited None, [0], [], [0])" by code_simp
  ultimately show ?thesis using mp_late_reached mp_flushed_reached by simp
qed

text \<open>Batchers \<open>b\<close>, no acknowledger, and a handler that fails.\<close>

definition heap_silent :: "unit heap" where
  "heap_silent = (\<lambda>_. (NewMessage () None)\<lparr>ms_Batcher := ''b''\<rparr>)"

definition failing :: "unit handler" where
  "failing h m = (Inr (Some m, Some ''bad''), h)"

definition silent_env :: "unit mp_env" where
  "silent_env = \<lparr>pv_heap = heap_silent, pv_acks = [], pv_sent = [], pv_skipped = []\<rparr>"

text \<open>
  Without an acknowledger (\<open>ack\<close> is nil; the README promises a no-op one) a test for nil
  is missing in one place and too strong in another: a slice that arrives after a panic is failed
  by calling nil, which panics outside of any \<open>recover\<close>; and a message whose handler returned an
  error is not marked as failed, so it is sent to its batcher like a successful one.
\<close>

theorem missing_acknowledger:
  "(mp_respond p (m # ms) = Inl NilCall) = (mp_panicked p \<and> ms_ack (pv_heap (mp_env p) m) = None) \<and>
   tame failing \<and>
   pv_sent (snd (process failing [''b''] (\<lambda>_ _. True) silent_env [0])) = [(''b'', [0])]"
proof -
  have "tame failing" by (simp add: tame_def failing_def)
  moreover have "pv_sent (snd (process failing [''b''] (\<lambda>_ _. True) silent_env [0])) = [(''b'', [0])]" by code_simp
  ultimately show ?thesis by (auto simp: mp_respond_def split: option.splits)
qed

section \<open>The properties at concrete runs\<close>

theorem processor_accounting_witness:
  "mset (mp_received mp_late) = {#0, 1#} \<and> set (settled (mp_env mp_late)) \<inter> set (unresolved mp_late) = {}"
proof -
  have "(settled (mp_env mp_late), mp_dropped mp_late, unresolved mp_late) = ([0], [], [1])" by code_simp
  with processor_accounting [OF mp_late_reached [unfolded mp0_def]] show ?thesis by (simp add: add_mset_commute)
qed

theorem panic_fails_queue_witness:
  "unresolved (mp_unwind fragile (\<lambda>_ _. True) mp_failing0) = [1] \<and> mp_terminated (mp_unwind fragile (\<lambda>_ _. True) mp_failing0)"
proof -
  have q: "mp_phase mp_failing0 = MP_Failing ''x''" "q_queue (mp_messages mp_failing0) = [0]"
    and a: "concat (mp_arriving mp_failing0) = [1]" by code_simp+
  from panic_fails_queue [OF mp_failing0_reached [unfolded mp0_def] q, of fragile "\<lambda>_ _. True"]
  show ?thesis unfolding a by blast
qed

definition mp_batched :: "unit messageProcessor" where
  "mp_batched = mp_round0 (mp_enqueue (projr (mp_respond (newMessageProcessor ''m'' mp_cfg0 [] [''default''] heap_acked) [2, 1])) [2, 1])"

theorem processor_order_witness:
  "sent_to (mp_env mp_batched) ''default'' = [2, 1] \<and> subseq [2, 1] (mp_taken mp_batched)"
proof -
  let ?p = "newMessageProcessor ''m'' mp_cfg0 [] [''default''] heap_acked"
  have "reaches mp_step ?p mp_batched"
    unfolding mp_batched_def
  proof (rule step_round0 [OF reaches.step [OF step_respond [OF reaches.start] mp_step.enqueue]])
    show "fresh_messages ?p [2, 1]"
      by (simp add: fresh_messages_def newMessageProcessor_def heap_acked_def open_msg_def NewMessage_def)
    show "\<not> mp_panicked ?p" by (simp add: newMessageProcessor_def)
  qed code_simp+
  moreover have "sent_to (mp_env mp_batched) ''default'' = [2, 1]" by code_simp
  ultimately show ?thesis using processor_order [of _ _ _ _ _ mp_batched "''default''"] by metis
qed

theorem demand_window_witness:
  "mp_phase (mp_round fragile (\<lambda>_ _. True) (\<lambda>_. True)
     (newMessageProcessor ''m'' \<lparr>mc_Concurrency = 1, mc_MinDemand = 200, mc_MaxDemand = 0\<rparr> [] [] heap_acked)) =
   MP_Recovered slice_panic"
  using demand_window [of "newMessageProcessor ''m'' \<lparr>mc_Concurrency = 1, mc_MinDemand = 200, mc_MaxDemand = 0\<rparr> [] [] heap_acked"]
  by (simp add: newMessageProcessor_def mp_defaults_def defaultMaxDemand_def defaultMinDemand_def)

theorem processed_message_routed_witness:
  "ms_BatchKey (pv_heap (snd (process_one fragile True silent_env 1)) 1) = ''default'' \<and>
   ms_Batcher (pv_heap (snd (process_one fragile True silent_env 1)) 1) = ''b''"
proof -
  have p: "process_one fragile True silent_env 1 = (Inr 1, snd (process_one fragile True silent_env 1))"
    by (simp add: process_one_def fragile_def silent_env_def heap_silent_def Let_def route_fields_def NewMessage_def)
  from processed_message_routed [OF p] show ?thesis
    by (auto simp: fragile_def silent_env_def heap_silent_def NewMessage_def split: if_splits)
qed

end
