(* ===== verification/Producer.thy ===== *)
theory Producer
  imports Messages
begin

text \<open>
  \<open>broadway/producer.go\<close>: requests of message processors are collected, the client's producer is
  asked for as many messages as they demand, and the messages are handed to the requests, in
  order or by partition. Requests are shared with the processors that made them, so they live in
  a store and the producer holds references. The client's \<open>HandleDemand\<close> panics or returns
  messages; whether a consumer takes a reply or closes its request first is up to the consumer.
\<close>

section \<open>State\<close>

text \<open>
  Where the goroutine is: in its loop; in \<open>sendMessages\<close> or \<open>sendPartitionedMessages\<close> with what
  is left; in the deferred function; gone, with the value on \<open>_terminatedCh\<close>.
\<close>

datatype pr_phase =
    PR_Loop
  | PR_Sending "msg_ref list"
  | PR_Partitioned "(string \<times> msg_ref list) list"
  | PR_Unwinding "string option"
  | PR_Exited "string option"

record producerConfig =
  pc_Concurrency :: int
  pc_partitioned :: bool             \<comment> \<open>\<open>partitionKeyResolver\<close> is not nil\<close>

record 'a producer =
  pr_id :: string
  pr_config :: producerConfig
  pr_messageAck :: "nat option"
  pr_requests :: "nat concurrentSlice"
  pr_requestChan :: "nat list"       \<comment> \<open>received by the first goroutine, not yet added\<close>
  pr_terminated :: bool
  pr_idle :: bool
  pr_idleCh :: bool                  \<comment> \<open>the one slot of \<open>_idleCh\<close> is taken\<close>
  pr_phase :: pr_phase
  pr_count :: nat                    \<comment> \<open>\<open>len(messages)\<close> of the current round\<close>
  pr_reqs :: "nat \<Rightarrow> request"        \<comment> \<open>the store\<close>
  pr_heap :: "'a heap"
  pr_asked :: "(nat \<times> int) list"     \<comment> \<open>history: requests accepted, with their demand\<close>
  pr_demands :: "int list"           \<comment> \<open>history: arguments of \<open>HandleDemand\<close>\<close>
  pr_produced :: "(string \<times> msg_ref) list"          \<comment> \<open>history, with the partition key (empty without partitions)\<close>
  pr_sent :: "(nat \<times> string \<times> msg_ref list) list"    \<comment> \<open>history: request, partition key, messages\<close>
  pr_dropped :: "(string \<times> msg_ref list) list"       \<comment> \<open>history: given up\<close>

definition newProducer :: "string \<Rightarrow> producerConfig \<Rightarrow> nat option \<Rightarrow> (nat \<Rightarrow> request) \<Rightarrow> 'a heap \<Rightarrow> 'a producer" where
  "newProducer i config messageAck reqs h =
     \<lparr>pr_id = i,
      pr_config = (if pc_Concurrency config = 0 then config\<lparr>pc_Concurrency := 1\<rparr> else config),
      pr_messageAck = messageAck, pr_requests = newConcurrentSlice, pr_requestChan = [],
      pr_terminated = False, pr_idle = False, pr_idleCh = False, pr_phase = PR_Loop, pr_count = 0,
      pr_reqs = reqs, pr_heap = h, pr_asked = [], pr_demands = [], pr_produced = [], pr_sent = [], pr_dropped = []\<rparr>"

section \<open>Requests\<close>

text \<open>\<open>send\<close>: refused after \<open>terminate\<close>, otherwise received by the first goroutine, which adds it.\<close>

definition pr_send :: "'a producer \<Rightarrow> nat \<Rightarrow> bool \<times> 'a producer" where
  "pr_send p r =
     (if pr_terminated p then (False, p)
      else (True, p\<lparr>pr_requestChan := pr_requestChan p @ [r], pr_asked := pr_asked p @ [(r, rq_demand (pr_reqs p r))]\<rparr>))"

definition pr_add :: "'a producer \<Rightarrow> 'a producer" where
  "pr_add p = (case pr_requestChan p of [] \<Rightarrow> p
     | r # rs \<Rightarrow> p\<lparr>pr_requests := slice_add (pr_requests p) [r], pr_requestChan := rs\<rparr>)"

definition pr_terminate :: "'a producer \<Rightarrow> 'a producer" where
  "pr_terminate p = p\<lparr>pr_terminated := True\<rparr>"

definition pr_close :: "'a producer \<Rightarrow> nat \<Rightarrow> 'a producer" where
  "pr_close p r = (case request_close (pr_reqs p r) of Inl _ \<Rightarrow> p | Inr q \<Rightarrow> p\<lparr>pr_reqs := (pr_reqs p)(r := q)\<rparr>)"

definition pr_remove :: "'a producer \<Rightarrow> nat \<Rightarrow> 'a producer" where
  "pr_remove p r = p\<lparr>pr_requests := snd (slice_remove (pr_requests p) r)\<rparr>"

section \<open>Asking the client\<close>

definition pr_demand :: "'a producer \<Rightarrow> int" where
  "pr_demand p = foldl (\<lambda>total r. total + rq_demand (pr_reqs p r)) 0 (slice_toSlice (pr_requests p))"

text \<open>The loop over the messages: a missing acknowledger and the partition key are filled in.\<close>

definition stamp :: "nat option \<Rightarrow> ('a \<Rightarrow> string) option \<Rightarrow> 'a heap \<Rightarrow> msg_ref list \<Rightarrow> 'a heap" where
  "stamp messageAck resolver h ms =
     foldl (\<lambda>h m.
       let h = (if ms_ack (h m) = None then h(m := (h m)\<lparr>ms_ack := messageAck\<rparr>) else h)
       in case resolver of None \<Rightarrow> h | Some f \<Rightarrow> h(m := (h m)\<lparr>ms_partitionKey := f (ms_Payload (h m))\<rparr>)) h ms"

text \<open>
  One round of \<open>processRequests\<close> up to the sending. \<open>handle\<close> is the client's \<open>HandleDemand\<close> for this
  call, \<open>resolver\<close> the pipeline's \<open>PartitionBy\<close>; a second test of \<open>_terminated\<close> gives no messages.
\<close>

definition pr_round :: "(int \<Rightarrow> 'a heap \<Rightarrow> (string + msg_ref list) \<times> 'a heap) \<Rightarrow> ('a \<Rightarrow> string) option \<Rightarrow> 'a producer \<Rightarrow> 'a producer" where
  "pr_round handle resolver p =
     (if pr_terminated p then p\<lparr>pr_phase := PR_Unwinding None\<rparr>
      else if slice_len (pr_requests p) = 0 then p
      else
        (let p = p\<lparr>pr_requests := slice_filter (pr_requests p) (\<lambda>r. \<not> isClosed (pr_reqs p r))\<rparr>;
             totalDemand = pr_demand p
         in if totalDemand = 0 then p
            else (case handle totalDemand (pr_heap p) of
                    (Inl r, h) \<Rightarrow> p\<lparr>pr_heap := h, pr_demands := pr_demands p @ [totalDemand], pr_phase := PR_Unwinding (Some r)\<rparr>
                  | (Inr messages, h) \<Rightarrow>
                      (let h = stamp (pr_messageAck p) resolver h messages;
                           p = p\<lparr>pr_heap := h, pr_demands := pr_demands p @ [totalDemand], pr_count := length messages\<rparr>
                       in case resolver of
                            Some _ \<Rightarrow>
                              p\<lparr>pr_produced := pr_produced p @ map (\<lambda>m. (ms_partitionKey (h m), m)) messages,
                                pr_phase := PR_Partitioned (lo_GroupBy (\<lambda>m. ms_partitionKey (h m)) messages)\<rparr>
                          | None \<Rightarrow>
                              p\<lparr>pr_produced := pr_produced p @ map (Pair []) messages, pr_phase := PR_Sending messages\<rparr>))))"

text \<open>The end of a round: the idle flag, and a token for \<open>idle()\<close> when there is room.\<close>

definition pr_finish :: "'a producer \<Rightarrow> 'a producer" where
  "pr_finish p = p\<lparr>pr_idle := (pr_count p = 0), pr_idleCh := pr_idleCh p \<or> pr_count p = 0, pr_phase := PR_Loop\<rparr>"

section \<open>Replies\<close>

datatype consumer = Takes | Closes

text \<open>
  A reply to request \<open>r\<close>: the consumer takes the messages, or closes the request while the
  producer waits. \<open>reply\<close> is that of \<open>request.go\<close>.
\<close>

definition pr_reply :: "consumer \<Rightarrow> 'a producer \<Rightarrow> nat \<Rightarrow> bool \<times> 'a producer" where
  "pr_reply c p r =
     (let p = (if c = Closes then pr_close p r else p)
      in (request_reply (pr_reqs p r) (c = Takes) True = Some True, p))"

definition pr_took :: "'a producer \<Rightarrow> nat \<Rightarrow> string \<Rightarrow> msg_ref list \<Rightarrow> 'a producer" where
  "pr_took p r k ms =
     p\<lparr>pr_reqs := (pr_reqs p)(r := (pr_reqs p r)\<lparr>rq_demand := rq_demand (pr_reqs p r) - int (length ms)\<rparr>),
       pr_sent := pr_sent p @ [(r, k, ms)]\<rparr>"

definition pr_refused :: "'a producer \<Rightarrow> nat \<Rightarrow> 'a producer" where
  "pr_refused p r = (if isClosed (pr_reqs p r) then pr_remove p r else p)"

text \<open>
  The body of the loop of \<open>sendMessages\<close> over the requests: the flag says that \<open>messages[:demand]\<close>
  has panicked, the list what is left to send.
\<close>

definition send_one :: "(nat \<Rightarrow> consumer) \<Rightarrow> bool \<times> msg_ref list \<times> 'a producer \<Rightarrow> nat \<Rightarrow> bool \<times> msg_ref list \<times> 'a producer" where
  "send_one consumers s r =
     (case s of (panicked, messages, p) \<Rightarrow>
       if panicked \<or> messages = [] then s
       else
         (let demand = min (rq_demand (pr_reqs p r)) (int (length messages))
          in if demand < 0 then (True, messages, p)
             else
               (case pr_reply (consumers r) p r of
                  (True, p) \<Rightarrow> (False, drop (nat demand) messages, pr_took p r [] (take (nat demand) messages))
                | (False, p) \<Rightarrow> (False, messages, pr_refused p r))))"

definition close_spent :: "'a producer \<Rightarrow> 'a producer" where
  "close_spent p =
     foldl (\<lambda>p r. if rq_demand (pr_reqs p r) \<le> 0 then pr_remove (pr_close p r) r else p) p (slice_toSlice (pr_requests p))"

definition bounds_panic :: string where
  "bounds_panic = ''runtime error: slice bounds out of range''"

text \<open>One iteration of the loop of \<open>sendMessages\<close>. What is left when it gives up is dropped.\<close>

definition sendMessages :: "(nat \<Rightarrow> consumer) \<Rightarrow> 'a producer \<Rightarrow> msg_ref list \<Rightarrow> 'a producer" where
  "sendMessages consumers p messages =
     (if messages = [] then pr_finish p
      else if pr_terminated p then pr_finish (p\<lparr>pr_dropped := pr_dropped p @ [([], messages)]\<rparr>)
      else
        (case foldl (send_one consumers) (False, messages, p) (slice_toSlice (pr_requests p)) of
           (True, messages, p) \<Rightarrow>
             p\<lparr>pr_dropped := pr_dropped p @ [([], messages)], pr_phase := PR_Unwinding (Some bounds_panic)\<rparr>
         | (False, messages, p) \<Rightarrow> (close_spent p)\<lparr>pr_phase := PR_Sending messages\<rparr>))"

text \<open>The body of the loop of \<open>sendPartitionedMessages\<close> over the partitions.\<close>

definition partition_one :: "(string \<Rightarrow> string option) \<Rightarrow> (nat \<Rightarrow> consumer) \<Rightarrow> (string \<times> msg_ref list) list \<times> 'a producer
    \<Rightarrow> string \<times> msg_ref list \<Rightarrow> (string \<times> msg_ref list) list \<times> 'a producer" where
  "partition_one resolve consumers s g =
     (case s of (groups, p) \<Rightarrow> case g of (key, part) \<Rightarrow>
       (case resolve key of
          None \<Rightarrow> (groups, p)
        | Some processorId \<Rightarrow>
            (case find (\<lambda>r. rq_messageProcessorId (pr_reqs p r) = processorId) (slice_toSlice (pr_requests p)) of
               None \<Rightarrow> (groups, p)
             | Some r \<Rightarrow>
                 (case pr_reply (consumers r) p r of
                    (True, p) \<Rightarrow> (AList.delete key groups, pr_took p r key part)
                  | (False, p) \<Rightarrow> (groups, pr_refused p r)))))"

definition sendPartitionedMessages :: "(string \<Rightarrow> string option) \<Rightarrow> (nat \<Rightarrow> consumer) \<Rightarrow> 'a producer
    \<Rightarrow> (string \<times> msg_ref list) list \<Rightarrow> 'a producer" where
  "sendPartitionedMessages resolve consumers p groups =
     (if groups = [] then pr_finish p
      else if pr_terminated p then pr_finish (p\<lparr>pr_dropped := pr_dropped p @ groups\<rparr>)
      else (let (groups', p) = foldl (partition_one resolve consumers) (groups, p) groups
            in (close_spent p)\<lparr>pr_phase := PR_Partitioned groups'\<rparr>))"

text \<open>The deferred function of \<open>run\<close>.\<close>

definition pr_exit :: "'a producer \<Rightarrow> string option \<Rightarrow> 'a producer" where
  "pr_exit p v =
     (let p = (if v = None then p else pr_terminate p)
      in (foldl pr_close p (slice_toSlice (pr_requests p)))\<lparr>pr_phase := PR_Exited v\<rparr>)"

section \<open>Runs\<close>

text \<open>
  \<open>partitionBy\<close> is the pipeline's key function, if any. The routing to processors can change from
  round to round, as processors are replaced; a round asks for each key once. \<open>owners k\<close> are the
  processors to which the key \<open>k\<close> resolves at some time of the run. Requests are new when they are
  sent, and consumers may close theirs at any time.
\<close>

definition routes :: "(string \<Rightarrow> string option) \<Rightarrow> (string \<Rightarrow> string set) \<Rightarrow> bool" where
  "routes resolve owners \<longleftrightarrow> (\<forall>k i. resolve k = Some i \<longrightarrow> i \<in> owners k)"

inductive pr_step :: "('a \<Rightarrow> string) option \<Rightarrow> (string \<Rightarrow> string set) \<Rightarrow> 'a producer \<Rightarrow> 'a producer \<Rightarrow> bool"
  for partitionBy and owners where
  send: "r \<notin> fst ` set (pr_asked p) \<Longrightarrow> pr_send p r = (ok, p') \<Longrightarrow> pr_step partitionBy owners p p'"
| add: "pr_step partitionBy owners p (pr_add p)"
| close: "pr_step partitionBy owners p (pr_close p r)"
| terminate: "pr_step partitionBy owners p (pr_terminate p)"
| round: "pr_phase p = PR_Loop \<Longrightarrow> pr_step partitionBy owners p (pr_round handle partitionBy p)"
| sending: "pr_phase p = PR_Sending ms \<Longrightarrow> pr_step partitionBy owners p (sendMessages consumers p ms)"
| partitioned: "pr_phase p = PR_Partitioned gs \<Longrightarrow> routes resolve owners \<Longrightarrow>
    pr_step partitionBy owners p (sendPartitionedMessages resolve consumers p gs)"
| exit: "pr_phase p = PR_Unwinding v \<Longrightarrow> pr_step partitionBy owners p (pr_exit p v)"

section \<open>What closing and removing requests leaves alone\<close>

definition pr_frame :: "'a producer \<Rightarrow> 'a producer \<Rightarrow> bool" where
  "pr_frame p p' \<longleftrightarrow> pr_sent p' = pr_sent p \<and> pr_dropped p' = pr_dropped p \<and> pr_produced p' = pr_produced p \<and>
     pr_asked p' = pr_asked p \<and> pr_phase p' = pr_phase p \<and> pr_terminated p' = pr_terminated p \<and>
     pr_requestChan p' = pr_requestChan p \<and> pr_demands p' = pr_demands p \<and> pr_count p' = pr_count p \<and>
     pr_messageAck p' = pr_messageAck p \<and>
     set (s_slice (pr_requests p')) \<subseteq> set (s_slice (pr_requests p)) \<and>
     (\<forall>r. rq_demand (pr_reqs p' r) = rq_demand (pr_reqs p r) \<and>
          rq_messageProcessorId (pr_reqs p' r) = rq_messageProcessorId (pr_reqs p r))"

lemma pr_frame_refl [simp]: "pr_frame p p" by (simp add: pr_frame_def)

lemma pr_frame_trans: "pr_frame p q \<Longrightarrow> pr_frame q s \<Longrightarrow> pr_frame p s"
  by (auto simp: pr_frame_def)

lemma pr_frame_foldl: "(\<And>p x. pr_frame p (f p x)) \<Longrightarrow> pr_frame p (foldl f p xs)"
  by (induction xs arbitrary: p) (simp, metis foldl_Cons pr_frame_trans)

lemma pr_frame_close [simp]: "pr_frame p (pr_close p r)"
  by (auto simp: pr_frame_def pr_close_def request_close_def)

lemma pr_frame_remove [simp]: "pr_frame p (pr_remove p r)"
  by (auto simp: pr_frame_def pr_remove_def dest: set_remove1_subset [THEN subsetD])

lemma pr_frame_refused [simp]: "pr_frame p (pr_refused p r)"
  by (simp add: pr_refused_def)

lemma pr_frame_spent [simp]: "pr_frame p (close_spent p)"
  unfolding close_spent_def
  by (rule pr_frame_foldl) (auto intro: pr_frame_trans [OF pr_frame_close pr_frame_remove])

lemma pr_frame_reply: "pr_reply c p r = (ok, p') \<Longrightarrow> pr_frame p p'"
  by (auto simp: pr_reply_def Let_def split: if_splits)

section \<open>Requests and demand\<close>

definition sent_req :: "'a producer \<Rightarrow> nat \<Rightarrow> msg_ref list" where
  "sent_req p r = concat (map (\<lambda>(r', k, ms). if r' = r then ms else []) (pr_sent p))"

text \<open>
  The producer knows only requests it was sent; what a request has been given and what it still
  demands is what it asked for, and without partitions the rest never becomes negative; with
  partitions, every reply went to a processor that the key resolves to.
\<close>

definition pr_core :: "('a \<Rightarrow> string) option \<Rightarrow> (string \<Rightarrow> string set) \<Rightarrow> 'a producer \<Rightarrow> bool" where
  "pr_core partitionBy owners p \<longleftrightarrow>
     set (s_slice (pr_requests p)) \<union> set (pr_requestChan p) \<subseteq> fst ` set (pr_asked p) \<and>
     (\<forall>r. r \<notin> fst ` set (pr_asked p) \<longrightarrow> sent_req p r = []) \<and>
     (\<forall>r d. (r, d) \<in> set (pr_asked p) \<longrightarrow>
        int (length (sent_req p r)) + rq_demand (pr_reqs p r) = d \<and>
        (partitionBy = None \<and> 0 \<le> d \<longrightarrow> 0 \<le> rq_demand (pr_reqs p r))) \<and>
     (\<forall>r k ms. partitionBy \<noteq> None \<and> (r, k, ms) \<in> set (pr_sent p) \<longrightarrow>
        rq_messageProcessorId (pr_reqs p r) \<in> owners k)"

lemma pr_core_frame:
  assumes "pr_core pb res p" and "pr_frame p p'"
  shows "pr_core pb res p'"
  using assms by (auto simp: pr_core_def pr_frame_def sent_req_def)

lemma pr_core_took:
  assumes core: "pr_core pb res p" and ra: "r \<in> fst ` set (pr_asked p)"
    and le: "pb = None \<Longrightarrow> int (length ms) \<le> rq_demand (pr_reqs p r)"
    and k: "pb \<noteq> None \<Longrightarrow> rq_messageProcessorId (pr_reqs p r) \<in> res k"
  shows "pr_core pb res (pr_took p r k ms)"
proof -
  have s: "sent_req (pr_took p r k ms) r' = sent_req p r' @ (if r' = r then ms else [])" for r'
    by (simp add: sent_req_def pr_took_def)
  show ?thesis
    unfolding pr_core_def s
  proof (intro conjI allI impI)
    fix r' d assume a: "(r', d) \<in> set (pr_asked (pr_took p r k ms))"
    then have *: "int (length (sent_req p r')) + rq_demand (pr_reqs p r') = d"
      using core by (simp add: pr_core_def pr_took_def)
    then show "int (length (sent_req p r' @ (if r' = r then ms else []))) + rq_demand (pr_reqs (pr_took p r k ms) r') = d"
      by (auto simp: pr_took_def)
    assume "pb = None \<and> 0 \<le> d"
    with core a le show "0 \<le> rq_demand (pr_reqs (pr_took p r k ms) r')" by (auto simp: pr_core_def pr_took_def)
  next
    fix r' assume "r' \<notin> fst ` set (pr_asked (pr_took p r k ms))"
    with core ra show "sent_req p r' @ (if r' = r then ms else []) = []" by (auto simp: pr_core_def pr_took_def)
  next
    fix r' k' ms' assume a: "pb \<noteq> None \<and> (r', k', ms') \<in> set (pr_sent (pr_took p r k ms))"
    have same: "rq_messageProcessorId (pr_reqs (pr_took p r k ms) r') = rq_messageProcessorId (pr_reqs p r')"
      by (simp add: pr_took_def)
    show "rq_messageProcessorId (pr_reqs (pr_took p r k ms) r') \<in> res k'"
    proof (cases "(r', k', ms') \<in> set (pr_sent p)")
      case True
      with core a show ?thesis unfolding pr_core_def same by blast
    next
      case False
      with a k show ?thesis unfolding same by (simp add: pr_took_def)
    qed
  qed (use core in \<open>simp add: pr_core_def pr_took_def\<close>)
qed

section \<open>Messages\<close>

definition sent_for :: "'a producer \<Rightarrow> string \<Rightarrow> msg_ref list" where
  "sent_for p k = concat (map (\<lambda>(r, k', ms). if k' = k then ms else []) (pr_sent p))"

definition keyed :: "(string \<times> msg_ref list) list \<Rightarrow> string \<Rightarrow> msg_ref list" where
  "keyed gs k = concat (map (\<lambda>(k', ms). if k' = k then ms else []) gs)"

definition to_send :: "'a producer \<Rightarrow> string \<Rightarrow> msg_ref list" where
  "to_send p k = (case pr_phase p of PR_Sending ms \<Rightarrow> (if k = [] then ms else []) | PR_Partitioned gs \<Rightarrow> keyed gs k | _ \<Rightarrow> [])"

definition produced_for :: "'a producer \<Rightarrow> string \<Rightarrow> msg_ref list" where
  "produced_for p k = map snd (filter (\<lambda>(k', m). k' = k) (pr_produced p))"

lemma keyed_simps [simp]:
  "keyed [] k = []" "keyed ((k', ms) # gs) k = (if k' = k then ms else []) @ keyed gs k"
  "keyed (xs @ ys) k = keyed xs k @ keyed ys k"
  by (simp_all add: keyed_def)

lemma keyed_absent: "k \<notin> fst ` set gs \<Longrightarrow> keyed gs k = []"
  by (induction gs) auto

lemma keyed_map_of: "distinct (map fst gs) \<Longrightarrow> keyed gs k = (case map_of gs k of None \<Rightarrow> [] | Some ms \<Rightarrow> ms)"
proof (induction gs)
  case (Cons g gs)
  obtain k' ms where g: "g = (k', ms)" by (cases g)
  show ?case
  proof (cases "k' = k")
    case True
    with Cons.prems have "k \<notin> fst ` set gs" by (simp add: g)
    with True show ?thesis by (simp add: g keyed_absent)
  next
    case False
    with Cons show ?thesis by (simp add: g)
  qed
qed simp

lemma keyed_delete: "distinct (map fst gs) \<Longrightarrow> keyed (AList.delete key gs) k = (if k = key then [] else keyed gs k)"
  by (simp add: keyed_map_of AList.distinct_delete map_of_delete)

definition pr_inv :: "('a \<Rightarrow> string) option \<Rightarrow> (string \<Rightarrow> string set) \<Rightarrow> 'a producer \<Rightarrow> bool" where
  "pr_inv partitionBy owners p \<longleftrightarrow>
     pr_core partitionBy owners p \<and>
     (\<forall>k. sent_for p k @ to_send p k @ keyed (pr_dropped p) k = produced_for p k) \<and>
     (\<forall>ms. pr_phase p = PR_Sending ms \<longrightarrow> partitionBy = None \<and> pr_dropped p = []) \<and>
     (\<forall>gs. pr_phase p = PR_Partitioned gs \<longrightarrow> partitionBy \<noteq> None \<and> distinct (map fst gs) \<and> pr_dropped p = []) \<and>
     (pr_phase p = PR_Loop \<and> pr_dropped p \<noteq> [] \<longrightarrow> pr_terminated p)"

lemma pr_inv_new: "pr_inv pb res (newProducer i c a reqs h)"
  by (simp add: pr_inv_def pr_core_def newProducer_def sent_req_def sent_for_def to_send_def produced_for_def)

text \<open>The inner loops: what is sent and what is left make up what there was.\<close>

definition pr_kept :: "'a producer \<Rightarrow> 'a producer \<Rightarrow> bool" where
  "pr_kept p0 p \<longleftrightarrow> pr_dropped p = pr_dropped p0 \<and> pr_produced p = pr_produced p0 \<and> pr_phase p = pr_phase p0 \<and>
     pr_terminated p = pr_terminated p0 \<and> pr_asked p = pr_asked p0"

lemma pr_kept_frame: "pr_kept p0 p \<Longrightarrow> pr_frame p p' \<Longrightarrow> pr_kept p0 p'"
  by (simp add: pr_kept_def pr_frame_def)

lemma pr_kept_took: "pr_kept p0 (pr_took p r k ms) = pr_kept p0 p"
  by (simp add: pr_kept_def pr_took_def)

lemma sent_for_frame: "pr_frame p p' \<Longrightarrow> sent_for p' k = sent_for p k"
  by (simp add: sent_for_def pr_frame_def)

lemma sent_for_took [simp]: "sent_for (pr_took p r k' ms) k = sent_for p k @ (if k' = k then ms else [])"
  by (simp add: sent_for_def pr_took_def)

lemma sending_inv:
  fixes p0 p :: "'a producer"
  assumes "foldl (send_one consumers) (False, ms0, p0) rs = (b, ms, p)" and "pr_core (None :: ('a \<Rightarrow> string) option) res p0"
    and "set rs \<subseteq> fst ` set (pr_asked p0)"
  shows "pr_core (None :: ('a \<Rightarrow> string) option) res p \<and> pr_kept p0 p \<and>
    (\<forall>k. sent_for p k @ (if k = [] then ms else []) = sent_for p0 k @ (if k = [] then ms0 else []))"
  using assms(1,3)
proof (induction rs arbitrary: b ms p rule: rev_induct)
  case Nil
  then show ?case using assms(2) by (simp add: pr_kept_def)
next
  case (snoc r rs)
  obtain b1 ms1 p1 where f: "foldl (send_one consumers) (False, ms0, p0) rs = (b1, ms1, p1)" by (metis prod_cases3)
  from snoc.IH [OF f] snoc.prems(2) have IH: "pr_core (None :: ('a \<Rightarrow> string) option) res p1" "pr_kept p0 p1"
    "\<And>k. sent_for p1 k @ (if k = [] then ms1 else []) = sent_for p0 k @ (if k = [] then ms0 else [])" by simp_all
  have st: "send_one consumers (b1, ms1, p1) r = (b, ms, p)" using snoc.prems(1) f by simp
  let ?d = "min (rq_demand (pr_reqs p1 r)) (int (length ms1))"
  show ?case
  proof (cases "b1 \<or> ms1 = [] \<or> ?d < 0")
    case True
    then have "ms = ms1 \<and> p = p1" using st by (auto simp: send_one_def Let_def split: if_splits)
    then have eq: "ms = ms1" "p = p1" by simp_all
    show ?thesis unfolding eq using IH by blast
  next
    case False
    obtain ok p2 where rep: "pr_reply (consumers r) p1 r = (ok, p2)" by fastforce
    have fr: "pr_frame p1 p2" by (rule pr_frame_reply [OF rep])
    show ?thesis
    proof (cases ok)
      case True
      with False rep st have ms: "ms = drop (nat ?d) ms1" and p: "p = pr_took p2 r [] (take (nat ?d) ms1)"
        by (auto simp: send_one_def Let_def)
      have "rq_demand (pr_reqs p2 r) = rq_demand (pr_reqs p1 r)" using fr by (simp add: pr_frame_def)
      then have "int (length (take (nat ?d) ms1)) \<le> rq_demand (pr_reqs p2 r)" using False by auto
      moreover have "r \<in> fst ` set (pr_asked p2)" using snoc.prems(2) IH(2) fr by (auto simp: pr_kept_def pr_frame_def)
      ultimately have "pr_core (None :: ('a \<Rightarrow> string) option) res p"
        unfolding p by (intro pr_core_took [OF pr_core_frame [OF IH(1) fr]]) simp_all
      moreover have "pr_kept p0 p" unfolding p pr_kept_took by (rule pr_kept_frame [OF IH(2) fr])
      moreover have "sent_for p k @ (if k = [] then ms else []) = sent_for p0 k @ (if k = [] then ms0 else [])" for k
        using IH(3) [of k] by (auto simp: p ms sent_for_frame [OF fr])
      ultimately show ?thesis by blast
    next
      case nok: False
      with False rep st have ms: "ms = ms1" and p: "p = pr_refused p2 r" by (auto simp: send_one_def Let_def)
      have fr2: "pr_frame p1 p" unfolding p by (rule pr_frame_trans [OF fr pr_frame_refused])
      show ?thesis unfolding ms sent_for_frame [OF fr2]
        using pr_core_frame [OF IH(1) fr2] pr_kept_frame [OF IH(2) fr2] IH(3) by blast
    qed
  qed
qed

lemma partition_inv:
  fixes p0 p :: "'a producer"
  assumes "foldl (partition_one resolve consumers) (gs0, p0) hs = (gs, p)" and "pr_core (Some f) owners p0"
    and "distinct (map fst gs0)" and "distinct (map fst hs)" and "set hs \<subseteq> set gs0"
    and routes: "routes resolve owners"
  shows "pr_core (Some f) owners p \<and> pr_kept p0 p \<and> distinct (map fst gs) \<and> set gs \<subseteq> set gs0 \<and>
    (\<forall>k. k \<notin> fst ` set hs \<longrightarrow> keyed gs k = keyed gs0 k) \<and>
    (\<forall>k. sent_for p k @ keyed gs k = sent_for p0 k @ keyed gs0 k)"
  using assms(1,4,5)
proof (induction hs arbitrary: gs p rule: rev_induct)
  case Nil
  then show ?case using assms(2,3) by (simp add: pr_kept_def)
next
  case (snoc h hs)
  obtain key part where h: "h = (key, part)" by (cases h)
  obtain gs1 p1 where f1: "foldl (partition_one resolve consumers) (gs0, p0) hs = (gs1, p1)" by fastforce
  from snoc.IH [OF f1] snoc.prems(2,3) have IH: "pr_core (Some f) owners p1" "pr_kept p0 p1" "distinct (map fst gs1)"
    "set gs1 \<subseteq> set gs0" "\<And>k. k \<notin> fst ` set hs \<Longrightarrow> keyed gs1 k = keyed gs0 k"
    "\<And>k. sent_for p1 k @ keyed gs1 k = sent_for p0 k @ keyed gs0 k" by auto
  have st: "partition_one resolve consumers (gs1, p1) (key, part) = (gs, p)" using snoc.prems(1) f1 by (simp add: h)
  have key: "key \<notin> fst ` set hs" using snoc.prems(2) by (simp add: h)
  have "map_of gs0 key = Some part" using snoc.prems(3) by (intro map_of_is_SomeI [OF assms(3)]) (simp add: h)
  then have part: "keyed gs0 key = part" by (simp add: keyed_map_of [OF assms(3)])
  have same: ?case if "gs = gs1" "p = p2" "pr_frame p1 p2" for p2
    using that pr_core_frame [OF IH(1) that(3)] pr_kept_frame [OF IH(2) that(3)] IH(3-6)
    by (auto simp: sent_for_frame [OF that(3)])
  show ?case
  proof (cases "\<exists>pid r. resolve key = Some pid \<and>
      find (\<lambda>r. rq_messageProcessorId (pr_reqs p1 r) = pid) (slice_toSlice (pr_requests p1)) = Some r")
    case False
    then have "gs = gs1 \<and> p = p1" using st by (auto simp: partition_one_def split: option.splits)
    then show ?thesis using same [of p1] by simp
  next
    case True
    then obtain pid r where pid: "resolve key = Some pid"
      and r: "find (\<lambda>r. rq_messageProcessorId (pr_reqs p1 r) = pid) (slice_toSlice (pr_requests p1)) = Some r" by blast
    from find_Some_D [OF r] have rin: "r \<in> set (s_slice (pr_requests p1))" and rp: "rq_messageProcessorId (pr_reqs p1 r) = pid"
      by (simp_all add: slice_toSlice_def)
    obtain ok p2 where rep: "pr_reply (consumers r) p1 r = (ok, p2)" by fastforce
    have fr: "pr_frame p1 p2" by (rule pr_frame_reply [OF rep])
    show ?thesis
    proof (cases ok)
      case False
      then have "gs = gs1 \<and> p = pr_refused p2 r" using st pid r rep by (auto simp: partition_one_def)
      then show ?thesis using same [OF _ _ pr_frame_trans [OF fr pr_frame_refused]] by blast
    next
      case True
      then have gs: "gs = AList.delete key gs1" and p: "p = pr_took p2 r key part"
        using st pid r rep by (auto simp: partition_one_def)
      have "r \<in> fst ` set (pr_asked p2)" using IH(1) rin fr by (auto simp: pr_core_def pr_frame_def)
      then have "pr_core (Some f) owners p" unfolding p
        using pid rp fr routes [unfolded routes_def] by (intro pr_core_took [OF pr_core_frame [OF IH(1) fr]]) (simp_all add: pr_frame_def)
      moreover have "pr_kept p0 p" unfolding p pr_kept_took by (rule pr_kept_frame [OF IH(2) fr])
      moreover have "sent_for p k @ keyed gs k = sent_for p0 k @ keyed gs0 k" for k
        using IH(6) [of k] IH(5) [OF key] part by (auto simp: p gs keyed_delete [OF IH(3)] sent_for_frame [OF fr])
      moreover have "k \<notin> fst ` set (hs @ [h]) \<Longrightarrow> keyed gs k = keyed gs0 k" for k
        using IH(5) [of k] by (auto simp: gs h keyed_delete [OF IH(3)])
      moreover have "distinct (map fst gs)" "set gs \<subseteq> set gs0"
        using IH(3,4) by (simp add: gs AList.distinct_delete) (use IH(4) in \<open>auto simp: gs AList.delete_eq\<close>)
      ultimately show ?thesis by blast
    qed
  qed
qed

section \<open>Every step\<close>

lemma pr_inv_frame:
  assumes "pr_inv pb res p" and "pr_frame p p'"
  shows "pr_inv pb res p'"
  using pr_core_frame [of pb res p p'] assms
  by (simp add: pr_inv_def pr_frame_def sent_for_def to_send_def produced_for_def)

lemma pr_inv_finish:
  assumes "pr_core pb res p" and "\<And>k. sent_for p k @ keyed (pr_dropped p) k = produced_for p k"
    and "pr_dropped p \<noteq> [] \<Longrightarrow> pr_terminated p"
  shows "pr_inv pb res (pr_finish p)"
  using assms by (simp add: pr_inv_def pr_finish_def pr_core_def sent_req_def sent_for_def to_send_def produced_for_def)

lemma pr_inv_phase:
  assumes "pr_core pb res p" and "\<And>k. sent_for p k @ to_send (p\<lparr>pr_phase := ph\<rparr>) k @ keyed (pr_dropped p) k = produced_for p k"
    and "\<And>ms. ph = PR_Sending ms \<Longrightarrow> pb = None \<and> pr_dropped p = []"
    and "\<And>gs. ph = PR_Partitioned gs \<Longrightarrow> pb \<noteq> None \<and> distinct (map fst gs) \<and> pr_dropped p = []"
    and "ph \<noteq> PR_Loop"
  shows "pr_inv pb res (p\<lparr>pr_phase := ph\<rparr>)"
  using assms by (simp add: pr_inv_def pr_core_def sent_req_def sent_for_def produced_for_def)

lemma pr_inv_send:
  assumes inv: "pr_inv pb res p" and new: "r \<notin> fst ` set (pr_asked p)" and s: "pr_send p r = (ok, p')"
  shows "pr_inv pb res p'"
proof (cases "pr_terminated p")
  case True
  with s inv show ?thesis by (simp add: pr_send_def)
next
  case False
  with s have p': "p' = p\<lparr>pr_requestChan := pr_requestChan p @ [r], pr_asked := pr_asked p @ [(r, rq_demand (pr_reqs p r))]\<rparr>"
    by (simp add: pr_send_def)
  have "sent_req p r = []" using inv new by (simp add: pr_inv_def pr_core_def)
  then have "pr_core pb res p'"
    using inv unfolding p' pr_inv_def pr_core_def by (auto simp: sent_req_def)
  then show ?thesis using inv False by (simp add: p' pr_inv_def sent_for_def to_send_def produced_for_def)
qed

lemma pr_inv_add: "pr_inv pb res p \<Longrightarrow> pr_inv pb res (pr_add p)"
  by (auto simp: pr_add_def pr_inv_def pr_core_def sent_req_def sent_for_def to_send_def produced_for_def split: list.splits)

lemma pr_inv_terminate: "pr_inv pb res p \<Longrightarrow> pr_inv pb res (pr_terminate p)"
  by (auto simp: pr_terminate_def pr_inv_def pr_core_def sent_req_def sent_for_def to_send_def produced_for_def)

lemma keyed_GroupBy: "keyed (lo_GroupBy f xs) k = filter (\<lambda>x. f x = k) xs"
  by (auto simp: keyed_map_of [OF distinct_lo_GroupBy] map_of_lo_GroupBy intro!: filter_False [symmetric])

lemma pr_core_same:
  assumes "pr_core pb res p" and "pr_requests p' = pr_requests p" and "pr_requestChan p' = pr_requestChan p"
    and "pr_asked p' = pr_asked p" and "pr_reqs p' = pr_reqs p" and "pr_sent p' = pr_sent p"
  shows "pr_core pb res p'"
  using assms(1) unfolding pr_core_def sent_req_def assms(2-6) .

lemma pr_inv_round:
  assumes inv: "pr_inv pb res p" and ph: "pr_phase p = PR_Loop"
  shows "pr_inv pb res (pr_round handle pb p)"
proof -
  have core: "pr_core pb res p" and acc: "\<And>k. sent_for p k @ keyed (pr_dropped p) k = produced_for p k"
    using inv ph by (auto simp: pr_inv_def to_send_def)
  show ?thesis
  proof (cases "pr_terminated p \<or> slice_len (pr_requests p) = 0")
    case True
    then show ?thesis using inv acc
      by (auto simp: pr_round_def to_send_def intro!: pr_inv_phase [OF core])
  next
    case False
    then have nd: "pr_dropped p = []" using inv ph by (auto simp: pr_inv_def)
    define p1 where "p1 = p\<lparr>pr_requests := slice_filter (pr_requests p) (\<lambda>r. \<not> isClosed (pr_reqs p r))\<rparr>"
    have fr: "pr_frame p p1" by (auto simp: p1_def pr_frame_def)
    note inv1 = pr_inv_frame [OF inv fr] and core1 = pr_core_frame [OF core fr]
    have same: "pr_dropped p1 = []" "pr_produced p1 = pr_produced p" "pr_sent p1 = pr_sent p" "pr_phase p1 = PR_Loop"
      using nd ph by (simp_all add: p1_def)
    have acc1: "sent_for p1 k = produced_for p1 k" for k
      using acc [of k] nd same by (simp add: sent_for_def produced_for_def)
    obtain out h where hd: "handle (pr_demand p1) (pr_heap p1) = (out, h)" by fastforce
    have rd: "pr_round handle pb p =
        (if pr_demand p1 = 0 then p1
         else case handle (pr_demand p1) (pr_heap p1) of
           (Inl r, h) \<Rightarrow> p1\<lparr>pr_heap := h, pr_demands := pr_demands p1 @ [pr_demand p1], pr_phase := PR_Unwinding (Some r)\<rparr>
         | (Inr messages, h) \<Rightarrow>
             (let h = stamp (pr_messageAck p1) pb h messages;
                  p = p1\<lparr>pr_heap := h, pr_demands := pr_demands p1 @ [pr_demand p1], pr_count := length messages\<rparr>
              in case pb of
                   Some _ \<Rightarrow>
                     p\<lparr>pr_produced := pr_produced p @ map (\<lambda>m. (ms_partitionKey (h m), m)) messages,
                       pr_phase := PR_Partitioned (lo_GroupBy (\<lambda>m. ms_partitionKey (h m)) messages)\<rparr>
                 | None \<Rightarrow>
                     p\<lparr>pr_produced := pr_produced p @ map (Pair []) messages, pr_phase := PR_Sending messages\<rparr>))"
      using False unfolding pr_round_def Let_def p1_def by (simp only: de_Morgan_disj if_False simp_thms)
    show ?thesis
    proof (cases "pr_demand p1 = 0")
      case True
      then show ?thesis using inv1 by (simp add: rd)
    next
      case nz: False
      show ?thesis
      proof (cases out)
        case (Inl r)
        let ?q = "p1\<lparr>pr_heap := h, pr_demands := pr_demands p1 @ [pr_demand p1]\<rparr>"
        have "pr_core pb res ?q" by (rule pr_core_same [OF core1]) simp_all
        then have "pr_inv pb res (?q\<lparr>pr_phase := PR_Unwinding (Some r)\<rparr>)"
          using acc1 same by (intro pr_inv_phase) (simp_all add: to_send_def sent_for_def produced_for_def)
        then show ?thesis using nz by (simp add: rd hd Inl)
      next
        case (Inr messages)
        let ?h = "stamp (pr_messageAck p1) pb h messages"
        let ?q = "p1\<lparr>pr_heap := ?h, pr_demands := pr_demands p1 @ [pr_demand p1], pr_count := length messages,
          pr_produced := pr_produced p1 @ (case pb of None \<Rightarrow> map (Pair []) messages | Some _ \<Rightarrow> map (\<lambda>m. (ms_partitionKey (?h m), m)) messages)\<rparr>"
        let ?ph = "case pb of None \<Rightarrow> PR_Sending messages | Some _ \<Rightarrow> PR_Partitioned (lo_GroupBy (\<lambda>m. ms_partitionKey (?h m)) messages)"
        have core2: "pr_core pb res ?q" by (rule pr_core_same [OF core1]) simp_all
        have filt: "map snd (filter (\<lambda>(k', m). k' = k) (map (\<lambda>m. (f m, m)) ms)) = filter (\<lambda>m. f m = k) ms" for f :: "nat \<Rightarrow> string" and k ms
          by (induction ms) auto
        have filt2: "map snd (filter (\<lambda>(k', m). k' = k) (map (Pair []) ms)) = (if k = [] then ms else [])" for k :: string and ms :: "nat list"
          by (induction ms) auto
        have "pr_inv pb res (?q\<lparr>pr_phase := ?ph\<rparr>)"
        proof (rule pr_inv_phase [OF core2])
          show "sent_for ?q k @ to_send (?q\<lparr>pr_phase := ?ph\<rparr>) k @ keyed (pr_dropped ?q) k = produced_for ?q k" for k
            using acc1 [of k] same
            by (cases pb) (simp_all add: sent_for_def to_send_def produced_for_def filt filt2 keyed_GroupBy)
        qed (use same in \<open>auto simp: distinct_lo_GroupBy split: option.splits\<close>)
        moreover have "pr_round handle pb p = ?q\<lparr>pr_phase := ?ph\<rparr>" unfolding rd hd Inr Let_def using nz by (cases pb) simp_all
        ultimately show ?thesis by simp
      qed
    qed
  qed
qed

lemma pr_asked_requests: "pr_core pb res p \<Longrightarrow> set (slice_toSlice (pr_requests p)) \<subseteq> fst ` set (pr_asked p)"
  by (simp add: pr_core_def slice_toSlice_def)

lemma drop_pending:
  assumes core: "pr_core pb res p" and acc: "\<And>k. sent_for p k @ keyed gs k @ keyed (pr_dropped p) k = produced_for p k"
    and nd: "pr_dropped p = []"
  shows "pr_core pb res (p\<lparr>pr_dropped := pr_dropped p @ gs\<rparr>)"
    and "sent_for (p\<lparr>pr_dropped := pr_dropped p @ gs\<rparr>) k @ keyed (pr_dropped (p\<lparr>pr_dropped := pr_dropped p @ gs\<rparr>)) k =
      produced_for (p\<lparr>pr_dropped := pr_dropped p @ gs\<rparr>) k"
  using pr_core_same [OF core] acc nd by (simp_all add: sent_for_def produced_for_def)

lemma pr_inv_sending:
  fixes p :: "'a producer"
  assumes inv: "pr_inv (None :: ('a \<Rightarrow> string) option) res p" and ph: "pr_phase p = PR_Sending ms"
  shows "pr_inv (None :: ('a \<Rightarrow> string) option) res (sendMessages consumers p ms)"
proof -
  have core: "pr_core (None :: ('a \<Rightarrow> string) option) res p" and nd: "pr_dropped p = []"
    and all: "\<forall>k. sent_for p k @ to_send p k @ keyed (pr_dropped p) k = produced_for p k"
    using inv ph unfolding pr_inv_def by blast+
  have acc: "sent_for p k @ (if k = [] then ms else []) = produced_for p k" for k
    using spec [OF all, of k] nd ph by (simp add: to_send_def)
  have acck: "sent_for p k @ keyed [([], ms)] k @ keyed (pr_dropped p) k = produced_for p k" for k
    using acc [of k] nd by (cases "k = []") simp_all
  show ?thesis
  proof (cases "ms = []")
    case True
    have "sent_for p k @ keyed (pr_dropped p) k = produced_for p k" for k
      using acc [of k] True nd by (cases "k = []") simp_all
    then have "pr_inv (None :: ('a \<Rightarrow> string) option) res (pr_finish p)"
      using nd by (intro pr_inv_finish [OF core]) simp_all
    then show ?thesis using True by (simp add: sendMessages_def)
  next
    case ne: False
    show ?thesis
    proof (cases "pr_terminated p")
      case True
      have "pr_inv (None :: ('a \<Rightarrow> string) option) res (pr_finish (p\<lparr>pr_dropped := pr_dropped p @ [([], ms)]\<rparr>))"
        by (intro pr_inv_finish drop_pending [OF core acck nd]) (simp add: True)
      then show ?thesis using ne True by (simp add: sendMessages_def)
    next
      case nt: False
      obtain b ms1 p1 where f: "foldl (send_one consumers) (False, ms, p) (slice_toSlice (pr_requests p)) = (b, ms1, p1)"
        by (metis prod_cases3)
      from sending_inv [OF f core pr_asked_requests [OF core]]
      have core1: "pr_core (None :: ('a \<Rightarrow> string) option) res p1" and kept: "pr_kept p p1"
        and acc1: "\<And>k. sent_for p1 k @ (if k = [] then ms1 else []) = sent_for p k @ (if k = [] then ms else [])" by blast+
      have nd1: "pr_dropped p1 = []" and pf: "produced_for p1 k = produced_for p k" for k
        using kept nd by (simp_all add: pr_kept_def produced_for_def)
      have acck1: "sent_for p1 k @ keyed [([], ms1)] k @ keyed (pr_dropped p1) k = produced_for p1 k" for k
        using acc1 [of k] acc [of k] nd1 pf [of k] by (cases "k = []") simp_all
      show ?thesis
      proof (cases b)
        case True
        let ?q = "p1\<lparr>pr_dropped := pr_dropped p1 @ [([], ms1)]\<rparr>"
        have "pr_inv (None :: ('a \<Rightarrow> string) option) res (?q\<lparr>pr_phase := PR_Unwinding (Some bounds_panic)\<rparr>)"
          using drop_pending [OF core1 acck1 nd1] by (intro pr_inv_phase) (simp_all add: to_send_def)
        then show ?thesis using ne nt True f by (simp add: sendMessages_def)
      next
        case False
        have fr: "pr_frame p1 (close_spent p1)" by simp
        have "pr_inv (None :: ('a \<Rightarrow> string) option) res ((close_spent p1)\<lparr>pr_phase := PR_Sending ms1\<rparr>)"
        proof (rule pr_inv_phase [OF pr_core_frame [OF core1 fr]])
          have d: "pr_dropped (close_spent p1) = pr_dropped p1" and pd: "produced_for (close_spent p1) k = produced_for p1 k" for k
            using fr by (simp_all add: pr_frame_def produced_for_def)
          show "sent_for (close_spent p1) k @ to_send ((close_spent p1)\<lparr>pr_phase := PR_Sending ms1\<rparr>) k @
              keyed (pr_dropped (close_spent p1)) k = produced_for (close_spent p1) k" for k
            using acck1 [of k] by (cases "k = []") (simp_all add: sent_for_frame [OF fr] d pd to_send_def)
          show "PR_Sending ms1 = PR_Sending ms' \<Longrightarrow> (None :: ('a \<Rightarrow> string) option) = None \<and> pr_dropped (close_spent p1) = []" for ms'
            using nd1 by (simp add: d)
        qed simp_all
        then show ?thesis using ne nt False f by (simp add: sendMessages_def)
      qed
    qed
  qed
qed

lemma pr_inv_partitioned:
  fixes p :: "'a producer"
  assumes inv: "pr_inv (Some f) res p" and ph: "pr_phase p = PR_Partitioned gs"
    and routes: "routes resolve res"
  shows "pr_inv (Some f) res (sendPartitionedMessages resolve consumers p gs)"
proof -
  have core: "pr_core (Some f) res p" and nd: "pr_dropped p = []" and dist: "distinct (map fst gs)"
    and acc: "\<And>k. sent_for p k @ keyed gs k @ keyed (pr_dropped p) k = produced_for p k"
    using inv ph by (auto simp: pr_inv_def to_send_def)
  show ?thesis
  proof (cases "gs = []")
    case True
    have "pr_inv (Some f) res (pr_finish p)" using acc True nd by (intro pr_inv_finish [OF core]) simp_all
    then show ?thesis using True by (simp add: sendPartitionedMessages_def)
  next
    case ne: False
    show ?thesis
    proof (cases "pr_terminated p")
      case True
      have "pr_inv (Some f) res (pr_finish (p\<lparr>pr_dropped := pr_dropped p @ gs\<rparr>))"
        by (intro pr_inv_finish drop_pending [OF core acc nd]) (simp add: True)
      then show ?thesis using ne True by (simp add: sendPartitionedMessages_def)
    next
      case nt: False
      obtain gs1 p1 where fo: "foldl (partition_one resolve consumers) (gs, p) gs = (gs1, p1)" by fastforce
      from partition_inv [OF fo core dist dist _ routes]
      have core1: "pr_core (Some f) res p1" and kept: "pr_kept p p1" and dist1: "distinct (map fst gs1)"
        and acc1: "\<And>k. sent_for p1 k @ keyed gs1 k = sent_for p k @ keyed gs k" by simp_all
      have fr: "pr_frame p1 (close_spent p1)" by simp
      have d: "pr_dropped (close_spent p1) = []" and pd: "produced_for (close_spent p1) k = produced_for p k" for k
        using fr kept nd by (simp_all add: pr_frame_def produced_for_def pr_kept_def)
      have "pr_inv (Some f) res ((close_spent p1)\<lparr>pr_phase := PR_Partitioned gs1\<rparr>)"
      proof (rule pr_inv_phase [OF pr_core_frame [OF core1 fr]])
        show "sent_for (close_spent p1) k @ to_send ((close_spent p1)\<lparr>pr_phase := PR_Partitioned gs1\<rparr>) k @
            keyed (pr_dropped (close_spent p1)) k = produced_for (close_spent p1) k" for k
          using acc [of k] acc1 [of k] nd by (simp add: sent_for_frame [OF fr] d pd to_send_def)
      qed (use d dist1 in auto)
      then show ?thesis using ne nt fo by (simp add: sendPartitionedMessages_def)
    qed
  qed
qed

lemma pr_inv_exit:
  assumes inv: "pr_inv pb res p" and ph: "pr_phase p = PR_Unwinding v"
  shows "pr_inv pb res (pr_exit p v)"
proof -
  let ?p = "if v = None then p else pr_terminate p"
  have "pr_inv pb res ?p" using inv pr_inv_terminate [OF inv] by simp
  moreover have fr: "pr_frame ?p (foldl pr_close ?p (slice_toSlice (pr_requests ?p)))" by (rule pr_frame_foldl) simp
  ultimately have i: "pr_inv pb res (foldl pr_close ?p (slice_toSlice (pr_requests ?p)))" by (rule pr_inv_frame)
  have "pr_phase (foldl pr_close ?p (slice_toSlice (pr_requests ?p))) = PR_Unwinding v"
    using fr ph by (auto simp: pr_frame_def pr_terminate_def)
  with i have "pr_inv pb res ((foldl pr_close ?p (slice_toSlice (pr_requests ?p)))\<lparr>pr_phase := PR_Exited v\<rparr>)"
    by (intro pr_inv_phase) (auto simp: pr_inv_def to_send_def)
  then show ?thesis unfolding pr_exit_def Let_def .
qed

lemma pr_inv_step:
  assumes inv: "pr_inv pb res p" and st: "pr_step pb res p p'"
  shows "pr_inv pb res p'"
  using st
proof cases
  case (send r ok)
  then show ?thesis by (rule pr_inv_send [OF inv])
next
  case add
  then show ?thesis using pr_inv_add [OF inv] by simp
next
  case (close r)
  then show ?thesis using pr_inv_frame [OF inv pr_frame_close] by simp
next
  case terminate
  then show ?thesis using pr_inv_terminate [OF inv] by simp
next
  case (round handle)
  then show ?thesis using pr_inv_round [OF inv] by simp
next
  case (sending ms consumers)
  then have "pb = None" using inv by (simp add: pr_inv_def)
  then show ?thesis using pr_inv_sending sending inv by blast
next
  case (partitioned gs resolve consumers)
  then obtain f where "pb = Some f" using inv by (auto simp: pr_inv_def)
  then show ?thesis using pr_inv_partitioned partitioned inv by blast
next
  case (exit v)
  then show ?thesis using pr_inv_exit [OF inv] by simp
qed

lemma pr_inv_reaches: "reaches (pr_step pb res) (newProducer i c a reqs h) p \<Longrightarrow> pr_inv pb res p"
  by (erule reaches_invariant) (auto intro: pr_inv_new pr_inv_step)

section \<open>Properties\<close>

text \<open>
  Claim C17. In every run of a producer, for every partition key (one empty key without
  partitions): what was handed to message processors, then what is still to be sent, then what
  was given up is exactly what the client produced, in its order. Messages are given up only after
  \<open>terminate\<close>, or by the panic of a negative demand; and each reply of a partition goes to a
  processor to which its key resolved during the run (the one owner, if no processor is replaced).
\<close>

theorem producer_delivers_in_order:
  assumes "reaches (pr_step partitionBy owners) (newProducer i config ack reqs h) p"
  shows "sent_for p k @ to_send p k @ keyed (pr_dropped p) k = produced_for p k \<and>
    (pr_phase p = PR_Loop \<and> pr_dropped p \<noteq> [] \<longrightarrow> pr_terminated p) \<and>
    (partitionBy \<noteq> None \<and> (r, k, ms) \<in> set (pr_sent p) \<longrightarrow>
       rq_messageProcessorId (pr_reqs p r) \<in> owners k)"
proof -
  have inv: "pr_inv partitionBy owners p" by (rule pr_inv_reaches [OF assms])
  then have "\<forall>k. sent_for p k @ to_send p k @ keyed (pr_dropped p) k = produced_for p k"
    and "pr_phase p = PR_Loop \<and> pr_dropped p \<noteq> [] \<longrightarrow> pr_terminated p" and core: "pr_core partitionBy owners p"
    by (simp_all add: pr_inv_def)
  moreover have "partitionBy \<noteq> None \<and> (r, k, ms) \<in> set (pr_sent p) \<longrightarrow>
      rq_messageProcessorId (pr_reqs p r) \<in> owners k"
    using core unfolding pr_core_def by blast
  ultimately show ?thesis by blast
qed

text \<open>
  Claim C28. Back-pressure without partitions: a request gets at most as many messages as it asked
  for, whatever the client produces, and what it has not got is what it still demands.
\<close>

theorem producer_respects_demand:
  assumes "reaches (pr_step None owners) (newProducer i config ack reqs h) p"
    and "(r, d) \<in> set (pr_asked p)" and "0 \<le> d"
  shows "int (length (sent_req p r)) \<le> d \<and> rq_demand (pr_reqs p r) = d - int (length (sent_req p r))"
proof -
  have core: "pr_core (None :: ('a \<Rightarrow> string) option) owners p"
    using pr_inv_reaches [OF assms(1)] by (simp add: pr_inv_def)
  then have "\<forall>r d. (r, d) \<in> set (pr_asked p) \<longrightarrow> int (length (sent_req p r)) + rq_demand (pr_reqs p r) = d \<and>
      ((None :: ('a \<Rightarrow> string) option) = None \<and> 0 \<le> d \<longrightarrow> 0 \<le> rq_demand (pr_reqs p r))"
    unfolding pr_core_def by blast
  with assms(2,3) have "int (length (sent_req p r)) + rq_demand (pr_reqs p r) = d" "0 \<le> rq_demand (pr_reqs p r)" by blast+
  then show ?thesis by simp
qed

section \<open>Concrete runs\<close>

text \<open>Two processors ask for one message each; the client has messages 0 and 1 with payload \<open>k\<close>.\<close>

definition reqs2 :: "nat \<Rightarrow> request" where
  "reqs2 r = newRequest (if r = 0 then ''A'' else ''B'') 1"

definition heap_k :: "string heap" where
  "heap_k = (\<lambda>_. NewMessage ''k'' None)"

definition client2 :: "int \<Rightarrow> string heap \<Rightarrow> (string + msg_ref list) \<times> string heap" where
  "client2 demand h = (Inr [0, 1], h)"

definition pr_start :: "string producer" where
  "pr_start = newProducer ''p'' \<lparr>pc_Concurrency = 0, pc_partitioned = False\<rparr> (Some 7) reqs2 heap_k"

definition pr_two :: "string producer" where
  "pr_two = pr_add (pr_add (snd (pr_send (snd (pr_send pr_start 0)) 1)))"

lemma pr_two_reached: "reaches (pr_step pb res) pr_start pr_two"
  unfolding pr_two_def
proof (rule reaches.step, rule reaches.step, rule reaches.step, rule reaches_one)
  show "pr_step pb res pr_start (snd (pr_send pr_start 0))"
    by (rule pr_step.send [of 0 _ True]) (simp_all add: pr_start_def newProducer_def pr_send_def)
  show "pr_step pb res (snd (pr_send pr_start 0)) (snd (pr_send (snd (pr_send pr_start 0)) 1))"
    by (rule pr_step.send [of 1 _ True]) (simp_all add: pr_start_def newProducer_def pr_send_def)
qed (rule pr_step.add)+

definition to_A :: "string \<Rightarrow> string option" where
  "to_A k = Some ''A''"

definition pr_flooded :: "string producer" where
  "pr_flooded = sendPartitionedMessages to_A (\<lambda>_. Takes) (pr_round client2 (Some id) pr_two) [(''k'', [0, 1])]"

lemma pr_flooded_reached: "reaches (pr_step (Some id) (\<lambda>_. {''A''})) pr_start pr_flooded"
  unfolding pr_flooded_def
proof (rule reaches.step [OF reaches.step [OF pr_two_reached pr_step.round] pr_step.partitioned])
  show "routes to_A (\<lambda>_. {''A''})" by (simp add: routes_def to_A_def)
qed code_simp+

definition pr_given_up :: "string producer" where
  "pr_given_up = sendMessages (\<lambda>_. Takes) (pr_terminate (pr_round client2 None pr_two)) [0, 1]"

lemma pr_given_up_reached: "reaches (pr_step None (\<lambda>_. {''A''})) pr_start pr_given_up"
  unfolding pr_given_up_def
  by (rule reaches.step [OF reaches.step [OF reaches.step [OF pr_two_reached pr_step.round] pr_step.terminate] pr_step.sending])
    code_simp+

text \<open>
  With partitions there is no back-pressure: the client is asked for the demand of all
  processors together, and a whole partition goes to the one processor of its key. Two processors
  ask for one message each, both messages have the same key, and \<open>A\<close> gets two.
\<close>

theorem partitions_exceed_demand:
  "reaches (pr_step (Some id) (\<lambda>_. {''A''})) pr_start pr_flooded \<and>
   pr_asked pr_flooded = [(0, 1), (1, 1)] \<and> pr_demands pr_flooded = [2] \<and>
   sent_req pr_flooded 0 = [0, 1] \<and> rq_demand (pr_reqs pr_flooded 0) = -1"
proof -
  have "(pr_asked pr_flooded, pr_demands pr_flooded, sent_req pr_flooded 0, rq_demand (pr_reqs pr_flooded 0)) =
    ([(0, 1), (1, 1)], [2], [0, 1], -1)" by code_simp
  then show ?thesis using pr_flooded_reached by simp
qed

text \<open>
  Messages that the client has produced are lost when \<open>terminate\<close> comes before they are
  handed over: \<open>sendMessages\<close> returns, and they are neither sent nor acknowledged.
\<close>

theorem terminate_drops_messages:
  "reaches (pr_step None (\<lambda>_. {''A''})) pr_start pr_given_up \<and> pr_sent pr_given_up = [] \<and>
   pr_dropped pr_given_up = [([], [0, 1])] \<and> pr_phase pr_given_up = PR_Loop"
proof -
  have "(pr_sent pr_given_up, pr_dropped pr_given_up, pr_phase pr_given_up) = ([], [([], [0, 1])], PR_Loop)" by code_simp
  then show ?thesis using pr_given_up_reached by simp
qed

theorem producer_delivers_in_order_witness:
  "sent_for pr_flooded ''k'' = [0, 1] \<and> rq_messageProcessorId (pr_reqs pr_flooded 0) = ''A''"
proof -
  have v: "pr_sent pr_flooded = [(0, ''k'', [0, 1])]" by code_simp
  have "sent_for pr_flooded ''k'' = [0, 1]" by code_simp
  with producer_delivers_in_order [OF pr_flooded_reached [unfolded pr_start_def], of "''k''" 0 "[0, 1]"] v
  show ?thesis by simp
qed

definition pr_shared :: "string producer" where
  "pr_shared = sendMessages (\<lambda>_. Takes) (pr_round client2 None pr_two) [0, 1]"

theorem producer_respects_demand_witness:
  "rq_demand (pr_reqs pr_shared 0) = 0 \<and> sent_req pr_shared 0 = [0]"
proof -
  have r: "reaches (pr_step None (\<lambda>_. {''A''})) pr_start pr_shared"
    unfolding pr_shared_def
    by (rule reaches.step [OF reaches.step [OF pr_two_reached pr_step.round] pr_step.sending]) code_simp+
  have "sent_req pr_shared 0 = [0]" "(0, 1) \<in> set (pr_asked pr_shared)" by code_simp+
  with producer_respects_demand [OF r [unfolded pr_start_def], of 0 1] show ?thesis by simp
qed

end
