(* ===== verification/Supervisors.thy ===== *)
theory Supervisors
  imports Hash_Ring Messages
begin

text \<open>
  \<open>broadway/producer_supervisor.go\<close>, \<open>message_processor_supervisor.go\<close> and \<open>batcher_supervisor.go\<close>:
  who is alive, who is told to stop, who is replaced after a panic, and when a supervisor reports
  that all of its workers are done. The workers themselves are modelled elsewhere; here each is the
  flags that the supervisors read and the value on its \<open>terminated()\<close> channel. When a worker ends
  is left open, so the steps of a worker allow more than the worker does; nothing here says that
  a worker that was told to stop does end. The supervisors of processors work under a mutex, and
  their operations are single steps; the supervisor of producers has none, and its operations are
  broken up into the accesses that other goroutines can come between.
\<close>

section \<open>Workers\<close>

record worker =
  wk_terminated :: bool                     \<comment> \<open>\<open>_terminated\<close>\<close>
  wk_fully :: bool                          \<comment> \<open>\<open>_fullyTerminated\<close>\<close>
  wk_idle :: bool
  wk_exit :: "string option option"         \<comment> \<open>the value on \<open>_terminatedCh\<close> once the goroutine is gone\<close>
  wk_seen :: bool                           \<comment> \<open>the supervisor has received it\<close>
  wk_running :: bool                        \<comment> \<open>\<open>run\<close> has started its goroutine\<close>

definition new_worker :: worker where
  "new_worker = \<lparr>wk_terminated = False, wk_fully = False, wk_idle = False, wk_exit = None, wk_seen = False, wk_running = True\<rparr>"

definition wk_terminate :: "worker \<Rightarrow> worker" where
  "wk_terminate w = w\<lparr>wk_terminated := True\<rparr>"

text \<open>
  A goroutine may end once it was told to, or by a panic, after which it terminates itself. (Whether
  it does depends on its work: a batcher without batch processors, for example, may never end.)
\<close>

definition wk_end :: "worker \<Rightarrow> string option \<Rightarrow> worker option" where
  "wk_end w v =
     (if \<not> wk_running w \<or> wk_exit w \<noteq> None \<or> v = None \<and> \<not> wk_terminated w then None
      else Some (w\<lparr>wk_terminated := True, wk_fully := True, wk_exit := Some v\<rparr>))"

type_synonym workers = "string \<rightharpoonup> worker"

definition at_worker :: "workers \<Rightarrow> string \<Rightarrow> (worker \<Rightarrow> worker) \<Rightarrow> workers" where
  "at_worker ws i f = (case ws i of None \<Rightarrow> ws | Some w \<Rightarrow> ws(i \<mapsto> f w))"

definition tell :: "workers \<Rightarrow> string list \<Rightarrow> workers" where
  "tell ws is' = foldl (\<lambda>ws i. at_worker ws i wk_terminate) ws is'"

section \<open>Producers\<close>

text \<open>
  The map \<open>_producers\<close> is the list of the ids; a producer stays in the store of workers.
  \<open>handleProducerPanic\<close> runs in the watcher of the producer that panicked; \<open>su_handling\<close> says what
  it does next. \<open>su_checks\<close> and \<open>su_idleChecks\<close> are the loops over \<open>values()\<close> in progress: the
  producers that each still has to look at.
\<close>

datatype handling =
    H_Delete                       \<comment> \<open>\<open>_producers.delete\<close>\<close>
  | H_Set                          \<comment> \<open>\<open>newProducer\<close> and \<open>_producers.set\<close>\<close>
  | H_Run string                   \<comment> \<open>\<open>run\<close>, and \<open>go watchProducerStatus\<close>\<close>
  | H_ToMap                        \<comment> \<open>\<open>_producers.toMap()\<close>\<close>
  | H_Send "string list"           \<comment> \<open>the send on \<open>_producersChangeCh\<close>\<close>

record producerSupervisor =
  su_producers :: "(string, unit) concurrentMap"
  su_workers :: workers
  su_handling :: "string \<rightharpoonup> handling"
  su_checks :: "string list list"
  su_idleChecks :: "string list list"
  su_changeClosed :: bool                   \<comment> \<open>\<open>_producersChangeCh\<close> is closed\<close>
  su_changes :: "string list list"          \<comment> \<open>senders blocked on it\<close>
  su_allIdle :: bool                        \<comment> \<open>the slot of \<open>_allProducersIdleCh\<close> is taken\<close>
  su_allTerminated :: bool                  \<comment> \<open>\<open>_allProducersTerminatedCh\<close> is closed\<close>

definition su_ids :: "producerSupervisor \<Rightarrow> string list" where
  "su_ids s = map fst (map_toMap (su_producers s))"

definition su_add :: "producerSupervisor \<Rightarrow> string \<Rightarrow> producerSupervisor" where
  "su_add s i = s\<lparr>su_producers := map_set (su_producers s) i (), su_workers := (su_workers s)(i \<mapsto> new_worker)\<rparr>"

definition newProducerSupervisor :: "producerSupervisor" where
  "newProducerSupervisor =
     \<lparr>su_producers = newConcurrentMap [], su_workers = Map.empty, su_handling = Map.empty, su_checks = [],
      su_idleChecks = [], su_changeClosed = False, su_changes = [], su_allIdle = False, su_allTerminated = False\<rparr>"

text \<open>\<open>run\<close>, for the ids of the \<open>Concurrency\<close> new producers.\<close>

definition su_run :: "string list \<Rightarrow> producerSupervisor" where
  "su_run is' = foldl su_add newProducerSupervisor is'"

text \<open>
  \<open>terminate\<close>: the loop over the copy that \<open>toMap()\<close> makes (\<open>su_ids\<close>) tells one producer after the
  other; then it closes the channel, which panics every goroutine that waits to send on it.
\<close>

definition su_tell :: "producerSupervisor \<Rightarrow> string \<Rightarrow> producerSupervisor" where
  "su_tell s i = s\<lparr>su_workers := at_worker (su_workers s) i wk_terminate\<rparr>"

definition su_close :: "producerSupervisor \<Rightarrow> producerSupervisor go" where
  "su_close s = (if su_changes s \<noteq> [] then Inl SendOnClosed else Inr (s\<lparr>su_changeClosed := True\<rparr>))"

text \<open>
  The next action of \<open>handleProducerPanic\<close> for producer \<open>i\<close>. \<open>Init\<close> is not called on the
  replacement. The send panics when the channel is closed; otherwise the watcher waits until it is taken.
\<close>

definition handleProducerPanic :: "producerSupervisor \<Rightarrow> string \<Rightarrow> string \<Rightarrow> producerSupervisor go option" where
  "handleProducerPanic s i new =
     (case su_handling s i of
        None \<Rightarrow> None
      | Some H_Delete \<Rightarrow>
          Some (Inr (s\<lparr>su_producers := map_delete (su_producers s) i, su_handling := (su_handling s)(i \<mapsto> H_Set)\<rparr>))
      | Some H_Set \<Rightarrow>
          Some (Inr (s\<lparr>su_producers := map_set (su_producers s) new (),
                       su_workers := (su_workers s)(new \<mapsto> new_worker\<lparr>wk_running := False\<rparr>),
                       su_handling := (su_handling s)(i \<mapsto> H_Run new)\<rparr>))
      | Some (H_Run new) \<Rightarrow>
          Some (Inr (s\<lparr>su_workers := at_worker (su_workers s) new (\<lambda>w. w\<lparr>wk_running := True\<rparr>),
                       su_handling := (su_handling s)(i \<mapsto> H_ToMap)\<rparr>))
      | Some H_ToMap \<Rightarrow> Some (Inr (s\<lparr>su_handling := (su_handling s)(i \<mapsto> H_Send (su_ids s))\<rparr>))
      | Some (H_Send ids) \<Rightarrow>
          Some (if su_changeClosed s then Inl SendOnClosed
                else Inr (s\<lparr>su_changes := su_changes s @ [ids], su_handling := (su_handling s)(i := None)\<rparr>)))"

text \<open>
  \<open>checkIfAllProducersIdle\<close> and \<open>checkIfAllProducersTerminated\<close>: first \<open>values()\<close>, then one producer
  after the other. \<open>producer.isTerminated\<close> reads \<open>_terminated\<close>: told to stop, not gone. A loop that
  finds a producer that is not idle, or not terminated, has no effect any more.
\<close>

definition checkIfAllProducersIdle :: "producerSupervisor \<Rightarrow> producerSupervisor" where
  "checkIfAllProducersIdle s = s\<lparr>su_idleChecks := su_idleChecks s @ [su_ids s]\<rparr>"

definition checkIfAllProducersTerminated :: "producerSupervisor \<Rightarrow> producerSupervisor" where
  "checkIfAllProducersTerminated s = s\<lparr>su_checks := su_checks s @ [su_ids s]\<rparr>"

definition worker_is :: "(worker \<Rightarrow> bool) \<Rightarrow> workers \<Rightarrow> string \<Rightarrow> bool" where
  "worker_is f ws i = (case ws i of None \<Rightarrow> True | Some w \<Rightarrow> f w)"

definition without :: "'a list \<Rightarrow> nat \<Rightarrow> 'a list" where
  "without xs k = take k xs @ drop (Suc k) xs"

definition su_idleCheck :: "producerSupervisor \<Rightarrow> nat \<Rightarrow> producerSupervisor option" where
  "su_idleCheck s k =
     (if \<not> k < length (su_idleChecks s) then None
      else Some (case su_idleChecks s ! k of
        [] \<Rightarrow> s\<lparr>su_idleChecks := without (su_idleChecks s) k, su_allIdle := True\<rparr>
      | i # rest \<Rightarrow> s\<lparr>su_idleChecks := (if worker_is wk_idle (su_workers s) i then (su_idleChecks s)[k := rest]
                                       else without (su_idleChecks s) k)\<rparr>))"

definition su_check :: "producerSupervisor \<Rightarrow> nat \<Rightarrow> producerSupervisor option" where
  "su_check s k =
     (if \<not> k < length (su_checks s) then None
      else Some (case su_checks s ! k of
        [] \<Rightarrow> s\<lparr>su_checks := without (su_checks s) k, su_allTerminated := True\<rparr>
      | i # rest \<Rightarrow> s\<lparr>su_checks := (if worker_is wk_terminated (su_workers s) i then (su_checks s)[k := rest]
                                   else without (su_checks s) k)\<rparr>))"

text \<open>\<open>watchProducerStatus\<close> when the value \<open>v\<close> of producer \<open>i\<close> arrives.\<close>

definition su_watch :: "producerSupervisor \<Rightarrow> string \<Rightarrow> string option \<Rightarrow> producerSupervisor" where
  "su_watch s i v =
     (let s = s\<lparr>su_workers := at_worker (su_workers s) i (\<lambda>w. w\<lparr>wk_seen := True\<rparr>)\<rparr>
      in if v \<noteq> None then s\<lparr>su_handling := (su_handling s)(i \<mapsto> H_Delete)\<rparr> else checkIfAllProducersTerminated s)"

section \<open>Message processors\<close>

record processorSupervisor =
  sp_hr :: "string hashRing"
  sp_workers :: workers
  sp_producers :: "string list"
  sp_allTerminated :: bool
  sp_told :: "string list"                  \<comment> \<open>history: told to stop by \<open>terminate\<close>\<close>

definition sp_add :: "processorSupervisor \<Rightarrow> string \<Rightarrow> processorSupervisor" where
  "sp_add s i = s\<lparr>sp_workers := (sp_workers s)(i \<mapsto> new_worker), sp_hr := addNode (\<lambda>n. n) (sp_hr s) i\<rparr>"

definition newMessageProcessorSupervisor :: "string list \<Rightarrow> processorSupervisor" where
  "newMessageProcessorSupervisor producers =
     \<lparr>sp_hr = newHashRing, sp_workers = Map.empty, sp_producers = producers, sp_allTerminated = False, sp_told = []\<rparr>"

definition sp_run :: "string list \<Rightarrow> string list \<Rightarrow> processorSupervisor" where
  "sp_run producers is' = foldl sp_add (newMessageProcessorSupervisor producers) is'"

definition sp_terminate :: "processorSupervisor \<Rightarrow> processorSupervisor" where
  "sp_terminate s =
     s\<lparr>sp_workers := tell (sp_workers s) (getAllNodes (sp_hr s)), sp_told := getAllNodes (sp_hr s)\<rparr>"

text \<open>
  \<open>handleProcessorPanic\<close> under the supervisor's mutex; the neighbour's pause and resume close its
  requests and are over at the end. The replacement is not told to stop, whatever came before.
\<close>

definition sp_handleProcessorPanic :: "processorSupervisor \<Rightarrow> string \<Rightarrow> string \<Rightarrow> processorSupervisor" where
  "sp_handleProcessorPanic s i new = sp_add (s\<lparr>sp_hr := removeNode (\<lambda>n. n) (sp_hr s) i\<rparr>) new"

definition sp_setProducers :: "processorSupervisor \<Rightarrow> string list \<Rightarrow> processorSupervisor" where
  "sp_setProducers s producers = (if length producers = 0 then s else s\<lparr>sp_producers := producers\<rparr>)"

definition sp_resolve :: "processorSupervisor \<Rightarrow> string \<Rightarrow> string option" where
  "sp_resolve s partitionKey = getNode (\<lambda>n. n) (sp_hr s) partitionKey"

definition checkIfAllProcessorsTerminated :: "processorSupervisor \<Rightarrow> processorSupervisor" where
  "checkIfAllProcessorsTerminated s =
     (if list_all (\<lambda>i. case sp_workers s i of None \<Rightarrow> True | Some w \<Rightarrow> wk_fully w) (getAllNodes (sp_hr s))
      then s\<lparr>sp_allTerminated := True\<rparr> else s)"

definition sp_watch :: "processorSupervisor \<Rightarrow> string \<Rightarrow> string option \<Rightarrow> string \<Rightarrow> processorSupervisor" where
  "sp_watch s i v new =
     (let s = s\<lparr>sp_workers := at_worker (sp_workers s) i (\<lambda>w. w\<lparr>wk_seen := True\<rparr>)\<rparr>
      in if v \<noteq> None then sp_handleProcessorPanic s i new else checkIfAllProcessorsTerminated s)"

section \<open>Batchers\<close>

text \<open>Batchers are known by their names: a second batcher of one name replaces the first in the map.\<close>

record batcherSupervisor =
  sb_batchers :: "(string, unit) concurrentMap"
  sb_workers :: workers
  sb_allTerminated :: bool

definition sb_ids :: "batcherSupervisor \<Rightarrow> string list" where
  "sb_ids s = map fst (map_toMap (sb_batchers s))"

definition batcherName :: "string \<Rightarrow> string" where
  "batcherName name = (if name = '''' then defaultBatcherName else name)"

text \<open>\<open>name\<close> is the one in the configuration, \<open>b.config.Name\<close> the one that \<open>newBatcher\<close> has filled in.\<close>

definition sb_add :: "batcherSupervisor \<Rightarrow> string \<Rightarrow> batcherSupervisor" where
  "sb_add s name =
     s\<lparr>sb_batchers := map_set (sb_batchers s) (batcherName name) (),
       sb_workers := (sb_workers s)(batcherName name \<mapsto> new_worker)\<rparr>"

definition newBatcherSupervisor :: "batcherSupervisor" where
  "newBatcherSupervisor = \<lparr>sb_batchers = newConcurrentMap [], sb_workers = Map.empty, sb_allTerminated = False\<rparr>"

definition sb_run :: "string list option \<Rightarrow> batcherSupervisor \<times> string list option" where
  "sb_run config =
     (case config of
        None \<Rightarrow> (newBatcherSupervisor, None)
      | Some names \<Rightarrow> (let s = foldl sb_add newBatcherSupervisor names in (s, Some (sb_ids s))))"

definition sb_terminate :: "batcherSupervisor \<Rightarrow> batcherSupervisor" where
  "sb_terminate s = s\<lparr>sb_workers := tell (sb_workers s) (sb_ids s)\<rparr>"

definition checkIfAllBatchersTerminated :: "batcherSupervisor \<Rightarrow> batcherSupervisor" where
  "checkIfAllBatchersTerminated s =
     (if list_all (\<lambda>i. case sb_workers s i of None \<Rightarrow> True | Some w \<Rightarrow> wk_fully w) (sb_ids s)
      then s\<lparr>sb_allTerminated := True\<rparr> else s)"

definition sb_watch :: "batcherSupervisor \<Rightarrow> string \<Rightarrow> batcherSupervisor" where
  "sb_watch s i =
     checkIfAllBatchersTerminated (s\<lparr>sb_workers := at_worker (sb_workers s) i (\<lambda>w. w\<lparr>wk_seen := True\<rparr>)\<rparr>)"

section \<open>Telling workers\<close>

lemma at_worker_None [simp]: "ws i = None \<Longrightarrow> at_worker ws i f = ws" by (simp add: at_worker_def)

lemma at_worker_apply: "at_worker ws i f j = (if i = j then map_option f (ws i) else ws j)"
  by (auto simp: at_worker_def split: option.splits)

lemma tell_apply: "tell ws is' j = (if j \<in> set is' then map_option wk_terminate (ws j) else ws j)"
proof (induction is' rule: rev_induct)
  case (snoc i is')
  have idem: "map_option wk_terminate (map_option wk_terminate w) = map_option wk_terminate w" for w
    by (cases w) (simp_all add: wk_terminate_def)
  show ?case using snoc idem by (auto simp: tell_def at_worker_apply)
qed (simp add: tell_def)

lemma at_worker_dom [simp]: "dom (at_worker ws i f) = dom ws"
  by (auto simp: at_worker_apply dom_def)

lemma tell_dom [simp]: "dom (tell ws is') = dom ws"
  by (auto simp: tell_apply dom_def)

lemma wk_end_cases:
  assumes "wk_end w v = Some w'"
  obtains "wk_running w" "wk_exit w = None" "v = None \<Longrightarrow> wk_terminated w" "w' = w\<lparr>wk_terminated := True, wk_fully := True, wk_exit := Some v\<rparr>"
  using assms by (auto simp: wk_end_def split: if_splits)

lemma all_of_iff:
  "list_all (\<lambda>i. case ws i of None \<Rightarrow> True | Some w \<Rightarrow> f w) ids \<longleftrightarrow> (\<forall>i\<in>set ids. \<forall>w. ws i = Some w \<longrightarrow> f w)"
  by (auto simp: list_all_iff split: option.splits)

text \<open>A worker store: the flags agree, and a worker that nobody told to stop (\<open>told\<close>) can only panic.\<close>

definition wk_ok :: "worker \<Rightarrow> bool \<Rightarrow> bool" where
  "wk_ok w told \<longleftrightarrow> (wk_fully w \<longleftrightarrow> wk_exit w \<noteq> None) \<and> (wk_seen w \<longrightarrow> wk_exit w \<noteq> None) \<and>
     (wk_fully w \<longrightarrow> wk_terminated w) \<and>
     (\<not> told \<longrightarrow> (wk_exit w = None \<longrightarrow> \<not> wk_terminated w) \<and> wk_exit w \<noteq> Some None)"

definition wks_ok :: "workers \<Rightarrow> string set \<Rightarrow> bool" where
  "wks_ok ws told \<longleftrightarrow> (\<forall>i w. ws i = Some w \<longrightarrow> wk_ok w (i \<in> told))"

named_theorems wk_intros

lemma wks_ok_D: "wks_ok ws told \<Longrightarrow> ws i = Some w \<Longrightarrow> wk_ok w (i \<in> told)"
  by (simp add: wks_ok_def)

lemma wks_ok_new [wk_intros]:
  "wks_ok ws told \<Longrightarrow> wks_ok (ws(i \<mapsto> new_worker)) told"
  "wks_ok ws told \<Longrightarrow> wks_ok (ws(i \<mapsto> new_worker\<lparr>wk_running := b\<rparr>)) told"
  by (simp_all add: wks_ok_def wk_ok_def new_worker_def)

lemma wks_ok_terminate [wk_intros]: "wks_ok ws UNIV \<Longrightarrow> wks_ok (at_worker ws i wk_terminate) UNIV"
  by (auto simp: wks_ok_def wk_ok_def at_worker_apply wk_terminate_def split: if_splits)

lemma wks_ok_running [wk_intros]: "wks_ok ws told \<Longrightarrow> wks_ok (at_worker ws i (\<lambda>w. w\<lparr>wk_running := b\<rparr>)) told"
  by (auto simp: wks_ok_def wk_ok_def at_worker_def split: option.splits)

lemma wks_ok_end [wk_intros]:
  "wks_ok ws told \<Longrightarrow> ws i = Some w \<Longrightarrow> wk_end w v = Some w' \<Longrightarrow> wks_ok (ws(i \<mapsto> w')) told"
  by (auto simp: wks_ok_def wk_ok_def elim!: wk_end_cases)

lemma wks_ok_seen [wk_intros]:
  "wks_ok ws told \<Longrightarrow> ws i = Some w \<Longrightarrow> wk_exit w = Some v \<Longrightarrow> wks_ok (at_worker ws i (\<lambda>w. w\<lparr>wk_seen := True\<rparr>)) told"
  by (fastforce simp: wks_ok_def wk_ok_def at_worker_def)

lemma wks_ok_idle [wk_intros]: "wks_ok ws told \<Longrightarrow> wks_ok (at_worker ws i (\<lambda>w. w\<lparr>wk_idle := b\<rparr>)) told"
  by (auto simp: wks_ok_def wk_ok_def at_worker_def split: option.splits)

lemma wks_ok_tell [wk_intros]: "wks_ok ws told \<Longrightarrow> set is' \<union> told \<subseteq> told' \<Longrightarrow> wks_ok (tell ws is') told'"
  by (fastforce simp: wks_ok_def wk_ok_def tell_apply wk_terminate_def split: if_splits)

text \<open>A worker whose goroutine has ended by a panic.\<close>

definition wk_panicked :: "worker \<Rightarrow> bool" where
  "wk_panicked w \<longleftrightarrow> wk_exit w \<noteq> None \<and> wk_exit w \<noteq> Some None"

lemma wk_panicked_simps [simp]:
  "wk_exit w = Some v \<Longrightarrow> wk_panicked w \<longleftrightarrow> v \<noteq> None" "wk_exit w = None \<Longrightarrow> \<not> wk_panicked w"
  "wk_panicked (w\<lparr>wk_seen := b\<rparr>) = wk_panicked w" "wk_panicked (w\<lparr>wk_idle := b\<rparr>) = wk_panicked w"
  "wk_panicked (w\<lparr>wk_terminated := b\<rparr>) = wk_panicked w" "wk_panicked (w\<lparr>wk_running := b\<rparr>) = wk_panicked w"
  by (auto simp: wk_panicked_def)

section \<open>Invariants of the supervisors\<close>

text \<open>
  Producers, before and after the cancellation \<open>c\<close>: only then producers are told to stop, checks
  are made, the end is reported and the channel of changes is closed; and a panic is handled once
  its producer is gone.
\<close>

definition su_inv :: "producerSupervisor \<Rightarrow> bool \<Rightarrow> bool" where
  "su_inv s c \<longleftrightarrow> cmap_ok (su_producers s) \<and> wks_ok (su_workers s) (if c then UNIV else {}) \<and>
     set (su_ids s) \<subseteq> dom (su_workers s) \<and>
     (su_changeClosed s \<longrightarrow> c \<and> su_changes s = []) \<and>
     (su_allTerminated s \<longrightarrow> c) \<and> (su_checks s \<noteq> [] \<longrightarrow> c) \<and>
     (\<forall>i h. su_handling s i = Some h \<longrightarrow> (\<exists>w. su_workers s i = Some w \<and> wk_panicked w))"

lemma su_invD:
  assumes "su_inv s c"
  shows "cmap_ok (su_producers s)" "wks_ok (su_workers s) (if c then UNIV else {})" "set (su_ids s) \<subseteq> dom (su_workers s)"
    "su_changeClosed s \<Longrightarrow> c" "su_changeClosed s \<Longrightarrow> su_changes s = []" "su_allTerminated s \<Longrightarrow> c" "su_checks s \<noteq> [] \<Longrightarrow> c"
    "su_handling s i = Some h \<Longrightarrow> \<exists>w. su_workers s i = Some w \<and> wk_panicked w"
  using assms unfolding su_inv_def by blast+

lemma set_su_ids: "cmap_ok (su_producers s) \<Longrightarrow> set (su_ids s) = dom (map_get (su_producers s))"
  by (simp add: su_ids_def map_toMap_eq map_get_def [abs_def] dom_map_of_conv_image_fst)

lemma su_ids_upd [simp]:
  "su_ids (s\<lparr>su_workers := ws\<rparr>) = su_ids s" "su_ids (s\<lparr>su_changeClosed := b\<rparr>) = su_ids s"
  "su_ids (s\<lparr>su_changes := c\<rparr>) = su_ids s" "su_ids (s\<lparr>su_allTerminated := b\<rparr>) = su_ids s"
  "su_ids (s\<lparr>su_allIdle := b\<rparr>) = su_ids s" "su_ids (s\<lparr>su_handling := h\<rparr>) = su_ids s"
  "su_ids (s\<lparr>su_checks := cs\<rparr>) = su_ids s" "su_ids (s\<lparr>su_idleChecks := cs\<rparr>) = su_ids s"
  by (simp_all add: su_ids_def)

lemma su_ids_map:
  assumes "cmap_ok (su_producers s)"
  shows "set (su_ids (s\<lparr>su_producers := map_delete (su_producers s) i\<rparr>)) = set (su_ids s) - {i}"
    "set (su_ids (s\<lparr>su_producers := map_set (su_producers s) i ()\<rparr>)) = insert i (set (su_ids s))"
  using assms by (auto simp: set_su_ids dom_def split: if_splits)

lemma su_inv_run: "su_inv (su_run is') False"
proof -
  have start: "su_inv newProducerSupervisor False"
    by (simp add: newProducerSupervisor_def su_inv_def set_su_ids wks_ok_def map_get_def [abs_def] newConcurrentMap_def cmap_ok_def)
  have "su_inv (su_add s i) False" if s: "su_inv s False" and "su_handling s = Map.empty" for s i
    using that su_ids_map(2) [OF su_invD(1) [OF s], of i]
    by (auto simp: su_inv_def su_add_def su_ids_def wk_intros)
  then have "su_inv (foldl su_add newProducerSupervisor is') False \<and>
      su_handling (foldl su_add newProducerSupervisor is') = Map.empty"
    by (induction is' rule: rev_induct) (use start in \<open>auto simp: su_add_def newProducerSupervisor_def\<close>)
  then show ?thesis by (simp add: su_run_def)
qed

lemma su_inv_cancel: "su_inv s c \<Longrightarrow> su_inv s True"
  by (auto simp: su_inv_def wks_ok_def wk_ok_def)

lemma su_inv_tell: "su_inv s True \<Longrightarrow> su_inv (su_tell s i) True"
  by (auto simp: su_inv_def su_tell_def wk_intros at_worker_apply wk_terminate_def)

lemma su_inv_close: "su_inv s True \<Longrightarrow> su_close s = Inr s' \<Longrightarrow> su_inv s' True"
  by (auto simp: su_inv_def su_close_def split: if_splits)

lemma su_inv_end:
  assumes inv: "su_inv s c" and w: "su_workers s i = Some w" "wk_end w v = Some w'"
  shows "su_inv (s\<lparr>su_workers := (su_workers s)(i \<mapsto> w')\<rparr>) c"
proof -
  have "\<not> wk_panicked w" using w(2) by (auto elim!: wk_end_cases)
  then show ?thesis using inv w by (fastforce simp: su_inv_def wks_ok_end)
qed

lemma su_inv_idle:
  "su_inv s c \<Longrightarrow> su_inv (s\<lparr>su_workers := at_worker (su_workers s) i (\<lambda>w. w\<lparr>wk_idle := b\<rparr>)\<rparr>) c"
  by (fastforce simp: su_inv_def wk_intros at_worker_apply)

lemma su_inv_seen:
  "su_inv s c \<Longrightarrow> su_workers s i = Some w \<Longrightarrow> wk_exit w = Some v \<Longrightarrow>
   su_inv (s\<lparr>su_workers := at_worker (su_workers s) i (\<lambda>w. w\<lparr>wk_seen := True\<rparr>)\<rparr>) c"
  by (fastforce simp: su_inv_def wks_ok_seen at_worker_apply)

lemma su_ended_cancelled:
  "su_inv s c \<Longrightarrow> su_workers s i = Some w \<Longrightarrow> wk_exit w = Some None \<Longrightarrow> c"
  by (auto simp: su_inv_def wk_ok_def dest!: wks_ok_D split: if_splits)

lemma su_inv_handle:
  assumes inv: "su_inv s c" and step: "handleProducerPanic s i new = Some (Inr s')"
    and fresh: "su_handling s i = Some H_Set \<Longrightarrow> new \<notin> dom (su_workers s)"
  shows "su_inv s' c"
proof -
  note D = su_invD [OF inv]
  obtain h where h: "su_handling s i = Some h" using step by (cases "su_handling s i") (auto simp: handleProducerPanic_def)
  show ?thesis
  proof (cases h)
    case H_Delete
    with step h have s': "s' = s\<lparr>su_producers := map_delete (su_producers s) i, su_handling := (su_handling s)(i \<mapsto> H_Set)\<rparr>"
      by (simp add: handleProducerPanic_def)
    have "set (su_ids s') = set (su_ids s) - {i}" using su_ids_map(1) [OF D(1)] by (simp add: s' su_ids_def)
    then show ?thesis using inv h by (auto simp: su_inv_def s')
  next
    case H_Set
    with step h have s': "s' = s\<lparr>su_producers := map_set (su_producers s) new (),
        su_workers := (su_workers s)(new \<mapsto> new_worker\<lparr>wk_running := False\<rparr>), su_handling := (su_handling s)(i \<mapsto> H_Run new)\<rparr>"
      by (simp add: handleProducerPanic_def)
    have "set (su_ids s') = insert new (set (su_ids s))" using su_ids_map(2) [OF D(1)] by (simp add: s' su_ids_def)
    moreover have "\<exists>w. su_workers s' j = Some w \<and> wk_panicked w" if "su_handling s' j = Some k" for j k
    proof -
      from that h have "\<exists>k. su_handling s j = Some k" by (auto simp: s' split: if_splits)
      then obtain w where w: "su_workers s j = Some w" "wk_panicked w" using D(8) by blast
      moreover from this have "j \<noteq> new" using fresh h H_Set by auto
      ultimately show ?thesis by (simp add: s')
    qed
    moreover have "cmap_ok (su_producers s')" "wks_ok (su_workers s') (if c then UNIV else {})"
      using D(1,2) by (simp_all add: s' wk_intros)
    moreover have "su_changeClosed s' = su_changeClosed s" "su_changes s' = su_changes s"
      "su_allTerminated s' = su_allTerminated s" "su_checks s' = su_checks s" "dom (su_workers s') = insert new (dom (su_workers s))"
      by (simp_all add: s')
    ultimately show ?thesis using D(3-7) unfolding su_inv_def by auto
  next
    case (H_Run n)
    with step h have s': "s' = s\<lparr>su_workers := at_worker (su_workers s) n (\<lambda>w. w\<lparr>wk_running := True\<rparr>),
        su_handling := (su_handling s)(i \<mapsto> H_ToMap)\<rparr>" by (simp add: handleProducerPanic_def)
    show ?thesis using inv h by (fastforce simp: su_inv_def s' wk_intros at_worker_apply)
  next
    case H_ToMap
    with step h have "s' = s\<lparr>su_handling := (su_handling s)(i \<mapsto> H_Send (su_ids s))\<rparr>"
      by (simp add: handleProducerPanic_def)
    then show ?thesis using inv h by (auto simp: su_inv_def)
  next
    case (H_Send ids)
    with step h have "\<not> su_changeClosed s" "s' = s\<lparr>su_changes := su_changes s @ [ids], su_handling := (su_handling s)(i := None)\<rparr>"
      by (auto simp: handleProducerPanic_def split: if_splits)
    then show ?thesis using inv by (auto simp: su_inv_def)
  qed
qed

lemma su_inv_check: "su_inv s c \<Longrightarrow> su_check s k = Some s' \<Longrightarrow> su_inv s' c"
  by (auto simp: su_inv_def su_check_def split: if_splits list.splits)

lemma su_inv_idleCheck: "su_inv s c \<Longrightarrow> su_idleCheck s k = Some s' \<Longrightarrow> su_inv s' c"
  by (auto simp: su_inv_def su_idleCheck_def split: if_splits list.splits)

lemma su_inv_watch:
  assumes "su_inv s c" and "su_workers s i = Some w" and "wk_exit w = Some v"
  shows "su_inv (su_watch s i v) c"
proof -
  let ?s = "s\<lparr>su_workers := at_worker (su_workers s) i (\<lambda>w. w\<lparr>wk_seen := True\<rparr>)\<rparr>"
  have seen: "su_inv ?s c" by (rule su_inv_seen [OF assms])
  show ?thesis
  proof (cases v)
    case None
    then have c using su_ended_cancelled assms by blast
    then show ?thesis using seen None by (simp add: su_watch_def checkIfAllProducersTerminated_def su_inv_def)
  next
    case (Some e)
    have "su_workers ?s i = Some (w\<lparr>wk_seen := True\<rparr>)" "wk_panicked (w\<lparr>wk_seen := True\<rparr>)"
      using assms(2,3) Some by (simp_all add: at_worker_apply wk_panicked_def)
    then show ?thesis using seen Some by (auto simp: su_watch_def su_inv_def)
  qed
qed

text \<open>
  Processors: a processor that was told to stop is in the ring until it panics, so that the
  supervisor cannot report the end before every one of them is gone. Neither direction of the ring
  operations that this uses depends on the hashes being different.
\<close>

lemma nodes_addNode_mono: "set (nodes hr) \<subseteq> set (nodes (addNode ts hr x))"
  by (auto simp: addNode_def Let_def split: option.splits)

lemma nodes_addNode_sub: "set (nodes (addNode ts hr x)) \<subseteq> insert x (set (nodes hr))"
  by (auto simp: addNode_def Let_def split: option.splits)

lemma remove_by_string_bounds:
  "set ns - {x} \<subseteq> set (remove_by_string (\<lambda>n. n) x ns)" "set (remove_by_string (\<lambda>n. n) x ns) \<subseteq> set ns"
  by (induction ns) auto

lemma nodes_removeNode_bounds:
  "set (nodes hr) - {x} \<subseteq> set (nodes (removeNode (\<lambda>n. n) hr x))" "set (nodes (removeNode (\<lambda>n. n) hr x)) \<subseteq> set (nodes hr)"
  using remove_by_string_bounds [where ns = "nodes hr" and x = x]
  by (auto simp: removeNode_def Let_def split: option.splits)

abbreviation sp_nodes :: "processorSupervisor \<Rightarrow> string set" where
  "sp_nodes s \<equiv> set (nodes (sp_hr s))"

definition sp_inv :: "processorSupervisor \<Rightarrow> bool" where
  "sp_inv s \<longleftrightarrow> wks_ok (sp_workers s) (set (sp_told s)) \<and> sp_nodes s \<union> set (sp_told s) \<subseteq> dom (sp_workers s) \<and>
     (\<forall>i w. sp_workers s i = Some w \<longrightarrow> i \<in> set (sp_told s) \<longrightarrow> wk_terminated w \<and>
        (i \<in> sp_nodes s \<or> wk_panicked w)) \<and>
     (sp_allTerminated s \<longrightarrow> sp_told s \<noteq> [] \<and>
        (\<forall>i w. sp_workers s i = Some w \<longrightarrow> i \<in> set (sp_told s) \<longrightarrow> wk_exit w \<noteq> None))"

lemma sp_invI:
  assumes "wks_ok (sp_workers s) (set (sp_told s))" and "sp_nodes s \<subseteq> dom (sp_workers s)" and "set (sp_told s) \<subseteq> dom (sp_workers s)"
    and "\<And>i w. sp_workers s i = Some w \<Longrightarrow> i \<in> set (sp_told s) \<Longrightarrow> wk_terminated w"
    and "\<And>i w. sp_workers s i = Some w \<Longrightarrow> i \<in> set (sp_told s) \<Longrightarrow> i \<notin> sp_nodes s \<Longrightarrow> wk_panicked w"
    and "sp_allTerminated s \<Longrightarrow> sp_told s \<noteq> []"
    and "\<And>i w. sp_allTerminated s \<Longrightarrow> sp_workers s i = Some w \<Longrightarrow> i \<in> set (sp_told s) \<Longrightarrow> wk_exit w \<noteq> None"
  shows "sp_inv s"
  using assms unfolding sp_inv_def by blast

lemma sp_invD:
  assumes "sp_inv s"
  shows "wks_ok (sp_workers s) (set (sp_told s))" "sp_nodes s \<subseteq> dom (sp_workers s)" "set (sp_told s) \<subseteq> dom (sp_workers s)"
    "\<And>i w. sp_workers s i = Some w \<Longrightarrow> i \<in> set (sp_told s) \<Longrightarrow> wk_terminated w"
    "\<And>i w. sp_workers s i = Some w \<Longrightarrow> i \<in> set (sp_told s) \<Longrightarrow> i \<notin> sp_nodes s \<Longrightarrow> wk_panicked w"
    "sp_allTerminated s \<Longrightarrow> sp_told s \<noteq> []"
    "\<And>i w. sp_allTerminated s \<Longrightarrow> sp_workers s i = Some w \<Longrightarrow> i \<in> set (sp_told s) \<Longrightarrow> wk_exit w \<noteq> None"
  using assms unfolding sp_inv_def by blast+

lemma sp_add_fields [simp]:
  "sp_workers (sp_add s i) = (sp_workers s)(i \<mapsto> new_worker)" "sp_told (sp_add s i) = sp_told s"
  "sp_allTerminated (sp_add s i) = sp_allTerminated s"
  by (simp_all add: sp_add_def)

lemma sp_nodes_add:
  "sp_nodes s \<subseteq> sp_nodes (sp_add s i)" "sp_nodes (sp_add s i) \<subseteq> insert i (sp_nodes s)"
  using nodes_addNode_mono [of "sp_hr s" "\<lambda>n. n" i] nodes_addNode_sub [of "\<lambda>n. n" "sp_hr s" i]
  by (simp_all add: sp_add_def)

lemma sp_inv_add:
  assumes inv: "sp_inv s" and new: "i \<notin> dom (sp_workers s)"
  shows "sp_inv (sp_add s i)"
proof (rule sp_invI)
  have old: "sp_workers s j = Some w" if "sp_workers (sp_add s i) j = Some w" "j \<in> set (sp_told s)" for j w
    using that new sp_invD(3) [OF inv] by (auto split: if_splits)
  show "wks_ok (sp_workers (sp_add s i)) (set (sp_told (sp_add s i)))"
    using sp_invD(1) [OF inv] by (simp add: wk_intros)
  show "sp_nodes (sp_add s i) \<subseteq> dom (sp_workers (sp_add s i))"
    using sp_invD(2) [OF inv] sp_nodes_add(2) [of s i] by auto
  show "set (sp_told (sp_add s i)) \<subseteq> dom (sp_workers (sp_add s i))" using sp_invD(3) [OF inv] by auto
  fix j w assume j: "sp_workers (sp_add s i) j = Some w" "j \<in> set (sp_told (sp_add s i))"
  with old have w: "sp_workers s j = Some w" "j \<in> set (sp_told s)" by simp_all
  show "wk_terminated w" using w by (rule sp_invD(4) [OF inv])
  show "wk_panicked w" if "j \<notin> sp_nodes (sp_add s i)"
    using that sp_nodes_add(1) [of s i] by (intro sp_invD(5) [OF inv w]) auto
  show "wk_exit w \<noteq> None" if "sp_allTerminated (sp_add s i)"
    using that by (intro sp_invD(7) [OF inv _ w]) simp
qed (use sp_invD(6) [OF inv] in simp)

lemma sp_inv_run:
  assumes "distinct is'"
  shows "sp_inv (sp_run ps is') \<and> sp_told (sp_run ps is') = [] \<and> dom (sp_workers (sp_run ps is')) = set is'"
  using assms unfolding sp_run_def
proof (induction is' rule: rev_induct)
  case Nil
  then show ?case by (simp add: newMessageProcessorSupervisor_def sp_inv_def wks_ok_def newHashRing_def)
next
  case (snoc i is')
  let ?s = "foldl sp_add (newMessageProcessorSupervisor ps) is'"
  from snoc have "sp_inv (sp_add ?s i)" by (intro sp_inv_add) auto
  with snoc show ?case by (auto simp: fun_upd_def [symmetric])
qed

lemma sp_inv_terminate:
  assumes "sp_inv s" and "sp_told s = []"
  shows "sp_inv (sp_terminate s)"
proof -
  have "wks_ok (tell (sp_workers s) (nodes (sp_hr s))) (sp_nodes s)"
    using sp_invD(1) [OF assms(1)] by (rule wks_ok_tell) (simp add: assms(2))
  moreover have "\<not> sp_allTerminated s" using assms sp_invD(6) by blast
  ultimately show ?thesis using sp_invD(2) [OF assms(1)]
    by (intro sp_invI) (auto simp: sp_terminate_def getAllNodes_def tell_apply wk_terminate_def)
qed

text \<open>A change of one worker that keeps what the flags say of its end.\<close>

lemma sp_inv_change:
  assumes inv: "sp_inv s" and w: "sp_workers s i = Some w" and ok: "wks_ok ((sp_workers s)(i \<mapsto> w')) (set (sp_told s))"
    and "wk_terminated w \<Longrightarrow> wk_terminated w'" "wk_panicked w \<Longrightarrow> wk_panicked w'" "wk_exit w \<noteq> None \<Longrightarrow> wk_exit w' \<noteq> None"
  shows "sp_inv (s\<lparr>sp_workers := (sp_workers s)(i \<mapsto> w')\<rparr>)"
  using assms sp_invD(2-7) [OF inv] by (intro sp_invI) (auto split: if_splits)

lemma sp_inv_end:
  assumes "sp_inv s" and "sp_workers s i = Some w" and "wk_end w v = Some w'"
  shows "sp_inv (s\<lparr>sp_workers := (sp_workers s)(i \<mapsto> w')\<rparr>)"
  using wks_ok_end [where w' = w', OF sp_invD(1) [OF assms(1)] assms(2,3)] assms(3)
  by (intro sp_inv_change [OF assms(1,2)]) (auto elim!: wk_end_cases)

lemma sp_inv_seen:
  assumes "sp_inv s" and "sp_workers s i = Some w" and "wk_exit w = Some v"
  shows "sp_inv (s\<lparr>sp_workers := at_worker (sp_workers s) i (\<lambda>w. w\<lparr>wk_seen := True\<rparr>)\<rparr>)"
  using wks_ok_seen [where v = v, OF sp_invD(1) [OF assms(1)] assms(2,3)] assms
  by (simp add: at_worker_def sp_inv_change)

lemma sp_inv_remove:
  assumes inv: "sp_inv s" and "sp_workers s i = Some w" and "wk_panicked w"
  shows "sp_inv (s\<lparr>sp_hr := removeNode (\<lambda>n. n) (sp_hr s) i\<rparr>)"
proof (rule sp_invI; simp?)
  show "set (nodes (removeNode (\<lambda>n. n) (sp_hr s) i)) \<subseteq> dom (sp_workers s)"
    using nodes_removeNode_bounds(2) [of "sp_hr s" i] sp_invD(2) [OF inv] by blast
  fix j u assume j: "sp_workers s j = Some u" "j \<in> set (sp_told s)"
    "j \<notin> set (nodes (removeNode (\<lambda>n. n) (sp_hr s) i))"
  show "wk_panicked u"
  proof (cases "j = i")
    case False
    with j(3) have "j \<notin> sp_nodes s" using nodes_removeNode_bounds(1) [of "sp_hr s" i] by blast
    then show ?thesis by (rule sp_invD(5) [OF inv j(1,2)])
  qed (use assms j in simp)
qed (use sp_invD [OF inv] in auto)

lemma sp_ended_told: "sp_inv s \<Longrightarrow> sp_workers s i = Some w \<Longrightarrow> wk_exit w = Some None \<Longrightarrow> i \<in> set (sp_told s)"
  by (auto simp: wk_ok_def dest!: sp_invD(1) wks_ok_D)

lemma sp_fully: "sp_inv s \<Longrightarrow> sp_workers s i = Some w \<Longrightarrow> wk_fully w \<longleftrightarrow> wk_exit w \<noteq> None"
  by (auto simp: wk_ok_def dest!: sp_invD(1) wks_ok_D)

lemma sp_inv_check:
  assumes inv: "sp_inv s" and "sp_told s \<noteq> []"
  shows "sp_inv (checkIfAllProcessorsTerminated s)"
proof -
  have "wk_exit w \<noteq> None"
    if told: "sp_workers s i = Some w" "i \<in> set (sp_told s)" "\<forall>i\<in>sp_nodes s. \<forall>w. sp_workers s i = Some w \<longrightarrow> wk_fully w" for i w
    using told sp_invD(5) [OF inv told(1,2)] sp_fully [OF inv told(1)] by (auto simp: wk_panicked_def)
  moreover have "sp_inv (s\<lparr>sp_allTerminated := True\<rparr>)"
    if "\<And>i w. sp_workers s i = Some w \<Longrightarrow> i \<in> set (sp_told s) \<Longrightarrow> wk_exit w \<noteq> None"
    using sp_invD(1-5) [OF inv] assms(2) that by (intro sp_invI) auto
  ultimately show ?thesis using inv
    by (auto simp: checkIfAllProcessorsTerminated_def all_of_iff getAllNodes_def)
qed

lemma sp_inv_watch:
  assumes "sp_inv s" and "sp_workers s i = Some w" and "wk_exit w = Some v" and "v = None \<or> new \<notin> dom (sp_workers s)"
  shows "sp_inv (sp_watch s i v new)"
proof -
  let ?s = "s\<lparr>sp_workers := at_worker (sp_workers s) i (\<lambda>w. w\<lparr>wk_seen := True\<rparr>)\<rparr>"
  have seen: "sp_inv ?s" by (rule sp_inv_seen [OF assms(1-3)])
  have i: "sp_workers ?s i = Some (w\<lparr>wk_seen := True\<rparr>)" using assms(2) by (simp add: at_worker_apply)
  show ?thesis
  proof (cases v)
    case None
    then have "sp_told ?s \<noteq> []" using sp_ended_told [OF assms(1,2)] assms(3) by auto
    with sp_inv_check [OF seen] None show ?thesis by (simp add: sp_watch_def)
  next
    case (Some e)
    with assms(3) have "sp_inv (?s\<lparr>sp_hr := removeNode (\<lambda>n. n) (sp_hr ?s) i\<rparr>)"
      by (intro sp_inv_remove [OF seen i]) simp
    from sp_inv_add [OF this] assms(4) Some show ?thesis
      by (simp add: sp_watch_def sp_handleProcessorPanic_def)
  qed
qed

text \<open>Batchers: \<open>told\<close> is whether \<open>terminate\<close> was called; a batcher is not replaced.\<close>

definition sb_inv :: "batcherSupervisor \<Rightarrow> bool \<Rightarrow> bool" where
  "sb_inv s told \<longleftrightarrow> cmap_ok (sb_batchers s) \<and> wks_ok (sb_workers s) (if told then UNIV else {}) \<and>
     (\<forall>i w. sb_workers s i = Some w \<longrightarrow> \<not> wk_panicked w) \<and> set (sb_ids s) \<subseteq> dom (sb_workers s) \<and>
     (told \<longrightarrow> (\<forall>i w. sb_workers s i = Some w \<longrightarrow> i \<in> set (sb_ids s) \<longrightarrow> wk_terminated w)) \<and>
     (sb_allTerminated s \<longrightarrow> told \<and> (\<forall>i w. sb_workers s i = Some w \<longrightarrow> i \<in> set (sb_ids s) \<longrightarrow> wk_exit w \<noteq> None))"

lemma set_sb_ids: "cmap_ok (sb_batchers s) \<Longrightarrow> set (sb_ids s) = dom (map_get (sb_batchers s))"
  by (simp add: sb_ids_def map_toMap_eq map_get_def [abs_def] dom_map_of_conv_image_fst)

lemma sb_ids_upd [simp]:
  "sb_ids (s\<lparr>sb_workers := ws\<rparr>) = sb_ids s" "sb_ids (s\<lparr>sb_allTerminated := b\<rparr>) = sb_ids s"
  by (simp_all add: sb_ids_def)

lemma sb_inv_run:
  assumes "sb_run config = (s, started)"
  shows "sb_inv s False \<and> (started = None \<longleftrightarrow> config = None) \<and> set (sb_ids s) = (case config of None \<Rightarrow> {} | Some names \<Rightarrow> batcherName ` set names)"
proof -
  let ?s0 = newBatcherSupervisor
  have s0: "sb_inv ?s0 False" "set (sb_ids ?s0) = {}"
    by (simp_all add: newBatcherSupervisor_def sb_inv_def set_sb_ids wks_ok_def map_get_def [abs_def] newConcurrentMap_def cmap_ok_def)
  have add: "sb_inv (sb_add s n) False \<and> set (sb_ids (sb_add s n)) = insert (batcherName n) (set (sb_ids s))" if "sb_inv s False" for s n
  proof -
    have ids: "set (sb_ids (sb_add s n)) = insert (batcherName n) (set (sb_ids s))"
      using that by (auto simp: sb_add_def sb_inv_def set_sb_ids dom_def)
    moreover have "cmap_ok (sb_batchers (sb_add s n))" "sb_workers (sb_add s n) = (sb_workers s)(batcherName n \<mapsto> new_worker)"
      "sb_allTerminated (sb_add s n) = sb_allTerminated s"
      using that by (simp_all add: sb_add_def sb_inv_def)
    moreover have "\<not> wk_panicked new_worker" by (simp add: new_worker_def)
    ultimately show ?thesis using that by (auto simp: sb_inv_def wk_intros)
  qed
  have "sb_inv (foldl sb_add ?s0 names) False \<and> set (sb_ids (foldl sb_add ?s0 names)) = batcherName ` set names" for names
    by (induction names rule: rev_induct) (use s0 add in auto)
  then show ?thesis using assms s0 by (auto simp: sb_run_def Let_def split: option.splits)
qed

lemma sb_inv_terminate: "sb_inv s False \<Longrightarrow> sb_inv (sb_terminate s) True"
  by (auto simp: sb_inv_def sb_terminate_def tell_apply wk_terminate_def wk_intros split: if_splits)

lemma sb_inv_end:
  assumes "sb_inv s told" and "sb_workers s i = Some w" and "wk_end w None = Some w'"
  shows "sb_inv (s\<lparr>sb_workers := (sb_workers s)(i \<mapsto> w')\<rparr>) told"
proof -
  have "wks_ok ((sb_workers s)(i \<mapsto> w')) (if told then UNIV else {})"
    using assms by (intro wks_ok_end [of _ _ i w None w']) (simp_all add: sb_inv_def)
  then show ?thesis using assms by (auto simp: sb_inv_def elim!: wk_end_cases)
qed

lemma sb_inv_watch:
  assumes "sb_inv s told" and "sb_workers s i = Some w" and "wk_exit w = Some v"
  shows "sb_inv (sb_watch s i) told"
proof -
  let ?s = "s\<lparr>sb_workers := at_worker (sb_workers s) i (\<lambda>w. w\<lparr>wk_seen := True\<rparr>)\<rparr>"
  have np: "\<not> wk_panicked w" using assms(1,2) by (auto simp: sb_inv_def)
  with assms have seen: "sb_inv ?s told"
    using wks_ok_seen [of "sb_workers s" _ i w v] by (auto simp: sb_inv_def at_worker_apply split: if_splits)
  have "wk_exit w = Some None" using np assms(3) by simp
  then have told using assms(1,2) by (auto simp: sb_inv_def wk_ok_def dest!: wks_ok_D split: if_splits)
  moreover have "wk_exit w \<noteq> None" if "sb_workers ?s j = Some w" "wk_fully w" for j w
    using that seen by (auto simp: sb_inv_def wk_ok_def dest!: wks_ok_D)
  ultimately have "sb_inv (checkIfAllBatchersTerminated ?s) told"
    using seen by (auto simp: checkIfAllBatchersTerminated_def all_of_iff sb_inv_def)
  then show ?thesis by (simp add: sb_watch_def)
qed

end
