(* ===== verification/Pipeline.thy ===== *)
theory Pipeline
  imports Supervisors
begin

text \<open>
  \<open>broadway/pipeline.go\<close>: how \<open>Run\<close> starts the three supervisors and takes them down again, first
  the producers, then the message processors, then the batchers. Worker goroutines end when they were
  told to, or by a panic, at any moment; their watchers react later. \<open>Run\<close> up to the wait for the
  cancellation is one step: no worker moves before all are started.
\<close>

section \<open>Configuration and start\<close>

record pipelineConfig =
  pc_connectorAck :: "nat option option"    \<comment> \<open>\<open>Acknowledger()\<close>, if the producer is a \<open>Connector\<close>\<close>
  pc_Acknowledger :: "nat option"
  pc_producerConcurrency :: int
  pc_processorConcurrency :: int
  pc_Batchers :: "string list option"       \<comment> \<open>the names; \<open>None\<close> is \<open>nil\<close>\<close>

record pipeline =
  pl_config :: pipelineConfig
  pl_terminated :: bool
  pl_idle :: bool                           \<comment> \<open>the slot of \<open>producerIdleCh\<close> is taken\<close>
  pl_idleClosed :: bool
  pl_terminatedClosed :: bool

definition NewPipeline :: "pipelineConfig \<Rightarrow> pipeline" where
  "NewPipeline config =
     (let config = (case pc_connectorAck config of
                      Some ack \<Rightarrow> if pc_Acknowledger config = None then config\<lparr>pc_Acknowledger := ack\<rparr> else config
                    | None \<Rightarrow> config)
      in \<lparr>pl_config = config, pl_terminated = False, pl_idle = False, pl_idleClosed = False, pl_terminatedClosed = False\<rparr>)"

definition pl_terminate :: "pipeline \<Rightarrow> pipeline go" where
  "pl_terminate p =
     (if pl_terminatedClosed p then Inl SendOnClosed else Inr (p\<lparr>pl_terminated := True, pl_terminatedClosed := True\<rparr>))"

text \<open>
  Where the goroutine of \<open>Run\<close> is: it waits, or it is in the loop of \<open>producerSupervisor.terminate\<close>
  with the producers it still has to tell.
\<close>

datatype phase = Running | TellProducers "string list" | WaitProducers | WaitProcessors | WaitBatchers | Done

definition cancelled :: "phase \<Rightarrow> bool" where
  "cancelled ph \<longleftrightarrow> ph \<noteq> Running"

fun telling :: "phase \<Rightarrow> bool" where
  "telling (TellProducers is') \<longleftrightarrow> True"
| "telling _ \<longleftrightarrow> False"

record run =
  rn_pipeline :: pipeline
  rn_producers :: producerSupervisor
  rn_processors :: processorSupervisor
  rn_batchers :: batcherSupervisor
  rn_started :: "string list option"        \<comment> \<open>\<open>batchers\<close>\<close>
  rn_phase :: phase
  rn_status :: bool                         \<comment> \<open>the goroutine that forwards changes and idleness lives\<close>
  rn_crash :: "go_panic option"             \<comment> \<open>a panic that nothing recovers ends the process\<close>

text \<open>\<open>Run\<close> up to \<open><-ctx.Done()\<close>, for the ids of its producers and processors.\<close>

definition pl_run :: "pipeline \<Rightarrow> string list \<Rightarrow> string list \<Rightarrow> run" where
  "pl_run p producer_ids processor_ids =
     (let producers = su_run producer_ids;
          (batchers, started) = sb_run (pc_Batchers (pl_config p))
      in \<lparr>rn_pipeline = p, rn_producers = producers,
          rn_processors = sp_run (su_ids producers) processor_ids,
          rn_batchers = batchers, rn_started = started, rn_phase = Running, rn_status = True, rn_crash = None\<rparr>)"

text \<open>The loops run \<open>Concurrency\<close> times, not at all for a negative one; the ids are fresh uuids.\<close>

definition fresh_ids :: "pipelineConfig \<Rightarrow> string list \<Rightarrow> string list \<Rightarrow> bool" where
  "fresh_ids config producer_ids processor_ids \<longleftrightarrow>
     length producer_ids = nat (pc_producerConcurrency config) \<and> distinct producer_ids \<and>
     length processor_ids = nat (pc_processorConcurrency config) \<and> distinct processor_ids"

section \<open>The goroutine of Run\<close>

definition rn_fail :: "run \<Rightarrow> go_panic \<Rightarrow> run" where
  "rn_fail r e = r\<lparr>rn_crash := Some e\<rparr>"

definition rn_finish :: "run \<Rightarrow> run" where
  "rn_finish r =
     (case pl_terminate (rn_pipeline r) of
        Inl e \<Rightarrow> rn_fail r e
      | Inr p \<Rightarrow> r\<lparr>rn_pipeline := p, rn_phase := Done\<rparr>)"

text \<open>What it does next, when the channel it waits on is ready.\<close>

definition rn_advance :: "run \<Rightarrow> run option" where
  "rn_advance r =
     (case rn_phase r of
        Running \<Rightarrow> Some (r\<lparr>rn_phase := TellProducers (su_ids (rn_producers r))\<rparr>)
      | TellProducers (i # rest) \<Rightarrow>
          Some (r\<lparr>rn_producers := su_tell (rn_producers r) i, rn_phase := TellProducers rest\<rparr>)
      | TellProducers [] \<Rightarrow>
          Some (case su_close (rn_producers r) of
                  Inl e \<Rightarrow> rn_fail r e
                | Inr s \<Rightarrow> r\<lparr>rn_producers := s, rn_phase := WaitProducers\<rparr>)
      | WaitProducers \<Rightarrow>
          (if su_allTerminated (rn_producers r)
           then Some (r\<lparr>rn_processors := sp_terminate (rn_processors r), rn_phase := WaitProcessors\<rparr>) else None)
      | WaitProcessors \<Rightarrow>
          (if sp_allTerminated (rn_processors r)
           then Some (if rn_started r \<noteq> None
                      then r\<lparr>rn_batchers := sb_terminate (rn_batchers r), rn_phase := WaitBatchers\<rparr>
                      else rn_finish r) else None)
      | WaitBatchers \<Rightarrow> (if sb_allTerminated (rn_batchers r) then Some (rn_finish r) else None)
      | Done \<Rightarrow> None)"

section \<open>Watchers\<close>

text \<open>What the supervisor of the producers has done, or a panic that nothing recovers.\<close>

definition rn_supervise :: "run \<Rightarrow> producerSupervisor go \<Rightarrow> run" where
  "rn_supervise r res = (case res of Inl e \<Rightarrow> rn_fail r e | Inr s \<Rightarrow> r\<lparr>rn_producers := s\<rparr>)"

text \<open>One round of the goroutine that watches the producers: a change, or all of them idle.\<close>

definition rn_change :: "run \<Rightarrow> run option" where
  "rn_change r =
     (case su_changes (rn_producers r) of
        ids # rest \<Rightarrow> Some (r\<lparr>rn_processors := sp_setProducers (rn_processors r) ids,
                              rn_producers := (rn_producers r)\<lparr>su_changes := rest\<rparr>\<rparr>)
      | [] \<Rightarrow> (if su_changeClosed (rn_producers r)
               then Some (r\<lparr>rn_processors := sp_setProducers (rn_processors r) []\<rparr>) else None))"

definition rn_all_idle :: "run \<Rightarrow> run option" where
  "rn_all_idle r =
     (if su_allIdle (rn_producers r)
      then Some (r\<lparr>rn_producers := (rn_producers r)\<lparr>su_allIdle := False\<rparr>,
                   rn_pipeline := (rn_pipeline r)\<lparr>pl_idle := True\<rparr>\<rparr>) else None)"

definition rn_status_stop :: "run \<Rightarrow> run" where
  "rn_status_stop r = r\<lparr>rn_status := False, rn_pipeline := (rn_pipeline r)\<lparr>pl_idleClosed := True\<rparr>\<rparr>"

section \<open>Steps\<close>

text \<open>
  The idle flag of a producer changes freely here (\<open>Producer\<close> says when). The status goroutine may
  already be past its test of \<open>terminated\<close>, so its rounds do not depend on it.
\<close>

inductive rn_step :: "run \<Rightarrow> run \<Rightarrow> bool" where
  advance: "rn_crash r = None \<Longrightarrow> rn_advance r = Some r' \<Longrightarrow> rn_step r r'"
| producer_ends: "rn_crash r = None \<Longrightarrow> su_workers (rn_producers r) i = Some w \<Longrightarrow> wk_end w v = Some w' \<Longrightarrow>
    rn_step r (r\<lparr>rn_producers := (rn_producers r)\<lparr>su_workers := (su_workers (rn_producers r))(i \<mapsto> w')\<rparr>\<rparr>)"
| processor_ends: "rn_crash r = None \<Longrightarrow> sp_workers (rn_processors r) i = Some w \<Longrightarrow> wk_end w v = Some w' \<Longrightarrow>
    rn_step r (r\<lparr>rn_processors := (rn_processors r)\<lparr>sp_workers := (sp_workers (rn_processors r))(i \<mapsto> w')\<rparr>\<rparr>)"
| batcher_ends: "rn_crash r = None \<Longrightarrow> sb_workers (rn_batchers r) i = Some w \<Longrightarrow> wk_end w None = Some w' \<Longrightarrow>
    rn_step r (r\<lparr>rn_batchers := (rn_batchers r)\<lparr>sb_workers := (sb_workers (rn_batchers r))(i \<mapsto> w')\<rparr>\<rparr>)"
| producer_seen: "rn_crash r = None \<Longrightarrow> su_workers (rn_producers r) i = Some w \<Longrightarrow> wk_exit w = Some v \<Longrightarrow> \<not> wk_seen w \<Longrightarrow>
    rn_step r (r\<lparr>rn_producers := su_watch (rn_producers r) i v\<rparr>)"
| producer_handled: "rn_crash r = None \<Longrightarrow> handleProducerPanic (rn_producers r) i new = Some res \<Longrightarrow>
    su_handling (rn_producers r) i = Some H_Set \<longrightarrow> new \<notin> dom (su_workers (rn_producers r)) \<Longrightarrow>
    rn_step r (rn_supervise r res)"
| producers_check: "rn_crash r = None \<Longrightarrow> su_check (rn_producers r) k = Some s \<Longrightarrow> rn_step r (r\<lparr>rn_producers := s\<rparr>)"
| processor_seen: "rn_crash r = None \<Longrightarrow> sp_workers (rn_processors r) i = Some w \<Longrightarrow> wk_exit w = Some v \<Longrightarrow> \<not> wk_seen w \<Longrightarrow>
    v = None \<or> new \<notin> dom (sp_workers (rn_processors r)) \<Longrightarrow>
    rn_step r (r\<lparr>rn_processors := sp_watch (rn_processors r) i v new\<rparr>)"
| batcher_seen: "rn_crash r = None \<Longrightarrow> sb_workers (rn_batchers r) i = Some w \<Longrightarrow> wk_exit w \<noteq> None \<Longrightarrow> \<not> wk_seen w \<Longrightarrow>
    rn_step r (r\<lparr>rn_batchers := sb_watch (rn_batchers r) i\<rparr>)"
| producer_idle: "rn_crash r = None \<Longrightarrow> rn_step r (r\<lparr>rn_producers := (rn_producers r)\<lparr>su_workers :=
    at_worker (su_workers (rn_producers r)) i (\<lambda>w. w\<lparr>wk_idle := b\<rparr>)\<rparr>\<rparr>)"
| idle_seen: "rn_crash r = None \<Longrightarrow> su_workers (rn_producers r) i = Some w \<Longrightarrow> \<not> wk_seen w \<Longrightarrow>
    rn_step r (r\<lparr>rn_producers := checkIfAllProducersIdle (rn_producers r)\<rparr>)"
| idle_check: "rn_crash r = None \<Longrightarrow> su_idleCheck (rn_producers r) k = Some s \<Longrightarrow> rn_step r (r\<lparr>rn_producers := s\<rparr>)"
| change: "rn_crash r = None \<Longrightarrow> rn_status r \<Longrightarrow> rn_change r = Some r' \<Longrightarrow> rn_step r r'"
| all_idle: "rn_crash r = None \<Longrightarrow> rn_status r \<Longrightarrow> rn_all_idle r = Some r' \<Longrightarrow> rn_step r r'"
| status_stop: "rn_crash r = None \<Longrightarrow> rn_status r \<Longrightarrow> pl_terminated (rn_pipeline r) \<Longrightarrow> rn_step r (rn_status_stop r)"
| client_idle: "rn_crash r = None \<Longrightarrow> pl_idle (rn_pipeline r) \<Longrightarrow>
    rn_step r (r\<lparr>rn_pipeline := (rn_pipeline r)\<lparr>pl_idle := False\<rparr>\<rparr>)"

inductive_cases rn_stepE: "rn_step r r'"

section \<open>The invariant of a run\<close>

definition batchers_told :: "run \<Rightarrow> bool" where
  "batchers_told r \<longleftrightarrow> rn_phase r \<in> {WaitBatchers, Done} \<and> rn_started r \<noteq> None"

definition rn_inv :: "run \<Rightarrow> bool" where
  "rn_inv r \<longleftrightarrow> su_inv (rn_producers r) (cancelled (rn_phase r)) \<and> sp_inv (rn_processors r) \<and> sb_inv (rn_batchers r) (batchers_told r) \<and>
     (su_changeClosed (rn_producers r) \<longleftrightarrow> rn_phase r \<noteq> Running \<and> \<not> telling (rn_phase r)) \<and>
     (if rn_phase r \<in> {Running, WaitProducers} \<or> telling (rn_phase r) then sp_told (rn_processors r) = [] else su_allTerminated (rn_producers r)) \<and>
     (rn_phase r \<in> {WaitBatchers, Done} \<longrightarrow> sp_allTerminated (rn_processors r)) \<and>
     (rn_phase r = Done \<longrightarrow> rn_started r \<noteq> None \<longrightarrow> sb_allTerminated (rn_batchers r)) \<and>
     (rn_started r = None \<longrightarrow> sb_ids (rn_batchers r) = [] \<and> rn_phase r \<noteq> WaitBatchers) \<and>
     (pl_terminated (rn_pipeline r) \<longleftrightarrow> rn_phase r = Done) \<and> (pl_terminatedClosed (rn_pipeline r) \<longleftrightarrow> rn_phase r = Done)"

lemma rn_inv_producers:
  "rn_inv r \<Longrightarrow> su_inv s (cancelled (rn_phase r)) \<Longrightarrow> su_changeClosed s = su_changeClosed (rn_producers r) \<Longrightarrow>
   (su_allTerminated (rn_producers r) \<Longrightarrow> su_allTerminated s) \<Longrightarrow> rn_inv (r\<lparr>rn_producers := s\<rparr>)"
  by (simp add: rn_inv_def batchers_told_def)

lemma rn_inv_processors:
  "rn_inv r \<Longrightarrow> sp_inv s \<Longrightarrow> sp_told s = sp_told (rn_processors r) \<Longrightarrow>
   (sp_allTerminated (rn_processors r) \<Longrightarrow> sp_allTerminated s) \<Longrightarrow> rn_inv (r\<lparr>rn_processors := s\<rparr>)"
  by (simp add: rn_inv_def batchers_told_def)

lemma rn_inv_batchers:
  "rn_inv r \<Longrightarrow> sb_inv s (batchers_told r) \<Longrightarrow> sb_ids s = sb_ids (rn_batchers r) \<Longrightarrow>
   (sb_allTerminated (rn_batchers r) \<Longrightarrow> sb_allTerminated s) \<Longrightarrow> rn_inv (r\<lparr>rn_batchers := s\<rparr>)"
  by (simp add: rn_inv_def batchers_told_def)

lemma rn_inv_pipeline:
  "rn_inv r \<Longrightarrow> pl_terminated p = pl_terminated (rn_pipeline r) \<Longrightarrow>
   pl_terminatedClosed p = pl_terminatedClosed (rn_pipeline r) \<Longrightarrow> rn_inv (r\<lparr>rn_pipeline := p\<rparr>)"
  by (simp add: rn_inv_def batchers_told_def)

lemma rn_inv_other [simp]: "rn_inv (r\<lparr>rn_crash := c\<rparr>) = rn_inv r" "rn_inv (r\<lparr>rn_status := b\<rparr>) = rn_inv r"
  by (simp_all add: rn_inv_def batchers_told_def)

lemma rn_inv_fail: "rn_inv r \<Longrightarrow> rn_inv (rn_fail r e)"
  by (simp add: rn_fail_def)

lemma su_run_open:
  "\<not> su_changeClosed (su_run is')" "\<not> su_allTerminated (su_run is')" "su_handling (su_run is') = Map.empty"
  "su_checks (su_run is') = []" "su_changes (su_run is') = []"
proof -
  have "\<not> su_changeClosed (foldl su_add newProducerSupervisor is') \<and> \<not> su_allTerminated (foldl su_add newProducerSupervisor is') \<and>
      su_handling (foldl su_add newProducerSupervisor is') = Map.empty \<and>
      su_checks (foldl su_add newProducerSupervisor is') = [] \<and> su_changes (foldl su_add newProducerSupervisor is') = []"
    by (induction is' rule: rev_induct) (simp_all add: su_add_def newProducerSupervisor_def)
  then show "\<not> su_changeClosed (su_run is')" "\<not> su_allTerminated (su_run is')" "su_handling (su_run is') = Map.empty"
    "su_checks (su_run is') = []" "su_changes (su_run is') = []" by (simp_all add: su_run_def)
qed

lemma rn_inv_start:
  assumes "distinct mids"
  shows "rn_inv (pl_run (NewPipeline config) pids mids)"
proof -
  obtain s started where run: "sb_run (pc_Batchers (pl_config (NewPipeline config))) = (s, started)" by fastforce
  from sb_inv_run [OF run] have "sb_inv s False" "started = None \<longrightarrow> sb_ids s = []" by (auto split: option.splits)
  then show ?thesis
    using su_inv_run [of pids] sp_inv_run [OF assms] run su_run_open [of pids]
    by (auto simp: rn_inv_def pl_run_def batchers_told_def cancelled_def Let_def NewPipeline_def split: option.splits)
qed

lemma rn_inv_finish:
  assumes "rn_inv r" and "rn_phase r = WaitBatchers \<and> sb_allTerminated (rn_batchers r) \<or> rn_phase r = WaitProcessors \<and> rn_started r = None"
    and "sp_allTerminated (rn_processors r)" "rn_started r = None \<longrightarrow> rn_phase r = WaitProcessors"
  shows "rn_inv (rn_finish r)"
proof -
  have "\<not> pl_terminatedClosed (rn_pipeline r)" using assms(1,2) by (auto simp: rn_inv_def)
  then have "rn_finish r = r\<lparr>rn_pipeline := (rn_pipeline r)\<lparr>pl_terminated := True, pl_terminatedClosed := True\<rparr>, rn_phase := Done\<rparr>"
    by (simp add: rn_finish_def pl_terminate_def)
  then show ?thesis using assms by (cases "rn_started r"; elim disjE) (simp_all add: rn_inv_def batchers_told_def cancelled_def)
qed

lemma rn_inv_advance:
  assumes inv: "rn_inv r" and adv: "rn_advance r = Some r'"
  shows "rn_inv r'"
proof (cases "rn_phase r")
  case Running
  with adv have "r' = r\<lparr>rn_phase := TellProducers (su_ids (rn_producers r))\<rparr>" by (simp add: rn_advance_def)
  with Running inv show ?thesis
    by (auto simp: rn_inv_def batchers_told_def cancelled_def intro: su_inv_cancel)
next
  case (TellProducers is')
  show ?thesis
  proof (cases is')
    case Nil
    show ?thesis
    proof (cases "su_close (rn_producers r)")
      case (Inl e)
      with TellProducers Nil adv inv show ?thesis by (auto simp: rn_advance_def rn_inv_fail)
    next
      case (Inr s)
      have "su_inv s True" using inv TellProducers
        by (intro su_inv_close [OF _ Inr]) (simp add: rn_inv_def cancelled_def)
      moreover have "su_changeClosed s" using Inr by (auto simp: su_close_def split: if_splits)
      ultimately show ?thesis using TellProducers Nil adv inv Inr
        by (auto simp: rn_advance_def rn_inv_def batchers_told_def cancelled_def)
    qed
  next
    case (Cons i rest)
    have "su_inv (su_tell (rn_producers r) i) True"
      using inv TellProducers by (intro su_inv_tell) (simp add: rn_inv_def cancelled_def)
    with TellProducers Cons adv inv show ?thesis
      by (auto simp: rn_advance_def rn_inv_def batchers_told_def cancelled_def su_tell_def)
  qed
next
  case WaitProducers
  with inv have "sp_inv (sp_terminate (rn_processors r))" by (intro sp_inv_terminate) (simp_all add: rn_inv_def)
  with WaitProducers adv inv show ?thesis
    by (auto simp: rn_advance_def rn_inv_def batchers_told_def cancelled_def split: if_splits)
next
  case WaitProcessors
  show ?thesis
  proof (cases "rn_started r = None")
    case True
    with WaitProcessors adv have "r' = rn_finish r" "sp_allTerminated (rn_processors r)"
      by (auto simp: rn_advance_def split: if_splits)
    with True WaitProcessors inv show ?thesis by (auto intro: rn_inv_finish)
  next
    case False
    have "sb_inv (sb_terminate (rn_batchers r)) True"
      using inv WaitProcessors by (intro sb_inv_terminate) (simp add: rn_inv_def batchers_told_def)
    with False WaitProcessors adv inv show ?thesis
      by (auto simp: rn_advance_def rn_inv_def batchers_told_def cancelled_def split: if_splits)
  qed
next
  case WaitBatchers
  with adv inv have "r' = rn_finish r" "sb_allTerminated (rn_batchers r)" "rn_started r \<noteq> None"
    by (auto simp: rn_advance_def rn_inv_def split: if_splits)
  moreover have "sp_allTerminated (rn_processors r)" using inv WaitBatchers by (simp add: rn_inv_def)
  ultimately show ?thesis using WaitBatchers inv by (auto intro: rn_inv_finish)
qed (use adv in \<open>simp add: rn_advance_def\<close>)

text \<open>What the supervisor's own actions leave alone.\<close>

lemma su_watch_fields [simp]:
  "su_changeClosed (su_watch s i v) = su_changeClosed s" "su_allTerminated (su_watch s i v) = su_allTerminated s"
  "su_changes (su_watch s i v) = su_changes s" "su_ids (su_watch s i v) = su_ids s"
  "su_workers (su_watch s i v) = at_worker (su_workers s) i (\<lambda>w. w\<lparr>wk_seen := True\<rparr>)"
  by (simp_all add: su_watch_def checkIfAllProducersTerminated_def Let_def)

lemma su_check_fields:
  "su_check s k = Some s' \<Longrightarrow> su_changeClosed s' = su_changeClosed s \<and> (su_allTerminated s \<longrightarrow> su_allTerminated s') \<and>
     su_workers s' = su_workers s \<and> su_ids s' = su_ids s \<and> su_changes s' = su_changes s \<and> su_handling s' = su_handling s"
  by (auto simp: su_check_def split: if_splits list.splits)

lemma su_idleCheck_fields:
  "su_idleCheck s k = Some s' \<Longrightarrow> su_changeClosed s' = su_changeClosed s \<and> su_allTerminated s' = su_allTerminated s \<and>
     su_workers s' = su_workers s \<and> su_ids s' = su_ids s \<and> su_changes s' = su_changes s \<and> su_handling s' = su_handling s \<and>
     su_checks s' = su_checks s"
  by (auto simp: su_idleCheck_def split: if_splits list.splits)

lemma handle_fields:
  "handleProducerPanic s i new = Some (Inr s') \<Longrightarrow>
     su_changeClosed s' = su_changeClosed s \<and> su_allTerminated s' = su_allTerminated s \<and> su_checks s' = su_checks s"
  by (auto simp: handleProducerPanic_def split: option.splits handling.splits if_splits)

lemma su_checkIdle_fields [simp]:
  "su_workers (checkIfAllProducersIdle s) = su_workers s" "su_ids (checkIfAllProducersIdle s) = su_ids s"
  "su_changes (checkIfAllProducersIdle s) = su_changes s" "su_allTerminated (checkIfAllProducersIdle s) = su_allTerminated s"
  "su_checks (checkIfAllProducersIdle s) = su_checks s" "su_handling (checkIfAllProducersIdle s) = su_handling s"
  "su_changeClosed (checkIfAllProducersIdle s) = su_changeClosed s"
  by (simp_all add: checkIfAllProducersIdle_def)

lemma sp_watch_mono:
  "sp_told (sp_watch s i v new) = sp_told s" "sp_allTerminated s \<Longrightarrow> sp_allTerminated (sp_watch s i v new)"
  by (simp_all add: sp_watch_def sp_handleProcessorPanic_def checkIfAllProcessorsTerminated_def Let_def)

lemma sb_watch_mono:
  "sb_ids (sb_watch s i) = sb_ids s" "sb_allTerminated s \<Longrightarrow> sb_allTerminated (sb_watch s i)"
  by (simp_all add: sb_watch_def checkIfAllBatchersTerminated_def)

lemma sp_inv_setProducers: "sp_inv s \<Longrightarrow> sp_inv (sp_setProducers s ids)"
  by (simp add: sp_setProducers_def sp_inv_def)

lemma sp_setProducers_fields [simp]:
  "sp_told (sp_setProducers s ids) = sp_told s" "sp_allTerminated (sp_setProducers s ids) = sp_allTerminated s"
  "sp_workers (sp_setProducers s ids) = sp_workers s" "sp_hr (sp_setProducers s ids) = sp_hr s"
  by (simp_all add: sp_setProducers_def)

lemma rn_inv_parts:
  assumes "rn_inv r"
  shows "su_inv (rn_producers r) (cancelled (rn_phase r))" "sp_inv (rn_processors r)" "sb_inv (rn_batchers r) (batchers_told r)"
  using assms by (simp_all add: rn_inv_def)

lemma rn_inv_step:
  assumes inv: "rn_inv r" and "rn_step r r'"
  shows "rn_inv r'"
  using assms(2)
proof cases
  case advance
  then show ?thesis using inv rn_inv_advance by blast
next
  case (producer_ends i w v w')
  then show ?thesis using su_inv_end [OF rn_inv_parts(1) [OF inv] producer_ends(3,4)]
    by (auto intro!: rn_inv_producers [OF inv])
next
  case (processor_ends i w v w')
  then show ?thesis using sp_inv_end [OF rn_inv_parts(2) [OF inv] processor_ends(3,4)]
    by (auto intro!: rn_inv_processors [OF inv])
next
  case (batcher_ends i w w')
  then show ?thesis using sb_inv_end [OF rn_inv_parts(3) [OF inv] batcher_ends(3,4)]
    by (auto intro!: rn_inv_batchers [OF inv])
next
  case (producer_seen i w v)
  then show ?thesis using su_inv_watch [OF rn_inv_parts(1) [OF inv] producer_seen(3,4)]
    by (auto intro!: rn_inv_producers [OF inv])
next
  case (producer_handled i new res)
  show ?thesis
  proof (cases res)
    case (Inr s)
    have step: "handleProducerPanic (rn_producers r) i new = Some (Inr s)" using producer_handled(3) Inr by simp
    have "su_inv s (cancelled (rn_phase r))"
      by (rule su_inv_handle [OF rn_inv_parts(1) [OF inv] step]) (use producer_handled(4) in blast)
    then show ?thesis using producer_handled(1) Inr handle_fields [OF step]
      by (auto simp: rn_supervise_def intro!: rn_inv_producers [OF inv])
  qed (use inv producer_handled(1) in \<open>simp add: rn_supervise_def rn_inv_fail\<close>)
next
  case (producers_check k s)
  then show ?thesis using su_inv_check [OF rn_inv_parts(1) [OF inv] producers_check(3)] su_check_fields [OF producers_check(3)]
    by (auto intro!: rn_inv_producers [OF inv])
next
  case (idle_check k s)
  then show ?thesis using su_inv_idleCheck [OF rn_inv_parts(1) [OF inv] idle_check(3)] su_idleCheck_fields [OF idle_check(3)]
    by (auto intro!: rn_inv_producers [OF inv])
next
  case (processor_seen i w v new)
  show ?thesis unfolding processor_seen(1)
    using sp_inv_watch [OF rn_inv_parts(2) [OF inv] processor_seen(3,4,6)]
    by (intro rn_inv_processors [OF inv]) (simp_all add: sp_watch_mono)
next
  case (batcher_seen i w)
  then obtain v where "wk_exit w = Some v" by auto
  then show ?thesis unfolding batcher_seen(1)
    using sb_inv_watch [OF rn_inv_parts(3) [OF inv] batcher_seen(3)]
    by (intro rn_inv_batchers [OF inv]) (simp_all add: sb_watch_mono)
next
  case (producer_idle i b)
  then show ?thesis using su_inv_idle [OF rn_inv_parts(1) [OF inv]] by (auto intro!: rn_inv_producers [OF inv])
next
  case idle_seen
  moreover have "su_inv (checkIfAllProducersIdle (rn_producers r)) (cancelled (rn_phase r))"
    using rn_inv_parts(1) [OF inv] by (auto simp: checkIfAllProducersIdle_def su_inv_def)
  ultimately show ?thesis by (auto intro!: rn_inv_producers [OF inv])
next
  case change
  have su: "su_inv ((rn_producers r)\<lparr>su_changes := tl (su_changes (rn_producers r))\<rparr>) (cancelled (rn_phase r))"
    using rn_inv_parts(1) [OF inv] by (auto simp: su_inv_def)
  have set: "rn_inv (r\<lparr>rn_processors := sp_setProducers (rn_processors r) ids\<rparr>)" for ids
    using sp_inv_setProducers [OF rn_inv_parts(2) [OF inv]] by (intro rn_inv_processors [OF inv]) simp_all
  moreover have "rn_inv (r\<lparr>rn_processors := sp_setProducers (rn_processors r) ids,
      rn_producers := (rn_producers r)\<lparr>su_changes := tl (su_changes (rn_producers r))\<rparr>\<rparr>)" for ids
    using su by (intro rn_inv_producers [OF set]) simp_all
  ultimately show ?thesis using change
    by (auto simp: rn_change_def split: list.splits if_splits)
next
  case all_idle
  have su: "su_inv ((rn_producers r)\<lparr>su_allIdle := False\<rparr>) (cancelled (rn_phase r))"
    using rn_inv_parts(1) [OF inv] by (auto simp: su_inv_def)
  have "rn_inv (r\<lparr>rn_producers := (rn_producers r)\<lparr>su_allIdle := False\<rparr>\<rparr>)"
    by (rule rn_inv_producers [OF inv su]) simp_all
  then have "rn_inv (r\<lparr>rn_producers := (rn_producers r)\<lparr>su_allIdle := False\<rparr>, rn_pipeline := (rn_pipeline r)\<lparr>pl_idle := True\<rparr>\<rparr>)"
    by (rule rn_inv_pipeline) simp_all
  then show ?thesis using all_idle by (auto simp: rn_all_idle_def split: if_splits)
next
  case status_stop
  have "rn_inv (rn_status_stop r)" using inv by (simp add: rn_status_stop_def rn_inv_def batchers_told_def)
  then show ?thesis using status_stop(1) by simp
next
  case client_idle
  then show ?thesis by (auto intro!: rn_inv_pipeline [OF inv])
qed

lemma rn_inv_reaches:
  "reaches rn_step (pl_run (NewPipeline config) pids mids) r \<Longrightarrow> fresh_ids config pids mids \<Longrightarrow> rn_inv r"
  by (erule reaches_invariant) (auto intro: rn_inv_start rn_inv_step simp: fresh_ids_def)

section \<open>Properties of the shutdown\<close>

lemma sb_untold:
  assumes "sb_inv s False" and "sb_workers s i = Some w"
  shows "\<not> wk_terminated w"
proof -
  have "wk_ok w False" "\<not> wk_panicked w" using assms by (auto simp: sb_inv_def dest: wks_ok_D)
  then show ?thesis by (auto simp: wk_ok_def wk_panicked_def)
qed

text \<open>
  A producer that \<open>Run\<close> has started is in the map until it panics, so that the copy which
  \<open>terminate\<close> goes through has it, or it has terminated itself.
\<close>

definition started_told :: "string list \<Rightarrow> run \<Rightarrow> bool" where
  "started_told pids r \<longleftrightarrow> (\<forall>i \<in> set pids. \<exists>w. su_workers (rn_producers r) i = Some w \<and>
     (i \<in> set (su_ids (rn_producers r)) \<or> wk_panicked w) \<and>
     (case rn_phase r of Running \<Rightarrow> True | TellProducers rest \<Rightarrow> i \<in> set rest \<or> wk_terminated w | _ \<Rightarrow> wk_terminated w))"

lemma panicked_terminated: "su_inv s c \<Longrightarrow> su_workers s i = Some w \<Longrightarrow> wk_panicked w \<Longrightarrow> wk_terminated w"
  using su_invD(2) [of s c] by (auto simp: wk_ok_def wk_panicked_def dest!: wks_ok_D)

text \<open>A step of a supervisor that keeps the map, the flags and the panics of the producers.\<close>

lemma started_told_keep:
  assumes "started_told pids r" and "rn_phase r' = rn_phase r"
    and "set (su_ids (rn_producers r)) \<subseteq> set (su_ids (rn_producers r'))"
    and "\<And>i w. su_workers (rn_producers r) i = Some w \<Longrightarrow> \<exists>w'. su_workers (rn_producers r') i = Some w' \<and>
      (wk_panicked w \<longrightarrow> wk_panicked w') \<and> (wk_terminated w \<longrightarrow> wk_terminated w')"
  shows "started_told pids r'"
  unfolding started_told_def
proof
  fix i assume "i \<in> set pids"
  then obtain w where w: "su_workers (rn_producers r) i = Some w" "i \<in> set (su_ids (rn_producers r)) \<or> wk_panicked w"
    "case rn_phase r of Running \<Rightarrow> True | TellProducers rest \<Rightarrow> i \<in> set rest \<or> wk_terminated w | _ \<Rightarrow> wk_terminated w"
    using assms(1) unfolding started_told_def by blast
  obtain w' where w': "su_workers (rn_producers r') i = Some w'" "wk_panicked w \<longrightarrow> wk_panicked w'" "wk_terminated w \<longrightarrow> wk_terminated w'"
    using assms(4) [OF w(1)] by blast
  have "case rn_phase r' of Running \<Rightarrow> True | TellProducers rest \<Rightarrow> i \<in> set rest \<or> wk_terminated w' | _ \<Rightarrow> wk_terminated w'"
    using w(3) w'(3) assms(2) by (auto split: phase.splits)
  then show "\<exists>w. su_workers (rn_producers r') i = Some w \<and> (i \<in> set (su_ids (rn_producers r')) \<or> wk_panicked w) \<and>
      (case rn_phase r' of Running \<Rightarrow> True | TellProducers rest \<Rightarrow> i \<in> set rest \<or> wk_terminated w | _ \<Rightarrow> wk_terminated w)"
    using w(2) w'(1,2) assms(3) by blast
qed

lemma started_told_handled:
  assumes inv: "rn_inv r" and s: "started_told pids r" and step: "handleProducerPanic (rn_producers r) i new = Some (Inr t)"
    and fresh: "su_handling (rn_producers r) i = Some H_Set \<longrightarrow> new \<notin> dom (su_workers (rn_producers r))"
  shows "started_told pids (r\<lparr>rn_producers := t\<rparr>)"
proof -
  let ?s = "rn_producers r"
  note D = su_invD [OF rn_inv_parts(1) [OF inv]]
  obtain h where h: "su_handling ?s i = Some h" using step by (cases "su_handling ?s i") (auto simp: handleProducerPanic_def)
  show ?thesis
  proof (cases h)
    case H_Delete
    with step h have t: "t = ?s\<lparr>su_producers := map_delete (su_producers ?s) i, su_handling := (su_handling ?s)(i \<mapsto> H_Set)\<rparr>"
      by (simp add: handleProducerPanic_def)
    obtain w where w: "su_workers ?s i = Some w" "wk_panicked w" using D(8) [OF h] by blast
    have ids: "set (su_ids t) = set (su_ids ?s) - {i}" using su_ids_map(1) [OF D(1)] by (simp add: t su_ids_def)
    have ws: "su_workers t = su_workers ?s" by (simp add: t)
    show ?thesis using s w unfolding started_told_def by (simp add: ids ws) (metis option.inject)
  next
    case H_Set
    with step h have t: "t = ?s\<lparr>su_producers := map_set (su_producers ?s) new (),
        su_workers := (su_workers ?s)(new \<mapsto> new_worker\<lparr>wk_running := False\<rparr>), su_handling := (su_handling ?s)(i \<mapsto> H_Run new)\<rparr>"
      by (simp add: handleProducerPanic_def)
    have ids: "set (su_ids t) = insert new (set (su_ids ?s))" using su_ids_map(2) [OF D(1)] by (simp add: t su_ids_def)
    have ws: "su_workers t = (su_workers ?s)(new \<mapsto> new_worker\<lparr>wk_running := False\<rparr>)" by (simp add: t)
    have "new \<notin> dom (su_workers ?s)" using fresh h H_Set by simp
    then show ?thesis by (intro started_told_keep [OF s]) (auto simp: ids ws)
  next
    case (H_Run n)
    with step h show ?thesis
      by (intro started_told_keep [OF s]) (auto simp: handleProducerPanic_def at_worker_apply)
  next
    case H_ToMap
    with step h show ?thesis by (intro started_told_keep [OF s]) (auto simp: handleProducerPanic_def)
  next
    case (H_Send ids)
    with step h show ?thesis
      by (intro started_told_keep [OF s]) (auto simp: handleProducerPanic_def split: if_splits)
  qed
qed

lemma started_told_advance:
  assumes inv: "rn_inv r" and s: "started_told pids r" and adv: "rn_advance r = Some r'"
  shows "started_told pids r'"
proof (cases "rn_phase r")
  case Running
  with adv have "r' = r\<lparr>rn_phase := TellProducers (su_ids (rn_producers r))\<rparr>" by (simp add: rn_advance_def)
  moreover have "wk_terminated w" if "su_workers (rn_producers r) i = Some w" "wk_panicked w" for i w
    using panicked_terminated [OF rn_inv_parts(1) [OF inv] that] .
  ultimately show ?thesis using s Running unfolding started_told_def by fastforce
next
  case (TellProducers is')
  show ?thesis
  proof (cases is')
    case Nil
    with TellProducers adv s show ?thesis
      by (auto simp: rn_advance_def started_told_def su_close_def rn_fail_def split: if_splits)
  next
    case (Cons i rest)
    with TellProducers adv have r': "r' = r\<lparr>rn_producers := su_tell (rn_producers r) i, rn_phase := TellProducers rest\<rparr>"
      by (simp add: rn_advance_def)
    show ?thesis using s TellProducers Cons unfolding started_told_def r'
      by (fastforce simp: su_tell_def at_worker_apply wk_terminate_def)
  qed
qed (use s adv in \<open>auto simp: rn_advance_def rn_finish_def rn_fail_def started_told_def split: if_splits sum.splits\<close>)

lemma started_told_step:
  assumes inv: "rn_inv r" and s: "started_told pids r" and "rn_step r r'"
  shows "started_told pids r'"
  using assms(3)
proof cases
  case advance
  then show ?thesis using started_told_advance [OF inv s] by blast
next
  case (producer_ends i w v w')
  then show ?thesis by (intro started_told_keep [OF s]) (auto elim!: wk_end_cases)
next
  case (producer_seen i w v)
  then show ?thesis by (intro started_told_keep [OF s]) (auto simp: at_worker_apply)
next
  case (producer_handled i new res)
  show ?thesis
  proof (cases res)
    case (Inr t)
    with producer_handled started_told_handled [OF inv s] show ?thesis by (simp add: rn_supervise_def)
  qed (use producer_handled s in \<open>simp add: rn_supervise_def rn_fail_def started_told_def\<close>)
next
  case (producers_check k t)
  then show ?thesis using su_check_fields by (intro started_told_keep [OF s]) auto
next
  case (idle_check k t)
  then show ?thesis using su_idleCheck_fields by (intro started_told_keep [OF s]) auto
next
  case (producer_idle i b)
  then show ?thesis by (intro started_told_keep [OF s]) (auto simp: at_worker_apply)
qed (use s in \<open>auto simp: started_told_def rn_change_def rn_all_idle_def rn_status_stop_def split: list.splits if_splits\<close>)

lemma started_told_start: "started_told pids (pl_run p pids mids)"
proof -
  obtain s started where "sb_run (pc_Batchers (pl_config p)) = (s, started)" by fastforce
  moreover have "set is' \<subseteq> set (su_ids (foldl su_add newProducerSupervisor is')) \<and>
      cmap_ok (su_producers (foldl su_add newProducerSupervisor is')) \<and>
      set is' \<subseteq> dom (su_workers (foldl su_add newProducerSupervisor is'))" for is'
  proof (induction is' rule: rev_induct)
    case (snoc i is')
    let ?s = "foldl su_add newProducerSupervisor is'"
    have ok: "cmap_ok (su_producers ?s)" using snoc by blast
    then have "set (su_ids (su_add ?s i)) = insert i (set (su_ids ?s))"
      using su_ids_map(2) [of ?s i] by (simp add: su_add_def su_ids_def)
    moreover have "cmap_ok (su_producers (su_add ?s i))" "su_workers (su_add ?s i) = (su_workers ?s)(i \<mapsto> new_worker)"
      using ok by (simp_all add: su_add_def)
    ultimately show ?case using snoc by auto
  qed (simp add: newProducerSupervisor_def newConcurrentMap_def cmap_ok_def)
  then have "set pids \<subseteq> set (su_ids (su_run pids))" "set pids \<subseteq> dom (su_workers (su_run pids))"
    by (simp_all add: su_run_def)
  ultimately show ?thesis by (auto simp: started_told_def pl_run_def Let_def)
qed

lemma started_told_reaches:
  assumes "reaches rn_step (pl_run (NewPipeline config) pids mids) r" and "fresh_ids config pids mids"
  shows "started_told pids r"
  using assms(1)
proof (induction rule: reaches.induct)
  case (step r r')
  then show ?case using rn_inv_reaches [OF _ assms(2)] started_told_step by blast
qed (rule started_told_start)

text \<open>
  Claim C10. The shutdown order of \<open>Run\<close>, in every reachable state and whatever panics in between:
  message processors are told to stop only after the supervisor of the producers has gone through all
  of its map, so that every producer that \<open>Run\<close> started has been told to stop (or has panicked,
  which sets the same flag); a batcher is told to stop, or \<open>Terminated()\<close> is closed, only
  when the goroutine of every message processor that was told to stop has ended (so none of these sends
  to a closed batcher); and \<open>Terminated()\<close> is closed only when every batcher in the map has ended as
  well. Nothing is claimed of producers that replace others (\<open>replacement_never_told\<close>).
\<close>

theorem shutdown_order:
  assumes "reaches rn_step (pl_run (NewPipeline config) pids mids) r" and "fresh_ids config pids mids"
  shows "(sp_told (rn_processors r) \<noteq> [] \<longrightarrow>
           (\<forall>i\<in>set pids. \<exists>w. su_workers (rn_producers r) i = Some w \<and> wk_terminated w)) \<and>
         ((\<exists>b w. sb_workers (rn_batchers r) b = Some w \<and> wk_terminated w) \<or> pl_terminatedClosed (rn_pipeline r) \<longrightarrow>
           sp_told (rn_processors r) \<noteq> [] \<and>
           (\<forall>i\<in>set (sp_told (rn_processors r)). \<exists>w. sp_workers (rn_processors r) i = Some w \<and> wk_exit w \<noteq> None)) \<and>
         (pl_terminatedClosed (rn_pipeline r) \<longrightarrow>
           (\<forall>b\<in>set (sb_ids (rn_batchers r)). \<exists>w. sb_workers (rn_batchers r) b = Some w \<and> wk_exit w \<noteq> None))"
proof -
  have inv: "rn_inv r" by (rule rn_inv_reaches [OF assms])
  note sp = sp_invD [OF rn_inv_parts(2) [OF inv]]
  have producers: "\<exists>w. su_workers (rn_producers r) i = Some w \<and> wk_terminated w"
    if told: "sp_told (rn_processors r) \<noteq> []" and i: "i \<in> set pids" for i
  proof -
    have "rn_phase r \<noteq> Running \<and> \<not> telling (rn_phase r)" using inv told by (auto simp: rn_inv_def split: if_splits)
    moreover obtain w where "su_workers (rn_producers r) i = Some w"
      "case rn_phase r of Running \<Rightarrow> True | TellProducers rest \<Rightarrow> i \<in> set rest \<or> wk_terminated w | _ \<Rightarrow> wk_terminated w"
      using started_told_reaches [OF assms] i unfolding started_told_def by blast
    ultimately show ?thesis by (cases "rn_phase r") auto
  qed
  have late: "rn_phase r \<in> {WaitBatchers, Done}"
    if "(\<exists>b w. sb_workers (rn_batchers r) b = Some w \<and> wk_terminated w) \<or> pl_terminatedClosed (rn_pipeline r)"
  proof (rule ccontr)
    assume "rn_phase r \<notin> {WaitBatchers, Done}"
    then have "\<not> batchers_told r" "\<not> pl_terminatedClosed (rn_pipeline r)"
      using inv by (simp_all add: batchers_told_def rn_inv_def)
    with that rn_inv_parts(3) [OF inv] sb_untold show False by fastforce
  qed
  have processors: "sp_told (rn_processors r) \<noteq> [] \<and>
      (\<forall>i\<in>set (sp_told (rn_processors r)). \<exists>w. sp_workers (rn_processors r) i = Some w \<and> wk_exit w \<noteq> None)"
    if "rn_phase r \<in> {WaitBatchers, Done}"
    using that inv sp(3,6,7) by (fastforce simp: rn_inv_def)
  have batchers: "\<exists>w. sb_workers (rn_batchers r) b = Some w \<and> wk_exit w \<noteq> None"
    if "pl_terminatedClosed (rn_pipeline r)" "b \<in> set (sb_ids (rn_batchers r))" for b
  proof -
    have "sb_allTerminated (rn_batchers r)" using that inv by (cases "rn_started r") (auto simp: rn_inv_def)
    with that(2) rn_inv_parts(3) [OF inv] show ?thesis by (fastforce simp: sb_inv_def)
  qed
  show ?thesis using producers processors [OF late] batchers by blast
qed

text \<open>\<open>handleProducerPanic\<close> from where it is to its end, if nothing comes in between.\<close>

fun handle_rest :: "nat \<Rightarrow> producerSupervisor \<Rightarrow> string \<Rightarrow> string \<Rightarrow> producerSupervisor go" where
  "handle_rest 0 s i new = Inr s"
| "handle_rest (Suc n) s i new =
     (case handleProducerPanic s i new of
        None \<Rightarrow> Inr s
      | Some (Inl e) \<Rightarrow> Inl e
      | Some (Inr s') \<Rightarrow> handle_rest n s' i new)"

lemma handle_rest_closed:
  assumes "su_changeClosed s" and "su_handling s i = Some h"
  shows "handle_rest 5 s i new = Inl SendOnClosed"
  using assms by (cases h) (simp_all add: handleProducerPanic_def eval_nat_numeral)

text \<open>After the cancellation the handler of a panic does not come to its end.\<close>

definition doomed :: "string \<Rightarrow> run \<Rightarrow> bool" where
  "doomed i r \<longleftrightarrow> rn_inv r \<and> su_changeClosed (rn_producers r) \<and>
     (rn_crash r = None \<longrightarrow> su_handling (rn_producers r) i \<noteq> None)"

lemma handle_other:
  "handleProducerPanic s j new = Some (Inr t) \<Longrightarrow> su_changeClosed s \<Longrightarrow> su_handling s i \<noteq> None \<Longrightarrow> su_handling t i \<noteq> None"
  by (auto simp: handleProducerPanic_def split: option.splits handling.splits if_splits)

lemma doomed_step:
  assumes "doomed i r" and step: "rn_step r r'"
  shows "doomed i r'"
proof -
  have inv: "rn_inv r" "su_changeClosed (rn_producers r)" using assms(1) by (simp_all add: doomed_def)
  have "rn_crash r = None" using step by cases auto
  then have h: "su_handling (rn_producers r) i \<noteq> None" using assms(1) by (simp add: doomed_def)
  have ph: "\<not> telling (rn_phase r)" using inv by (simp add: rn_inv_def)
  have "su_changeClosed (rn_producers r') \<and> (rn_crash r' = None \<longrightarrow> su_handling (rn_producers r') i \<noteq> None)"
    using step
  proof cases
    case advance
    with inv h ph show ?thesis
      by (auto simp: rn_advance_def rn_finish_def rn_fail_def split: phase.splits list.splits if_splits sum.splits)
  next
    case (producer_handled j new res)
    with inv h show ?thesis using handle_other handle_fields
      by (cases res) (auto simp: rn_supervise_def rn_fail_def)
  next
    case (producer_seen j w v)
    with inv h show ?thesis by (auto simp: su_watch_def checkIfAllProducersTerminated_def Let_def)
  next
    case (producers_check k t)
    with inv h show ?thesis using su_check_fields [OF producers_check(3)] by simp
  next
    case (idle_check k t)
    with inv h show ?thesis using su_idleCheck_fields [OF idle_check(3)] by simp
  qed (use inv h in \<open>auto simp: rn_change_def rn_all_idle_def rn_status_stop_def split: list.splits if_splits\<close>)
  then show ?thesis using rn_inv_step [OF inv(1) step] by (simp add: doomed_def)
qed

text \<open>
  Claim C36. A panic of a producer that its supervisor handles after \<open>terminate\<close> has closed the
  channel ends the process: from whatever point of \<open>handleProducerPanic\<close>, the rest of it comes to the
  send on the closed channel, and whatever happens in between, no later state is reached in which the
  handler is over and the process lives. A replacement that was announced before and not taken ends
  the process as well, when \<open>terminate\<close> closes the channel.
\<close>

theorem producer_panic_at_shutdown:
  assumes "reaches rn_step (pl_run (NewPipeline config) pids mids) r" and "fresh_ids config pids mids"
    and "su_workers (rn_producers r) i = Some w" and "wk_exit w = Some (Some e)"
  shows "(su_changeClosed (rn_producers r) \<longrightarrow>
           handle_rest 5 (su_watch (rn_producers r) i (Some e)) i new = Inl SendOnClosed) \<and>
    (\<forall>r'. su_changeClosed (rn_producers r) \<and> su_handling (rn_producers r) i \<noteq> None \<and> reaches rn_step r r' \<longrightarrow>
       rn_crash r' \<noteq> None \<or> su_handling (rn_producers r') i \<noteq> None \<and>
         handle_rest 5 (rn_producers r') i new = Inl SendOnClosed) \<and>
    (rn_phase r = TellProducers [] \<and> su_changes (rn_producers r) \<noteq> [] \<longrightarrow>
       rn_advance r = Some (r\<lparr>rn_crash := Some SendOnClosed\<rparr>))"
proof (intro conjI allI impI)
  show "handle_rest 5 (su_watch (rn_producers r) i (Some e)) i new = Inl SendOnClosed"
    if "su_changeClosed (rn_producers r)"
    by (rule handle_rest_closed [where h = H_Delete]) (use that in \<open>simp_all add: su_watch_def Let_def\<close>)
next
  fix r' assume r': "su_changeClosed (rn_producers r) \<and> su_handling (rn_producers r) i \<noteq> None \<and> reaches rn_step r r'"
  then have "doomed i r" using rn_inv_reaches [OF assms(1,2)] by (simp add: doomed_def)
  with r' have "doomed i r'" by (auto elim: reaches_invariant intro: doomed_step)
  then show "rn_crash r' \<noteq> None \<or> su_handling (rn_producers r') i \<noteq> None \<and>
      handle_rest 5 (rn_producers r') i new = Inl SendOnClosed"
    using handle_rest_closed by (fastforce simp: doomed_def)
next
  show "rn_advance r = Some (r\<lparr>rn_crash := Some SendOnClosed\<rparr>)"
    if "rn_phase r = TellProducers [] \<and> su_changes (rn_producers r) \<noteq> []"
    using that by (simp add: rn_advance_def su_close_def rn_fail_def)
qed

section \<open>Shutdowns that never end\<close>

text \<open>Without workers nobody ends, and a supervisor reports the end only when somebody does.\<close>

definition idle_forever :: "run \<Rightarrow> bool" where
  "idle_forever r \<longleftrightarrow> rn_inv r \<and>
     (su_workers (rn_producers r) = Map.empty \<and> su_checks (rn_producers r) = [] \<and> \<not> su_allTerminated (rn_producers r) \<or>
      sp_workers (rn_processors r) = Map.empty \<or>
      sb_workers (rn_batchers r) = Map.empty \<and> \<not> sb_allTerminated (rn_batchers r) \<and> rn_started r = Some [])"

lemma rn_advance_cases:
  assumes "rn_advance r = Some r'"
  obtains (crash) e where "r' = rn_fail r e"
    | (cancel) "rn_phase r = Running" "r' = r\<lparr>rn_phase := TellProducers (su_ids (rn_producers r))\<rparr>"
    | (tell) i rest where "rn_phase r = TellProducers (i # rest)"
        "r' = r\<lparr>rn_producers := su_tell (rn_producers r) i, rn_phase := TellProducers rest\<rparr>"
    | (close) "rn_phase r = TellProducers []"
        "r' = r\<lparr>rn_producers := (rn_producers r)\<lparr>su_changeClosed := True\<rparr>, rn_phase := WaitProducers\<rparr>"
    | (producers) "rn_phase r = WaitProducers" "su_allTerminated (rn_producers r)"
        "r' = r\<lparr>rn_processors := sp_terminate (rn_processors r), rn_phase := WaitProcessors\<rparr>"
    | (processors) "rn_phase r = WaitProcessors" "sp_allTerminated (rn_processors r)" "rn_started r \<noteq> None"
        "r' = r\<lparr>rn_batchers := sb_terminate (rn_batchers r), rn_phase := WaitBatchers\<rparr>"
    | (finish) p where "rn_phase r = WaitProcessors \<and> sp_allTerminated (rn_processors r) \<and> rn_started r = None \<or>
          rn_phase r = WaitBatchers \<and> sb_allTerminated (rn_batchers r)"
        "r' = r\<lparr>rn_pipeline := p, rn_phase := Done\<rparr>" "pl_terminate (rn_pipeline r) = Inr p"
proof (cases "rn_phase r")
  case Running
  with assms show ?thesis using cancel by (simp add: rn_advance_def)
next
  case (TellProducers is')
  then show ?thesis using assms crash tell close
    by (cases is') (auto simp: rn_advance_def su_close_def split: if_splits)
next
  case WaitProducers
  with assms show ?thesis using producers by (auto simp: rn_advance_def split: if_splits)
next
  case WaitProcessors
  with assms show ?thesis using processors finish crash
    by (auto simp: rn_advance_def rn_finish_def split: if_splits sum.splits)
next
  case WaitBatchers
  with assms show ?thesis using finish crash
    by (auto simp: rn_advance_def rn_finish_def split: if_splits sum.splits)
qed (use assms in \<open>simp add: rn_advance_def\<close>)

lemma tell_empty [simp]: "tell Map.empty is' = Map.empty" by (auto simp: tell_apply)

lemma no_producers_step:
  assumes "rn_step r r'" and inv: "rn_inv r" and "su_workers (rn_producers r) = Map.empty" and "su_checks (rn_producers r) = []"
  shows "su_workers (rn_producers r') = Map.empty \<and> su_checks (rn_producers r') = [] \<and>
    su_allTerminated (rn_producers r') = su_allTerminated (rn_producers r)"
  using assms(1)
proof cases
  case (producer_handled i new res)
  then obtain h where "su_handling (rn_producers r) i = Some h" by (auto simp: handleProducerPanic_def split: option.splits)
  with su_invD(8) [OF rn_inv_parts(1) [OF inv]] assms(3) show ?thesis by fastforce
next
  case (producers_check k t)
  with assms(4) show ?thesis by (simp add: su_check_def)
next
  case (idle_check k t)
  with assms(3,4) su_idleCheck_fields [OF idle_check(3)] show ?thesis by simp
qed (use assms(3,4) in \<open>auto simp: rn_fail_def su_tell_def rn_change_def rn_all_idle_def rn_status_stop_def
      elim!: rn_advance_cases split: list.splits if_splits\<close>)

lemma no_processors_step:
  assumes "rn_step r r'" and "sp_workers (rn_processors r) = Map.empty"
  shows "sp_workers (rn_processors r') = Map.empty"
  using assms
  by cases (auto simp: rn_fail_def rn_supervise_def sp_terminate_def rn_change_def rn_all_idle_def rn_status_stop_def
      elim!: rn_advance_cases split: list.splits if_splits sum.splits)

lemma no_batchers_step:
  assumes "rn_step r r'" and "sb_workers (rn_batchers r) = Map.empty"
  shows "sb_workers (rn_batchers r') = Map.empty \<and> sb_allTerminated (rn_batchers r') = sb_allTerminated (rn_batchers r)"
  using assms
  by cases (auto simp: rn_fail_def rn_supervise_def sb_terminate_def rn_change_def rn_all_idle_def rn_status_stop_def
      elim!: rn_advance_cases split: list.splits if_splits sum.splits)

lemma rn_step_started: "rn_step r r' \<Longrightarrow> rn_started r' = rn_started r"
  by (erule rn_stepE) (auto simp: rn_fail_def rn_supervise_def rn_change_def rn_all_idle_def rn_status_stop_def
      elim!: rn_advance_cases split: list.splits if_splits sum.splits)

lemma idle_forever_step:
  assumes "idle_forever r" and step: "rn_step r r'"
  shows "idle_forever r'"
proof -
  have "rn_inv r'" using assms rn_inv_step by (auto simp: idle_forever_def)
  moreover have "rn_inv r" using assms(1) by (simp add: idle_forever_def)
  note producers = no_producers_step [OF step this]
  ultimately show ?thesis
    using assms(1) producers no_processors_step [OF step] no_batchers_step [OF step] rn_step_started [OF step]
    unfolding idle_forever_def by (elim conjE disjE) simp_all
qed

lemma idle_forever_open:
  assumes "idle_forever r"
  shows "\<not> pl_terminatedClosed (rn_pipeline r)"
proof
  assume "pl_terminatedClosed (rn_pipeline r)"
  moreover have inv: "rn_inv r" using assms by (simp add: idle_forever_def)
  ultimately have done': "rn_phase r = Done" by (simp add: rn_inv_def)
  with inv have "su_allTerminated (rn_producers r)" "sp_allTerminated (rn_processors r)"
    "rn_started r \<noteq> None \<longrightarrow> sb_allTerminated (rn_batchers r)" by (simp_all add: rn_inv_def)
  moreover from this sp_invD(3,6) [OF rn_inv_parts(2) [OF inv]] have "sp_workers (rn_processors r) \<noteq> Map.empty" by auto
  ultimately show False using assms by (auto simp: idle_forever_def)
qed

text \<open>
  A pipeline with no producers, no message processors or an empty (but not nil) list of
  batchers never reports that it terminated: the last check of each supervisor is made when one of
  its workers ends. A \<open>Concurrency\<close> that is left at 0 is such a configuration.
\<close>

theorem empty_stage_never_terminates:
  assumes "reaches rn_step (pl_run (NewPipeline config) pids mids) r" and "fresh_ids config pids mids"
    and "pc_producerConcurrency config \<le> 0 \<or> pc_processorConcurrency config \<le> 0 \<or> pc_Batchers config = Some []"
  shows "\<not> pl_terminatedClosed (rn_pipeline r)"
proof -
  have "pids = [] \<or> mids = [] \<or> pc_Batchers config = Some []" using assms(2,3) by (auto simp: fresh_ids_def)
  moreover have "pc_Batchers (pl_config (NewPipeline config)) = pc_Batchers config"
    by (auto simp: NewPipeline_def Let_def split: option.splits)
  moreover have "rn_inv (pl_run (NewPipeline config) pids mids)"
    using assms(2) by (simp add: rn_inv_start fresh_ids_def)
  ultimately have "idle_forever (pl_run (NewPipeline config) pids mids)"
    by (auto simp: idle_forever_def pl_run_def su_run_def sp_run_def sb_run_def sb_ids_def newConcurrentMap_def
        newProducerSupervisor_def newMessageProcessorSupervisor_def newBatcherSupervisor_def
        map_toMap_def clone_map_def Let_def split: prod.splits)
  then have "idle_forever r"
    using assms(1) by (auto elim: reaches_invariant intro: idle_forever_step)
  then show ?thesis by (rule idle_forever_open)
qed

text \<open>A processor that nobody tells to stop stands in the way until it panics.\<close>

definition sp_blocked :: "string \<Rightarrow> processorSupervisor \<Rightarrow> bool" where
  "sp_blocked i s \<longleftrightarrow> i \<notin> set (sp_told s) \<and>
     (\<exists>w. sp_workers s i = Some w \<and> (wk_panicked w \<or> i \<in> sp_nodes s \<and> \<not> sp_allTerminated s))"

lemma sp_blocked_end:
  assumes "sp_inv s" and "sp_blocked i s" and "sp_workers s j = Some w" and "wk_end w v = Some w'"
  shows "sp_blocked i (s\<lparr>sp_workers := (sp_workers s)(j \<mapsto> w')\<rparr>)"
proof (cases "i = j")
  case True
  then have "wk_ok w False" using assms(2) wks_ok_D [OF sp_invD(1) [OF assms(1)] assms(3)] by (simp add: sp_blocked_def)
  then have "wk_panicked w'" using assms(4) by (auto simp: wk_ok_def elim!: wk_end_cases)
  with True assms(2) show ?thesis by (simp add: sp_blocked_def)
qed (use assms(2) in \<open>simp add: sp_blocked_def\<close>)

lemma sp_blocked_watch:
  assumes "sp_inv s" and blocked: "sp_blocked i s" and j: "sp_workers s j = Some u" "wk_exit u = Some v"
    and new: "v = None \<or> new \<notin> dom (sp_workers s)"
  shows "sp_blocked i (sp_watch s j v new)"
proof -
  let ?s = "s\<lparr>sp_workers := at_worker (sp_workers s) j (\<lambda>w. w\<lparr>wk_seen := True\<rparr>)\<rparr>"
  obtain w where w: "sp_workers s i = Some w" "wk_panicked w \<or> i \<in> sp_nodes s \<and> \<not> sp_allTerminated s"
    using blocked by (auto simp: sp_blocked_def)
  let ?w = "if j = i then w\<lparr>wk_seen := True\<rparr> else w"
  have w': "sp_workers ?s i = Some ?w" "wk_panicked ?w = wk_panicked w" "wk_fully ?w = wk_fully w"
    using w(1) by (simp_all add: at_worker_apply)
  have told: "i \<notin> set (sp_told s)" using blocked by (simp add: sp_blocked_def)
  have unfinished: "wk_fully w \<Longrightarrow> wk_panicked w"
    using wks_ok_D [OF sp_invD(1) [OF assms(1)] w(1)] told by (auto simp: wk_ok_def wk_panicked_def)
  show ?thesis
  proof (cases v)
    case None
    have "wk_panicked w \<or> i \<in> sp_nodes s \<and> \<not> sp_allTerminated (checkIfAllProcessorsTerminated ?s)"
      using w(2) w' unfinished by (auto simp: checkIfAllProcessorsTerminated_def all_of_iff getAllNodes_def)
    then have "sp_blocked i (checkIfAllProcessorsTerminated ?s)"
      using told w' by (auto simp: sp_blocked_def checkIfAllProcessorsTerminated_def)
    then show ?thesis using None by (simp add: sp_watch_def)
  next
    case (Some e)
    have "i \<noteq> new" using new w(1) Some by auto
    moreover have "i \<in> sp_nodes (sp_watch s j v new)" if "i \<in> sp_nodes s" "\<not> wk_panicked w"
    proof -
      have "i \<noteq> j" using that(2) j Some w(1) by auto
      then have "i \<in> set (nodes (removeNode (\<lambda>n. n) (sp_hr s) j))" using that(1) nodes_removeNode_bounds(1) by fastforce
      then show ?thesis using Some nodes_addNode_mono
        by (fastforce simp: sp_watch_def sp_handleProcessorPanic_def sp_add_def)
    qed
    moreover have "sp_told (sp_watch s j v new) = sp_told s" by (rule sp_watch_mono)
    moreover have "sp_workers (sp_watch s j v new) = (sp_workers ?s)(new \<mapsto> new_worker)"
      "sp_allTerminated (sp_watch s j v new) = sp_allTerminated s"
      using Some by (simp_all add: sp_watch_def sp_handleProcessorPanic_def)
    ultimately show ?thesis using w(2) w' told by (auto simp: sp_blocked_def)
  qed
qed

definition untold_running :: "string \<Rightarrow> run \<Rightarrow> bool" where
  "untold_running i r \<longleftrightarrow> rn_inv r \<and> sp_told (rn_processors r) \<noteq> [] \<and> sp_blocked i (rn_processors r)"

lemma untold_running_step:
  assumes "untold_running i r" and step: "rn_step r r'"
  shows "untold_running i r'"
proof -
  have inv: "rn_inv r" and told: "sp_told (rn_processors r) \<noteq> []" and blocked: "sp_blocked i (rn_processors r)"
    using assms(1) by (simp_all add: untold_running_def)
  have "rn_phase r \<noteq> WaitProducers" "\<not> telling (rn_phase r)" "rn_phase r \<noteq> Running" using inv told by (auto simp: rn_inv_def)
  have "sp_told (rn_processors r') \<noteq> [] \<and> sp_blocked i (rn_processors r')" using step
  proof cases
    case advance
    with told blocked \<open>rn_phase r \<noteq> WaitProducers\<close> show ?thesis
      by (auto simp: rn_fail_def elim!: rn_advance_cases)
  next
    case (processor_ends j w v w')
    from sp_blocked_end [OF rn_inv_parts(2) [OF inv] blocked processor_ends(3,4)] show ?thesis
      using told processor_ends(1) by simp
  next
    case (processor_seen j w v new)
    from sp_blocked_watch [OF rn_inv_parts(2) [OF inv] blocked processor_seen(3,4,6)] show ?thesis
      using told processor_seen(1) by (simp add: sp_watch_mono)
  next
    case change
    then show ?thesis using told blocked
      by (auto simp: rn_change_def sp_blocked_def split: list.splits if_splits)
  qed (use told blocked in \<open>auto simp: rn_fail_def rn_supervise_def rn_all_idle_def rn_status_stop_def
      split: if_splits sum.splits\<close>)
  with rn_inv_step [OF inv step] show ?thesis by (simp add: untold_running_def)
qed

text \<open>
  Claim C37. The replacement of a message processor that panics during the shutdown is not told to
  stop, and while it runs the pipeline does not terminate: if a processor \<open>i\<close> is in the ring, was
  not told to stop by \<open>terminate\<close> and not every processor is done, \<open>Terminated()\<close> is closed later
  only when \<open>i\<close> has panicked too.
\<close>

theorem replacement_blocks_shutdown:
  assumes "reaches rn_step (pl_run (NewPipeline config) pids mids) r" and "fresh_ids config pids mids"
    and "sp_told (rn_processors r) \<noteq> []" and "\<not> sp_allTerminated (rn_processors r)"
    and "i \<in> set (getAllNodes (sp_hr (rn_processors r)))" and "i \<notin> set (sp_told (rn_processors r))"
    and "reaches rn_step r r'" and "pl_terminatedClosed (rn_pipeline r')"
  shows "\<exists>w e. sp_workers (rn_processors r') i = Some w \<and> wk_exit w = Some (Some e)"
proof -
  have inv: "rn_inv r" by (rule rn_inv_reaches [OF assms(1,2)])
  have "untold_running i r"
    using inv assms(3-6) sp_invD(2) [OF rn_inv_parts(2) [OF inv]]
    by (auto simp: untold_running_def sp_blocked_def getAllNodes_def)
  then have end': "untold_running i r'"
    using assms(7) by (auto elim: reaches_invariant intro: untold_running_step)
  then have "sp_allTerminated (rn_processors r')" using assms(8) by (simp add: untold_running_def rn_inv_def)
  with end' show ?thesis by (auto simp: untold_running_def sp_blocked_def wk_panicked_def)
qed

end
