(* ===== verification/Pipeline_Runs.thy ===== *)
theory Pipeline_Runs
  imports Pipeline
begin

text \<open>
  Runs of a pipeline: a scheduler that executes the steps of \<open>Pipeline\<close>, and concrete shutdowns.
\<close>

section \<open>A scheduler\<close>

datatype move =
    Advance
  | ProducerEnds string "string option" | ProcessorEnds string "string option" | BatcherEnds string
  | ProducerSeen string | ProducerHandles string string | ProducersCheck nat | Change | ProcessorSeen string string | BatcherSeen string

definition ended :: "workers \<Rightarrow> string \<Rightarrow> string option \<Rightarrow> workers option" where
  "ended ws i v = (case ws i of None \<Rightarrow> None | Some w \<Rightarrow> map_option (\<lambda>w'. ws(i \<mapsto> w')) (wk_end w v))"

definition unseen :: "workers \<Rightarrow> string \<Rightarrow> string option option" where
  "unseen ws i = (case ws i of None \<Rightarrow> None | Some w \<Rightarrow> if wk_seen w then None else wk_exit w)"

definition rn_do :: "move \<Rightarrow> run \<Rightarrow> run option" where
  "rn_do m r =
     (if rn_crash r \<noteq> None then None
      else case m of
        Advance \<Rightarrow> rn_advance r
      | ProducerEnds i v \<Rightarrow>
          map_option (\<lambda>ws. r\<lparr>rn_producers := (rn_producers r)\<lparr>su_workers := ws\<rparr>\<rparr>) (ended (su_workers (rn_producers r)) i v)
      | ProcessorEnds i v \<Rightarrow>
          map_option (\<lambda>ws. r\<lparr>rn_processors := (rn_processors r)\<lparr>sp_workers := ws\<rparr>\<rparr>) (ended (sp_workers (rn_processors r)) i v)
      | BatcherEnds i \<Rightarrow>
          map_option (\<lambda>ws. r\<lparr>rn_batchers := (rn_batchers r)\<lparr>sb_workers := ws\<rparr>\<rparr>) (ended (sb_workers (rn_batchers r)) i None)
      | ProducerSeen i \<Rightarrow>
          map_option (\<lambda>v. r\<lparr>rn_producers := su_watch (rn_producers r) i v\<rparr>) (unseen (su_workers (rn_producers r)) i)
      | ProducerHandles i new \<Rightarrow>
          if su_handling (rn_producers r) i = Some H_Set \<and> su_workers (rn_producers r) new \<noteq> None then None
          else map_option (rn_supervise r) (handleProducerPanic (rn_producers r) i new)
      | ProducersCheck k \<Rightarrow> map_option (\<lambda>s. r\<lparr>rn_producers := s\<rparr>) (su_check (rn_producers r) k)
      | Change \<Rightarrow> if rn_status r then rn_change r else None
      | ProcessorSeen i new \<Rightarrow>
          (case unseen (sp_workers (rn_processors r)) i of
             None \<Rightarrow> None
           | Some v \<Rightarrow> if v = None \<or> sp_workers (rn_processors r) new = None
                       then Some (r\<lparr>rn_processors := sp_watch (rn_processors r) i v new\<rparr>) else None)
      | BatcherSeen i \<Rightarrow>
          map_option (\<lambda>_. r\<lparr>rn_batchers := sb_watch (rn_batchers r) i\<rparr>) (unseen (sb_workers (rn_batchers r)) i))"

fun rn_exec :: "move list \<Rightarrow> run \<Rightarrow> run option" where
  "rn_exec [] r = Some r"
| "rn_exec (m # ms) r = (case rn_do m r of None \<Rightarrow> None | Some r' \<Rightarrow> rn_exec ms r')"

lemma rn_do_step: "rn_do m r = Some r' \<Longrightarrow> rn_step r r'"
  by (cases m) (auto simp: rn_do_def ended_def unseen_def split: if_splits option.splits intro: rn_step.intros)

lemma rn_exec_reaches: "rn_exec ms r = Some r' \<Longrightarrow> reaches rn_step r r'"
proof (induction ms arbitrary: r)
  case (Cons m ms)
  then obtain r1 where "rn_do m r = Some r1" "rn_exec ms r1 = Some r'" by (auto split: option.splits)
  with Cons.IH rn_do_step show ?case by (blast intro: reaches_trans reaches_one)
qed (simp add: reaches.start)

lemma rn_exec_reaches_the: "rn_exec ms r \<noteq> None \<Longrightarrow> reaches rn_step r (the (rn_exec ms r))"
  by (auto intro: rn_exec_reaches)

section \<open>Concrete shutdowns\<close>

definition two_stage :: pipelineConfig where
  "two_stage = \<lparr>pc_connectorAck = Some (Some 1), pc_Acknowledger = None, pc_producerConcurrency = 2,
     pc_processorConcurrency = 2, pc_Batchers = Some [''b'']\<rparr>"

definition two_start :: run where
  "two_start = pl_run (NewPipeline two_stage) [''p1'', ''p2''] [''m1'', ''m2'']"

definition all_told :: "move list" where
  "all_told = [Advance, Advance, Advance, Advance, ProducerEnds ''p1'' None, ProducerSeen ''p1'',
     ProducersCheck 0, ProducersCheck 0, ProducersCheck 0, Advance]"

definition whole_shutdown :: "move list" where
  "whole_shutdown = all_told @ [ProcessorEnds ''m1'' None, ProcessorSeen ''m1'' '''', ProcessorEnds ''m2'' None, ProcessorSeen ''m2'' '''', Advance,
     BatcherEnds ''b'', BatcherSeen ''b'', Advance]"

definition shut_down :: run where "shut_down = the (rn_exec whole_shutdown two_start)"

lemma two_fresh: "fresh_ids two_stage [''p1'', ''p2''] [''m1'', ''m2'']" by code_simp

lemma shut_down_reached: "reaches rn_step two_start shut_down"
  unfolding shut_down_def by (rule rn_exec_reaches_the) code_simp

theorem shutdown_order_witness:
  "(\<exists>w. su_workers (rn_producers shut_down) ''p2'' = Some w \<and> wk_terminated w) \<and>
   pl_terminatedClosed (rn_pipeline shut_down) \<and> sp_told (rn_processors shut_down) = [''m1'', ''m2''] \<and>
   (\<exists>w. sp_workers (rn_processors shut_down) ''m2'' = Some w \<and> wk_exit w \<noteq> None)"
proof -
  have "pl_terminatedClosed (rn_pipeline shut_down)" "sp_told (rn_processors shut_down) = [''m1'', ''m2'']" by code_simp+
  then show ?thesis
    using shutdown_order [OF shut_down_reached [unfolded two_start_def] two_fresh] by simp
qed

text \<open>A producer that panics once the context is cancelled.\<close>

definition late_panic :: run where
  "late_panic = the (rn_exec [Advance, Advance, Advance, Advance, ProducerEnds ''p1'' (Some ''boom'')] two_start)"

theorem producer_panic_at_shutdown_witness:
  "handle_rest 5 (su_watch (rn_producers late_panic) ''p1'' (Some ''boom'')) ''p1'' ''p3'' = Inl SendOnClosed"
proof -
  have r: "reaches rn_step two_start late_panic"
    unfolding late_panic_def by (rule rn_exec_reaches_the) code_simp
  have "su_changeClosed (rn_producers late_panic)"
    "map_option wk_exit (su_workers (rn_producers late_panic) ''p1'') = Some (Some (Some ''boom''))"
    by code_simp+
  then show ?thesis
    using producer_panic_at_shutdown [OF r [unfolded two_start_def] two_fresh, of "''p1''" _ "''boom''" "''p3''"]
    by (auto split: if_splits)
qed

text \<open>\<open>Concurrency\<close> is not set for the processors.\<close>

definition unset_config :: pipelineConfig where
  "unset_config = two_stage\<lparr>pc_processorConcurrency := 0\<rparr>"

definition unset_run :: run where
  "unset_run = the (rn_exec all_told
     (pl_run (NewPipeline unset_config) [''p1'', ''p2''] []))"

theorem empty_stage_never_terminates_witness:
  "rn_phase unset_run = WaitProcessors \<and> \<not> pl_terminatedClosed (rn_pipeline unset_run)"
proof -
  have "reaches rn_step (pl_run (NewPipeline unset_config) [''p1'', ''p2''] []) unset_run"
    unfolding unset_run_def by (rule rn_exec_reaches_the) code_simp
  moreover have "fresh_ids unset_config [''p1'', ''p2''] []" by code_simp
  moreover have "pc_processorConcurrency unset_config \<le> 0" by code_simp
  ultimately have "\<not> pl_terminatedClosed (rn_pipeline unset_run)" by (intro empty_stage_never_terminates) auto
  moreover have "rn_phase unset_run = WaitProcessors" by code_simp
  ultimately show ?thesis by simp
qed

text \<open>A processor that panics during the shutdown: its replacement has to panic as well.\<close>

definition replaced :: run where
  "replaced = the (rn_exec (all_told @ [
     ProcessorEnds ''m1'' (Some ''boom''), ProcessorSeen ''m1'' ''m3'']) two_start)"

definition replaced_ended :: run where
  "replaced_ended = the (rn_exec [ProcessorEnds ''m3'' (Some ''boom''), ProcessorEnds ''m2'' None, ProcessorSeen ''m2'' '''', Advance,
     BatcherEnds ''b'', BatcherSeen ''b'', Advance] replaced)"

theorem replacement_blocks_shutdown_witness:
  "''m3'' \<notin> set (sp_told (rn_processors replaced)) \<and> pl_terminatedClosed (rn_pipeline replaced_ended) \<and>
   (\<exists>w e. sp_workers (rn_processors replaced_ended) ''m3'' = Some w \<and> wk_exit w = Some (Some e))"
proof -
  have r: "reaches rn_step two_start replaced"
    unfolding replaced_def by (rule rn_exec_reaches_the) code_simp
  have r': "reaches rn_step replaced replaced_ended"
    unfolding replaced_ended_def by (rule rn_exec_reaches_the) code_simp
  have "sp_told (rn_processors replaced) \<noteq> []" "\<not> sp_allTerminated (rn_processors replaced)"
    "''m3'' \<in> set (getAllNodes (sp_hr (rn_processors replaced)))" "''m3'' \<notin> set (sp_told (rn_processors replaced))"
    "pl_terminatedClosed (rn_pipeline replaced_ended)"
    by code_simp+
  then show ?thesis
    using replacement_blocks_shutdown [OF r [unfolded two_start_def] two_fresh _ _ _ _ r'] by blast
qed

text \<open>
  \<open>allProducersTerminated\<close> means that every producer was told to stop, not that it has
  stopped: a whole shutdown, to the closing of \<open>Terminated()\<close>, is possible while the goroutine of
  a producer still runs (and may be in the client's \<open>HandleDemand\<close>).
\<close>

theorem terminated_before_producer_ends:
  "reaches rn_step (pl_run (NewPipeline two_stage) [''p1'', ''p2''] [''m1'', ''m2'']) shut_down \<and>
   pl_terminatedClosed (rn_pipeline shut_down) \<and>
   map_option wk_exit (su_workers (rn_producers shut_down) ''p2'') = Some None"
proof -
  have "pl_terminatedClosed (rn_pipeline shut_down)"
    "map_option wk_exit (su_workers (rn_producers shut_down) ''p2'') = Some None" by code_simp+
  then show ?thesis using shut_down_reached by (simp add: two_start_def)
qed

text \<open>A producer that panics just before the cancellation.\<close>

definition missed_moves :: "move list" where
  "missed_moves = [ProducerEnds ''p1'' (Some ''boom''), ProducerSeen ''p1'', ProducerHandles ''p1'' '''',
     Advance, Advance, ProducerEnds ''p2'' None, ProducerSeen ''p2'',
     ProducerHandles ''p1'' ''p3'', ProducerHandles ''p1'' '''', ProducerHandles ''p1'' '''', ProducerHandles ''p1'' '''',
     Change, Advance, ProducersCheck 0, ProducersCheck 0, Advance,
     ProcessorEnds ''m1'' None, ProcessorSeen ''m1'' '''', ProcessorEnds ''m2'' None, ProcessorSeen ''m2'' '''', Advance,
     BatcherEnds ''b'', BatcherSeen ''b'', Advance]"

definition missed :: run where "missed = the (rn_exec missed_moves two_start)"

text \<open>
  A replacement can be missed by the shutdown. The supervisor of the producers has no lock: while
  \<open>handleProducerPanic\<close> has deleted the producer that panicked and not yet added its replacement,
  \<open>terminate\<close> copies the map and the watcher of the other producer, which was told and has ended, lists
  the producers for its check. Both miss the replacement. It is announced and taken before
  \<open>terminate\<close> closes the channel, so nothing panics; the check finds everybody terminated, the
  message processors and batchers are told and end, and \<open>Terminated()\<close> is closed. The replacement
  runs, is in the map, and was never told to stop.
\<close>

theorem replacement_never_told:
  "reaches rn_step (pl_run (NewPipeline two_stage) [''p1'', ''p2''] [''m1'', ''m2'']) missed \<and> rn_crash missed = None \<and>
   pl_terminatedClosed (rn_pipeline missed) \<and> su_ids (rn_producers missed) = [''p2'', ''p3''] \<and>
   su_workers (rn_producers missed) ''p3'' = Some new_worker"
proof -
  have "reaches rn_step two_start missed" unfolding missed_def by (rule rn_exec_reaches_the) code_simp
  moreover have "(rn_crash missed, pl_terminatedClosed (rn_pipeline missed), su_ids (rn_producers missed),
      su_workers (rn_producers missed) ''p3'') = (None, True, [''p2'', ''p3''], Some new_worker)" by code_simp
  ultimately show ?thesis by (simp add: two_start_def)
qed

end
