(* ===== verification/Shutdown.thy ===== *)
theory Shutdown
  imports Pipeline_Runs
begin

text \<open>
  The shutdown of a pipeline without panics cannot hang by a fault of the supervisors: when neither
  \<open>Run\<close> nor a supervisor has anything left to do and \<open>Terminated()\<close> is not closed, a worker that was
  told to stop has not stopped. Whether workers stop is not a matter of this model.
\<close>

section \<open>Runs without panics\<close>

definition calm :: "run \<Rightarrow> bool" where
  "calm r \<longleftrightarrow> (\<forall>i w. su_workers (rn_producers r) i = Some w \<longrightarrow> \<not> wk_panicked w) \<and>
     (\<forall>i w. sp_workers (rn_processors r) i = Some w \<longrightarrow> \<not> wk_panicked w)"

definition all_seen :: "workers \<Rightarrow> string set \<Rightarrow> bool" where
  "all_seen ws I \<longleftrightarrow> (\<forall>i\<in>I. \<forall>w. ws i = Some w \<longrightarrow> wk_seen w)"

text \<open>
  What a run keeps as long as nobody panics: once the ends of all workers of a stage have been seen, the
  supervisor has reported, or (the producers') a check is under way that will find all terminated.
\<close>

definition su_quiet :: "producerSupervisor \<Rightarrow> string list \<Rightarrow> bool" where
  "su_quiet s pids \<longleftrightarrow> su_changes s = [] \<and> set (su_ids s) = set pids \<and>
     (\<forall>c\<in>set (su_checks s). set c \<subseteq> set pids) \<and>
     (all_seen (su_workers s) (set pids) \<longrightarrow> su_allTerminated s \<or> su_checks s \<noteq> [])"

definition quiet :: "string list \<Rightarrow> run \<Rightarrow> bool" where
  "quiet pids r \<longleftrightarrow> rn_inv r \<and> rn_crash r = None \<and> su_quiet (rn_producers r) pids \<and>
     (\<not> telling (rn_phase r) \<longrightarrow> rn_phase r \<notin> {Running, WaitProducers} \<longrightarrow>
        sp_nodes (rn_processors r) \<subseteq> set (sp_told (rn_processors r))) \<and>
     (all_seen (sp_workers (rn_processors r)) (sp_nodes (rn_processors r)) \<longrightarrow> sp_allTerminated (rn_processors r)) \<and>
     (rn_started r \<noteq> None \<longrightarrow> all_seen (sb_workers (rn_batchers r)) (set (sb_ids (rn_batchers r))) \<longrightarrow>
        sb_allTerminated (rn_batchers r))"

lemma quietD:
  assumes "quiet pids r"
  shows "rn_inv r" "rn_crash r = None" "su_quiet (rn_producers r) pids"
    "all_seen (sp_workers (rn_processors r)) (sp_nodes (rn_processors r)) \<Longrightarrow> sp_allTerminated (rn_processors r)"
    "rn_started r \<noteq> None \<Longrightarrow> all_seen (sb_workers (rn_batchers r)) (set (sb_ids (rn_batchers r))) \<Longrightarrow>
       sb_allTerminated (rn_batchers r)"
  using assms by (simp_all add: quiet_def)

lemmas quiet_inv = quietD(1)

text \<open>How the workers and the flags move in one step.\<close>

lemma all_seen_end:
  assumes "ws i = Some w" and "wk_end w v = Some w'"
  shows "all_seen (ws(i \<mapsto> w')) I = all_seen ws I"
  using assms by (auto simp: all_seen_def elim!: wk_end_cases)

lemma all_seen_idle [simp]: "all_seen (at_worker ws i (\<lambda>w. w\<lparr>wk_idle := b\<rparr>)) I = all_seen ws I"
  by (auto simp: all_seen_def at_worker_apply)

lemma all_seen_told [simp]: "all_seen (at_worker ws i wk_terminate) I = all_seen ws I" "all_seen (tell ws is') I = all_seen ws I"
  by (auto simp: all_seen_def at_worker_apply tell_apply wk_terminate_def)

lemma quiet_producers:
  "quiet pids r \<Longrightarrow> rn_inv (r\<lparr>rn_producers := s\<rparr>) \<Longrightarrow> su_quiet s pids \<Longrightarrow> quiet pids (r\<lparr>rn_producers := s\<rparr>)"
  by (simp add: quiet_def)

lemma quiet_processors:
  "quiet pids r \<Longrightarrow> rn_inv (r\<lparr>rn_processors := s\<rparr>) \<Longrightarrow> sp_nodes s = sp_nodes (rn_processors r) \<Longrightarrow>
   sp_told s = sp_told (rn_processors r) \<Longrightarrow>
   (all_seen (sp_workers s) (sp_nodes s) \<Longrightarrow> sp_allTerminated s) \<Longrightarrow> quiet pids (r\<lparr>rn_processors := s\<rparr>)"
  by (simp add: quiet_def)

lemma quiet_batchers:
  "quiet pids r \<Longrightarrow> rn_inv (r\<lparr>rn_batchers := s\<rparr>) \<Longrightarrow> sb_ids s = sb_ids (rn_batchers r) \<Longrightarrow>
   (rn_started r \<noteq> None \<Longrightarrow> all_seen (sb_workers s) (set (sb_ids s)) \<Longrightarrow> sb_allTerminated s) \<Longrightarrow>
   quiet pids (r\<lparr>rn_batchers := s\<rparr>)"
  by (simp add: quiet_def)

text \<open>A check ends without success only when it has found a producer that has not been told to stop.\<close>

lemma su_quiet_check:
  assumes inv: "su_inv s c" and q: "su_quiet s pids" and step: "su_check s k = Some s'"
  shows "su_quiet s' pids"
proof -
  have k: "k < length (su_checks s)" using step by (auto simp: su_check_def split: if_splits)
  have less: "set (without (su_checks s) k) \<subseteq> set (su_checks s)"
    by (auto simp: without_def dest: in_set_takeD in_set_dropD)
  have checks: "set c \<subseteq> set pids" if "c \<in> set (su_checks s)" for c using q that by (simp add: su_quiet_def)
  show ?thesis
  proof (cases "su_checks s ! k")
    case Nil
    with step k have "s' = s\<lparr>su_checks := without (su_checks s) k, su_allTerminated := True\<rparr>" by (simp add: su_check_def)
    then show ?thesis using q less by (auto simp: su_quiet_def)
  next
    case (Cons i rest)
    have i: "i \<in> set pids" "set rest \<subseteq> set pids" using checks [OF nth_mem [OF k]] Cons by auto
    show ?thesis
    proof (cases "worker_is wk_terminated (su_workers s) i")
      case True
      with step k Cons have "s' = s\<lparr>su_checks := (su_checks s)[k := rest]\<rparr>" by (simp add: su_check_def)
      moreover have "set c \<subseteq> set pids" if "c \<in> set ((su_checks s)[k := rest])" for c
        using that set_update_subset_insert [of "su_checks s" k rest] checks i(2) by blast
      moreover have "(su_checks s)[k := rest] \<noteq> []" using k by (metis length_list_update length_0_conv less_nat_zero_code list.size(3))
      ultimately show ?thesis using q by (simp add: su_quiet_def)
    next
      case False
      then obtain w where w: "su_workers s i = Some w" "\<not> wk_terminated w"
        by (auto simp: worker_is_def split: option.splits)
      then have "\<not> wk_seen w" using wks_ok_D [OF su_invD(2) [OF inv] w(1)] by (auto simp: wk_ok_def)
      then have "\<not> all_seen (su_workers s) (set pids)" using i(1) w(1) by (auto simp: all_seen_def)
      moreover have "s' = s\<lparr>su_checks := without (su_checks s) k\<rparr>" using False step k Cons by (simp add: su_check_def)
      ultimately show ?thesis using q less by (auto simp: su_quiet_def)
    qed
  qed
qed

lemma su_quiet_watch:
  assumes "su_quiet s pids"
  shows "su_quiet (su_watch s i None) pids"
  using assms by (auto simp: su_quiet_def su_watch_def checkIfAllProducersTerminated_def su_ids_def)

lemma sp_seen_checked:
  assumes inv: "sp_inv s" and i: "sp_workers s i = Some w" "wk_exit w = Some None"
    and all: "all_seen (sp_workers (sp_watch s i None new)) (sp_nodes s)"
  shows "sp_allTerminated (sp_watch s i None new)"
proof -
  let ?s = "s\<lparr>sp_workers := at_worker (sp_workers s) i (\<lambda>w. w\<lparr>wk_seen := True\<rparr>)\<rparr>"
  have "sp_inv ?s" by (rule sp_inv_seen [OF assms(1-3)])
  then have "wk_fully u" if "sp_workers ?s j = Some u" "wk_seen u" for j u
    using that wks_ok_D [OF sp_invD(1)] by (fastforce simp: wk_ok_def)
  moreover have "sp_workers (sp_watch s i None new) = sp_workers ?s"
    by (simp add: sp_watch_def checkIfAllProcessorsTerminated_def Let_def)
  ultimately show ?thesis using all
    by (auto simp: sp_watch_def checkIfAllProcessorsTerminated_def all_of_iff all_seen_def getAllNodes_def)
qed

lemma sb_seen_checked:
  assumes inv: "sb_inv s told" and i: "sb_workers s i = Some w" "wk_exit w = Some None"
    and all: "all_seen (sb_workers (sb_watch s i)) (set (sb_ids s))"
  shows "sb_allTerminated (sb_watch s i)"
proof -
  let ?ws = "at_worker (sb_workers s) i (\<lambda>w. w\<lparr>wk_seen := True\<rparr>)"
  have "wks_ok ?ws (if told then UNIV else {})" using inv i by (intro wks_ok_seen) (simp_all add: sb_inv_def)
  then have "wk_fully u" if "?ws j = Some u" "wk_seen u" for j u
    using that by (auto simp: wk_ok_def dest!: wks_ok_D)
  moreover have "sb_workers (sb_watch s i) = ?ws"
    by (simp add: sb_watch_def checkIfAllBatchersTerminated_def)
  ultimately show ?thesis using all
    by (auto simp: sb_watch_def checkIfAllBatchersTerminated_def all_of_iff all_seen_def)
qed

lemma quiet_advance:
  assumes q: "quiet pids r" and adv: "rn_advance r = Some r'"
  shows "quiet pids r'"
proof -
  have inv: "rn_inv r'" by (rule rn_inv_advance [OF quiet_inv [OF q] adv])
  have "rn_phase r \<noteq> Done \<longrightarrow> \<not> pl_terminatedClosed (rn_pipeline r)"
    using quiet_inv [OF q] by (simp add: rn_inv_def)
  moreover have "su_changes (rn_producers r) = []" using quietD(3) [OF q] by (simp add: su_quiet_def)
  ultimately have no_crash: "rn_crash r' = None" using adv quietD(2) [OF q]
    by (auto simp: rn_advance_def rn_finish_def su_close_def pl_terminate_def split: phase.splits list.splits if_splits)
  from adv show ?thesis
  proof (cases rule: rn_advance_cases)
    case cancel
    with inv q show ?thesis by (auto simp: quiet_def)
  next
    case (tell i rest)
    with inv q show ?thesis by (auto simp: quiet_def su_quiet_def su_tell_def)
  next
    case close
    with inv q show ?thesis by (auto simp: quiet_def su_quiet_def)
  next
    case producers
    with inv q show ?thesis by (auto simp: quiet_def sp_terminate_def getAllNodes_def)
  next
    case processors
    with inv q show ?thesis by (auto simp: quiet_def sb_terminate_def)
  next
    case (finish p)
    with inv q show ?thesis by (auto simp: quiet_def)
  qed (use no_crash in \<open>simp add: rn_fail_def\<close>)
qed

lemma calm_exit:
  assumes "calm r"
  shows "su_workers (rn_producers r) i = Some w \<Longrightarrow> wk_exit w = Some v \<Longrightarrow> v = None"
    and "sp_workers (rn_processors r) i = Some w \<Longrightarrow> wk_exit w = Some v \<Longrightarrow> v = None"
  using assms wk_panicked_simps(1) unfolding calm_def by blast+

lemma calm_handles:
  assumes "rn_inv r" and "calm r"
  shows "handleProducerPanic (rn_producers r) i new = None"
proof (cases "su_handling (rn_producers r) i")
  case (Some h)
  from su_invD(8) [OF rn_inv_parts(1) [OF assms(1)] Some] assms(2) show ?thesis by (auto simp: calm_def)
qed (simp add: handleProducerPanic_def)

lemma quiet_step:
  assumes q: "quiet pids r" and "calm r" and step: "rn_step r r'"
  shows "quiet pids r'"
proof -
  have inv: "rn_inv r'" by (rule rn_inv_step [OF quiet_inv [OF q] step])
  note parts = rn_inv_parts [OF quiet_inv [OF q]] and su = quietD(3) [OF q]
  from step show ?thesis
  proof cases
    case advance
    with q show ?thesis by (blast intro: quiet_advance)
  next
    case (producer_ends i w v w')
    show ?thesis unfolding producer_ends(1)
      using inv producer_ends su by (intro quiet_producers [OF q]) (simp_all add: su_quiet_def all_seen_end)
  next
    case (processor_ends i w v w')
    show ?thesis unfolding processor_ends(1)
      using inv processor_ends quietD(4) [OF q] by (intro quiet_processors [OF q]) (simp_all add: all_seen_end)
  next
    case (batcher_ends i w w')
    show ?thesis unfolding batcher_ends(1)
      using inv batcher_ends quietD(5) [OF q] by (intro quiet_batchers [OF q]) (simp_all add: all_seen_end)
  next
    case (producer_seen i w v)
    with calm_exit(1) [OF assms(2)] have "v = None" by blast
    then show ?thesis unfolding producer_seen(1)
      using inv producer_seen(1) by (intro quiet_producers [OF q]) (simp_all add: su_quiet_watch [OF su])
  next
    case (producer_handled i new res)
    with calm_handles [OF quiet_inv [OF q] assms(2)] show ?thesis by simp
  next
    case (producers_check k s)
    show ?thesis unfolding producers_check(1)
      using inv producers_check(1) su_quiet_check [OF parts(1) su producers_check(3)] by (intro quiet_producers [OF q]) simp_all
  next
    case (processor_seen i w v new)
    with calm_exit(2) [OF assms(2)] have v: "v = None" by blast
    have "sp_nodes (sp_watch (rn_processors r) i None new) = sp_nodes (rn_processors r)"
      by (simp add: sp_watch_def checkIfAllProcessorsTerminated_def Let_def)
    then show ?thesis unfolding processor_seen(1)
      using inv processor_seen sp_seen_checked [OF parts(2) processor_seen(3)] v
      by (intro quiet_processors [OF q]) (auto simp: sp_watch_mono)
  next
    case (batcher_seen i w)
    then obtain v where "wk_exit w = Some v" by auto
    moreover from parts(3) batcher_seen have "\<not> wk_panicked w" by (auto simp: sb_inv_def)
    ultimately have "wk_exit w = Some None" by simp
    then show ?thesis unfolding batcher_seen(1)
      using inv batcher_seen sb_seen_checked [OF parts(3) batcher_seen(3)]
      by (intro quiet_batchers [OF q]) (auto simp: sb_watch_mono)
  next
    case (producer_idle i b)
    show ?thesis unfolding producer_idle(1)
      using inv producer_idle su by (intro quiet_producers [OF q]) (simp_all add: su_quiet_def)
  next
    case idle_seen
    show ?thesis unfolding idle_seen(1)
      using inv idle_seen su by (intro quiet_producers [OF q]) (simp_all add: su_quiet_def)
  next
    case (idle_check k s)
    show ?thesis unfolding idle_check(1)
      using inv idle_check(1) su su_idleCheck_fields [OF idle_check(3)] by (intro quiet_producers [OF q]) (simp_all add: su_quiet_def)
  next
    case change
    moreover have "su_changes (rn_producers r) = []" using su by (simp add: su_quiet_def)
    ultimately have "r' = r\<lparr>rn_processors := sp_setProducers (rn_processors r) []\<rparr>"
      by (simp add: rn_change_def split: if_splits)
    with inv quietD(4) [OF q] show ?thesis by (auto intro!: quiet_processors [OF q])
  next
    case all_idle
    then have "r' = r\<lparr>rn_producers := (rn_producers r)\<lparr>su_allIdle := False\<rparr>, rn_pipeline := (rn_pipeline r)\<lparr>pl_idle := True\<rparr>\<rparr>"
      by (simp add: rn_all_idle_def split: if_splits)
    with inv q show ?thesis by (simp add: quiet_def su_quiet_def)
  next
    case status_stop
    with inv q show ?thesis by (simp add: quiet_def rn_status_stop_def)
  next
    case client_idle
    with inv q show ?thesis by (simp add: quiet_def)
  qed
qed

text \<open>A panic is remembered, so a run that has seen none was calm all along.\<close>

lemma sp_watch_panicked:
  assumes "v = None \<or> new \<notin> dom (sp_workers s)" and "sp_workers s j = Some w" and "wk_panicked w"
  shows "\<exists>w'. sp_workers (sp_watch s i v new) j = Some w' \<and> wk_panicked w'"
  using assms
  by (auto simp: sp_watch_def sp_handleProcessorPanic_def checkIfAllProcessorsTerminated_def at_worker_apply Let_def)

lemma tell_panicked:
  assumes "ws j = Some w" and "wk_panicked w"
  shows "\<exists>w'. tell ws is' j = Some w' \<and> wk_panicked w'"
  using assms by (auto simp: tell_apply wk_terminate_def)

lemma ended_not_panicked: "wk_end w v = Some w' \<Longrightarrow> \<not> wk_panicked w"
  by (auto elim: wk_end_cases)

lemma su_handle_panicked:
  assumes "handleProducerPanic s i new = Some (Inr t)" and "su_handling s i = Some H_Set \<longrightarrow> new \<notin> dom (su_workers s)"
    and "su_workers s j = Some w" and "wk_panicked w"
  shows "\<exists>w'. su_workers t j = Some w' \<and> wk_panicked w'"
  using assms by (auto simp: handleProducerPanic_def at_worker_apply split: option.splits handling.splits if_splits)

lemma su_panic_kept:
  assumes "rn_step r r'" and w: "su_workers (rn_producers r) j = Some w" "wk_panicked w"
  shows "\<exists>w'. su_workers (rn_producers r') j = Some w' \<and> wk_panicked w'"
  using assms(1)
proof cases
  case advance
  then show ?thesis using w by (auto simp: rn_fail_def su_tell_def at_worker_apply wk_terminate_def elim!: rn_advance_cases)
next
  case (producer_handled i new res)
  show ?thesis
  proof (cases res)
    case (Inr t)
    with su_handle_panicked [OF _ producer_handled(4) w] producer_handled show ?thesis by (simp add: rn_supervise_def)
  qed (use w producer_handled(1) in \<open>simp add: rn_supervise_def rn_fail_def\<close>)
next
  case (producers_check k t)
  with w su_check_fields [OF producers_check(3)] show ?thesis by simp
next
  case (idle_check k t)
  with w su_idleCheck_fields [OF idle_check(3)] show ?thesis by simp
qed (use w in \<open>auto simp: at_worker_apply rn_change_def rn_all_idle_def rn_status_stop_def ended_not_panicked
      split: list.splits if_splits\<close>)

lemma sp_panic_kept:
  assumes "rn_step r r'" and w: "sp_workers (rn_processors r) j = Some w" "wk_panicked w"
  shows "\<exists>w'. sp_workers (rn_processors r') j = Some w' \<and> wk_panicked w'"
  using assms(1)
proof cases
  case advance
  then show ?thesis using w tell_panicked [of "sp_workers (rn_processors r)", OF w]
    by (auto simp: rn_fail_def sp_terminate_def elim!: rn_advance_cases)
next
  case (processor_seen i u v new)
  show ?thesis unfolding processor_seen(1) using sp_watch_panicked [OF processor_seen(6) w] by simp
qed (use w in \<open>auto simp: at_worker_apply rn_change_def rn_all_idle_def rn_status_stop_def rn_supervise_def rn_fail_def
      ended_not_panicked split: list.splits if_splits sum.splits\<close>)

lemma calm_back: "rn_step r r' \<Longrightarrow> calm r' \<Longrightarrow> calm r"
  unfolding calm_def using su_panic_kept sp_panic_kept by blast

lemma quiet_reaches:
  assumes "reaches rn_step r0 r" and "quiet pids r0" and "calm r"
  shows "quiet pids r"
  using assms by (induction rule: reaches.induct) (blast intro: quiet_step calm_back)+

section \<open>What a stage waits for\<close>

definition noticed :: "workers \<Rightarrow> string list \<Rightarrow> bool" where
  "noticed ws is' \<longleftrightarrow> list_all (worker_is (\<lambda>w. wk_exit w \<noteq> None \<longrightarrow> wk_seen w) ws) is'"

definition stopping :: "workers \<Rightarrow> string \<Rightarrow> bool" where
  "stopping ws i \<longleftrightarrow> (case ws i of None \<Rightarrow> False | Some w \<Rightarrow> wk_terminated w \<and> wk_exit w = None)"

lemma noticed_D: "noticed ws is' \<Longrightarrow> i \<in> set is' \<Longrightarrow> ws i = Some w \<Longrightarrow> wk_exit w \<noteq> None \<Longrightarrow> wk_seen w"
  by (auto simp: noticed_def list_all_iff worker_is_def)

text \<open>
  What \<open>Run\<close> needs from the stage \<open>ids\<close> that it waits for in phase \<open>ph\<close>: the workers have been told to
  stop, and as long as the stage has neither reported nor a check under way, somebody's end is
  still to be seen.
\<close>

locale stage =
  fixes inv :: "run \<Rightarrow> bool" and ph :: phase and ids :: "run \<Rightarrow> string list" and ws :: "run \<Rightarrow> workers"
    and finished :: "run \<Rightarrow> bool" and busy :: "run \<Rightarrow> bool"
  assumes open_end: "inv r \<Longrightarrow> rn_phase r = ph \<Longrightarrow> \<not> finished r \<Longrightarrow> \<not> busy r \<Longrightarrow>
      \<exists>i\<in>set (ids r). \<exists>w. ws r i = Some w \<and> \<not> wk_seen w"
    and told: "inv r \<Longrightarrow> rn_phase r = ph \<Longrightarrow> i \<in> set (ids r) \<Longrightarrow> ws r i = Some w \<Longrightarrow> wk_terminated w"
begin

lemma waits_for_worker:
  assumes "inv r" and "rn_phase r = ph" and "\<not> finished r" and "\<not> busy r" and "noticed (ws r) (ids r)"
  shows "\<exists>i\<in>set (ids r). stopping (ws r) i"
proof -
  from open_end [OF assms(1-4)] obtain i w where i: "i \<in> set (ids r)" "ws r i = Some w" "\<not> wk_seen w" by blast
  then have "wk_exit w = None" using noticed_D [OF assms(5)] by blast
  moreover have "wk_terminated w" by (rule told [OF assms(1,2) i(1,2)])
  ultimately have "stopping (ws r) i" using i(2) by (simp add: stopping_def)
  with i(1) show ?thesis by blast
qed

end

text \<open>The three stages of the pipeline.\<close>

interpretation producers: stage "\<lambda>r. quiet pids r \<and> started_told pids r" WaitProducers "\<lambda>r. pids"
  "\<lambda>r. su_workers (rn_producers r)" "\<lambda>r. su_allTerminated (rn_producers r)" "\<lambda>r. su_checks (rn_producers r) \<noteq> []"
  for pids
proof unfold_locales
  fix r i w
  show "\<exists>i\<in>set pids. \<exists>w. su_workers (rn_producers r) i = Some w \<and> \<not> wk_seen w"
    if "quiet pids r \<and> started_told pids r" "\<not> su_allTerminated (rn_producers r)" "\<not> su_checks (rn_producers r) \<noteq> []"
    using that by (auto simp: quiet_def su_quiet_def all_seen_def)
  show "wk_terminated w" if "quiet pids r \<and> started_told pids r" "rn_phase r = WaitProducers" "i \<in> set pids"
    "su_workers (rn_producers r) i = Some w"
    using that by (auto simp: started_told_def)
qed

interpretation processors: stage "quiet pids" WaitProcessors "\<lambda>r. getAllNodes (sp_hr (rn_processors r))"
  "\<lambda>r. sp_workers (rn_processors r)" "\<lambda>r. sp_allTerminated (rn_processors r)" "\<lambda>r. False"
  for pids
proof unfold_locales
  fix r i w
  show "\<exists>i\<in>set (getAllNodes (sp_hr (rn_processors r))). \<exists>w. sp_workers (rn_processors r) i = Some w \<and> \<not> wk_seen w"
    if "quiet pids r" "\<not> sp_allTerminated (rn_processors r)"
    using that quietD(4) [OF that(1)] by (auto simp: all_seen_def getAllNodes_def)
  show "wk_terminated w"
    if "quiet pids r" "rn_phase r = WaitProcessors" "i \<in> set (getAllNodes (sp_hr (rn_processors r)))" "sp_workers (rn_processors r) i = Some w"
  proof -
    have "i \<in> set (sp_told (rn_processors r))" using that(1-3) by (auto simp: quiet_def getAllNodes_def)
    then show ?thesis using sp_invD(4) [OF rn_inv_parts(2) [OF quiet_inv [OF that(1)]] that(4)] by blast
  qed
qed

interpretation batchers: stage "quiet pids" WaitBatchers "\<lambda>r. sb_ids (rn_batchers r)"
  "\<lambda>r. sb_workers (rn_batchers r)" "\<lambda>r. sb_allTerminated (rn_batchers r)" "\<lambda>r. False"
  for pids
proof unfold_locales
  fix r i w
  have started: "rn_started r \<noteq> None" "batchers_told r" if "quiet pids r" "rn_phase r = WaitBatchers"
    using quiet_inv [OF that(1)] that(2) by (auto simp: rn_inv_def batchers_told_def)
  show "\<exists>i\<in>set (sb_ids (rn_batchers r)). \<exists>w. sb_workers (rn_batchers r) i = Some w \<and> \<not> wk_seen w"
    if "quiet pids r" "rn_phase r = WaitBatchers" "\<not> sb_allTerminated (rn_batchers r)"
    using that quietD(5) [OF that(1)] started(1) [OF that(1,2)] by (auto simp: all_seen_def)
  show "wk_terminated w"
    if "quiet pids r" "rn_phase r = WaitBatchers" "i \<in> set (sb_ids (rn_batchers r))" "sb_workers (rn_batchers r) i = Some w"
  proof -
    have "sb_inv (rn_batchers r) True"
      using rn_inv_parts(3) [OF quiet_inv [OF that(1)]] started [OF that(1,2)] by simp
    then show ?thesis using that(3,4) by (auto simp: sb_inv_def)
  qed
qed

section \<open>The start of a run\<close>

lemma su_add_fields:
  assumes "cmap_ok (su_producers s)"
  shows "cmap_ok (su_producers (su_add s i))" "set (su_ids (su_add s i)) = insert i (set (su_ids s))"
    "su_workers (su_add s i) = (su_workers s)(i \<mapsto> new_worker)" "su_changes (su_add s i) = su_changes s"
  using assms by (auto simp: su_add_def set_su_ids dom_def)

lemma su_run_fields:
  "set (su_ids (su_run is')) = set is' \<and> (\<forall>i w. su_workers (su_run is') i = Some w \<longrightarrow> w = new_worker) \<and>
   su_changes (su_run is') = [] \<and> cmap_ok (su_producers (su_run is'))"
  unfolding su_run_def
proof (induction is' rule: rev_induct)
  case Nil
  then show ?case by (simp add: newProducerSupervisor_def su_ids_def newConcurrentMap_def map_toMap_def clone_map_def cmap_ok_def)
next
  case (snoc i is')
  then show ?case by (auto simp: su_add_fields)
qed

lemma sp_run_fields:
  "(sp_nodes (sp_run ps is') \<noteq> {} \<longleftrightarrow> is' \<noteq> []) \<and> (\<forall>i w. sp_workers (sp_run ps is') i = Some w \<longrightarrow> w = new_worker)"
  unfolding sp_run_def
proof (induction is' rule: rev_induct)
  case Nil
  then show ?case by (simp add: newMessageProcessorSupervisor_def newHashRing_def)
next
  case (snoc i is')
  let ?s = "foldl sp_add (newMessageProcessorSupervisor ps) is'"
  have "sp_nodes (sp_add ?s i) \<noteq> {}"
  proof (cases "is' = []")
    case True
    then show ?thesis by (simp add: newMessageProcessorSupervisor_def sp_add_def newHashRing_def addNode_def)
  next
    case False
    with snoc.IH have "sp_nodes ?s \<noteq> {}" by simp
    then show ?thesis using sp_nodes_add(1) [of ?s i] by (metis subset_empty)
  qed
  with snoc.IH show ?case by auto
qed

lemma sb_run_fields:
  assumes "sb_run config = (s, started)"
  shows "\<forall>i w. sb_workers s i = Some w \<longrightarrow> w = new_worker"
proof -
  have "\<forall>i w. sb_workers (foldl sb_add newBatcherSupervisor names) i = Some w \<longrightarrow> w = new_worker" for names
    by (induction names rule: rev_induct) (auto simp: sb_add_def newBatcherSupervisor_def)
  then show ?thesis using assms by (force simp: sb_run_def Let_def newBatcherSupervisor_def split: option.splits)
qed

lemma new_worker_fields [simp]: "\<not> wk_seen new_worker" "\<not> wk_panicked new_worker"
  by (simp_all add: new_worker_def)

lemma none_seen:
  assumes "\<forall>i w. ws i = Some w \<longrightarrow> w = new_worker" and "I \<subseteq> dom ws" and "I \<noteq> {}"
  shows "\<not> all_seen ws I"
  using assms by (force simp: all_seen_def)

lemma quiet_start:
  assumes "distinct mids" and "pids \<noteq> []" and "mids \<noteq> []" and "pc_Batchers config \<noteq> Some []"
  shows "quiet pids (pl_run (NewPipeline config) pids mids)" (is "quiet pids ?r")
proof -
  obtain s started where run: "sb_run (pc_Batchers (pl_config (NewPipeline config))) = (s, started)" by fastforce
  have cfg: "pc_Batchers (pl_config (NewPipeline config)) = pc_Batchers config"
    by (auto simp: NewPipeline_def Let_def split: option.splits)
  have r: "rn_producers ?r = su_run pids" "rn_processors ?r = sp_run (su_ids (su_run pids)) mids" "rn_batchers ?r = s"
    "rn_started ?r = started" "rn_phase ?r = Running" "rn_crash ?r = None"
    using run by (simp_all add: pl_run_def Let_def)
  have inv: "rn_inv ?r" by (rule rn_inv_start [OF assms(1)])
  have ids: "set (su_ids (su_run pids)) = set pids" using su_run_fields [of pids] by blast
  then have "set pids \<subseteq> dom (su_workers (su_run pids))" using su_inv_run [of pids] by (auto simp: su_inv_def)
  then have "\<not> all_seen (su_workers (su_run pids)) (set pids)"
    using su_run_fields [of pids] assms(2) by (intro none_seen) auto
  then have su: "su_quiet (su_run pids) pids" using ids by (simp add: su_quiet_def su_run_open)
  have sp: "\<not> all_seen (sp_workers (rn_processors ?r)) (sp_nodes (rn_processors ?r))"
    using sp_run_fields [of "su_ids (su_run pids)" mids] assms(3) sp_invD(2) [OF rn_inv_parts(2) [OF inv]] r
    by (intro none_seen) auto
  have sb: "\<not> all_seen (sb_workers s) (set (sb_ids s))" if "started \<noteq> None"
  proof -
    have "sb_ids s \<noteq> []" using that assms(4) sb_inv_run [OF run] cfg by (auto split: option.splits)
    moreover have "set (sb_ids s) \<subseteq> dom (sb_workers s)" using sb_inv_run [OF run] by (auto simp: sb_inv_def)
    ultimately show ?thesis using sb_run_fields [OF run] by (auto dest: none_seen)
  qed
  show ?thesis unfolding quiet_def using inv su sp sb r by auto
qed

lemma wk_panicked_iff: "wk_panicked w \<longleftrightarrow> (\<exists>e. wk_exit w = Some (Some e))"
  by (cases "wk_exit w"; cases "the (wk_exit w)") (auto simp: wk_panicked_def)

lemma calm_panics:
  "calm r \<Longrightarrow> su_workers (rn_producers r) i = Some w \<Longrightarrow> wk_exit w \<noteq> Some (Some e)"
  "calm r \<Longrightarrow> sp_workers (rn_processors r) i = Some w \<Longrightarrow> wk_exit w \<noteq> Some (Some e)"
  unfolding calm_def wk_panicked_iff by blast+

section \<open>Without panics the pipeline waits for nothing but its workers\<close>

text \<open>Nothing left to do for \<open>Run\<close>, the watchers and the checks of the supervisors.\<close>

definition waiting :: "run \<Rightarrow> bool" where
  "waiting r \<longleftrightarrow> rn_advance r = None \<and> su_checks (rn_producers r) = [] \<and>
     noticed (su_workers (rn_producers r)) (su_ids (rn_producers r)) \<and>
     noticed (sp_workers (rn_processors r)) (getAllNodes (sp_hr (rn_processors r))) \<and>
     noticed (sb_workers (rn_batchers r)) (sb_ids (rn_batchers r))"

text \<open>
  Claim C19. The shutdown does not hang by a fault of the supervisors: take a pipeline with at least
  one producer, one message processor and, unless \<open>Batchers\<close> is nil, one batcher, in a state that it
  can reach without a panic of a producer or a processor, whatever order the goroutines and their watchers
  moved in, where \<open>Run\<close> and the supervisors have nothing left to do. Then nothing has crashed, and
  \<open>Terminated()\<close> is closed or \<open>Run\<close> waits for a stage of which a worker was told to stop and has not
  stopped: no order misses the last check of a supervisor. That workers do stop is not claimed.
\<close>

theorem shutdown_waits_for_workers:
  assumes "reaches rn_step (pl_run (NewPipeline config) pids mids) r" and "fresh_ids config pids mids"
    and "0 < pc_producerConcurrency config" and "0 < pc_processorConcurrency config" and "pc_Batchers config \<noteq> Some []"
    and "\<And>i w e. su_workers (rn_producers r) i = Some w \<Longrightarrow> wk_exit w \<noteq> Some (Some e)"
    and "\<And>i w e. sp_workers (rn_processors r) i = Some w \<Longrightarrow> wk_exit w \<noteq> Some (Some e)"
    and "waiting r"
  shows "rn_crash r = None \<and>
    (pl_terminatedClosed (rn_pipeline r) \<or>
     rn_phase r = WaitProducers \<and> (\<exists>i\<in>set pids. stopping (su_workers (rn_producers r)) i) \<or>
     rn_phase r = WaitProcessors \<and> (\<exists>i\<in>set (getAllNodes (sp_hr (rn_processors r))). stopping (sp_workers (rn_processors r)) i) \<or>
     rn_phase r = WaitBatchers \<and> (\<exists>i\<in>set (sb_ids (rn_batchers r)). stopping (sb_workers (rn_batchers r)) i))"
proof -
  have "calm r" using assms(6,7) unfolding calm_def wk_panicked_iff by blast
  moreover have "pids \<noteq> []" "mids \<noteq> []" "distinct mids" using assms(2-4) by (auto simp: fresh_ids_def)
  then have "quiet pids (pl_run (NewPipeline config) pids mids)" using assms(5) by (intro quiet_start)
  ultimately have q: "quiet pids r" using assms(1) by (blast intro: quiet_reaches)
  have told: "started_told pids r" by (rule started_told_reaches [OF assms(1,2)])
  have w: "rn_advance r = None" "su_checks (rn_producers r) = []"
    "noticed (su_workers (rn_producers r)) pids"
    "noticed (sp_workers (rn_processors r)) (getAllNodes (sp_hr (rn_processors r)))"
    "noticed (sb_workers (rn_batchers r)) (sb_ids (rn_batchers r))"
    using assms(8) quietD(3) [OF q] by (simp_all add: waiting_def su_quiet_def noticed_def list_all_iff)
  show ?thesis
  proof (cases "rn_phase r")
    case (TellProducers is')
    with w(1) show ?thesis by (cases is') (simp_all add: rn_advance_def)
  next
    case WaitProducers
    with w(1) have "\<not> su_allTerminated (rn_producers r)" by (simp add: rn_advance_def split: if_splits)
    with producers.waits_for_worker [where r = r and pids = pids] q told w(2,3) WaitProducers quietD(2) [OF q] show ?thesis by simp
  next
    case WaitProcessors
    with w(1) have "\<not> sp_allTerminated (rn_processors r)" by (simp add: rn_advance_def split: if_splits)
    with processors.waits_for_worker [OF q] w(4) WaitProcessors quietD(2) [OF q] show ?thesis by simp
  next
    case WaitBatchers
    with w(1) have "\<not> sb_allTerminated (rn_batchers r)" by (simp add: rn_advance_def split: if_splits)
    with batchers.waits_for_worker [OF q] w(5) WaitBatchers quietD(2) [OF q] show ?thesis by simp
  next
    case Done
    with quiet_inv [OF q] quietD(2) [OF q] show ?thesis by (simp add: rn_inv_def)
  qed (use w(1) in \<open>simp add: rn_advance_def\<close>)
qed

text \<open>A schedule in which nobody panics.\<close>

definition peaceful :: "move \<Rightarrow> bool" where
  "peaceful m = (case m of ProducerEnds _ v \<Rightarrow> v = None | ProcessorEnds _ v \<Rightarrow> v = None
     | ProducerHandles _ _ \<Rightarrow> False | _ \<Rightarrow> True)"

lemma wk_end_peaceful: "wk_end w None = Some w' \<Longrightarrow> \<not> wk_panicked w'"
  by (auto elim!: wk_end_cases)

lemma unseen_calm: "unseen ws i = Some v \<Longrightarrow> (\<And>i w. ws i = Some w \<Longrightarrow> \<not> wk_panicked w) \<Longrightarrow> v = None"
  by (cases v) (auto simp: unseen_def wk_panicked_iff split: option.splits if_splits)

lemma tell_not_panicked: "tell ws is' j = Some w \<Longrightarrow> (\<And>i w. ws i = Some w \<Longrightarrow> \<not> wk_panicked w) \<Longrightarrow> \<not> wk_panicked w"
  by (auto simp: tell_apply wk_terminate_def split: if_splits)

lemma calm_advance:
  assumes "calm r" and "rn_advance r = Some r'"
  shows "calm r'"
  using assms(2)
proof (cases rule: rn_advance_cases)
  case (tell i rest)
  with assms(1) show ?thesis by (auto simp: calm_def su_tell_def at_worker_apply wk_terminate_def split: if_splits)
next
  case producers
  with assms(1) show ?thesis by (auto simp: calm_def sp_terminate_def dest: tell_not_panicked)
qed (use assms(1) in \<open>simp_all add: rn_fail_def calm_def\<close>)

lemma calm_do:
  assumes "rn_do m r = Some r'" and c: "calm r" and "peaceful m"
  shows "calm r'"
proof (cases m)
  case Advance
  with assms show ?thesis by (auto simp: rn_do_def intro: calm_advance split: if_splits)
next
  case (ProducerSeen i)
  with assms(1) obtain v where "r' = r\<lparr>rn_producers := su_watch (rn_producers r) i v\<rparr>"
    by (auto simp: rn_do_def split: if_splits)
  with c show ?thesis by (auto simp: calm_def at_worker_apply split: if_splits)
next
  case (ProducersCheck k)
  with assms(1) obtain s where "r' = r\<lparr>rn_producers := s\<rparr>" "su_check (rn_producers r) k = Some s"
    by (auto simp: rn_do_def split: if_splits)
  with c su_check_fields show ?thesis by (simp add: calm_def)
next
  case (ProcessorSeen i new)
  with assms(1) obtain v where v: "unseen (sp_workers (rn_processors r)) i = Some v"
    "r' = r\<lparr>rn_processors := sp_watch (rn_processors r) i v new\<rparr>"
    by (auto simp: rn_do_def split: if_splits option.splits)
  moreover have "v = None" using v(1) c by (auto simp: calm_def intro: unseen_calm)
  moreover have "sp_workers (sp_watch s i None new) = at_worker (sp_workers s) i (\<lambda>w. w\<lparr>wk_seen := True\<rparr>)" for s
    by (simp add: sp_watch_def checkIfAllProcessorsTerminated_def Let_def)
  ultimately show ?thesis using c by (auto simp: calm_def at_worker_apply split: if_splits)
qed (use assms in \<open>auto simp: rn_do_def ended_def calm_def peaceful_def rn_change_def split: if_splits option.splits list.splits
      dest: wk_end_peaceful\<close>)

lemma calm_exec: "rn_exec ms r = Some r' \<Longrightarrow> calm r \<Longrightarrow> list_all peaceful ms \<Longrightarrow> calm r'"
  by (induction ms arbitrary: r) (auto split: option.splits intro: calm_do)

lemma calm_start: "calm (pl_run p pids mids)"
proof -
  obtain s started where "sb_run (pc_Batchers (pl_config p)) = (s, started)" by fastforce
  moreover have "\<forall>i w. su_workers (su_run pids) i = Some w \<longrightarrow> \<not> wk_panicked w"
    using su_run_fields [of pids] new_worker_fields(2) by metis
  moreover have "\<forall>i w. sp_workers (sp_run (su_ids (su_run pids)) mids) i = Some w \<longrightarrow> \<not> wk_panicked w"
    using sp_run_fields [of "su_ids (su_run pids)" mids] new_worker_fields(2) by metis
  ultimately show ?thesis by (simp add: calm_def pl_run_def Let_def)
qed

text \<open>A processor has ended and its watcher has noticed; the other has not.\<close>

definition half_moves :: "move list" where
  "half_moves = all_told @ [ProcessorEnds ''m2'' None, ProcessorSeen ''m2'' '''']"

definition half_way :: run where "half_way = the (rn_exec half_moves two_start)"

theorem shutdown_waits_for_workers_witness:
  "\<exists>i\<in>set (getAllNodes (sp_hr (rn_processors half_way))). stopping (sp_workers (rn_processors half_way)) i"
proof -
  have run: "rn_exec half_moves two_start = Some half_way"
  proof -
    have "rn_exec half_moves two_start \<noteq> None" by code_simp
    then show ?thesis by (simp add: half_way_def)
  qed
  have "list_all peaceful half_moves" by code_simp
  then have calm: "calm half_way" using calm_exec [OF run] calm_start by (simp add: two_start_def)
  have r: "reaches rn_step (pl_run (NewPipeline two_stage) [''p1'', ''p2''] [''m1'', ''m2'']) half_way"
    using rn_exec_reaches [OF run] by (simp add: two_start_def)
  have ph: "rn_phase half_way = WaitProcessors" "\<not> sp_allTerminated (rn_processors half_way)"
    "\<not> pl_terminatedClosed (rn_pipeline half_way)" by code_simp+
  have "su_checks (rn_producers half_way) = []"
    "noticed (su_workers (rn_producers half_way)) (su_ids (rn_producers half_way))"
    "noticed (sp_workers (rn_processors half_way)) (getAllNodes (sp_hr (rn_processors half_way)))"
    "noticed (sb_workers (rn_batchers half_way)) (sb_ids (rn_batchers half_way))" by code_simp+
  then have "waiting half_way" using ph by (simp add: waiting_def rn_advance_def)
  then show ?thesis
    using shutdown_waits_for_workers [OF r two_fresh _ _ _ calm_panics(1) [OF calm] calm_panics(2) [OF calm]] ph
    by (simp add: two_stage_def)
qed

end
