(* ===== verification/Flow_Frames.thy ===== *)
theory Flow_Frames
  imports Batch_Flow Processor_Worker Producer
begin

text \<open>
  What the stages of a pipeline rely on when they are put together: histories only grow, a
  producer hands over no more than the client produced, a processor writes only to the messages
  of its own queue, and a batcher reads of the heap only the batch keys and the acknowledgers of
  what it has received.
\<close>

section \<open>Producers\<close>

text \<open>The replies of a producer: the processor of the request, the partition key, the messages.\<close>

definition pr_replies :: "'a producer \<Rightarrow> (string \<times> string \<times> msg_ref list) list" where
  "pr_replies p = map (\<lambda>(r, k, ms). (rq_messageProcessorId (pr_reqs p r), k, ms)) (pr_sent p)"

definition pr_grow :: "'a producer \<Rightarrow> 'a producer \<Rightarrow> bool" where
  "pr_grow p p' \<longleftrightarrow> prefix (pr_produced p) (pr_produced p') \<and> prefix (pr_sent p) (pr_sent p') \<and>
     (\<forall>r. rq_messageProcessorId (pr_reqs p' r) = rq_messageProcessorId (pr_reqs p r)) \<and> pr_messageAck p' = pr_messageAck p"

lemma pr_grow_refl [simp]: "pr_grow p p" by (simp add: pr_grow_def)

lemma pr_grow_trans: "pr_grow p q \<Longrightarrow> pr_grow q s \<Longrightarrow> pr_grow p s"
  unfolding pr_grow_def by (metis prefix_order.trans)

lemma pr_grow_frame: "pr_frame p p' \<Longrightarrow> pr_grow p p'"
  by (simp add: pr_grow_def pr_frame_def)

lemma pr_grow_took: "pr_grow p (pr_took p r k ms)"
  by (simp add: pr_grow_def pr_took_def)

lemma pr_grow_simps [simp]:
  "pr_grow p (p'\<lparr>pr_phase := ph\<rparr>) = pr_grow p p'" "pr_grow p (p'\<lparr>pr_dropped := ds\<rparr>) = pr_grow p p'"
  "pr_grow p (pr_finish p') = pr_grow p p'" "pr_grow p (pr_terminate p') = pr_grow p p'"
  by (simp_all add: pr_grow_def pr_finish_def pr_terminate_def)

lemma pr_grow_replies: "pr_grow p p' \<Longrightarrow> prefix (pr_replies p) (pr_replies p')"
  by (auto simp: pr_grow_def pr_replies_def prefix_def)

lemma send_one_grows: "send_one consumers (b, ms, p) r = (b', ms', p') \<Longrightarrow> pr_grow p p'"
proof -
  assume st: "send_one consumers (b, ms, p) r = (b', ms', p')"
  obtain ok p2 where rep: "pr_reply (consumers r) p r = (ok, p2)" by fastforce
  have g: "pr_grow p p2" by (rule pr_grow_frame [OF pr_frame_reply [OF rep]])
  have "pr_grow p2 (pr_refused p2 r)" by (rule pr_grow_frame) simp
  with st rep g show ?thesis
    by (auto simp: send_one_def Let_def split: if_splits bool.splits intro: pr_grow_trans [OF g] pr_grow_took)
qed

lemma sending_grows: "foldl (send_one consumers) (b, ms, p) rs = (b', ms', p') \<Longrightarrow> pr_grow p p'"
proof (induction rs arbitrary: b ms p)
  case (Cons r rs)
  obtain b1 ms1 p1 where s: "send_one consumers (b, ms, p) r = (b1, ms1, p1)" by (metis prod_cases3)
  from Cons.prems s have "pr_grow p1 p'" by (intro Cons.IH [of b1 ms1]) simp
  with send_one_grows [OF s] show ?case by (rule pr_grow_trans)
qed simp

lemma partition_one_grows: "partition_one resolve consumers (gs, p) g = (gs', p') \<Longrightarrow> pr_grow p p'"
proof -
  assume st: "partition_one resolve consumers (gs, p) g = (gs', p')"
  obtain key part where g: "g = (key, part)" by (cases g)
  show ?thesis
  proof (cases "\<exists>pid r. resolve key = Some pid \<and>
      find (\<lambda>r. rq_messageProcessorId (pr_reqs p r) = pid) (slice_toSlice (pr_requests p)) = Some r")
    case False
    with st have "p' = p" by (auto simp: g partition_one_def split: option.splits)
    then show ?thesis by simp
  next
    case True
    then obtain pid r where pid: "resolve key = Some pid"
      and r: "find (\<lambda>r. rq_messageProcessorId (pr_reqs p r) = pid) (slice_toSlice (pr_requests p)) = Some r" by blast
    obtain ok p2 where rep: "pr_reply (consumers r) p r = (ok, p2)" by fastforce
    have g2: "pr_grow p p2" by (rule pr_grow_frame [OF pr_frame_reply [OF rep]])
    have "pr_grow p2 (pr_refused p2 r)" by (rule pr_grow_frame) simp
    with st pid r rep g2 show ?thesis
      by (cases ok) (auto simp: g partition_one_def intro: pr_grow_trans [OF g2] pr_grow_took)
  qed
qed

lemma partition_grows: "foldl (partition_one resolve consumers) (gs, p) hs = (gs', p') \<Longrightarrow> pr_grow p p'"
proof (induction hs arbitrary: gs p)
  case (Cons g hs)
  obtain gs1 p1 where s: "partition_one resolve consumers (gs, p) g = (gs1, p1)" by fastforce
  from Cons.prems s have "pr_grow p1 p'" by (intro Cons.IH [of gs1]) simp
  with partition_one_grows [OF s] show ?case by (rule pr_grow_trans)
qed simp

lemma pr_grow_step: "pr_step pb owners p p' \<Longrightarrow> pr_grow p p'"
proof (induction rule: pr_step.induct)
  case (send r p ok p')
  then show ?case by (auto simp: pr_send_def pr_grow_def split: if_splits)
next
  case (add p)
  show ?case by (auto simp: pr_add_def pr_grow_def split: list.splits)
next
  case (close p r)
  show ?case by (rule pr_grow_frame) simp
next
  case (terminate p)
  show ?case by simp
next
  case (round p handle)
  show ?case
    by (auto simp: pr_round_def pr_grow_def Let_def split: prod.splits sum.splits option.splits)
next
  case (sending p ms consumers)
  obtain b ms1 p1 where f: "foldl (send_one consumers) (False, ms, p) (slice_toSlice (pr_requests p)) = (b, ms1, p1)"
    by (metis prod_cases3)
  have "pr_grow p (close_spent p1)" by (rule pr_grow_trans [OF sending_grows [OF f] pr_grow_frame]) simp
  with sending_grows [OF f] show ?case by (simp add: sendMessages_def f split: bool.splits)
next
  case (partitioned p gs resolve consumers)
  obtain gs1 p1 where f: "foldl (partition_one resolve consumers) (gs, p) gs = (gs1, p1)" by fastforce
  have "pr_grow p (close_spent p1)" by (rule pr_grow_trans [OF partition_grows [OF f] pr_grow_frame]) simp
  then show ?case by (simp add: sendPartitionedMessages_def f)
next
  case (exit p v)
  have "pr_grow q (foldl pr_close q rs)" for q :: "'a producer" and rs
    by (rule pr_grow_frame, rule pr_frame_foldl) simp
  moreover have "pr_grow p (if v = None then p else pr_terminate p)" by simp
  ultimately show ?case unfolding pr_exit_def Let_def pr_grow_simps by (rule pr_grow_trans [rotated])
qed

text \<open>Messages by key, and all of them.\<close>

lemma count_keyed:
  "finite K \<Longrightarrow> fst ` set gs \<subseteq> K \<Longrightarrow> count (mset (concat (map snd gs))) m = (\<Sum>k\<in>K. count (mset (keyed gs k)) m)"
proof (induction gs)
  case (Cons g gs)
  obtain k ms where g: "g = (k, ms)" by (cases g)
  have "count (mset (keyed (g # gs) k')) m = (if k' = k then count (mset ms) m else 0) + count (mset (keyed gs k')) m" for k'
    by (simp add: g)
  with Cons show ?case by (simp add: g sum.distrib)
qed simp

lemma keyed_msubset:
  assumes "\<And>k. mset (keyed xs k) \<subseteq># mset (keyed ys k)"
  shows "mset (concat (map snd xs)) \<subseteq># mset (concat (map snd ys))"
proof (rule mset_subset_eqI)
  fix m
  let ?K = "fst ` set xs \<union> fst ` set ys"
  have "count (mset (concat (map snd xs))) m = (\<Sum>k\<in>?K. count (mset (keyed xs k)) m)"
    by (rule count_keyed) simp_all
  also have "\<dots> \<le> (\<Sum>k\<in>?K. count (mset (keyed ys k)) m)"
    by (rule sum_mono) (rule mset_subset_eq_count [OF assms])
  also have "\<dots> = count (mset (concat (map snd ys))) m" by (rule count_keyed [symmetric]) simp_all
  finally show "count (mset (concat (map snd xs))) m \<le> count (mset (concat (map snd ys))) m" .
qed

lemma keyed_mset:
  assumes "\<And>k. mset (keyed xs k) = mset (keyed ys k)"
  shows "mset (concat (map snd xs)) = mset (concat (map snd ys))"
  using keyed_msubset [of xs ys] keyed_msubset [of ys xs] assms by (simp add: subset_mset.order_antisym)

definition pr_pending :: "'a producer \<Rightarrow> (string \<times> msg_ref list) list" where
  "pr_pending p = (case pr_phase p of PR_Sending ms \<Rightarrow> [([], ms)] | PR_Partitioned gs \<Rightarrow> gs | _ \<Rightarrow> [])"

definition group_msgs :: "(string \<times> msg_ref list) list \<Rightarrow> msg_ref list" where
  "group_msgs gs = concat (map snd gs)"

definition sent_msgs :: "'a producer \<Rightarrow> msg_ref list" where
  "sent_msgs p = group_msgs (map snd (pr_sent p))"

lemma sent_for_keyed: "sent_for p k = keyed (map snd (pr_sent p)) k"
  by (simp add: sent_for_def keyed_def comp_def split_def)

lemma to_send_keyed: "to_send p k = keyed (pr_pending p) k"
  by (auto simp: to_send_def pr_pending_def split: pr_phase.splits)

lemma produced_for_keyed: "produced_for p k = keyed (map (\<lambda>(k, m). (k, [m])) (pr_produced p)) k"
proof -
  have "map snd (filter (\<lambda>(k', m). k' = k) xs) = keyed (map (\<lambda>(k, m). (k, [m])) xs) k" for xs :: "(string \<times> msg_ref) list"
    by (induction xs) auto
  then show ?thesis by (simp add: produced_for_def)
qed

lemma pr_inv_messages:
  assumes "pr_inv pb owners p"
  shows "mset (sent_msgs p) + mset (group_msgs (pr_pending p)) + mset (group_msgs (pr_dropped p)) = mset (map snd (pr_produced p))"
proof -
  have "sent_for p k @ to_send p k @ keyed (pr_dropped p) k = produced_for p k" for k
    using assms by (simp add: pr_inv_def)
  then have "mset (concat (map snd (map snd (pr_sent p) @ pr_pending p @ pr_dropped p))) =
      mset (concat (map snd (map (\<lambda>(k, m). (k, [m])) (pr_produced p))))"
    by (intro keyed_mset) (simp add: sent_for_keyed [symmetric] to_send_keyed [symmetric] produced_for_keyed [symmetric] flip: mset_append)
  moreover have "concat (map snd (map (\<lambda>(k, m). (k, [m])) xs)) = map snd xs" for xs :: "(string \<times> msg_ref) list"
    by (induction xs) auto
  ultimately show ?thesis by (simp add: sent_msgs_def group_msgs_def add.assoc)
qed

section \<open>Message processors\<close>

text \<open>
  A handler of the client: it cannot write private fields (\<open>tame\<close>) and writes only to the message
  it is given.
\<close>

definition local_handler :: "'a handler \<Rightarrow> bool" where
  "local_handler handle \<longleftrightarrow> tame handle \<and> (\<forall>h m x. x \<noteq> m \<longrightarrow> snd (handle h m) x = h x)"

text \<open>
  \<open>e'\<close> comes from \<open>e\<close> by writing only to the messages \<open>ms\<close>, never to their metadata or
  acknowledger, sending more to batchers and making more calls of acknowledgers.
\<close>

definition env_grow :: "msg_ref list \<Rightarrow> 'a mp_env \<Rightarrow> 'a mp_env \<Rightarrow> bool" where
  "env_grow ms e e' \<longleftrightarrow> (\<forall>x. x \<notin> set ms \<longrightarrow> pv_heap e' x = pv_heap e x) \<and>
     (\<forall>x. ms_metadata (pv_heap e' x) = ms_metadata (pv_heap e x) \<and> ms_ack (pv_heap e' x) = ms_ack (pv_heap e x)) \<and>
     prefix (pv_sent e) (pv_sent e') \<and> prefix (pv_acks e) (pv_acks e')"

lemma env_grow_refl [simp]: "env_grow ms e e" by (simp add: env_grow_def)

lemma env_grow_trans: "env_grow xs e e1 \<Longrightarrow> env_grow ys e1 e2 \<Longrightarrow> set xs \<union> set ys \<subseteq> set ms \<Longrightarrow> env_grow ms e e2"
  unfolding env_grow_def by (metis Un_subset_iff prefix_order.trans subsetD)

lemma env_grow_mono: "env_grow xs e e1 \<Longrightarrow> set xs \<subseteq> set ms \<Longrightarrow> env_grow ms e e1"
  unfolding env_grow_def by blast

lemma route_metadata [simp]: "ms_metadata (route_fields m) = ms_metadata m"
  by (simp add: route_fields_def Let_def)

lemma process_one_grows:
  assumes "local_handler handle" and "process_one handle hb e m = (r, e')"
  shows "env_grow [m] e e'"
proof -
  obtain out h where hd: "handle (pv_heap e) m = (out, h)" by fastforce
  have same: "\<And>x. x \<noteq> m \<Longrightarrow> h x = pv_heap e x" using assms(1) hd unfolding local_handler_def by (metis snd_conv)
  have meta: "\<And>x. ms_metadata (h x) = ms_metadata (pv_heap e x)" "\<And>x. ms_ack (h x) = ms_ack (pv_heap e x)"
    using assms(1) hd unfolding local_handler_def tame_def same_private_def by (metis snd_conv)+
  show ?thesis
  proof (cases out)
    case (Inl s)
    with assms(2) hd same meta show ?thesis by (auto simp: process_one_def env_grow_def)
  next
    case (Inr q)
    obtain processed err where q: "q = (processed, err)" by (cases q)
    have "\<And>m'. processed = Some m' \<Longrightarrow> m' = m"
      using assms(1) hd Inr q unfolding local_handler_def tame_def by (metis fst_conv)
    then have "(case processed of None \<Rightarrow> m | Some m' \<Rightarrow> m') = m" by (cases processed) simp_all
    with assms(2) hd Inr q same meta show ?thesis
      by (auto simp: process_one_def env_grow_def Let_def split: option.splits if_splits)
  qed
qed

lemma process_map_grows:
  "local_handler handle \<Longrightarrow> process_map handle hb e ms = (r, e') \<Longrightarrow> env_grow ms e e'"
proof (induction ms arbitrary: e r e')
  case (Cons m ms)
  obtain r1 e1 where one: "process_one handle hb e m = (r1, e1)" by fastforce
  obtain r2 e2 where rest: "process_map handle hb e1 ms = (r2, e2)" by fastforce
  note g1 = process_one_grows [OF Cons.prems(1) one] and g2 = Cons.IH [OF Cons.prems(1) rest]
  from Cons.prems(2) one rest have "e' = e1 \<or> e' = e2" by (auto split: sum.splits)
  then show ?case using env_grow_mono [OF g1, of "m # ms"] env_grow_trans [OF g1 g2, of "m # ms"] by auto
qed simp

lemma mark_failed_metadata [simp]: "ms_metadata (mark_failed err h ms x) = ms_metadata (h x)"
    "ms_ack (mark_failed err h ms x) = ms_ack (h x)"
  by (induction ms arbitrary: h) (simp_all add: mark_failed_def)

lemma send_group_grows: "env_grow ms e (send_group bs send e (name, ms))"
  by (auto simp: send_group_def env_grow_def mark_failed_other Let_def)

lemma send_groups_grow: "env_grow (concat (map snd gs)) e (foldl (send_group bs send) e gs)"
proof (induction gs arbitrary: e)
  case (Cons g gs)
  have "env_grow (snd g) e (send_group bs send e g)" using send_group_grows by (metis prod.collapse)
  from env_grow_trans [OF this Cons.IH] show ?case by simp
qed simp

lemma process_grows:
  assumes "local_handler handle" and "process handle bs send e ms = (r, e')"
  shows "env_grow ms e e'"
proof -
  obtain r1 e1 where map: "process_map handle (bs \<noteq> []) e ms = (r1, e1)" by fastforce
  note g = process_map_grows [OF assms(1) map]
  show ?thesis
  proof (cases "bs = [] \<or> (\<exists>s. r1 = Inl s)")
    case True
    with assms(2) map have "e' = e1" by (cases r1) (auto simp: process_def)
    with g show ?thesis by simp
  next
    case False
    then obtain ms1 where r1: "r1 = Inr ms1" by (cases r1) auto
    have sub: "set ms1 \<subseteq> set ms" using map unfolding r1
    proof (induction ms arbitrary: e ms1)
      case (Cons m ms)
      obtain r1 e1 where one: "process_one handle (bs \<noteq> []) e m = (r1, e1)" by fastforce
      have "r1 = Inr m' \<Longrightarrow> m' = m" for m'
        using one assms(1) unfolding local_handler_def tame_def process_one_def
        by (auto simp: Let_def split: prod.splits sum.splits option.splits if_splits) (metis fst_conv)+
      with Cons one show ?case by (fastforce split: sum.splits prod.splits)
    qed simp
    let ?k = "filter (\<lambda>m. ms_error (pv_heap e1 m) = None) ms1"
    let ?gs = "lo_GroupBy (\<lambda>m. ms_Batcher (pv_heap e1 m)) ?k"
    have e': "e' = foldl (send_group bs send) e1 ?gs"
      using assms(2) map r1 False by (auto simp: process_def sendToBatcher_def)
    have "set (concat (map snd ?gs)) = set ?k" using mset_lo_GroupBy by (metis set_mset_mset)
    then show ?thesis unfolding e' using sub by (intro env_grow_trans [OF g send_groups_grow]) auto
  qed
qed

text \<open>
  A step of the goroutine: it writes only to unresolved messages, and it leaves alone what belongs
  to the response goroutines.
\<close>

definition mp_grow :: "'a messageProcessor \<Rightarrow> 'a messageProcessor \<Rightarrow> bool" where
  "mp_grow p p' \<longleftrightarrow> env_grow (unresolved p) (mp_env p) (mp_env p') \<and> mp_received p' = mp_received p \<and>
     mp_arriving p' = mp_arriving p \<and> mp_enqueued p' = mp_enqueued p"

lemma mp_grow_same: "same_work p p' \<Longrightarrow> mp_grow p p'"
  by (simp add: mp_grow_def same_work_def)

lemma queue_unresolved: "mp_inv p \<Longrightarrow> running (mp_phase p) \<Longrightarrow> set (q_queue (mp_messages p)) \<subseteq> set (unresolved p)"
  by (simp add: mp_inv_def unresolved_def)

lemma mp_round_grows:
  assumes "local_handler handle" and "mp_inv p" and "mp_phase p = MP_Loop"
  shows "mp_grow p (mp_round handle send answer p)"
proof (cases "mp_terminated p \<or> mp_paused p")
  case True
  then show ?thesis by (auto simp: mp_round_def mp_grow_def)
next
  case False
  define p1 where "p1 = (if queue_len (mp_messages p) < mc_MinDemand (mp_config p) then mp_request answer p else p)"
  have same: "same_work p p1" by (simp add: p1_def)
  then have c: "mp_messages p1 = mp_messages p" "mp_env p1 = mp_env p" "mp_received p1 = mp_received p"
    "mp_arriving p1 = mp_arriving p" "mp_enqueued p1 = mp_enqueued p" by (simp_all add: same_work_def)
  have nt: "\<not> mp_terminated p" "\<not> mp_paused p" using False by simp_all
  note rd = mp_round_eq [OF nt p1_def, of handle send]
  show ?thesis
  proof (cases "dequeue (mp_messages p1) (min (mc_MaxDemand (mp_config p1) - mc_MinDemand (mp_config p1)) (queue_len (mp_messages p1)))")
    case (Inl e)
    then show ?thesis by (simp add: rd mp_grow_def c)
  next
    case (Inr w)
    obtain ms ok q where w: "w = ((ms, ok), q)" by (metis prod.collapse)
    have qs: "q_queue (mp_messages p1) = ms @ q_queue q" using cq.deq_splits Inr w by blast
    obtain r e where pr: "process handle (mp_batchers p1) send (mp_env p1) ms = (r, e)" by fastforce
    have "env_grow (unresolved p) (mp_env p) e"
      using process_grows [OF assms(1) pr] qs queue_unresolved [OF assms(2)] assms(3)
      by (auto simp: c running_def intro: env_grow_mono)
    then show ?thesis unfolding rd Inr w by (cases ok; cases r) (simp_all add: pr [unfolded c] mp_grow_def c)
  qed
qed

lemma mp_unwind_grows:
  assumes "local_handler handle" and "mp_inv p"
  shows "mp_grow p (mp_unwind handle send p)"
proof (cases "mp_phase p")
  case (MP_Failing r)
  then show ?thesis
    by (auto simp: mp_unwind_def flushAndFailAll_def mp_terminate_def mp_grow_def env_grow_def Let_def split: list.splits)
next
  case MP_Flushing
  show ?thesis
  proof (cases "q_queue (mp_messages p)")
    case Nil
    then show ?thesis by (simp add: mp_unwind_def MP_Flushing mp_flush_def dequeueAll_def mp_grow_def)
  next
    case (Cons m ms)
    obtain r e where pr: "process handle (mp_batchers p) send (mp_env p) (m # ms) = (r, e)" by fastforce
    have "env_grow (unresolved p) (mp_env p) e"
      using env_grow_mono [OF process_grows [OF assms(1) pr], of "unresolved p"] Cons queue_unresolved [OF assms(2)]
      by (simp add: MP_Flushing running_def)
    then show ?thesis using Cons
      by (simp add: mp_unwind_def MP_Flushing mp_flush_def dequeueAll_def pr mp_grow_def split: sum.splits)
  qed
next
  case (MP_Closing v)
  have "same_work p (close_pending p)" by simp
  then show ?thesis by (simp add: mp_unwind_def MP_Closing mp_grow_def same_work_def)
qed (simp_all add: mp_unwind_def mp_grow_def)

text \<open>The invariant of a processor depends on the heap only for what is unresolved.\<close>

definition with_heap :: "'a heap \<Rightarrow> 'a messageProcessor \<Rightarrow> 'a messageProcessor" where
  "with_heap h p = p\<lparr>mp_env := (mp_env p)\<lparr>pv_heap := h\<rparr>\<rparr>"

lemma with_heap_simps [simp]:
  "mp_messages (with_heap h p) = mp_messages p" "mp_arriving (with_heap h p) = mp_arriving p"
  "mp_received (with_heap h p) = mp_received p" "mp_enqueued (with_heap h p) = mp_enqueued p"
  "mp_taken (with_heap h p) = mp_taken p" "mp_dropped (with_heap h p) = mp_dropped p"
  "mp_phase (with_heap h p) = mp_phase p" "mp_failed (with_heap h p) = mp_failed p"
  "mp_panicked (with_heap h p) = mp_panicked p" "mp_batchers (with_heap h p) = mp_batchers p"
  "pv_heap (mp_env (with_heap h p)) = h" "pv_sent (mp_env (with_heap h p)) = pv_sent (mp_env p)"
  "unresolved (with_heap h p) = unresolved p" "settled (mp_env (with_heap h p)) = settled (mp_env p)"
  "sent_to (mp_env (with_heap h p)) n = sent_to (mp_env p) n"
  "with_heap h (with_heap h' p) = with_heap h p"
  by (simp_all add: with_heap_def unresolved_def settled_def acked_msgs_def sent_to_def)

lemma mp_inv_heap:
  assumes "mp_inv p" and "\<And>m. m \<in> set (unresolved p) \<Longrightarrow> same_private (pv_heap (mp_env p) m) (h m)"
  shows "mp_inv (with_heap h p)"
proof -
  have "\<forall>m \<in> set (unresolved p). open_msg (h m)"
    using assms private_open unfolding mp_inv_def by blast
  then show ?thesis using assms(1) by (simp add: mp_inv_def)
qed

section \<open>Batchers\<close>

text \<open>What a batcher and its processors read of a message.\<close>

definition same_routing :: "'a message \<Rightarrow> 'a message \<Rightarrow> bool" where
  "same_routing m m' \<longleftrightarrow> ms_BatchKey m' = ms_BatchKey m \<and> ms_ack m' = ms_ack m"

lemma same_routing_refl [simp]: "same_routing m m" by (simp add: same_routing_def)

lemma bp_own_heap:
  assumes "bp_own h p p'" and "\<And>batch m. bp_phase p = BP_Handling batch \<or> (\<exists>r. bp_phase p = BP_Failing batch r) \<Longrightarrow>
    m \<in> set batch \<Longrightarrow> same_routing (h m) (h' m)"
  shows "bp_own h' p p'"
proof -
  have fa: "first_ack h' batch = first_ack h batch" if "\<And>m. m \<in> set batch \<Longrightarrow> same_routing (h m) (h' m)" for batch
    using that by (cases batch) (simp_all add: first_ack_def same_routing_def)
  show ?thesis using assms(1)
  proof cases
    case (handled batch result)
    then have "first_ack h' batch = first_ack h batch" using assms(2) by (intro fa) blast
    then have "p' = bp_handled h' p batch result" unfolding handled(1) bp_handled_def by (simp only:)
    then show ?thesis using handled(2) by (simp add: bp_own.handled)
  next
    case (fail batch r)
    then have "first_ack h' batch = first_ack h batch" using assms(2) by (intro fa) blast
    then have "p' = bp_fail h' p batch r" using fail(1) by (simp add: bp_fail_def)
    then show ?thesis using fail(2) by (simp add: bp_own.fail)
  qed (rule bp_own.exit)
qed

lemma bp_batch_accepted:
  assumes "reaches (bp_step h True) (bp_run (newBatchProcessor i) c) p"
  shows "bp_phase p = BP_Handling batch \<or> bp_phase p = BP_Failing batch r \<Longrightarrow> batch \<in> set (bp_accepted p)"
proof -
  define I where "I q \<longleftrightarrow> (\<forall>b. (bp_phase q = BP_Handling b \<or> (\<exists>r. bp_phase q = BP_Failing b r)) \<longrightarrow> b \<in> set (bp_accepted q))"
    for q :: batchProcessor
  have own: "I q'" if "I q" "bp_own h q q'" for q q'
    using that(2)
  proof cases
    case (handled b result)
    then show ?thesis using that(1) by (auto simp: I_def bp_handled_def Let_def split: sum.splits prod.splits)
  next
    case (fail b r)
    then show ?thesis by (auto simp: I_def bp_fail_def split: sum.splits)
  next
    case exit
    then show ?thesis by (cases rule: bp_exit_cases) (simp_all add: I_def)
  qed
  have "I p" using assms
  proof (rule reaches_invariant)
    show "I (bp_run (newBatchProcessor i) c)" by (simp add: I_def bp_run_def newBatchProcessor_def)
    show "I q'" if "I q" "bp_step h True q q'" for q q'
      using that(2)
    proof cases
      case own
      then show ?thesis by (rule \<open>\<And>q' q. I q \<Longrightarrow> bp_own h q q' \<Longrightarrow> I q'\<close> [OF that(1)])
    next
      case (send b res)
      then show ?thesis using that(1) by (cases rule: bp_send_cases) (auto simp: I_def)
    qed (use that(1) in \<open>auto simp: I_def bp_terminate_def bp_pause_def bp_resume_def split: if_splits\<close>)
  qed
  then show "bp_phase p = BP_Handling batch \<or> bp_phase p = BP_Failing batch r \<Longrightarrow> batch \<in> set (bp_accepted p)"
    by (auto simp: I_def)
qed

lemma handed_over_received:
  assumes "bt_inv h b" and "(i, k, xs) \<in> set (bt_delivered b)"
  shows "set xs \<subseteq> set (bt_received b)"
proof -
  have "set xs \<subseteq> set (handed_over (bt_delivered b) k)" using assms(2) by (force simp: handed_over_def)
  also have "\<dots> \<subseteq> set (account h b k)" by (simp add: account_def)
  also have "\<dots> = set (of_key h k (bt_received b))" using assms(1) by (simp add: bt_inv_def)
  finally show ?thesis by (auto simp: of_key_def)
qed

lemma incoming_received:
  assumes "bt_inv h b"
  shows "set (bt_incoming b) \<subseteq> set (bt_received b)"
proof
  fix m assume m: "m \<in> set (bt_incoming b)"
  have "account h b (ms_BatchKey (h m)) = of_key h (ms_BatchKey (h m)) (bt_received b)"
    using assms by (simp add: bt_inv_def)
  moreover from m have "m \<in> set (account h b (ms_BatchKey (h m)))" by (simp add: account_def of_key_def)
  ultimately show "m \<in> set (bt_received b)" by (simp add: of_key_def)
qed

lemma bt_received_grows: "bt_step h b b' \<Longrightarrow> prefix (bt_received b) (bt_received b')"
proof (induction rule: bt_step.induct)
  case (send b ms r b')
  then show ?case by (auto simp: bt_send_def split: if_splits)
next
  case (terminate b b')
  then show ?case by (auto simp: bt_terminate_def split: if_splits)
next
  case (visit b k ks b')
  from visit(4) show ?case by (cases rule: processBatches_key_cases) (simp_all add: Let_def)
next
  case (hand_over b k batch i b')
  from hand_over(2) show ?case by (cases rule: processBatch_send_cases) (simp_all add: Let_def)
qed (auto simp: processBatch_route_def flush_key_def bt_watch_def repl_remove_def repl_new_def repl_pause_def
    repl_add_def repl_resume_def split: option.splits prod.splits bool.splits)

lemma bt_step_heap:
  assumes "bt_step h b b'" and "\<And>m. m \<in> set (bt_incoming b) \<Longrightarrow> same_routing (h m) (h' m)"
    and "\<And>i p p'. bt_procs b i = Some p \<Longrightarrow> bp_own h p p' \<Longrightarrow> bp_own h' p p'"
  shows "bt_step h' b b'"
  using assms
proof (induction rule: bt_step.induct)
  case (receive b m ms)
  then have "receive_message h b m = receive_message h' b m" by (simp add: receive_message_def same_routing_def)
  then show ?case using bt_step.receive [OF receive(1), of h'] by simp
next
  case (own b i p p')
  show ?case by (rule bt_step.own [OF own(1)]) (rule own(4) [OF own(1,2)])
qed (rule bt_step.intros; assumption)+

text \<open>A run of a batcher is a run for every heap that agrees on what it has received.\<close>

lemma bt_reaches_heap:
  assumes "reaches (bt_step h) (bt_run c ids) b" and "distinct ids"
    and "\<And>m. m \<in> set (bt_received b) \<Longrightarrow> same_routing (h m) (h' m)"
  shows "reaches (bt_step h') (bt_run c ids) b"
  using assms(1,3)
proof induction
  case start
  show ?case by (rule reaches.start)
next
  case (step b b')
  have agree: "\<And>m. m \<in> set (bt_received b) \<Longrightarrow> same_routing (h m) (h' m)"
    using step.prems bt_received_grows [OF step.hyps(2)] by (auto simp: prefix_def)
  have fi: "flow_inv h b" and bi: "bt_inv h b"
    using flow_reaches [OF step.hyps(1) assms(2)] bt_inv_reaches [OF step.hyps(1)] by simp_all
  have own: "bp_own h' p p'" if p: "bt_procs b i = Some p" and o: "bp_own h p p'" for i p p'
  proof (rule bp_own_heap [OF o])
    fix batch m assume ph: "bp_phase p = BP_Handling batch \<or> (\<exists>r. bp_phase p = BP_Failing batch r)" and m: "m \<in> set batch"
    have po: "procs_ok h b" using fi by (simp add: flow_inv_def)
    from procs_okD(1) [OF po p] have "batch \<in> set (bp_accepted p)"
      using ph bp_batch_accepted unfolding run_of_def by blast
    then have "batch \<in> set (batches_of i (bt_delivered b))" using procs_okD(2) [OF po p] by simp
    then obtain k where "(i, k, batch) \<in> set (bt_delivered b)" by (auto simp: batches_of_def)
    with handed_over_received [OF bi] m agree show "same_routing (h m) (h' m)" by blast
  qed
  have "bt_step h' b b'"
  proof (rule bt_step_heap [OF step.hyps(2) _ own])
    show "same_routing (h m) (h' m)" if "m \<in> set (bt_incoming b)" for m
      using that incoming_received [OF bi] by (intro agree) blast
  qed
  with step.IH [OF agree] show ?case by (rule reaches.step)
qed

text \<open>The calls that a batch processor has made of acknowledgers; a batcher's processors only make more.\<close>

definition batch_acks :: "batcher \<Rightarrow> string \<Rightarrow> ack_call list" where
  "batch_acks b i = (case bt_procs b i of None \<Rightarrow> [] | Some p \<Rightarrow> bp_acks p)"

lemma bp_own_acks: "bp_own h p p' \<Longrightarrow> prefix (bp_acks p) (bp_acks p')"
proof (induction rule: bp_own.induct)
  case (exit p p')
  then show ?case by (cases rule: bp_exit_cases) simp_all
qed (auto simp: bp_handled_def bp_fail_def Let_def split: sum.splits prod.splits)

lemma bp_send_acks: "bp_send p b = Inr (res, p') \<Longrightarrow> bp_acks p' = bp_acks p"
  by (erule bp_send_cases) simp_all

lemma put_back_procs [simp]: "bt_procs (put_back b k batch) = bt_procs b"
  by (simp add: put_back_def split: option.split)

lemma batch_acks_same: "bt_procs b' = bt_procs b \<Longrightarrow> prefix (batch_acks b i) (batch_acks b' i)"
  by (simp add: batch_acks_def)

lemma batch_acks_set: "bt_procs b j = Some p \<Longrightarrow> prefix (bp_acks p) (bp_acks p') \<Longrightarrow> bt_procs b' = (bt_procs b)(j \<mapsto> p') \<Longrightarrow>
    prefix (batch_acks b i) (batch_acks b' i)"
  by (simp add: batch_acks_def)

lemma batch_acks_update: "(\<And>p. bp_acks (f p) = bp_acks p) \<Longrightarrow> bt_procs b' = bt_procs (bt_update b n f) \<Longrightarrow>
    prefix (batch_acks b i) (batch_acks b' i)"
  by (auto simp: batch_acks_def bt_update_def split: option.splits)

lemma batch_acks_grow: "bt_step h b b' \<Longrightarrow> prefix (batch_acks b i) (batch_acks b' i)"
proof (induction rule: bt_step.induct)
  case (send b ms r b')
  then show ?case by (intro batch_acks_same) (auto simp: bt_send_def split: if_splits)
next
  case (terminate b b')
  then show ?case by (intro batch_acks_same) (auto simp: bt_terminate_def split: if_splits)
next
  case (visit b k ks b')
  from visit(4) have "bt_procs b' = bt_procs b" by (cases rule: processBatches_key_cases) (simp_all add: Let_def)
  then show ?case by (intro batch_acks_same) simp
next
  case (hand_over b k batch j b')
  from hand_over(2) show ?case
  proof (cases rule: processBatch_send_cases)
    case (2 p p')
    then show ?thesis by (intro batch_acks_set [of b j p p']) (simp_all add: bp_send_acks)
  next
    case (3 p p')
    then show ?thesis by (intro batch_acks_set [of b j p p']) (simp_all add: bp_send_acks)
  next
    case (4 p p')
    then show ?thesis by (intro batch_acks_set [of b j p p']) (simp_all add: bp_send_acks Let_def)
  qed simp
next
  case (stop b j js ps p p')
  then show ?case by (intro batch_acks_set [of b j p p']) (auto simp: bp_terminate_def split: if_splits)
next
  case (own b j p p')
  then show ?case by (intro batch_acks_set [of b j p p']) (auto intro: bp_own_acks)
next
  case (repl_new b j)
  then show ?case by (simp add: batch_acks_def repl_new_def)
next
  case (repl_pause b j n)
  show ?case by (rule batch_acks_update [where f = bp_pause and n = n]) (simp_all add: bp_pause_def repl_pause_def)
next
  case (repl_resume b j n)
  show ?case by (rule batch_acks_update [where f = bp_resume and n = n]) (simp_all add: bp_resume_def repl_resume_def)
qed (auto intro!: batch_acks_same simp: receive_message_def processBatch_route_def flush_key_def bt_watch_def repl_remove_def
    repl_add_def Let_def split: option.splits prod.splits bool.splits)

end
