(* ===== verification/Pipeline_Flow.thy ===== *)
theory Pipeline_Flow
  imports Flow_Frames
begin

text \<open>
  The messages of a running pipeline (\<open>pipeline.go\<close>): any number of producers, message processors
  and batchers, with the channels between them, on one heap. Each worker makes the steps of its
  own theory; here is what connects them. A worker that has not been started is in its initial
  state and makes no step, so a replacement is a worker that starts late.
\<close>

section \<open>State\<close>

text \<open>
  \<open>fw_wire j\<close>: replies that a response goroutine of processor \<open>j\<close> has received from a producer and
  not yet acted on; \<open>fw_link n\<close>: slices that processors have sent to batcher \<open>n\<close> and that its receive
  loop has not taken yet. (In the program the sender waits until then; here it may go on, which
  adds interleavings.) The last three fields are history: what each producer has produced, with
  its partition key, the replies in their order, with producer and processor, and what processors
  have sent to batchers.
\<close>

record 'a flow =
  fw_heap :: "'a heap"
  fw_producers :: "string \<Rightarrow> 'a producer"
  fw_processors :: "string \<Rightarrow> 'a messageProcessor"
  fw_batchers :: "string \<Rightarrow> batcher"
  fw_wire :: "string \<Rightarrow> (string \<times> msg_ref list) list"
  fw_link :: "string \<Rightarrow> msg_ref list list"
  fw_produced :: "(string \<times> string \<times> msg_ref) list"
  fw_replied :: "(string \<times> string \<times> string \<times> msg_ref list) list"
  fw_sent :: "(string \<times> string \<times> msg_ref list) list"

record 'a flow_config =
  fc_producer :: producerConfig
  fc_ack :: "nat option"
  fc_requests :: "nat \<Rightarrow> request"
  fc_processor :: messageProcessorConfig
  fc_producers :: "(string \<times> string) list"
  fc_names :: "string list"                   \<comment> \<open>the batchers the processors know\<close>
  fc_batcher :: "string \<Rightarrow> batcherConfig"
  fc_ids :: "string \<Rightarrow> string list"         \<comment> \<open>the ids of a batcher's first processors\<close>
  fc_heap :: "'a heap"

definition fw_start :: "'a flow_config \<Rightarrow> 'a flow" where
  "fw_start c =
     \<lparr>fw_heap = fc_heap c,
      fw_producers = (\<lambda>i. newProducer i (fc_producer c) (fc_ack c) (fc_requests c) (fc_heap c)),
      fw_processors = (\<lambda>j. newMessageProcessor j (fc_processor c) (fc_producers c) (fc_names c) (fc_heap c)),
      fw_batchers = (\<lambda>n. bt_run (fc_batcher c n) (fc_ids c n)),
      fw_wire = (\<lambda>_. []), fw_link = (\<lambda>_. []), fw_produced = [], fw_replied = [], fw_sent = []\<rparr>"

section \<open>Steps\<close>

text \<open>A worker sees the current heap.\<close>

definition producer_at :: "'a flow \<Rightarrow> string \<Rightarrow> 'a producer" where
  "producer_at s i = (fw_producers s i)\<lparr>pr_heap := fw_heap s\<rparr>"

definition processor_at :: "'a flow \<Rightarrow> string \<Rightarrow> 'a messageProcessor" where
  "processor_at s j = with_heap (fw_heap s) (fw_processors s j)"

definition all_msgs :: "'a flow \<Rightarrow> msg_ref list" where
  "all_msgs s = map (snd \<circ> snd) (fw_produced s)"

text \<open>The producer \<open>i\<close> becomes \<open>p\<close>: its new replies are on their way.\<close>

definition new_replies :: "'a flow \<Rightarrow> string \<Rightarrow> 'a producer \<Rightarrow> (string \<times> string \<times> msg_ref list) list" where
  "new_replies s i p = drop (length (pr_replies (fw_producers s i))) (pr_replies p)"

definition new_messages :: "'a flow \<Rightarrow> string \<Rightarrow> 'a producer \<Rightarrow> (string \<times> msg_ref) list" where
  "new_messages s i p = drop (length (pr_produced (fw_producers s i))) (pr_produced p)"

definition produce :: "'a flow \<Rightarrow> string \<Rightarrow> 'a producer \<Rightarrow> 'a flow" where
  "produce s i p =
     s\<lparr>fw_heap := pr_heap p, fw_producers := (fw_producers s)(i := p),
       fw_produced := fw_produced s @ map (Pair i) (new_messages s i p),
       fw_replied := fw_replied s @ map (Pair i) (new_replies s i p),
       fw_wire := (\<lambda>j. fw_wire s j @ map (\<lambda>(j', k, ms). (i, ms)) (filter (\<lambda>(j', k, ms). j' = j) (new_replies s i p)))\<rparr>"

text \<open>
  The client's \<open>HandleDemand\<close> makes new messages, none of them acknowledged, each with an
  acknowledger (its own or the pipeline's), and does not write to messages it has handed out.
\<close>

definition produces_fresh :: "'a flow \<Rightarrow> string \<Rightarrow> 'a producer \<Rightarrow> bool" where
  "produces_fresh s i p \<longleftrightarrow>
     (let new = map snd (new_messages s i p)
      in distinct new \<and> set new \<inter> set (all_msgs s) = {} \<and> (\<forall>m \<in> set new. open_msg (pr_heap p m)) \<and>
         (\<forall>m \<in> set (all_msgs s). pr_heap p m = fw_heap s m))"

text \<open>The processor \<open>j\<close> becomes \<open>p\<close>: what it has sent is on its way to the batchers.\<close>

definition new_sends :: "'a flow \<Rightarrow> string \<Rightarrow> 'a messageProcessor \<Rightarrow> (string \<times> msg_ref list) list" where
  "new_sends s j p = drop (length (pv_sent (mp_env (fw_processors s j)))) (pv_sent (mp_env p))"

definition work :: "'a flow \<Rightarrow> string \<Rightarrow> 'a messageProcessor \<Rightarrow> 'a flow" where
  "work s j p =
     s\<lparr>fw_heap := pv_heap (mp_env p), fw_processors := (fw_processors s)(j := p),
       fw_sent := fw_sent s @ map (Pair j) (new_sends s j p),
       fw_link := (\<lambda>n. fw_link s n @ map snd (filter (\<lambda>(n', ms). n' = n) (new_sends s j p)))\<rparr>"

text \<open>
  Without \<open>prompt\<close> the response goroutines of a processor run freely. With \<open>prompt\<close>, those that
  serve the same producer act in the order of the replies, each before the next.
\<close>

definition made :: "'a flow \<Rightarrow> string \<Rightarrow> msg_ref list" where
  "made s i = map (snd \<circ> snd) (filter (\<lambda>(i', k, m). i' = i) (fw_produced s))"

definition in_turn :: "'a flow \<Rightarrow> string \<Rightarrow> string \<Rightarrow> msg_ref list \<Rightarrow> bool" where
  "in_turn s j i ms \<longleftrightarrow> find (\<lambda>(i', _). i' = i) (fw_wire s j) = Some (i, ms) \<and>
     (\<forall>xs \<in> set (mp_arriving (fw_processors s j)). set xs \<inter> set (made s i) = {})"

inductive fw_step :: "('a \<Rightarrow> string) option \<Rightarrow> (string \<Rightarrow> string set) \<Rightarrow> bool \<Rightarrow> 'a flow \<Rightarrow> 'a flow \<Rightarrow> bool"
  for partitionBy and owners and prompt where
  producer: "pr_step partitionBy owners (producer_at s i) p \<Longrightarrow> produces_fresh s i p \<Longrightarrow>
    fw_step partitionBy owners prompt s (produce s i p)"
| respond: "(i, ms) \<in> set (fw_wire s j) \<Longrightarrow> prompt \<longrightarrow> in_turn s j i ms \<Longrightarrow>
    mp_respond (processor_at s j) ms = Inr p \<Longrightarrow>
    fw_step partitionBy owners prompt s
      (s\<lparr>fw_processors := (fw_processors s)(j := p), fw_wire := (fw_wire s)(j := remove1 (i, ms) (fw_wire s j))\<rparr>)"
| enqueue: "ms \<in> set (mp_arriving (fw_processors s j)) \<Longrightarrow>
    fw_step partitionBy owners prompt s (s\<lparr>fw_processors := (fw_processors s)(j := mp_enqueue (fw_processors s j) ms)\<rparr>)"
| round: "mp_phase (fw_processors s j) = MP_Loop \<Longrightarrow> local_handler handle \<Longrightarrow>
    fw_step partitionBy owners prompt s (work s j (mp_round handle send answer (processor_at s j)))"
| unwind: "mp_phase (fw_processors s j) \<noteq> MP_Loop \<Longrightarrow> local_handler handle \<Longrightarrow>
    fw_step partitionBy owners prompt s (work s j (mp_unwind handle send (processor_at s j)))"
| manage: "mp_step (processor_at s j) p \<Longrightarrow> same_work (processor_at s j) p \<Longrightarrow>
    fw_step partitionBy owners prompt s (s\<lparr>fw_processors := (fw_processors s)(j := p)\<rparr>)"
| accept: "fw_link s n = ms # rest \<Longrightarrow> bt_send (fw_batchers s n) ms = Some (True, b) \<Longrightarrow>
    fw_step partitionBy owners prompt s (s\<lparr>fw_batchers := (fw_batchers s)(n := b), fw_link := (fw_link s)(n := rest)\<rparr>)"
| batcher: "bt_step (fw_heap s) (fw_batchers s n) b \<Longrightarrow> bt_received b = bt_received (fw_batchers s n) \<Longrightarrow>
    fw_step partitionBy owners prompt s (s\<lparr>fw_batchers := (fw_batchers s)(n := b)\<rparr>)"
| payload: "(\<forall>m. h m = (fw_heap s m)\<lparr>ms_Payload := ms_Payload (h m)\<rparr>) \<Longrightarrow>
    fw_step partitionBy owners prompt s (s\<lparr>fw_heap := h\<rparr>)"

section \<open>The invariant\<close>

text \<open>The messages of a log by one of its keys.\<close>

definition routed :: "'a flow \<Rightarrow> string \<Rightarrow> msg_ref list" where
  "routed s j = keyed (map snd (map (\<lambda>(i, j, k, ms). (k, j, ms)) (fw_replied s))) j"

definition reply_msgs :: "'a flow \<Rightarrow> msg_ref list" where
  "reply_msgs s = concat (map (\<lambda>(i, j, k, ms). ms) (fw_replied s))"

definition handed :: "'a flow \<Rightarrow> string \<Rightarrow> msg_ref list" where
  "handed s n = keyed (map snd (fw_sent s)) n"

definition send_msgs :: "'a flow \<Rightarrow> msg_ref list" where
  "send_msgs s = concat (map (\<lambda>(j, n, ms). ms) (fw_sent s))"

definition tagged :: "string \<Rightarrow> (string \<times> 'b) list \<Rightarrow> 'b list" where
  "tagged i xs = map snd (filter (\<lambda>(i', x). i' = i) xs)"

definition wire_msgs :: "'a flow \<Rightarrow> string \<Rightarrow> msg_ref list" where
  "wire_msgs s j = group_msgs (fw_wire s j)"

text \<open>
  The logs agree with the workers' own histories; every reply was received by its processor or is
  on its way; every slice sent was received by its batcher or is on its way, in order; what no
  processor has received is open; and every batcher is in a run of its own on the current heap.
\<close>

definition producers_ok :: "('a \<Rightarrow> string) option \<Rightarrow> (string \<Rightarrow> string set) \<Rightarrow> 'a flow \<Rightarrow> bool" where
  "producers_ok partitionBy owners s \<longleftrightarrow> distinct (all_msgs s) \<and>
     (\<forall>i. pr_inv partitionBy owners (fw_producers s i) \<and> tagged i (fw_produced s) = pr_produced (fw_producers s i) \<and>
          tagged i (fw_replied s) = pr_replies (fw_producers s i))"

definition processors_ok :: "'a flow \<Rightarrow> bool" where
  "processors_ok s \<longleftrightarrow>
     (\<forall>j. mp_inv (processor_at s j) \<and> tagged j (fw_sent s) = pv_sent (mp_env (fw_processors s j)) \<and>
          mset (mp_received (fw_processors s j)) + mset (wire_msgs s j) = mset (routed s j)) \<and>
     (\<forall>m \<in> set (all_msgs s). (\<forall>j. m \<notin> set (mp_received (fw_processors s j))) \<longrightarrow> open_msg (fw_heap s m))"

definition batchers_ok :: "'a flow_config \<Rightarrow> 'a flow \<Rightarrow> bool" where
  "batchers_ok c s \<longleftrightarrow>
     (\<forall>n. bt_received (fw_batchers s n) @ concat (fw_link s n) = handed s n \<and>
          reaches (bt_step (fw_heap s)) (bt_run (fc_batcher c n) (fc_ids c n)) (fw_batchers s n))"

definition fw_inv :: "'a flow_config \<Rightarrow> ('a \<Rightarrow> string) option \<Rightarrow> (string \<Rightarrow> string set) \<Rightarrow> 'a flow \<Rightarrow> bool" where
  "fw_inv c partitionBy owners s \<longleftrightarrow> producers_ok partitionBy owners s \<and> processors_ok s \<and> batchers_ok c s"

lemma tagged_simps [simp]:
  "tagged i [] = []" "tagged i (xs @ ys) = tagged i xs @ tagged i ys"
  "tagged i ((i', x) # xs) = (if i' = i then [x] else []) @ tagged i xs"
  "tagged i (map (Pair i') ys) = (if i' = i then ys else [])"
  by (auto simp: tagged_def filter_map comp_def)

lemma tagged_keyed: "concat (map f (tagged i xs)) = keyed (map (\<lambda>(i, x). (i, f x)) xs) i"
  by (induction xs) auto

lemma tagged_msubset:
  fixes f :: "'b \<Rightarrow> msg_ref list" and g :: "'c \<Rightarrow> msg_ref list"
  assumes "\<And>i. mset (concat (map f (tagged i xs))) \<subseteq># mset (concat (map g (tagged i ys)))"
  shows "mset (concat (map (\<lambda>(i, x). f x) xs)) \<subseteq># mset (concat (map (\<lambda>(i, y). g y) ys))"
  using keyed_msubset [of "map (\<lambda>(i, x). (i, f x)) xs" "map (\<lambda>(i, y). (i, g y)) ys"] assms
  by (simp add: tagged_keyed comp_def split_def)

lemma part_msubset: "A + B + C = M \<Longrightarrow> A \<subseteq># M" for A :: "'b multiset"
  by (metis add.assoc mset_subset_eq_add_left)

lemma distinct_msubset: "mset xs \<subseteq># mset ys \<Longrightarrow> distinct ys \<Longrightarrow> distinct xs"
  unfolding distinct_count_atmost_1
  by (metis count_greater_zero_iff count_mset_0_iff le_antisym less_one linorder_not_less mset_subset_eq_count not_gr_zero)

lemma keyed_sub: "set (keyed gs k) \<subseteq> set (concat (map snd gs))"
  by (induction gs) auto

lemma keyed_cover: "m \<in> set (concat (map snd gs)) \<Longrightarrow> \<exists>k. m \<in> set (keyed gs k)"
proof (induction gs)
  case (Cons g gs)
  obtain k ms where g: "g = (k, ms)" by (cases g)
  show ?case
  proof (cases "m \<in> set ms")
    case True
    then show ?thesis by (intro exI [of _ k]) (simp add: g)
  next
    case False
    with Cons obtain k' where "m \<in> set (keyed gs k')" by (auto simp: g)
    then show ?thesis by (intro exI [of _ k']) (simp add: g)
  qed
qed simp

lemma keyed_distinct: "distinct (concat (map snd gs)) \<Longrightarrow> distinct (keyed gs k)"
  using keyed_sub by (induction gs) fastforce+

lemma keyed_disjoint: "distinct (concat (map snd gs)) \<Longrightarrow> k \<noteq> k' \<Longrightarrow> set (keyed gs k) \<inter> set (keyed gs k') = {}"
proof (induction gs)
  case (Cons g gs)
  obtain k0 ms where g: "g = (k0, ms)" by (cases g)
  have "set ms \<inter> set (keyed gs k1) = {}" for k1
    using Cons.prems(1) keyed_sub [of gs k1] by (auto simp: g)
  with Cons show ?case by (auto simp: g)
qed simp

section \<open>Everything is somewhere once\<close>

lemma all_msgs_concat: "all_msgs s = concat (map (\<lambda>(i, k, m). [m]) (fw_produced s))"
proof -
  have "map (snd \<circ> snd) xs = concat (map (\<lambda>(i, k, m). [m]) xs)" for xs :: "(string \<times> string \<times> msg_ref) list"
    by (induction xs) auto
  then show ?thesis by (simp add: all_msgs_def)
qed

lemma sent_msgs_replies: "sent_msgs p = concat (map (\<lambda>(j, k, ms). ms) (pr_replies p))"
  by (simp add: sent_msgs_def group_msgs_def pr_replies_def comp_def split_def)

lemma replies_produced:
  assumes "producers_ok pb owners s"
  shows "mset (reply_msgs s) \<subseteq># mset (all_msgs s)" and "distinct (reply_msgs s)"
proof -
  have one: "concat (map (\<lambda>(k, m). [m]) xs) = map snd xs" for xs :: "(string \<times> msg_ref) list"
    by (induction xs) auto
  have "mset (concat (map (\<lambda>(j, k, ms). ms) (tagged i (fw_replied s)))) \<subseteq># mset (concat (map (\<lambda>(k, m). [m]) (tagged i (fw_produced s))))" for i
    unfolding one using assms part_msubset [OF pr_inv_messages [of pb owners "fw_producers s i"]]
    by (simp add: producers_ok_def sent_msgs_replies [symmetric])
  from tagged_msubset [OF this] show "mset (reply_msgs s) \<subseteq># mset (all_msgs s)"
    unfolding all_msgs_concat reply_msgs_def by (simp add: split_def)
  then show "distinct (reply_msgs s)" using assms by (auto simp: producers_ok_def intro: distinct_msubset)
qed

lemma routed_keyed: "routed s j = keyed (map (\<lambda>(i, j, k, ms). (j, ms)) (fw_replied s)) j"
  by (simp add: routed_def comp_def split_def)

lemma reply_msgs_keyed: "reply_msgs s = concat (map snd (map (\<lambda>(i, j, k, ms). (j, ms)) (fw_replied s)))"
  by (simp add: reply_msgs_def comp_def split_def)

lemma routed_facts:
  assumes "producers_ok pb owners s"
  shows "distinct (routed s j)" and "set (routed s j) \<subseteq> set (all_msgs s)"
    and "j \<noteq> j' \<Longrightarrow> set (routed s j) \<inter> set (routed s j') = {}"
proof -
  note r = replies_produced [OF assms]
  show "distinct (routed s j)" unfolding routed_keyed using r(2) unfolding reply_msgs_keyed by (rule keyed_distinct)
  show "j \<noteq> j' \<Longrightarrow> set (routed s j) \<inter> set (routed s j') = {}"
    unfolding routed_keyed using r(2) unfolding reply_msgs_keyed by (rule keyed_disjoint)
  have "set (routed s j) \<subseteq> set (reply_msgs s)" unfolding routed_keyed reply_msgs_keyed by (rule keyed_sub)
  also have "\<dots> \<subseteq> set (all_msgs s)" using r(1) by (metis set_mset_mono set_mset_mset)
  finally show "set (routed s j) \<subseteq> set (all_msgs s)" .
qed

lemma received_facts:
  assumes "producers_ok pb owners s" and "processors_ok s"
  shows "set (mp_received (fw_processors s j)) \<union> set (wire_msgs s j) = set (routed s j)"
    and "set (mp_received (fw_processors s j)) \<inter> set (wire_msgs s j) = {}" and "distinct (wire_msgs s j)"
    and "j \<noteq> j' \<Longrightarrow> set (mp_received (fw_processors s j)) \<inter> set (mp_received (fw_processors s j')) = {}"
proof -
  have m: "mset (mp_received (fw_processors s j) @ wire_msgs s j) = mset (routed s j)" for j
    using assms(2) by (simp add: processors_ok_def)
  then have "distinct (mp_received (fw_processors s j) @ wire_msgs s j)"
    using routed_facts(1) [OF assms(1)] by (metis mset_eq_imp_distinct_iff)
  then show "set (mp_received (fw_processors s j)) \<inter> set (wire_msgs s j) = {}" and "distinct (wire_msgs s j)" by simp_all
  show *: "set (mp_received (fw_processors s j)) \<union> set (wire_msgs s j) = set (routed s j)" for j
    using m [of j] by (metis set_append set_mset_mset)
  show "j \<noteq> j' \<Longrightarrow> set (mp_received (fw_processors s j)) \<inter> set (mp_received (fw_processors s j')) = {}"
    using routed_facts(3) [OF assms(1), of j j'] * [of j] * [of j'] by blast
qed

lemma settled_received:
  assumes "mp_inv p"
  shows "mset (settled (mp_env p)) \<subseteq># mset (mp_received p)" and "set (unresolved p) \<subseteq> set (mp_received p)"
proof -
  have *: "mset (settled (mp_env p)) + mset (mp_dropped p) + mset (unresolved p) = mset (mp_received p)"
    using assms by (simp add: mp_inv_def)
  then show "mset (settled (mp_env p)) \<subseteq># mset (mp_received p)" by (rule part_msubset)
  from * have "mset (unresolved p) \<subseteq># mset (mp_received p)" by (metis mset_subset_eq_add_right)
  then show "set (unresolved p) \<subseteq> set (mp_received p)" by (metis set_mset_mono set_mset_mset)
qed

lemma sends_settled: "concat (map snd (pv_sent e)) = concat (map (\<lambda>(n, ms). ms) (pv_sent e))"
  by (simp add: split_def)

lemma sends_replied:
  assumes "producers_ok pb owners s" and "processors_ok s"
  shows "mset (send_msgs s) \<subseteq># mset (reply_msgs s)" and "distinct (send_msgs s)"
    and "m \<in> set (handed s n) \<Longrightarrow> \<exists>j. m \<in> set (concat (map snd (pv_sent (mp_env (fw_processors s j)))))"
proof -
  have ps: "mp_inv (processor_at s j)" "tagged j (fw_sent s) = pv_sent (mp_env (fw_processors s j))"
    "mset (mp_received (fw_processors s j)) + mset (wire_msgs s j) = mset (routed s j)" for j
    using assms(2) by (simp_all add: processors_ok_def)
  have "mset (concat (map snd (tagged j (fw_sent s)))) \<subseteq># mset (settled (mp_env (fw_processors s j)))" for j
    by (simp add: ps settled_def)
  moreover have "mset (settled (mp_env (fw_processors s j))) \<subseteq># mset (routed s j)" for j
    using settled_received(1) [OF ps(1), of j] ps(3) [of j] unfolding processor_at_def
    by simp (metis mset_subset_eq_add_left subset_mset.order_trans)
  moreover have "routed s j = concat (map snd (tagged j (map (\<lambda>(i, j, k, ms). (j, (i, ms))) (fw_replied s))))" for j
    unfolding tagged_keyed routed_keyed by (simp add: comp_def split_def)
  ultimately have "mset (concat (map snd (tagged j (fw_sent s)))) \<subseteq>#
      mset (concat (map snd (tagged j (map (\<lambda>(i, j, k, ms). (j, (i, ms))) (fw_replied s)))))" for j
    by (metis subset_mset.order_trans)
  from tagged_msubset [OF this] show sub: "mset (send_msgs s) \<subseteq># mset (reply_msgs s)"
    unfolding send_msgs_def reply_msgs_def by (simp add: comp_def split_def)
  from distinct_msubset [OF this] replies_produced(2) [OF assms(1)] show "distinct (send_msgs s)" .
  assume "m \<in> set (handed s n)"
  then have "m \<in> set (concat (map (snd \<circ> snd) (fw_sent s)))"
    unfolding handed_def using keyed_sub [of "map snd (fw_sent s)" n] by auto
  then have "\<exists>j. m \<in> set (keyed (map (\<lambda>(j, x). (j, snd x)) (fw_sent s)) j)"
    by (intro keyed_cover) (auto simp: split_def)
  then show "\<exists>j. m \<in> set (concat (map snd (pv_sent (mp_env (fw_processors s j)))))"
    unfolding tagged_keyed [symmetric] ps .
qed

section \<open>Every step\<close>

lemma batch_received:
  assumes "fw_inv c pb owners s" and "m \<in> set (bt_received (fw_batchers s n))"
  shows "\<exists>j. m \<in> set (settled (mp_env (fw_processors s j)))" and "m \<in> set (all_msgs s)"
    and "m \<notin> set (unresolved (fw_processors s j))"
proof -
  have po: "producers_ok pb owners s" and ps: "processors_ok s" and bo: "batchers_ok c s"
    using assms(1) by (simp_all add: fw_inv_def)
  have inv: "mp_inv (processor_at s j)" for j using ps by (simp add: processors_ok_def)
  have sr: "mset (settled (mp_env (fw_processors s j))) \<subseteq># mset (mp_received (fw_processors s j))"
    "set (unresolved (fw_processors s j)) \<subseteq> set (mp_received (fw_processors s j))"
    "set (settled (mp_env (fw_processors s j))) \<inter> set (unresolved (fw_processors s j)) = {}" for j
    using settled_received [OF inv, of j] mp_inv_unresolved(3) [OF inv, of j] by (simp_all add: processor_at_def)
  have "bt_received (fw_batchers s n) @ concat (fw_link s n) = handed s n" using bo by (simp add: batchers_ok_def)
  with assms(2) have "m \<in> set (handed s n)" by (metis UnCI set_append)
  with sends_replied(3) [OF po ps] obtain j0 where "m \<in> set (concat (map snd (pv_sent (mp_env (fw_processors s j0)))))" by blast
  then have j0: "m \<in> set (settled (mp_env (fw_processors s j0)))" by (simp add: settled_def)
  then show "\<exists>j. m \<in> set (settled (mp_env (fw_processors s j)))" ..
  from j0 sr(1) have rc: "m \<in> set (mp_received (fw_processors s j0))" by (metis set_mset_mono set_mset_mset subsetD)
  then show "m \<in> set (all_msgs s)"
    using received_facts(1) [OF po ps, of j0] routed_facts(2) [OF po, of j0] by blast
  show "m \<notin> set (unresolved (fw_processors s j))"
    using j0 rc sr(2) [of j] sr(3) [of j] received_facts(4) [OF po ps, of j j0] by (cases "j = j0") auto
qed

lemma received_all:
  assumes "producers_ok pb owners s" and "processors_ok s"
  shows "set (mp_received (fw_processors s j)) \<subseteq> set (all_msgs s)"
  using received_facts(1) [OF assms, of j] routed_facts(2) [OF assms(1), of j] by blast

lemma group_remove1: "(i, ms) \<in> set gs \<Longrightarrow> mset (group_msgs gs) = mset ms + mset (group_msgs (remove1 (i, ms) gs))"
  unfolding group_msgs_def by (induction gs) auto

text \<open>The batchers when the heap changes outside what they have received.\<close>

lemma batchers_heap:
  assumes "batchers_ok c s" and "\<And>n. distinct (fc_ids c n)" and "fw_batchers s' = fw_batchers s"
    and "\<And>n. concat (fw_link s' n) = concat (fw_link s n) @ xs n" and "\<And>n. handed s' n = handed s n @ xs n"
    and "\<And>n m. m \<in> set (bt_received (fw_batchers s n)) \<Longrightarrow> same_routing (fw_heap s m) (fw_heap s' m)"
  shows "batchers_ok c s'"
  unfolding batchers_ok_def assms(3-5)
proof (intro allI conjI)
  fix n
  show "bt_received (fw_batchers s n) @ concat (fw_link s n) @ xs n = handed s n @ xs n"
    using assms(1) unfolding batchers_ok_def append_assoc [symmetric] by metis
  show "reaches (bt_step (fw_heap s')) (bt_run (fc_batcher c n) (fc_ids c n)) (fw_batchers s n)"
  proof (rule bt_reaches_heap [OF _ assms(2) assms(6)])
    show "reaches (bt_step (fw_heap s)) (bt_run (fc_batcher c n) (fc_ids c n)) (fw_batchers s n)"
      using assms(1) by (simp add: batchers_ok_def)
  qed
qed

lemma pr_inv_at [simp]: "pr_inv pb owners (producer_at s i) = pr_inv pb owners (fw_producers s i)"
  by (simp add: producer_at_def pr_inv_def pr_core_def sent_req_def sent_for_def to_send_def produced_for_def)

lemma producer_at_fields [simp]:
  "pr_produced (producer_at s i) = pr_produced (fw_producers s i)" "pr_replies (producer_at s i) = pr_replies (fw_producers s i)"
  by (simp_all add: producer_at_def pr_replies_def)

lemma new_wire: "group_msgs (map (\<lambda>(j', k, ms). (i, ms)) (filter (\<lambda>(j', k, ms). j' = j) xs)) = keyed (map (\<lambda>(j, k, ms). (j, ms)) xs) j"
  by (induction xs) (auto simp: group_msgs_def)

lemma group_msgs_append [simp]: "group_msgs (xs @ ys) = group_msgs xs @ group_msgs ys"
  by (simp add: group_msgs_def)

lemma fw_inv_produce:
  assumes inv: "fw_inv c pb owners s" and ids: "\<And>n. distinct (fc_ids c n)"
    and st: "pr_step pb owners (producer_at s i) p" and fr: "produces_fresh s i p"
  shows "fw_inv c pb owners (produce s i p)"
proof -
  let ?s = "produce s i p"
  have po: "producers_ok pb owners s" and ps: "processors_ok s" and bo: "batchers_ok c s"
    using inv by (simp_all add: fw_inv_def)
  have pi: "pr_inv pb owners p" by (rule pr_inv_step [OF _ st]) (use po in \<open>simp add: producers_ok_def\<close>)
  note g = pr_grow_step [OF st]
  have produced: "pr_produced p = pr_produced (fw_producers s i) @ new_messages s i p"
    using g unfolding pr_grow_def new_messages_def by (auto simp: prefix_def)
  have replies: "pr_replies p = pr_replies (fw_producers s i) @ new_replies s i p"
    using pr_grow_replies [OF g] unfolding new_replies_def by (auto simp: prefix_def)
  let ?new = "map snd (new_messages s i p)"
  have fresh: "distinct ?new" "set ?new \<inter> set (all_msgs s) = {}" "\<forall>m \<in> set ?new. open_msg (pr_heap p m)"
    "\<forall>m \<in> set (all_msgs s). pr_heap p m = fw_heap s m" using fr by (simp_all add: produces_fresh_def Let_def)
  have all: "all_msgs ?s = all_msgs s @ ?new" by (simp add: produce_def all_msgs_def comp_def)
  have po': "producers_ok pb owners ?s"
    unfolding producers_ok_def all using po fresh(1,2) pi produced replies
    by (auto simp: producers_ok_def produce_def)
  have heap: "fw_heap ?s = pr_heap p" "fw_processors ?s = fw_processors s" "fw_batchers ?s = fw_batchers s"
    by (simp_all add: produce_def)
  have "mp_inv (processor_at ?s j)" for j
  proof -
    have i: "mp_inv (processor_at s j)" using ps by (simp add: processors_ok_def)
    have "same_private (pv_heap (mp_env (processor_at s j)) m) (pr_heap p m)" if "m \<in> set (unresolved (processor_at s j))" for m
    proof -
      have "m \<in> set (all_msgs s)"
        using that settled_received(2) [OF i] received_all [OF po ps, of j] by (auto simp: processor_at_def)
      with fresh(4) show ?thesis by (simp add: processor_at_def)
    qed
    from mp_inv_heap [OF i this] show ?thesis by (simp add: processor_at_def heap)
  qed
  moreover have "mset (mp_received (fw_processors ?s j)) + mset (wire_msgs ?s j) = mset (routed ?s j)" for j
  proof -
    have "wire_msgs ?s j = wire_msgs s j @ keyed (map (\<lambda>(j, k, ms). (j, ms)) (new_replies s i p)) j"
      by (simp add: wire_msgs_def produce_def new_wire)
    moreover have "routed ?s j = routed s j @ keyed (map (\<lambda>(j, k, ms). (j, ms)) (new_replies s i p)) j"
      by (simp add: routed_keyed produce_def comp_def)
    moreover have "mset (mp_received (fw_processors s j)) + mset (wire_msgs s j) = mset (routed s j)"
      using ps by (simp add: processors_ok_def)
    ultimately show ?thesis by (simp add: heap flip: add.assoc)
  qed
  moreover have "open_msg (fw_heap ?s m)"
    if "m \<in> set (all_msgs ?s)" "\<forall>j. m \<notin> set (mp_received (fw_processors s j))" for m
    using that ps fresh(3,4) unfolding all by (auto simp: processors_ok_def heap)
  moreover have "tagged j (fw_sent ?s) = pv_sent (mp_env (fw_processors ?s j))" for j
    using ps by (simp add: processors_ok_def produce_def)
  ultimately have ps': "processors_ok ?s" unfolding processors_ok_def heap(2) by blast
  have "batchers_ok c ?s"
  proof (rule batchers_heap [OF bo ids, where xs = "\<lambda>_. []"])
    show "same_routing (fw_heap s m) (fw_heap ?s m)" if "m \<in> set (bt_received (fw_batchers s n))" for n m
      using batch_received(2) [OF inv that] fresh(4) by (simp add: heap)
  qed (simp_all add: produce_def handed_def)
  with po' ps' show ?thesis by (simp add: fw_inv_def)
qed

lemma wire_same: "fw_wire s' = fw_wire s \<Longrightarrow> wire_msgs s' j = wire_msgs s j"
  by (simp add: wire_msgs_def)

lemma log_same:
  "fw_replied s' = fw_replied s \<Longrightarrow> routed s' j = routed s j" "fw_produced s' = fw_produced s \<Longrightarrow> all_msgs s' = all_msgs s"
  "fw_sent s' = fw_sent s \<Longrightarrow> handed s' n = handed s n"
  by (simp_all add: routed_def all_msgs_def handed_def)

lemma keyed_snd: "keyed (map snd (map (Pair j) xs)) n = keyed xs n"
  by (simp add: comp_def)

lemma concat_link: "concat (map snd (filter (\<lambda>(n', ms). n' = n) xs)) = keyed xs n"
  by (induction xs) auto

text \<open>The processor \<open>j\<close> works: it writes to what is unresolved in it.\<close>

lemma fw_inv_work:
  assumes inv: "fw_inv c pb owners s" and ids: "\<And>n. distinct (fc_ids c n)"
    and p: "mp_inv p" and g: "mp_grow (processor_at s j) p"
  shows "fw_inv c pb owners (work s j p)"
proof -
  let ?s = "work s j p"
  have po: "producers_ok pb owners s" and ps: "processors_ok s" and bo: "batchers_ok c s"
    using inv by (simp_all add: fw_inv_def)
  have heap: "fw_heap ?s = pv_heap (mp_env p)" "fw_processors ?s = (fw_processors s)(j := p)" "fw_batchers ?s = fw_batchers s"
    "fw_wire ?s = fw_wire s" "fw_replied ?s = fw_replied s" "fw_produced ?s = fw_produced s" "fw_producers ?s = fw_producers s"
    by (simp_all add: work_def)
  note logs = log_same(1) [OF heap(5)] log_same(2) [OF heap(6)] wire_same [OF heap(4)]
  have env: "\<And>x. x \<notin> set (unresolved (fw_processors s j)) \<Longrightarrow> pv_heap (mp_env p) x = fw_heap s x"
    and received: "mp_received p = mp_received (fw_processors s j)"
    using g by (simp_all add: mp_grow_def env_grow_def processor_at_def)
  have sent: "pv_sent (mp_env p) = pv_sent (mp_env (fw_processors s j)) @ new_sends s j p"
    using g by (auto simp: mp_grow_def env_grow_def processor_at_def new_sends_def prefix_def)
  have i: "mp_inv (processor_at s j')" for j' using ps by (simp add: processors_ok_def)
  have un: "set (unresolved (fw_processors s j')) \<subseteq> set (mp_received (fw_processors s j'))" for j'
    using settled_received(2) [OF i, of j'] by (simp add: processor_at_def)
  have "producers_ok pb owners ?s" using po unfolding producers_ok_def logs heap .
  moreover have "processors_ok ?s"
    unfolding processors_ok_def logs
  proof (intro conjI allI ballI impI)
    fix j'
    show "mp_inv (processor_at ?s j')"
    proof (cases "j' = j")
      case True
      then show ?thesis using p by (simp add: processor_at_def heap mp_inv_heap)
    next
      case False
      have "fw_heap s m = pv_heap (mp_env p) m" if "m \<in> set (unresolved (fw_processors s j'))" for m
      proof -
        have "m \<notin> set (unresolved (fw_processors s j))"
          using that False un [of j'] un [of j] received_facts(4) [OF po ps, of j' j] by blast
        then show ?thesis by (simp add: env)
      qed
      then have "mp_inv (with_heap (pv_heap (mp_env p)) (processor_at s j'))"
        by (intro mp_inv_heap [OF i]) (simp add: processor_at_def)
      then show ?thesis using False by (simp add: processor_at_def heap)
    qed
    show "tagged j' (fw_sent ?s) = pv_sent (mp_env (fw_processors ?s j'))"
      using ps sent by (simp add: work_def processors_ok_def)
    show "mset (mp_received (fw_processors ?s j')) + mset (wire_msgs s j') = mset (routed s j')"
      using ps received by (simp add: processors_ok_def heap)
  next
    fix m assume m: "m \<in> set (all_msgs s)" "\<forall>j'. m \<notin> set (mp_received (fw_processors ?s j'))"
    have nr: "m \<notin> set (mp_received (fw_processors s j'))" for j'
      using spec [OF m(2), of j'] received by (cases "j' = j") (simp_all add: heap)
    then have "m \<notin> set (unresolved (fw_processors s j))" using un by blast
    then show "open_msg (fw_heap ?s m)" using nr m(1) ps by (simp add: heap env processors_ok_def)
  qed
  moreover have "batchers_ok c ?s"
  proof (rule batchers_heap [OF bo ids])
    show "concat (fw_link ?s n) = concat (fw_link s n) @ keyed (new_sends s j p) n" for n
      by (simp add: work_def concat_link)
    show "handed ?s n = handed s n @ keyed (new_sends s j p) n" for n
      by (simp add: handed_def work_def comp_def)
    show "same_routing (fw_heap s m) (fw_heap ?s m)" if "m \<in> set (bt_received (fw_batchers s n))" for n m
      using batch_received(3) [OF inv that] by (simp add: heap env)
  qed (rule heap(3))
  ultimately show ?thesis by (simp add: fw_inv_def)
qed

text \<open>The processor \<open>j\<close> changes without writing to messages or sending any.\<close>

lemma fw_inv_processor:
  assumes inv: "fw_inv c pb owners s" and s': "s' = s\<lparr>fw_processors := (fw_processors s)(j := p), fw_wire := (fw_wire s)(j := w)\<rparr>"
    and p: "mp_inv (with_heap (fw_heap s) p)" and sent: "pv_sent (mp_env p) = pv_sent (mp_env (fw_processors s j))"
    and r: "set (mp_received (fw_processors s j)) \<subseteq> set (mp_received p)"
    and m: "mset (mp_received p) + mset (group_msgs w) = mset (routed s j)"
  shows "fw_inv c pb owners s'"
proof -
  have po: "producers_ok pb owners s" and ps: "processors_ok s" and bo: "batchers_ok c s"
    using inv by (simp_all add: fw_inv_def)
  have "producers_ok pb owners s'" using po by (simp add: producers_ok_def s' all_msgs_def)
  moreover have "batchers_ok c s'" using bo by (simp add: batchers_ok_def s' handed_def)
  moreover have "processors_ok s'" unfolding processors_ok_def
  proof (intro conjI allI ballI impI)
    fix j'
    show "mp_inv (processor_at s' j')" using ps p by (simp add: processors_ok_def processor_at_def s')
    show "tagged j' (fw_sent s') = pv_sent (mp_env (fw_processors s' j'))" using ps sent by (simp add: processors_ok_def s')
    show "mset (mp_received (fw_processors s' j')) + mset (wire_msgs s' j') = mset (routed s' j')"
      using ps m by (simp add: processors_ok_def s' wire_msgs_def routed_def)
  next
    fix x assume x: "x \<in> set (all_msgs s')" "\<forall>j'. x \<notin> set (mp_received (fw_processors s' j'))"
    have "x \<notin> set (mp_received (fw_processors s j'))" for j'
      using spec [OF x(2), of j'] r by (cases "j' = j") (auto simp: s')
    moreover have "x \<in> set (all_msgs s)" using x(1) by (simp add: s' all_msgs_def)
    ultimately show "open_msg (fw_heap s' x)" using ps by (simp add: processors_ok_def s')
  qed
  ultimately show ?thesis by (simp add: fw_inv_def)
qed

lemma fw_inv_respond:
  assumes inv: "fw_inv c pb owners s" and w: "(i, ms) \<in> set (fw_wire s j)" and r: "mp_respond (processor_at s j) ms = Inr p"
  shows "fw_inv c pb owners (s\<lparr>fw_processors := (fw_processors s)(j := p), fw_wire := (fw_wire s)(j := remove1 (i, ms) (fw_wire s j))\<rparr>)"
proof (rule fw_inv_processor [OF inv refl])
  have po: "producers_ok pb owners s" and ps: "processors_ok s" using inv by (simp_all add: fw_inv_def)
  have i: "mp_inv (processor_at s j)" using ps by (simp add: processors_ok_def)
  have fields: "mp_received p = mp_received (fw_processors s j) @ ms" "pv_sent (mp_env p) = pv_sent (mp_env (fw_processors s j))"
    "pv_heap (mp_env p) = fw_heap s"
    using r by (auto simp: mp_respond_def go_bind_Inr_iff processor_at_def split: if_splits option.splits)
  show "pv_sent (mp_env p) = pv_sent (mp_env (fw_processors s j))" by (rule fields(2))
  show "set (mp_received (fw_processors s j)) \<subseteq> set (mp_received p)" by (simp add: fields)
  have split: "mset (wire_msgs s j) = mset ms + mset (group_msgs (remove1 (i, ms) (fw_wire s j)))"
    unfolding wire_msgs_def by (rule group_remove1 [OF w])
  have "mset (mp_received (fw_processors s j)) + mset (wire_msgs s j) = mset (routed s j)" using ps by (simp add: processors_ok_def)
  then show "mset (mp_received p) + mset (group_msgs (remove1 (i, ms) (fw_wire s j))) = mset (routed s j)"
    by (simp add: fields split add.assoc)
  have sub: "set ms \<subseteq> set (wire_msgs s j)" using split by (metis mset_subset_eq_add_left set_mset_mono set_mset_mset)
  have "distinct ms" using split received_facts(3) [OF po ps, of j]
    by (metis distinct_msubset mset_subset_eq_add_left)
  moreover have "open_msg (fw_heap s m)" if "m \<in> set ms" for m
  proof -
    have rt: "m \<in> set (routed s j)" and nr: "m \<notin> set (mp_received (fw_processors s j))"
      using that sub received_facts(1,2) [OF po ps, of j] by blast+
    have "m \<notin> set (mp_received (fw_processors s j'))" for j'
      using rt nr routed_facts(3) [OF po, of j j'] received_facts(1) [OF po ps, of j'] by (cases "j' = j") blast+
    moreover have "m \<in> set (all_msgs s)" using rt routed_facts(2) [OF po] by blast
    ultimately show ?thesis using ps by (simp add: processors_ok_def)
  qed
  moreover have "set ms \<inter> set (mp_received (fw_processors s j)) = {}"
    using sub received_facts(2) [OF po ps, of j] by blast
  ultimately have fr: "ms \<noteq> [] \<Longrightarrow> fresh_messages (processor_at s j) ms" by (simp add: fresh_messages_def processor_at_def)
  have "mp_inv p"
  proof (cases "ms = []")
    case True
    then have "p = (processor_at s j)\<lparr>mp_arriving := mp_arriving (processor_at s j) @ [[]]\<rparr>"
      using r by (auto simp: mp_respond_def first_ack_def split: if_splits)
    with i show ?thesis by (simp add: mp_inv_def unresolved_def)
  next
    case False
    show ?thesis by (rule mp_inv_respond [OF i fr [OF False] r])
  qed
  moreover have "with_heap (fw_heap s) p = p" by (simp add: with_heap_def fields(3) [symmetric])
  ultimately show "mp_inv (with_heap (fw_heap s) p)" by simp
qed

lemma fw_inv_enqueue:
  assumes inv: "fw_inv c pb owners s" and ms: "ms \<in> set (mp_arriving (fw_processors s j))"
  shows "fw_inv c pb owners (s\<lparr>fw_processors := (fw_processors s)(j := mp_enqueue (fw_processors s j) ms)\<rparr>)"
proof (rule fw_inv_processor [OF inv, where w = "fw_wire s j"])
  have ps: "processors_ok s" using inv by (simp add: fw_inv_def)
  then have "mp_inv (mp_enqueue (processor_at s j) ms)"
    using ms by (intro mp_inv_enqueue) (simp_all add: processors_ok_def processor_at_def)
  moreover have "mp_enqueue (processor_at s j) ms = with_heap (fw_heap s) (mp_enqueue (fw_processors s j) ms)"
    by (simp add: mp_enqueue_def processor_at_def with_heap_def)
  ultimately show "mp_inv (with_heap (fw_heap s) (mp_enqueue (fw_processors s j) ms))" by simp
  show "mset (mp_received (mp_enqueue (fw_processors s j) ms)) + mset (group_msgs (fw_wire s j)) = mset (routed s j)"
    using ps by (simp add: processors_ok_def mp_enqueue_def wire_msgs_def)
qed (simp_all add: mp_enqueue_def)

lemma fw_inv_manage:
  assumes inv: "fw_inv c pb owners s" and p: "same_work (processor_at s j) p"
  shows "fw_inv c pb owners (s\<lparr>fw_processors := (fw_processors s)(j := p)\<rparr>)"
proof (rule fw_inv_processor [OF inv, where w = "fw_wire s j"])
  have ps: "processors_ok s" using inv by (simp add: fw_inv_def)
  then have "mp_inv p" by (intro mp_inv_same [OF _ p]) (simp add: processors_ok_def)
  moreover have "with_heap (fw_heap s) p = p" using p by (simp add: same_work_def processor_at_def with_heap_def)
  ultimately show "mp_inv (with_heap (fw_heap s) p)" by simp
  show "mset (mp_received p) + mset (group_msgs (fw_wire s j)) = mset (routed s j)"
    using ps p by (simp add: processors_ok_def same_work_def processor_at_def wire_msgs_def)
qed (use p in \<open>simp_all add: same_work_def processor_at_def\<close>)

lemma fw_inv_batcher:
  assumes inv: "fw_inv c pb owners s" and st: "bt_step (fw_heap s) (fw_batchers s n) b"
    and r: "bt_received b @ concat l = bt_received (fw_batchers s n) @ concat (fw_link s n)"
  shows "fw_inv c pb owners (s\<lparr>fw_batchers := (fw_batchers s)(n := b), fw_link := (fw_link s)(n := l)\<rparr>)"
proof -
  have "reaches (bt_step (fw_heap s)) (bt_run (fc_batcher c n) (fc_ids c n)) b"
    by (rule reaches.step [where s = "fw_batchers s n"]) (use inv st in \<open>simp_all add: fw_inv_def batchers_ok_def\<close>)
  then show ?thesis using inv r
    by (simp add: fw_inv_def producers_ok_def processors_ok_def batchers_ok_def all_msgs_def routed_def handed_def
        wire_msgs_def processor_at_def)
qed

lemma fw_inv_payload:
  assumes inv: "fw_inv c pb owners s" and ids: "\<And>n. distinct (fc_ids c n)"
    and h: "\<forall>m. h m = (fw_heap s m)\<lparr>ms_Payload := ms_Payload (h m)\<rparr>"
  shows "fw_inv c pb owners (s\<lparr>fw_heap := h\<rparr>)"
proof -
  let ?s = "s\<lparr>fw_heap := h\<rparr>"
  have po: "producers_ok pb owners s" and ps: "processors_ok s" and bo: "batchers_ok c s"
    using inv by (simp_all add: fw_inv_def)
  have f: "same_private (fw_heap s m) (h m)" "same_routing (fw_heap s m) (h m)" for m
  proof -
    have "h m = (fw_heap s m)\<lparr>ms_Payload := ms_Payload (h m)\<rparr>" using h ..
    then obtain x where hm: "h m = (fw_heap s m)\<lparr>ms_Payload := x\<rparr>" ..
    show "same_private (fw_heap s m) (h m)" "same_routing (fw_heap s m) (h m)"
      unfolding hm by (simp_all add: same_private_def same_routing_def)
  qed
  have "producers_ok pb owners ?s" using po by (simp add: producers_ok_def all_msgs_def)
  moreover have "processors_ok ?s"
    unfolding processors_ok_def
  proof (intro conjI allI ballI impI)
    fix j
    have "mp_inv (with_heap h (processor_at s j))"
      using ps f(1) by (intro mp_inv_heap) (simp_all add: processors_ok_def processor_at_def)
    then show "mp_inv (processor_at ?s j)" by (simp add: processor_at_def)
    show "tagged j (fw_sent ?s) = pv_sent (mp_env (fw_processors ?s j))"
      and "mset (mp_received (fw_processors ?s j)) + mset (wire_msgs ?s j) = mset (routed ?s j)"
      using ps by (simp_all add: processors_ok_def wire_msgs_def routed_def)
  next
    fix m assume m: "m \<in> set (all_msgs ?s)" "\<forall>j. m \<notin> set (mp_received (fw_processors ?s j))"
    have "m \<in> set (all_msgs s)" using m(1) by (simp add: all_msgs_def)
    then have "open_msg (fw_heap s m)" using m(2) ps by (simp add: processors_ok_def)
    then show "open_msg (fw_heap ?s m)" using private_open [OF f(1)] by simp
  qed
  moreover have "batchers_ok c ?s"
    by (rule batchers_heap [OF bo ids, where xs = "\<lambda>_. []"]) (use f(2) in \<open>simp_all add: handed_def\<close>)
  ultimately show ?thesis by (simp add: fw_inv_def)
qed

lemma fw_inv_step:
  assumes inv: "fw_inv c pb owners s" and ids: "\<And>n. distinct (fc_ids c n)" and st: "fw_step pb owners prompt s s'"
  shows "fw_inv c pb owners s'"
  using st
proof cases
  case (producer i p)
  then show ?thesis using fw_inv_produce [OF inv ids] by simp
next
  case (respond i ms j p)
  then show ?thesis using fw_inv_respond [OF inv] by simp
next
  case (enqueue ms j)
  then show ?thesis using fw_inv_enqueue [OF inv] by simp
next
  case (round j handle send answer)
  have i: "mp_inv (processor_at s j)" and ph: "mp_phase (processor_at s j) = MP_Loop" and t: "tame handle"
    using inv round by (simp_all add: fw_inv_def processors_ok_def processor_at_def local_handler_def)
  show ?thesis unfolding round(1)
    by (rule fw_inv_work [OF inv ids mp_inv_round [OF i ph t] mp_round_grows [OF round(3) i ph]])
next
  case (unwind j handle send)
  have i: "mp_inv (processor_at s j)" and t: "tame handle"
    using inv unwind by (simp_all add: fw_inv_def processors_ok_def local_handler_def)
  show ?thesis unfolding unwind(1)
    by (rule fw_inv_work [OF inv ids mp_inv_unwind [OF i t] mp_unwind_grows [OF unwind(3) i]])
next
  case (manage j p)
  then show ?thesis using fw_inv_manage [OF inv] by simp
next
  case (accept n ms rest b)
  have "bt_received b = bt_received (fw_batchers s n) @ ms"
    using accept(3) by (auto simp: bt_send_def split: if_splits)
  with accept show ?thesis using fw_inv_batcher [OF inv bt_step.send [OF accept(3)], of rest] by simp
next
  case (batcher n b)
  then show ?thesis using fw_inv_batcher [OF inv batcher(2), of "fw_link s n"] by simp
next
  case (payload h)
  then show ?thesis using fw_inv_payload [OF inv ids] by simp
qed

lemma fw_inv_start: "fw_inv c pb owners (fw_start c)"
proof -
  have "pr_replies (newProducer i a b rs h) = []" "pr_produced (newProducer i a b rs h) = []" for i a b rs and h :: "'a heap"
    by (simp_all add: pr_replies_def newProducer_def)
  moreover have "with_heap h (newMessageProcessor j mc ps bs h) = newMessageProcessor j mc ps bs h" for j mc ps bs and h :: "'a heap"
    by (simp add: with_heap_def newMessageProcessor_def)
  ultimately show ?thesis
    by (simp add: fw_inv_def fw_start_def producers_ok_def processors_ok_def batchers_ok_def all_msgs_def routed_def
        handed_def wire_msgs_def group_msgs_def processor_at_def pr_inv_new mp_inv_new reaches.start)
      (simp add: newMessageProcessor_def)
qed

lemma fw_inv_reaches:
  assumes "reaches (fw_step pb owners prompt) (fw_start c) s" and "\<And>n. distinct (fc_ids c n)"
  shows "fw_inv c pb owners s"
  using assms(1) by (rule reaches_invariant) (auto intro: fw_inv_start fw_inv_step [OF _ assms(2)])

section \<open>Where a message is\<close>

datatype place =
    In_Producer string      \<comment> \<open>produced, not yet handed to a request\<close>
  | Given_Up string         \<comment> \<open>dropped by a producer that ended\<close>
  | On_Wire string          \<comment> \<open>received by a response goroutine, not yet enqueued or failed\<close>
  | In_Processor string     \<comment> \<open>in the queue of the processor, or about to be\<close>
  | Left_Over string        \<comment> \<open>lost by a panic in \<open>flush\<close>\<close>
  | Acknowledged string     \<comment> \<open>by the processor\<close>
  | Skipped string          \<comment> \<open>names a batcher that does not exist\<close>
  | On_Link string          \<comment> \<open>sent to the batcher, not yet taken\<close>
  | In_Batcher string
  | Handed_Over string      \<comment> \<open>in a batch that a batch processor has accepted\<close>

definition batcher_msgs :: "batcher \<Rightarrow> msg_ref list" where
  "batcher_msgs b =
     (case work_item (bt_work b) of None \<Rightarrow> [] | Some (k, xs) \<Rightarrow> xs) @
     concat (map (\<lambda>(k, q). q_queue q) (cm_map (bt_batches b))) @ bt_incoming b"

definition delivered_msgs :: "batcher \<Rightarrow> msg_ref list" where
  "delivered_msgs b = concat (map (\<lambda>(i, k, xs). xs) (bt_delivered b))"

definition at_place :: "'a flow \<Rightarrow> place \<Rightarrow> msg_ref list" where
  "at_place s pl = (case pl of
     In_Producer i \<Rightarrow> group_msgs (pr_pending (fw_producers s i))
   | Given_Up i \<Rightarrow> group_msgs (pr_dropped (fw_producers s i))
   | On_Wire j \<Rightarrow> wire_msgs s j
   | In_Processor j \<Rightarrow> unresolved (fw_processors s j)
   | Left_Over j \<Rightarrow> mp_dropped (fw_processors s j)
   | Acknowledged j \<Rightarrow> acked_msgs (mp_env (fw_processors s j))
   | Skipped j \<Rightarrow> pv_skipped (mp_env (fw_processors s j))
   | On_Link n \<Rightarrow> concat (fw_link s n)
   | In_Batcher n \<Rightarrow> batcher_msgs (fw_batchers s n)
   | Handed_Over n \<Rightarrow> delivered_msgs (fw_batchers s n))"

lemma batcher_parts:
  assumes "bt_inv h b"
  shows "mset (delivered_msgs b) + mset (batcher_msgs b) = mset (bt_received b)"
proof -
  let ?work = "case work_item (bt_work b) of None \<Rightarrow> [] | Some w \<Rightarrow> [w]"
  let ?queues = "map (\<lambda>(k, q). (k, q_queue q)) (cm_map (bt_batches b))"
  let ?keys = "map (\<lambda>m. (ms_BatchKey (h m), [m]))"
  have keys: "keyed (?keys ms) k = of_key h k ms" for k ms
    by (induction ms) auto
  have dist: "distinct (map fst ?queues)"
    using assms by (simp add: bt_inv_def bt_shape_def cmap_ok_def comp_def split_def)
  have queue: "keyed ?queues k = queued b k" for k
    unfolding keyed_map_of [OF dist] by (auto simp: queued_def map_get_def map_of_map split: option.splits)
  have "keyed (map snd (bt_delivered b)) k = handed_over (bt_delivered b) k" for k
    by (simp add: keyed_def handed_over_def comp_def split_def)
  moreover have "keyed ?work k = in_work b k" for k
    by (auto simp: in_work_def split: option.splits)
  moreover have "account h b k = of_key h k (bt_received b)" for k using assms by (simp add: bt_inv_def)
  ultimately have "keyed (map snd (bt_delivered b) @ ?work @ ?queues @ ?keys (bt_incoming b)) k = keyed (?keys (bt_received b)) k" for k
    by (simp add: queue keys account_def)
  then have "mset (concat (map snd (map snd (bt_delivered b) @ ?work @ ?queues @ ?keys (bt_incoming b)))) =
      mset (concat (map snd (?keys (bt_received b))))"
    by (intro keyed_mset) (rule arg_cong [where f = mset])
  moreover have "concat (map snd (?keys ms)) = ms" for ms by (induction ms) auto
  moreover have "concat (map snd ?work) = (case work_item (bt_work b) of None \<Rightarrow> [] | Some (k, xs) \<Rightarrow> xs)"
    by (auto split: option.splits)
  ultimately show ?thesis
    by (simp add: delivered_msgs_def batcher_msgs_def comp_def split_def add.assoc)
qed

text \<open>
  The zones of a pipeline: not yet in a reply, replied and not yet received by a processor,
  received and not sent on, sent to a batcher. A message's zone is determined by the logs.
\<close>

fun zone :: "place \<Rightarrow> nat" where
  "zone (In_Producer i) = 0" | "zone (Given_Up i) = 0"
| "zone (On_Wire j) = 1"
| "zone (In_Processor j) = 2" | "zone (Left_Over j) = 2" | "zone (Acknowledged j) = 2" | "zone (Skipped j) = 2"
| "zone (On_Link n) = 3" | "zone (In_Batcher n) = 3" | "zone (Handed_Over n) = 3"

fun place_worker :: "place \<Rightarrow> string" where
  "place_worker (In_Producer i) = i" | "place_worker (Given_Up i) = i"
| "place_worker (On_Wire j) = j"
| "place_worker (In_Processor j) = j" | "place_worker (Left_Over j) = j" | "place_worker (Acknowledged j) = j" | "place_worker (Skipped j) = j"
| "place_worker (On_Link n) = n" | "place_worker (In_Batcher n) = n" | "place_worker (Handed_Over n) = n"

definition msgs_zone :: "'a flow \<Rightarrow> msg_ref \<Rightarrow> nat" where
  "msgs_zone s m = (if m \<notin> set (reply_msgs s) then 0 else if \<forall>j. m \<notin> set (mp_received (fw_processors s j)) then 1
     else if m \<notin> set (send_msgs s) then 2 else 3)"

definition processor_sends :: "'a flow \<Rightarrow> string \<Rightarrow> msg_ref list" where
  "processor_sends s j = concat (map snd (pv_sent (mp_env (fw_processors s j))))"

lemma parts3:
  assumes "mset xs + mset ys + mset zs = mset ws" and "distinct ws"
  shows "distinct (xs @ ys @ zs)" and "set ws = set xs \<union> set ys \<union> set zs"
proof -
  have m: "mset (xs @ ys @ zs) = mset ws" using assms(1) by (simp add: add.assoc)
  then show "distinct (xs @ ys @ zs)" using assms(2) by (metis mset_eq_imp_distinct_iff)
  from m have "set (xs @ ys @ zs) = set ws" by (rule mset_eq_setD)
  then show "set ws = set xs \<union> set ys \<union> set zs" by auto
qed

lemma made_facts:
  assumes po: "producers_ok pb owners s"
  shows "made s i = map snd (pr_produced (fw_producers s i))" and "i \<noteq> i' \<Longrightarrow> set (made s i) \<inter> set (made s i') = {}"
    and "m \<in> set (all_msgs s) \<Longrightarrow> \<exists>i. m \<in> set (made s i)" and "distinct (made s i)" and "set (made s i) \<subseteq> set (all_msgs s)"
proof -
  have t: "map (snd \<circ> snd) (filter (\<lambda>(i', k, m). i' = i) xs) = map snd (tagged i xs)" for i and xs :: "(string \<times> string \<times> msg_ref) list"
    by (simp add: tagged_def split_def)
  then show 1: "made s i = map snd (pr_produced (fw_producers s i))" for i using po by (simp add: made_def producers_ok_def)
  have one: "concat (map (\<lambda>(k, m). [m]) xs) = map snd xs" for xs :: "(string \<times> msg_ref) list"
    by (induction xs) auto
  let ?gs = "map (\<lambda>(i, x). (i, (\<lambda>(k, m). [m]) x)) (fw_produced s)"
  have k: "keyed ?gs i = made s i" for i unfolding tagged_keyed [symmetric] made_def t one ..
  have all: "concat (map snd ?gs) = all_msgs s" unfolding all_msgs_concat by (simp add: comp_def split_def)
  have d: "distinct (concat (map snd ?gs))" unfolding all using po by (simp add: producers_ok_def)
  show "i \<noteq> i' \<Longrightarrow> set (made s i) \<inter> set (made s i') = {}" using keyed_disjoint [OF d, of i i'] unfolding k .
  show "m \<in> set (all_msgs s) \<Longrightarrow> \<exists>i. m \<in> set (made s i)" using keyed_cover [of m ?gs] unfolding k all .
  show "distinct (made s i)" using keyed_distinct [OF d, of i] unfolding k .
  show "set (made s i) \<subseteq> set (all_msgs s)" using keyed_sub [of ?gs i] unfolding k all .
qed

lemma producer_parts:
  assumes po: "producers_ok pb owners s"
  shows "distinct (sent_msgs (fw_producers s i) @ at_place s (In_Producer i) @ at_place s (Given_Up i))"
    and "set (made s i) = set (sent_msgs (fw_producers s i)) \<union> set (at_place s (In_Producer i)) \<union> set (at_place s (Given_Up i))"
    and "m \<in> set (made s i) \<Longrightarrow> m \<in> set (reply_msgs s) \<longleftrightarrow> m \<in> set (sent_msgs (fw_producers s i))"
proof -
  have "pr_inv pb owners (fw_producers s i)" for i using po by (simp add: producers_ok_def)
  note p = parts3 [OF pr_inv_messages [OF this] made_facts(4) [OF po, unfolded made_facts(1) [OF po]]]
  show "distinct (sent_msgs (fw_producers s i) @ at_place s (In_Producer i) @ at_place s (Given_Up i))"
    using p(1) by (simp add: at_place_def)
  have made: "set (made s i) = set (sent_msgs (fw_producers s i)) \<union> set (at_place s (In_Producer i)) \<union> set (at_place s (Given_Up i))" for i
    unfolding made_facts(1) [OF po] at_place_def place.case by (rule p(2))
  show "set (made s i) = set (sent_msgs (fw_producers s i)) \<union> set (at_place s (In_Producer i)) \<union> set (at_place s (Given_Up i))"
    by (rule made)
  let ?f = "\<lambda>(j, k, ms). ms" and ?gs = "map (\<lambda>(i, x). (i, (\<lambda>(j, k, ms). ms) x)) (fw_replied s)"
  have k: "keyed ?gs i = sent_msgs (fw_producers s i)" for i
    using po by (simp add: tagged_keyed [symmetric] sent_msgs_replies producers_ok_def)
  have all: "concat (map snd ?gs) = reply_msgs s" by (simp add: reply_msgs_def comp_def split_def)
  assume m: "m \<in> set (made s i)"
  show "m \<in> set (reply_msgs s) \<longleftrightarrow> m \<in> set (sent_msgs (fw_producers s i))"
  proof
    assume "m \<in> set (reply_msgs s)"
    then obtain i' where i': "m \<in> set (sent_msgs (fw_producers s i'))" using keyed_cover [of m ?gs] unfolding k all by blast
    then have "m \<in> set (made s i')" using made by blast
    with m made_facts(2) [OF po, of i i'] i' show "m \<in> set (sent_msgs (fw_producers s i))" by blast
  qed (use keyed_sub [of ?gs i] in \<open>unfold k all, blast\<close>)
qed

lemma processor_parts:
  assumes inv: "fw_inv c pb owners s"
  shows "distinct (processor_sends s j @ at_place s (Acknowledged j) @ at_place s (Skipped j) @ at_place s (Left_Over j) @
      at_place s (In_Processor j))"
    and "set (mp_received (fw_processors s j)) = set (processor_sends s j) \<union> set (at_place s (Acknowledged j)) \<union>
      set (at_place s (Skipped j)) \<union> set (at_place s (Left_Over j)) \<union> set (at_place s (In_Processor j))"
    and "m \<in> set (mp_received (fw_processors s j)) \<Longrightarrow> m \<in> set (send_msgs s) \<longleftrightarrow> m \<in> set (processor_sends s j)"
proof -
  have po: "producers_ok pb owners s" and ps: "processors_ok s" using inv by (simp_all add: fw_inv_def)
  have i: "mp_inv (processor_at s j)" for j using ps by (simp add: processors_ok_def)
  have m: "mset (processor_sends s j @ at_place s (Acknowledged j) @ at_place s (Skipped j) @ at_place s (Left_Over j) @
      at_place s (In_Processor j)) = mset (mp_received (fw_processors s j))" for j
  proof -
    have "mset (settled (mp_env (fw_processors s j))) + mset (mp_dropped (fw_processors s j)) +
        mset (unresolved (fw_processors s j)) = mset (mp_received (fw_processors s j))"
      using i [of j] by (simp add: mp_inv_def processor_at_def)
    then show ?thesis by (simp add: at_place_def processor_sends_def settled_def ac_simps)
  qed
  moreover have "distinct (mp_received (fw_processors s j))" for j using i [of j] by (simp add: mp_inv_def processor_at_def)
  ultimately show "distinct (processor_sends s j @ at_place s (Acknowledged j) @ at_place s (Skipped j) @ at_place s (Left_Over j) @
      at_place s (In_Processor j))" by (metis mset_eq_imp_distinct_iff)
  have r: "set (mp_received (fw_processors s j)) = set (processor_sends s j) \<union> set (at_place s (Acknowledged j)) \<union>
      set (at_place s (Skipped j)) \<union> set (at_place s (Left_Over j)) \<union> set (at_place s (In_Processor j))" for j
    using mset_eq_setD [OF m [of j]] by auto
  show "set (mp_received (fw_processors s j)) = set (processor_sends s j) \<union> set (at_place s (Acknowledged j)) \<union>
      set (at_place s (Skipped j)) \<union> set (at_place s (Left_Over j)) \<union> set (at_place s (In_Processor j))" by (rule r)
  let ?gs = "map (\<lambda>(j, x). (j, snd x)) (fw_sent s)"
  have k: "keyed ?gs j = processor_sends s j" for j
    using ps by (simp add: tagged_keyed [symmetric] processors_ok_def processor_sends_def)
  have all: "concat (map snd ?gs) = send_msgs s" by (simp add: send_msgs_def comp_def split_def)
  assume mj: "m \<in> set (mp_received (fw_processors s j))"
  show "m \<in> set (send_msgs s) \<longleftrightarrow> m \<in> set (processor_sends s j)"
  proof
    assume "m \<in> set (send_msgs s)"
    then obtain j' where j': "m \<in> set (processor_sends s j')" using keyed_cover [of m ?gs] unfolding k all by blast
    then have "m \<in> set (mp_received (fw_processors s j'))" using r by blast
    with mj received_facts(4) [OF po ps, of j j'] j' show "m \<in> set (processor_sends s j)" by blast
  qed (use keyed_sub [of ?gs j] in \<open>unfold k all, blast\<close>)
qed

lemma link_parts:
  assumes inv: "fw_inv c pb owners s"
  shows "distinct (at_place s (On_Link n) @ at_place s (In_Batcher n) @ at_place s (Handed_Over n))"
    and "set (handed s n) = set (at_place s (On_Link n)) \<union> set (at_place s (In_Batcher n)) \<union> set (at_place s (Handed_Over n))"
    and "n \<noteq> n' \<Longrightarrow> set (handed s n) \<inter> set (handed s n') = {}"
    and "set (handed s n) \<subseteq> set (send_msgs s)" and "m \<in> set (send_msgs s) \<Longrightarrow> \<exists>n. m \<in> set (handed s n)"
proof -
  have po: "producers_ok pb owners s" and ps: "processors_ok s" and bo: "batchers_ok c s"
    using inv by (simp_all add: fw_inv_def)
  let ?gs = "map snd (fw_sent s)"
  have all: "concat (map snd ?gs) = send_msgs s" by (simp add: send_msgs_def comp_def split_def)
  have d: "distinct (concat (map snd ?gs))" unfolding all by (rule sends_replied(2) [OF po ps])
  show "n \<noteq> n' \<Longrightarrow> set (handed s n) \<inter> set (handed s n') = {}" unfolding handed_def by (rule keyed_disjoint [OF d])
  show "set (handed s n) \<subseteq> set (send_msgs s)" using keyed_sub [of ?gs n] unfolding all handed_def .
  show "m \<in> set (send_msgs s) \<Longrightarrow> \<exists>n. m \<in> set (handed s n)" using keyed_cover [of m ?gs] unfolding all handed_def .
  have "bt_inv (fw_heap s) (fw_batchers s n)" using bo by (auto simp: batchers_ok_def intro: bt_inv_reaches)
  from batcher_parts [OF this] have "mset (at_place s (On_Link n)) + mset (at_place s (In_Batcher n)) + mset (at_place s (Handed_Over n)) =
      mset (bt_received (fw_batchers s n) @ concat (fw_link s n))"
    by (simp add: at_place_def ac_simps)
  also have "\<dots> = mset (handed s n)" using bo by (simp add: batchers_ok_def)
  finally have "mset (at_place s (On_Link n)) + mset (at_place s (In_Batcher n)) + mset (at_place s (Handed_Over n)) = mset (handed s n)" .
  moreover have "distinct (handed s n)" unfolding handed_def by (rule keyed_distinct [OF d])
  ultimately show "distinct (at_place s (On_Link n) @ at_place s (In_Batcher n) @ at_place s (Handed_Over n))"
    and "set (handed s n) = set (at_place s (On_Link n)) \<union> set (at_place s (In_Batcher n)) \<union> set (at_place s (Handed_Over n))"
    by (rule parts3)+
qed

lemma place_zone:
  assumes inv: "fw_inv c pb owners s" and m: "m \<in> set (at_place s pl)"
  shows "zone pl = msgs_zone s m" and "m \<in> set (all_msgs s)"
    and "zone pl = 0 \<Longrightarrow> m \<in> set (made s (place_worker pl))"
    and "zone pl = 1 \<Longrightarrow> m \<in> set (routed s (place_worker pl))"
    and "zone pl = 2 \<Longrightarrow> m \<in> set (mp_received (fw_processors s (place_worker pl)))"
    and "zone pl = 3 \<Longrightarrow> m \<in> set (handed s (place_worker pl))"
proof -
  have po: "producers_ok pb owners s" and ps: "processors_ok s" using inv by (simp_all add: fw_inv_def)
  have rep: "set (reply_msgs s) \<subseteq> set (all_msgs s)" "set (send_msgs s) \<subseteq> set (reply_msgs s)"
    using replies_produced(1) [OF po] sends_replied(1) [OF po ps] by (metis set_mset_mono set_mset_mset)+
  have rt: "set (routed s j) \<subseteq> set (reply_msgs s)" for j
    unfolding routed_keyed reply_msgs_keyed by (rule keyed_sub)
  have rc: "set (mp_received (fw_processors s j)) \<subseteq> set (reply_msgs s)" for j
    using rt [of j] received_facts(1) [OF po ps, of j] by blast
  have sr: "\<exists>j. x \<in> set (mp_received (fw_processors s j))" if x: "x \<in> set (send_msgs s)" for x
  proof -
    obtain n where "x \<in> set (handed s n)" using link_parts(5) [OF inv x] by blast
    with sends_replied(3) [OF po ps] obtain j where "x \<in> set (processor_sends s j)" unfolding processor_sends_def by blast
    with processor_parts(2) [OF inv] show ?thesis by blast
  qed
  have "zone pl = msgs_zone s m \<and> m \<in> set (all_msgs s) \<and> (zone pl = 0 \<longrightarrow> m \<in> set (made s (place_worker pl))) \<and>
      (zone pl = 1 \<longrightarrow> m \<in> set (routed s (place_worker pl))) \<and>
      (zone pl = 2 \<longrightarrow> m \<in> set (mp_received (fw_processors s (place_worker pl)))) \<and>
      (zone pl = 3 \<longrightarrow> m \<in> set (handed s (place_worker pl)))"
  proof (cases "zone pl = 0")
    case True
    then obtain i where i: "pl = In_Producer i \<or> pl = Given_Up i" by (cases pl) auto
    then have "m \<in> set (made s i)" and "m \<notin> set (sent_msgs (fw_producers s i))"
      using m producer_parts(1,2) [OF po, of i] by auto
    with i producer_parts(3) [OF po, of m i] made_facts(5) [OF po, of i] show ?thesis by (auto simp: msgs_zone_def)
  next
    case nz: False
    show ?thesis
    proof (cases "zone pl = 1")
      case True
      then obtain j where j: "pl = On_Wire j" by (cases pl) auto
      then have "m \<in> set (routed s j)" and nr: "m \<notin> set (mp_received (fw_processors s j))"
        using m received_facts(1,2) [OF po ps, of j] by (auto simp: at_place_def)
      moreover from this have "m \<notin> set (mp_received (fw_processors s j'))" for j'
        using routed_facts(3) [OF po, of j j'] received_facts(1) [OF po ps, of j'] by (cases "j' = j") blast+
      ultimately show ?thesis using j rt [of j] rep(1) by (auto simp: msgs_zone_def)
    next
      case no: False
      show ?thesis
      proof (cases "zone pl = 2")
        case True
        then obtain j where j: "pl = In_Processor j \<or> pl = Left_Over j \<or> pl = Acknowledged j \<or> pl = Skipped j" by (cases pl) auto
        have "m \<notin> set (processor_sends s j)" using j m processor_parts(1) [OF inv, of j] by auto
        moreover have r: "m \<in> set (mp_received (fw_processors s j))" using j m processor_parts(2) [OF inv, of j] by auto
        ultimately have "m \<notin> set (send_msgs s)" using processor_parts(3) [OF inv, of m j] by simp
        with j r rc [of j] rep(1) show ?thesis by (auto simp: msgs_zone_def)
      next
        case False
        with nz no obtain n where n: "pl = On_Link n \<or> pl = In_Batcher n \<or> pl = Handed_Over n" by (cases pl) auto
        have h: "m \<in> set (handed s n)" using n m link_parts(2) [OF inv, of n] by auto
        then have "m \<in> set (send_msgs s)" using link_parts(4) [OF inv, of n] by blast
        with n h sr [of m] rep show ?thesis by (auto simp: msgs_zone_def)
      qed
    qed
  qed
  then show "zone pl = msgs_zone s m" and "m \<in> set (all_msgs s)"
    and "zone pl = 0 \<Longrightarrow> m \<in> set (made s (place_worker pl))"
    and "zone pl = 1 \<Longrightarrow> m \<in> set (routed s (place_worker pl))"
    and "zone pl = 2 \<Longrightarrow> m \<in> set (mp_received (fw_processors s (place_worker pl)))"
    and "zone pl = 3 \<Longrightarrow> m \<in> set (handed s (place_worker pl))" by blast+
qed

lemma zone_cases: "zone pl = 0 \<or> zone pl = 1 \<or> zone pl = 2 \<or> zone pl = 3"
  by (cases pl) simp_all

lemma place_unique:
  assumes inv: "fw_inv c pb owners s" and m: "m \<in> set (at_place s pl)" "m \<in> set (at_place s pl')"
  shows "pl = pl'"
proof -
  have po: "producers_ok pb owners s" and ps: "processors_ok s" using inv by (simp_all add: fw_inv_def)
  note z = place_zone [OF inv m(1)] and z' = place_zone [OF inv m(2)]
  have zone: "zone pl' = zone pl" using z(1) z'(1) by simp
  have w: "place_worker pl' = place_worker pl"
  proof (rule ccontr)
    assume ne: "place_worker pl' \<noteq> place_worker pl"
    show False using zone_cases [of pl]
    proof (elim disjE)
      assume "zone pl = 0"
      then show False using z(3) z'(3) zone made_facts(2) [OF po ne] by auto
    next
      assume "zone pl = 1"
      then show False using z(4) z'(4) zone routed_facts(3) [OF po ne] by auto
    next
      assume "zone pl = 2"
      then show False using z(5) z'(5) zone received_facts(4) [OF po ps ne] by auto
    next
      assume "zone pl = 3"
      then show False using z(6) z'(6) zone link_parts(3) [OF inv ne] by auto
    qed
  qed
  show ?thesis
    using zone w m producer_parts(1) [OF po, of "place_worker pl"] processor_parts(1) [OF inv, of "place_worker pl"]
      link_parts(1) [OF inv, of "place_worker pl"]
    by (cases pl; cases pl') auto
qed

lemma place_distinct:
  assumes inv: "fw_inv c pb owners s"
  shows "distinct (at_place s pl)"
proof -
  have po: "producers_ok pb owners s" and ps: "processors_ok s" using inv by (simp_all add: fw_inv_def)
  show ?thesis
    using producer_parts(1) [OF po, of "place_worker pl"] processor_parts(1) [OF inv, of "place_worker pl"]
      link_parts(1) [OF inv, of "place_worker pl"] received_facts(3) [OF po ps, of "place_worker pl"]
    by (cases pl) (simp_all, simp add: at_place_def)
qed

lemma place_exists:
  assumes inv: "fw_inv c pb owners s" and m: "m \<in> set (all_msgs s)"
  shows "\<exists>pl. m \<in> set (at_place s pl)"
proof -
  have po: "producers_ok pb owners s" and ps: "processors_ok s" using inv by (simp_all add: fw_inv_def)
  obtain i where i: "m \<in> set (made s i)" using made_facts(3) [OF po m] by blast
  show ?thesis
  proof (cases "m \<in> set (reply_msgs s)")
    case False
    then have "m \<in> set (at_place s (In_Producer i)) \<or> m \<in> set (at_place s (Given_Up i))"
      using i producer_parts(2) [OF po, of i] producer_parts(3) [OF po i] by blast
    then show ?thesis by blast
  next
    case True
    then obtain j where "m \<in> set (routed s j)" unfolding routed_keyed reply_msgs_keyed using keyed_cover by blast
    then consider "m \<in> set (wire_msgs s j)" | "m \<in> set (mp_received (fw_processors s j))"
      using received_facts(1) [OF po ps, of j] by blast
    then show ?thesis
    proof cases
      case 1
      then have "m \<in> set (at_place s (On_Wire j))" by (simp add: at_place_def)
      then show ?thesis ..
    next
      case 2
      show ?thesis
      proof (cases "m \<in> set (send_msgs s)")
        case True
        then obtain n where "m \<in> set (handed s n)" using link_parts(5) [OF inv] by blast
        then show ?thesis using link_parts(2) [OF inv, of n] by blast
      next
        case False
        then have "m \<notin> set (processor_sends s j)" using processor_parts(3) [OF inv 2] by simp
        then show ?thesis using 2 processor_parts(2) [OF inv, of j] by blast
      qed
    qed
  qed
qed

text \<open>
  Claim C6. In every run of a pipeline, with any numbers of producers, message processors and
  batchers, any interleaving of their goroutines, any handlers, panics, pauses, replacements and
  refusals: every message that a producer has produced is at exactly one place, exactly once. So
  no message vanishes between two stages, is delivered twice, is acknowledged by a processor and
  also batched, or is batched twice or by two batchers.
\<close>

theorem pipeline_accounting:
  assumes "reaches (fw_step partitionBy owners prompt) (fw_start c) s" and "\<And>n. distinct (fc_ids c n)"
  shows "(\<forall>pl. distinct (at_place s pl) \<and> set (at_place s pl) \<subseteq> set (all_msgs s)) \<and>
    (\<forall>m \<in> set (all_msgs s). \<exists>!pl. m \<in> set (at_place s pl))"
proof -
  have inv: "fw_inv c partitionBy owners s" by (rule fw_inv_reaches [OF assms])
  show ?thesis
    using place_distinct [OF inv] place_zone(2) [OF inv] place_exists [OF inv] place_unique [OF inv] by blast
qed

section \<open>When everything has come to rest\<close>

text \<open>
  No message waits in a producer, on its way to a processor, in a processor or on its way to a
  batcher, and every batcher that has received something is done. What a producer gave up when it
  ended and what a panic in \<open>flush\<close> lost waits no more.
\<close>

definition at_rest :: "'a flow \<Rightarrow> bool" where
  "at_rest s \<longleftrightarrow>
     (\<forall>w. at_place s (In_Producer w) = [] \<and> at_place s (On_Wire w) = [] \<and>
          at_place s (In_Processor w) = [] \<and> at_place s (On_Link w) = []) \<and>
     (\<forall>n. bt_received (fw_batchers s n) \<noteq> [] \<longrightarrow> bt_phase (fw_batchers s n) = BT_Done)"

lemma batch_acknowledged:
  assumes fl: "flow_inv h b" and d: "bt_phase b = BT_Done" and m: "m \<in> set (delivered_msgs b)"
  shows "\<exists>i k batch p res. (i, k, batch) \<in> set (bt_delivered b) \<and> m \<in> set batch \<and> bt_procs b i = Some p \<and>
    (batch, res) \<in> set (zip (bp_accepted p) (bp_results p)) \<and> set (bp_expected h i batch res) \<subseteq> set (bp_acks p)"
proof -
  obtain i k batch where e: "(i, k, batch) \<in> set (bt_delivered b)" "m \<in> set batch"
    using m by (auto simp: delivered_msgs_def)
  have po: "procs_ok h b" using fl by (simp add: flow_inv_def)
  have b: "batch \<in> set (batches_of i (bt_delivered b))" using e(1) by (force simp: batches_of_def)
  then obtain p where p: "bt_procs b i = Some p" using po by (cases "bt_procs b i") (auto simp: procs_ok_def)
  with b have "batch \<in> set (bp_accepted p)" using procs_okD(2) [OF po p] by simp
  then obtain l where l: "l < length (bp_accepted p)" "bp_accepted p ! l = batch" by (auto simp: in_set_conv_nth)
  note a = done_acknowledged [OF fl p d]
  let ?res = "bp_results p ! l"
  have z: "(batch, ?res) \<in> set (zip (bp_accepted p) (bp_results p))" using l a(1) by (auto simp: set_zip)
  then have "set (bp_expected h i batch ?res) \<subseteq> set (bp_acks p)" unfolding a(2) by (force simp: split_def)
  with e p z show ?thesis by blast
qed

lemma given_up_ended:
  assumes "fw_inv c pb owners s" and "pr_dropped (fw_producers s i) \<noteq> []"
  shows "pr_terminated (fw_producers s i) \<or> pr_phase (fw_producers s i) \<noteq> PR_Loop"
proof -
  have "pr_inv pb owners (fw_producers s i)" using assms(1) by (simp add: fw_inv_def producers_ok_def)
  then show ?thesis using assms(2) by (auto simp: pr_inv_def)
qed

lemma left_over_panicked:
  assumes "fw_inv c pb owners s" and "mp_dropped (fw_processors s j) \<noteq> []"
  shows "\<not> running (mp_phase (fw_processors s j))"
proof -
  have "mp_inv (processor_at s j)" using assms(1) by (simp add: fw_inv_def processors_ok_def)
  then show ?thesis using assms(2) by (auto simp: mp_inv_def processor_at_def with_heap_def)
qed

lemma rest_message:
  assumes inv: "fw_inv c pb owners s" and ids: "\<And>n. distinct (fc_ids c n)" and d: "at_rest s" and m: "m \<in> set (all_msgs s)"
  shows "(\<exists>j. m \<in> set (at_place s (Acknowledged j))) \<or> (\<exists>j. m \<in> set (at_place s (Skipped j))) \<or>
    (\<exists>i. m \<in> set (at_place s (Given_Up i))) \<or> (\<exists>j. m \<in> set (at_place s (Left_Over j))) \<or>
    (\<exists>n. m \<in> set (delivered_msgs (fw_batchers s n)) \<and> bt_phase (fw_batchers s n) = BT_Done \<and> flow_inv (fw_heap s) (fw_batchers s n))"
proof -
  obtain pl where pl: "m \<in> set (at_place s pl)" using place_exists [OF inv m] by blast
  have bo: "batchers_ok c s" using inv by (simp add: fw_inv_def)
  have batcher: ?thesis if n: "pl = In_Batcher n \<or> pl = Handed_Over n" for n
  proof -
    have b: "bt_inv (fw_heap s) (fw_batchers s n)" and fl: "flow_inv (fw_heap s) (fw_batchers s n)"
      using bo by (auto simp: batchers_ok_def intro: bt_inv_reaches flow_reaches [OF _ ids])
    have "mset (delivered_msgs (fw_batchers s n) @ batcher_msgs (fw_batchers s n)) = mset (bt_received (fw_batchers s n))"
      using batcher_parts [OF b] by simp
    note received = mset_eq_setD [OF this]
    have "m \<in> set (delivered_msgs (fw_batchers s n) @ batcher_msgs (fw_batchers s n))" using n pl by (auto simp: at_place_def)
    then have "m \<in> set (bt_received (fw_batchers s n))" unfolding received .
    then have "bt_received (fw_batchers s n) \<noteq> []" by auto
    with d have dn: "bt_phase (fw_batchers s n) = BT_Done" by (simp add: at_rest_def)
    then have "batcher_msgs (fw_batchers s n) = []"
      using b by (auto simp: batcher_msgs_def bt_inv_def bt_shape_def flushing_def flushed_def)
    with n pl have "m \<in> set (delivered_msgs (fw_batchers s n))" by (auto simp: at_place_def)
    with dn fl show ?thesis by blast
  qed
  show ?thesis
    using pl d batcher by (cases pl) (auto simp: at_rest_def)
qed

text \<open>
  Claim C11. When a pipeline has come to rest (\<open>at_rest\<close>: no message waits in a producer, a
  processor or between the stages, and every batcher that received something is done), every message that
  was produced has had one of these ends: a processor has acknowledged it; it names a batcher that
  does not exist; it is in a batch that a batch processor has handled and acknowledged with the
  result of its handler or with its panic; its producer ended and gave it up; or a processor
  lost it when \<open>flush\<close> panicked.
\<close>

theorem rest_acknowledges:
  assumes "reaches (fw_step partitionBy owners prompt) (fw_start c) s" and "\<And>n. distinct (fc_ids c n)"
    and "at_rest s" and "m \<in> set (all_msgs s)"
  shows "(\<exists>j call. call \<in> set (pv_acks (mp_env (fw_processors s j))) \<and> m \<in> set (ac_msgs call)) \<or>
    (\<exists>j. m \<in> set (pv_skipped (mp_env (fw_processors s j)))) \<or>
    (\<exists>n i k batch p res. (i, k, batch) \<in> set (bt_delivered (fw_batchers s n)) \<and> m \<in> set batch \<and>
       bt_procs (fw_batchers s n) i = Some p \<and> (batch, res) \<in> set (zip (bp_accepted p) (bp_results p)) \<and>
       set (bp_expected (fw_heap s) i batch res) \<subseteq> set (bp_acks p)) \<or>
    (\<exists>i. m \<in> set (group_msgs (pr_dropped (fw_producers s i))) \<and>
       (pr_terminated (fw_producers s i) \<or> pr_phase (fw_producers s i) \<noteq> PR_Loop)) \<or>
    (\<exists>j. m \<in> set (mp_dropped (fw_processors s j)) \<and> \<not> running (mp_phase (fw_processors s j)))"
proof -
  have inv: "fw_inv c partitionBy owners s" by (rule fw_inv_reaches [OF assms(1,2)])
  from rest_message [OF inv assms(2-4)] show ?thesis
  proof (elim disjE exE conjE)
    fix n assume "m \<in> set (delivered_msgs (fw_batchers s n))" "bt_phase (fw_batchers s n) = BT_Done"
      "flow_inv (fw_heap s) (fw_batchers s n)"
    from batch_acknowledged [OF this(3,2,1)] show ?thesis by blast
  next
    fix i assume "m \<in> set (at_place s (Given_Up i))"
    moreover from this have "pr_terminated (fw_producers s i) \<or> pr_phase (fw_producers s i) \<noteq> PR_Loop"
      by (intro given_up_ended [OF inv]) (auto simp: at_place_def group_msgs_def)
    ultimately show ?thesis by (auto simp: at_place_def)
  next
    fix j assume "m \<in> set (at_place s (Left_Over j))"
    moreover from this have "\<not> running (mp_phase (fw_processors s j))"
      by (intro left_over_panicked [OF inv]) (auto simp: at_place_def)
    ultimately show ?thesis by (auto simp: at_place_def)
  qed (auto simp: at_place_def acked_msgs_def)
qed

end
