(* ===== verification/Flow_Order.thy ===== *)
theory Flow_Order
  imports Pipeline_Flow
begin

text \<open>
  The order of messages through a whole pipeline. When the response goroutines of a processor that
  serve the same producer act one after the other (\<open>prompt\<close>), the messages of a partition key reach
  the batch processors in the order in which the client produced them.
\<close>

section \<open>The order of the replies\<close>

definition wire_from :: "'a flow \<Rightarrow> string \<Rightarrow> string \<Rightarrow> msg_ref list" where
  "wire_from s j i = keyed (fw_wire s j) i"

definition replied_to :: "'a flow \<Rightarrow> string \<Rightarrow> string \<Rightarrow> msg_ref list" where
  "replied_to s i j = keyed (map (\<lambda>(j, k, ms). (j, ms)) (pr_replies (fw_producers s i))) j"

definition from_producer :: "'a flow \<Rightarrow> string \<Rightarrow> msg_ref list \<Rightarrow> msg_ref list" where
  "from_producer s i ms = filter (\<lambda>m. m \<in> set (made s i)) ms"

text \<open>
  What a processor has received from a producer, and then what is on its way, is what the producer
  has replied to it, in that order; what is enqueued or about to be is a part of it, in order, and
  at most one slice of each producer is about to be.
\<close>

definition order_ok :: "'a flow \<Rightarrow> bool" where
  "order_ok s \<longleftrightarrow> (\<forall>i j.
     from_producer s i (mp_received (fw_processors s j)) @ wire_from s j i = replied_to s i j \<and>
     subseq (from_producer s i (mp_enqueued (fw_processors s j) @ concat (mp_arriving (fw_processors s j))))
       (from_producer s i (mp_received (fw_processors s j))) \<and>
     length (filter (\<lambda>xs. set xs \<inter> set (made s i) \<noteq> {}) (mp_arriving (fw_processors s j))) \<le> 1 \<and>
     set (mp_enqueued (fw_processors s j)) \<subseteq> set (mp_received (fw_processors s j)))"

lemma from_producer_simps [simp]:
  "from_producer s i [] = []" "from_producer s i (xs @ ys) = from_producer s i xs @ from_producer s i ys"
  by (simp_all add: from_producer_def)

lemma from_producer_none: "set xs \<inter> set (made s i) = {} \<Longrightarrow> from_producer s i xs = []"
  by (auto simp: from_producer_def filter_empty_conv)

lemma from_producer_all: "set xs \<subseteq> set (made s i) \<Longrightarrow> from_producer s i xs = xs"
  by (auto simp: from_producer_def filter_id_conv)

lemma order_ok_same:
  assumes "order_ok s" and "fw_produced s' = fw_produced s" and "fw_producers s' = fw_producers s" and "fw_wire s' = fw_wire s"
    and "\<And>j. mp_received (fw_processors s' j) = mp_received (fw_processors s j)"
    and "\<And>j. mp_enqueued (fw_processors s' j) = mp_enqueued (fw_processors s j)"
    and "\<And>j. mp_arriving (fw_processors s' j) = mp_arriving (fw_processors s j)"
  shows "order_ok s'"
  using assms(1) unfolding order_ok_def from_producer_def made_def wire_from_def replied_to_def assms(2-7) .

lemma keyed_wire: "keyed (map (\<lambda>(j', k, ms). (i, ms)) (filter (\<lambda>(j', k, ms). j' = j) xs)) i' =
    (if i' = i then keyed (map (\<lambda>(j, k, ms). (j, ms)) xs) j else [])"
  by (induction xs) auto

lemma order_ok_produce:
  assumes inv: "fw_inv c pb owners s" and ok: "order_ok s"
    and st: "pr_step pb owners (producer_at s i) p" and fr: "produces_fresh s i p"
  shows "order_ok (produce s i p)"
proof -
  let ?s = "produce s i p"
  have po: "producers_ok pb owners s" and ps: "processors_ok s" using inv by (simp_all add: fw_inv_def)
  have replies: "pr_replies p = pr_replies (fw_producers s i) @ new_replies s i p"
    using pr_grow_replies [OF pr_grow_step [OF st]] unfolding new_replies_def by (auto simp: prefix_def)
  have made: "made ?s i' = made s i' @ (if i' = i then map snd (new_messages s i p) else [])" for i'
    by (auto simp: made_def produce_def filter_map comp_def split_def)
  have new: "set (map snd (new_messages s i p)) \<inter> set (all_msgs s) = {}" using fr by (simp add: produces_fresh_def Let_def)
  have M: "fw_processors ?s = fw_processors s" by (simp add: produce_def)
  have keep: "set xs \<inter> set (made ?s i') = set xs \<inter> set (made s i')"
    if "set xs \<subseteq> set (mp_received (fw_processors s j))" for xs j i'
    using that new received_all [OF po ps, of j] unfolding made by auto
  have fp: "from_producer ?s i' xs = from_producer s i' xs"
    if "set xs \<subseteq> set (mp_received (fw_processors s j))" for xs j i'
    unfolding from_producer_def using keep [OF that, of i'] by (intro filter_cong) auto
  have sub: "set (concat (mp_arriving (fw_processors s j))) \<subseteq> set (mp_received (fw_processors s j))"
    "set (mp_enqueued (fw_processors s j)) \<subseteq> set (mp_received (fw_processors s j))" for j
  proof -
    have "mp_inv (processor_at s j)" using ps by (simp add: processors_ok_def)
    from settled_received(2) [OF this] show "set (concat (mp_arriving (fw_processors s j))) \<subseteq> set (mp_received (fw_processors s j))"
      by (auto simp: processor_at_def unresolved_def)
    show "set (mp_enqueued (fw_processors s j)) \<subseteq> set (mp_received (fw_processors s j))" using ok by (simp add: order_ok_def)
  qed
  show ?thesis unfolding order_ok_def M
  proof (intro allI conjI)
    fix i' j
    have r: "from_producer ?s i' (mp_received (fw_processors s j)) = from_producer s i' (mp_received (fw_processors s j))"
      by (rule fp [of _ j]) simp
    have w: "wire_from ?s j i' = wire_from s j i' @ (if i' = i then keyed (map (\<lambda>(j, k, ms). (j, ms)) (new_replies s i p)) j else [])"
      by (simp add: wire_from_def produce_def keyed_wire)
    have t: "replied_to ?s i' j = replied_to s i' j @ (if i' = i then keyed (map (\<lambda>(j, k, ms). (j, ms)) (new_replies s i p)) j else [])"
      by (simp add: replied_to_def produce_def replies)
    have "from_producer s i' (mp_received (fw_processors s j)) @ wire_from s j i' = replied_to s i' j"
      using ok by (simp add: order_ok_def)
    then show "from_producer ?s i' (mp_received (fw_processors s j)) @ wire_from ?s j i' = replied_to ?s i' j"
      unfolding r w t by (simp flip: append_assoc)
    have "from_producer ?s i' (mp_enqueued (fw_processors s j) @ concat (mp_arriving (fw_processors s j))) =
        from_producer s i' (mp_enqueued (fw_processors s j) @ concat (mp_arriving (fw_processors s j)))"
      using sub by (intro fp [of _ j]) auto
    then show "subseq (from_producer ?s i' (mp_enqueued (fw_processors s j) @ concat (mp_arriving (fw_processors s j))))
        (from_producer ?s i' (mp_received (fw_processors s j)))"
      using ok unfolding r order_ok_def by simp
    have "filter (\<lambda>xs. set xs \<inter> set (made ?s i') \<noteq> {}) (mp_arriving (fw_processors s j)) =
        filter (\<lambda>xs. set xs \<inter> set (made s i') \<noteq> {}) (mp_arriving (fw_processors s j))"
    proof (rule filter_cong [OF refl])
      fix xs assume "xs \<in> set (mp_arriving (fw_processors s j))"
      then have "set xs \<subseteq> set (mp_received (fw_processors s j))" using sub(1) [of j] by auto
      from keep [OF this] show "(set xs \<inter> set (made ?s i') \<noteq> {}) = (set xs \<inter> set (made s i') \<noteq> {})" by simp
    qed
    then show "length (filter (\<lambda>xs. set xs \<inter> set (made ?s i') \<noteq> {}) (mp_arriving (fw_processors s j))) \<le> 1"
      using ok by (simp add: order_ok_def)
    show "set (mp_enqueued (fw_processors s j)) \<subseteq> set (mp_received (fw_processors s j))" by (rule sub(2))
  qed
qed

text \<open>What is on the wire from a producer is that producer's.\<close>

lemma wire_made:
  assumes inv: "fw_inv c pb owners s" and ok: "order_ok s" and w: "(i, ms) \<in> set (fw_wire s j)"
  shows "set ms \<subseteq> set (made s i)"
proof -
  have po: "producers_ok pb owners s" using inv by (simp add: fw_inv_def)
  have "set ms \<subseteq> set (wire_from s j i)" using w unfolding wire_from_def keyed_def by force
  also have "\<dots> \<subseteq> set (replied_to s i j)" using ok unfolding order_ok_def by (metis Un_upper2 set_append)
  also have "\<dots> \<subseteq> set (sent_msgs (fw_producers s i))"
    using keyed_sub [of "map (\<lambda>(j, k, ms). (j, ms)) (pr_replies (fw_producers s i))" j]
    by (simp add: replied_to_def sent_msgs_replies comp_def split_def)
  also have "\<dots> \<subseteq> set (made s i)" using producer_parts(2) [OF po, of i] by blast
  finally show ?thesis .
qed

lemma keyed_remove1:
  "keyed (remove1 (i, ms) gs) k = (if k = i then keyed (remove1 (i, ms) gs) i else keyed gs k)"
  by (induction gs) auto

lemma keyed_first: "find (\<lambda>(i', _). i' = i) gs = Some (i, ms) \<Longrightarrow> keyed gs i = ms @ keyed (remove1 (i, ms) gs) i"
  by (induction gs) (auto split: if_splits)

lemma order_ok_respond:
  assumes inv: "fw_inv c pb owners s" and ok: "order_ok s" and w: "(i, ms) \<in> set (fw_wire s j)"
    and turn: "in_turn s j i ms" and r: "mp_respond (processor_at s j) ms = Inr p"
  shows "order_ok (s\<lparr>fw_processors := (fw_processors s)(j := p), fw_wire := (fw_wire s)(j := remove1 (i, ms) (fw_wire s j))\<rparr>)"
    (is "order_ok ?s")
proof -
  have po: "producers_ok pb owners s" using inv by (simp add: fw_inv_def)
  have made: "made ?s i' = made s i'" for i' by (simp add: made_def)
  have fp: "from_producer ?s i' xs = from_producer s i' xs" for i' xs by (simp add: from_producer_def made)
  note ms = wire_made [OF inv ok w]
  have mine: "from_producer s i' ms = (if i' = i then ms else [])" for i'
    using ms made_facts(2) [OF po, of i i'] from_producer_all [OF ms] by (auto intro!: from_producer_none)
  have p: "mp_received p = mp_received (fw_processors s j) @ ms" "mp_enqueued p = mp_enqueued (fw_processors s j)"
    "mp_arriving p = mp_arriving (fw_processors s j) \<or> mp_arriving p = mp_arriving (fw_processors s j) @ [ms]"
    using r by (auto simp: mp_respond_def go_bind_Inr_iff processor_at_def split: if_splits option.splits)
  have first: "keyed (fw_wire s j) i = ms @ keyed (remove1 (i, ms) (fw_wire s j)) i"
    by (rule keyed_first) (use turn in \<open>simp add: in_turn_def\<close>)
  show ?thesis unfolding order_ok_def fp made
  proof (intro allI)
    fix i' j'
    let ?M = "fw_processors s j'" and ?M' = "fw_processors ?s j'"
    have old: "from_producer s i' (mp_received ?M) @ wire_from s j' i' = replied_to s i' j'"
      "subseq (from_producer s i' (mp_enqueued ?M @ concat (mp_arriving ?M))) (from_producer s i' (mp_received ?M))"
      "length (filter (\<lambda>xs. set xs \<inter> set (made s i') \<noteq> {}) (mp_arriving ?M)) \<le> 1"
      "set (mp_enqueued ?M) \<subseteq> set (mp_received ?M)"
      using ok by (simp_all add: order_ok_def)
    have t: "replied_to ?s i' j' = replied_to s i' j'" for j' by (simp add: replied_to_def)
    show "from_producer s i' (mp_received ?M') @ wire_from ?s j' i' = replied_to ?s i' j' \<and>
      subseq (from_producer s i' (mp_enqueued ?M' @ concat (mp_arriving ?M'))) (from_producer s i' (mp_received ?M')) \<and>
      length (filter (\<lambda>xs. set xs \<inter> set (made s i') \<noteq> {}) (mp_arriving ?M')) \<le> 1 \<and>
      set (mp_enqueued ?M') \<subseteq> set (mp_received ?M')"
    proof (cases "j' = j")
      case False
      then show ?thesis using old by (simp add: t wire_from_def)
    next
      case True
      have M': "?M' = p" using True by simp
      have "wire_from s j i' = from_producer s i' ms @ wire_from ?s j i'"
        using first keyed_remove1 [of i ms "fw_wire s j" i'] by (auto simp: wire_from_def mine)
      then have 1: "from_producer s i' (mp_received p) @ wire_from ?s j i' = replied_to ?s i' j"
        using old(1) True by (simp add: p(1) t)
      have "subseq (from_producer s i' (mp_enqueued p @ concat (mp_arriving p))) (from_producer s i' (mp_received p))"
        using p(3)
      proof
        assume "mp_arriving p = mp_arriving (fw_processors s j)"
        then show ?thesis using subseq_rev_drop_many [OF old(2)] True by (simp add: p(1,2))
      next
        assume "mp_arriving p = mp_arriving (fw_processors s j) @ [ms]"
        then show ?thesis using list_emb_append_mono [OF old(2) subseq_order.refl [of "from_producer s i' ms"]] True by (simp add: p(1,2))
      qed
      moreover have "length (filter (\<lambda>xs. set xs \<inter> set (made s i') \<noteq> {}) (mp_arriving p)) \<le> 1"
      proof (cases "i' = i")
        case True
        then have "filter (\<lambda>xs. set xs \<inter> set (made s i') \<noteq> {}) (mp_arriving (fw_processors s j)) = []"
          using turn by (simp add: in_turn_def)
        with p(3) show ?thesis by auto
      next
        case False
        then have "set ms \<inter> set (made s i') = {}" using ms made_facts(2) [OF po, of i i'] by blast
        with p(3) old(3) \<open>j' = j\<close> show ?thesis by auto
      qed
      ultimately show ?thesis unfolding M' using 1 old(4) True by (auto simp: p(1,2))
    qed
  qed
qed

lemma filter_one: "length (filter P xs) \<le> 1 \<Longrightarrow> x \<in> set xs \<Longrightarrow> P x \<Longrightarrow> y \<in> set (remove1 x xs) \<Longrightarrow> \<not> P y"
proof
  assume l: "length (filter P xs) \<le> 1" and x: "x \<in> set xs" "P x" and y: "y \<in> set (remove1 x xs)" "P y"
  have "length (filter P (remove1 x xs)) = length (filter P xs) - 1" using x by (simp add: filter_remove1 length_remove1)
  with l have "filter P (remove1 x xs) = []" by simp
  with y show False by (simp add: filter_empty_conv)
qed

lemma concat_none: "(\<And>xs. xs \<in> set xss \<Longrightarrow> set xs \<inter> set (made s i) = {}) \<Longrightarrow> from_producer s i (concat xss) = []"
  by (intro from_producer_none) auto

lemma from_producer_split:
  assumes "ms \<in> set xss"
  shows "\<exists>as bs. xss = as @ ms # bs \<and> remove1 ms xss = as @ bs"
proof -
  obtain as bs where "xss = as @ ms # bs" "ms \<notin> set as" using split_list_first [OF assms] by blast
  then show ?thesis by (intro exI [of _ as] exI [of _ bs]) (simp add: remove1_append)
qed

lemma order_ok_enqueue:
  assumes inv: "fw_inv c pb owners s" and ok: "order_ok s" and ms: "ms \<in> set (mp_arriving (fw_processors s j))"
  shows "order_ok (s\<lparr>fw_processors := (fw_processors s)(j := mp_enqueue (fw_processors s j) ms)\<rparr>)" (is "order_ok ?s")
proof -
  have made: "made ?s i = made s i" for i by (simp add: made_def)
  have fp: "from_producer ?s i xs = from_producer s i xs" for i xs by (simp add: from_producer_def made)
  let ?M = "fw_processors s j" and ?M' = "mp_enqueue (fw_processors s j) ms"
  have M': "mp_received ?M' = mp_received ?M" "mp_enqueued ?M' = mp_enqueued ?M @ ms" "mp_arriving ?M' = remove1 ms (mp_arriving ?M)"
    by (simp_all add: mp_enqueue_def)
  obtain as bs where split: "mp_arriving ?M = as @ ms # bs" "remove1 ms (mp_arriving ?M) = as @ bs"
    using from_producer_split [OF ms] by blast
  have ps: "processors_ok s" using inv by (simp add: fw_inv_def)
  show ?thesis unfolding order_ok_def fp made
  proof (intro allI)
    fix i j'
    have old: "from_producer s i (mp_received (fw_processors s j')) @ wire_from s j' i = replied_to s i j'"
      "subseq (from_producer s i (mp_enqueued (fw_processors s j') @ concat (mp_arriving (fw_processors s j')))) (from_producer s i (mp_received (fw_processors s j')))"
      "length (filter (\<lambda>xs. set xs \<inter> set (made s i) \<noteq> {}) (mp_arriving (fw_processors s j'))) \<le> 1"
      "set (mp_enqueued (fw_processors s j')) \<subseteq> set (mp_received (fw_processors s j'))" for j'
      using ok by (simp_all add: order_ok_def)
    have t: "replied_to ?s i j' = replied_to s i j'" "wire_from ?s j' i = wire_from s j' i" for j'
      by (simp_all add: replied_to_def wire_from_def)
    have "from_producer s i (mp_enqueued ?M' @ concat (mp_arriving ?M')) = from_producer s i (mp_enqueued ?M @ concat (mp_arriving ?M))"
    proof (cases "set ms \<inter> set (made s i) = {}")
      case True
      then show ?thesis unfolding M' split(2) unfolding split(1) by (simp add: from_producer_none)
    next
      case False
      have "set xs \<inter> set (made s i) = {}" if "xs \<in> set (as @ bs)" for xs
        using filter_one [OF old(3) ms, where y = xs] False that unfolding split(2) by blast
      then have "from_producer s i (concat as) = []" "from_producer s i (concat bs) = []"
        by (auto intro!: concat_none)
      then show ?thesis unfolding M' split(2) unfolding split(1) by simp
    qed
    moreover have "length (filter (\<lambda>xs. set xs \<inter> set (made s i) \<noteq> {}) (as @ bs)) \<le>
        length (filter (\<lambda>xs. set xs \<inter> set (made s i) \<noteq> {}) (mp_arriving ?M))" by (simp add: split(1))
    moreover have "set ms \<subseteq> set (mp_received ?M)"
    proof -
      have "mp_inv (processor_at s j)" using ps by (simp add: processors_ok_def)
      from settled_received(2) [OF this] ms show ?thesis by (auto simp: processor_at_def unresolved_def)
    qed
    ultimately show "from_producer s i (mp_received (fw_processors ?s j')) @ wire_from ?s j' i = replied_to ?s i j' \<and>
      subseq (from_producer s i (mp_enqueued (fw_processors ?s j') @ concat (mp_arriving (fw_processors ?s j'))))
        (from_producer s i (mp_received (fw_processors ?s j'))) \<and>
      length (filter (\<lambda>xs. set xs \<inter> set (made s i) \<noteq> {}) (mp_arriving (fw_processors ?s j'))) \<le> 1 \<and>
      set (mp_enqueued (fw_processors ?s j')) \<subseteq> set (mp_received (fw_processors ?s j'))"
      using old [of j'] old(3) [of j] by (cases "j' = j") (simp_all add: t M'(1,2) M'(3) [unfolded split(2)])
  qed
qed

lemma order_ok_step:
  assumes inv: "fw_inv c pb owners s" and ok: "order_ok s" and st: "fw_step pb owners True s s'"
  shows "order_ok s'"
  using st
proof cases
  case (producer i p)
  then show ?thesis using order_ok_produce [OF inv ok] by simp
next
  case (respond i ms j p)
  then show ?thesis using order_ok_respond [OF inv ok] by simp
next
  case (enqueue ms j)
  then show ?thesis using order_ok_enqueue [OF inv ok] by simp
next
  case (round j handle send answer)
  have "mp_inv (processor_at s j)" using inv by (simp add: fw_inv_def processors_ok_def)
  from mp_round_grows [OF round(3) this] round(2) have "mp_grow (processor_at s j) (mp_round handle send answer (processor_at s j))"
    by (simp add: processor_at_def)
  then show ?thesis unfolding round(1) by (intro order_ok_same [OF ok]) (simp_all add: work_def mp_grow_def processor_at_def)
next
  case (unwind j handle send)
  have "mp_inv (processor_at s j)" using inv by (simp add: fw_inv_def processors_ok_def)
  from mp_unwind_grows [OF unwind(3) this] have "mp_grow (processor_at s j) (mp_unwind handle send (processor_at s j))" .
  then show ?thesis unfolding unwind(1) by (intro order_ok_same [OF ok]) (simp_all add: work_def mp_grow_def processor_at_def)
next
  case (manage j p)
  then show ?thesis by (intro order_ok_same [OF ok]) (simp_all add: same_work_def processor_at_def)
qed (rule order_ok_same [OF ok]; simp)+

lemma order_ok_start: "order_ok (fw_start c)"
  by (simp add: order_ok_def fw_start_def made_def wire_from_def replied_to_def newMessageProcessor_def newProducer_def
      pr_replies_def)

lemma order_ok_reaches:
  assumes "reaches (fw_step pb owners True) (fw_start c) s" and "\<And>n. distinct (fc_ids c n)"
  shows "order_ok s"
proof -
  have "fw_inv c pb owners s \<and> order_ok s"
    using assms(1) by (rule reaches_invariant) (auto intro: fw_inv_start order_ok_start fw_inv_step [OF _ assms(2)] order_ok_step)
  then show ?thesis ..
qed

section \<open>The order in which batches are handed over\<close>

lemma filter_keyed_tagged:
  assumes "\<And>j' n' ms. (j', n', ms) \<in> set L \<Longrightarrow> set ms \<subseteq> R j'" and "\<And>j'. j' \<noteq> j \<Longrightarrow> R j' \<inter> R j = {}"
  shows "filter (\<lambda>m. m \<in> R j) (keyed (map snd L) n) = keyed (tagged j L) n"
  using assms(1)
proof (induction L)
  case (Cons x L)
  obtain j' n' ms where x: "x = (j', n', ms)" by (cases x)
  have sub: "set ms \<subseteq> R j'" by (rule Cons.prems [of j' n']) (simp add: x)
  have "filter (\<lambda>m. m \<in> R j) ms = (if j' = j then ms else [])"
  proof (cases "j' = j")
    case True
    with sub show ?thesis by (auto simp: filter_id_conv)
  next
    case False
    with sub assms(2) [OF False] have "filter (\<lambda>m. m \<in> R j) ms = []" by (auto simp: filter_empty_conv)
    with False show ?thesis by simp
  qed
  moreover have "filter (\<lambda>m. m \<in> R j) (keyed (map snd L) n) = keyed (tagged j L) n"
    using Cons.prems by (intro Cons.IH) auto
  ultimately show ?case by (simp add: x)
qed simp

lemma filter_keyed_sub:
  assumes "\<And>j k ms. (j, k, ms) \<in> set L \<Longrightarrow> set ms \<subseteq> F k" and "\<And>k'. k' \<noteq> k \<Longrightarrow> F k' \<inter> F k = {}"
  shows "subseq (filter (\<lambda>m. m \<in> F k) (keyed (map (\<lambda>(j, k, ms). (j, ms)) L) j)) (keyed (map snd L) k)"
  using assms(1)
proof (induction L)
  case (Cons x L)
  obtain j' k' ms where x: "x = (j', k', ms)" by (cases x)
  have sub: "set ms \<subseteq> F k'" by (rule Cons.prems [of j' k']) (simp add: x)
  have IH: "subseq (filter (\<lambda>m. m \<in> F k) (keyed (map (\<lambda>(j, k, ms). (j, ms)) L) j)) (keyed (map snd L) k)"
    using Cons.prems by (intro Cons.IH) auto
  show ?case
  proof (cases "k' = k")
    case True
    then have "filter (\<lambda>m. m \<in> F k) ms = ms" using sub by (auto simp: filter_id_conv)
    with IH True list_emb_append_mono [OF subseq_order.refl [of ms] IH] show ?thesis
      by (simp add: x subseq_drop_many)
  next
    case False
    then have "filter (\<lambda>m. m \<in> F k) ms = []" using sub assms(2) [OF False] by (auto simp: filter_empty_conv)
    with IH False show ?thesis by (simp add: x)
  qed
qed simp

lemma produced_for_disjoint:
  assumes "producers_ok pb owners s" and "k \<noteq> k'"
  shows "set (produced_for (fw_producers s i) k) \<inter> set (produced_for (fw_producers s i) k') = {}"
proof -
  let ?gs = "map (\<lambda>(k, m). (k, [m])) (pr_produced (fw_producers s i))"
  have "concat (map snd ?gs) = made s i"
    unfolding made_facts(1) [OF assms(1)] by (induction "pr_produced (fw_producers s i)") (simp_all add: comp_def split_def)
  with keyed_disjoint [of ?gs k k'] made_facts(4) [OF assms(1), of i] assms(2) show ?thesis
    unfolding produced_for_keyed by simp
qed

lemma produced_for_made:
  assumes "producers_ok pb owners s"
  shows "set (produced_for (fw_producers s i) k) \<subseteq> set (made s i)"
  unfolding made_facts(1) [OF assms] by (auto simp: produced_for_def)

text \<open>A reply of a key, and the processor that gets it.\<close>

lemma reply_entries:
  assumes po: "producers_ok pb owners s" and e: "(j, k, ms) \<in> set (pr_replies (fw_producers s i))"
  shows "set ms \<subseteq> set (produced_for (fw_producers s i) k)" and "pb \<noteq> None \<Longrightarrow> j \<in> owners k"
proof -
  let ?p = "fw_producers s i"
  have inv: "pr_inv pb owners ?p" using po by (simp add: producers_ok_def)
  then have core: "pr_core pb owners ?p"
    and acc: "sent_for ?p k @ to_send ?p k @ keyed (pr_dropped ?p) k = produced_for ?p k" by (simp_all add: pr_inv_def)
  obtain r where r: "(r, k, ms) \<in> set (pr_sent ?p)" and j: "rq_messageProcessorId (pr_reqs ?p r) = j"
    using e by (auto simp: pr_replies_def)
  from r have "set ms \<subseteq> set (sent_for ?p k)" by (force simp: sent_for_def)
  also have "\<dots> \<subseteq> set (produced_for ?p k)" unfolding acc [symmetric] by simp
  finally show "set ms \<subseteq> set (produced_for ?p k)" .
  show "pb \<noteq> None \<Longrightarrow> j \<in> owners k" using core r j unfolding pr_core_def by blast
qed

lemma sent_for_replies: "sent_for p k = keyed (map snd (pr_replies p)) k"
  by (simp add: sent_for_keyed pr_replies_def comp_def split_def)

text \<open>The messages of a key that go through one processor.\<close>

lemma order_through_processor:
  assumes inv: "fw_inv c pb owners s" and ok: "order_ok s"
  shows "subseq (filter (\<lambda>m. m \<in> set (produced_for (fw_producers s i) k) \<and> m \<in> set (mp_received (fw_processors s j)))
      (handed_over (bt_delivered (fw_batchers s n)) bk)) (produced_for (fw_producers s i) k)"
proof -
  let ?B = "fw_batchers s n" and ?M = "fw_processors s j" and ?P = "fw_producers s i"
  let ?F = "\<lambda>m. m \<in> set (produced_for ?P k)" and ?R = "\<lambda>m. m \<in> set (mp_received ?M)"
  have po: "producers_ok pb owners s" and ps: "processors_ok s" and bo: "batchers_ok c s"
    using inv by (simp_all add: fw_inv_def)
  have "bt_inv (fw_heap s) ?B" using bo by (auto simp: batchers_ok_def intro: bt_inv_reaches)
  then have "account (fw_heap s) ?B bk = of_key (fw_heap s) bk (bt_received ?B)" by (simp add: bt_inv_def)
  then have "subseq (handed_over (bt_delivered ?B) bk) (of_key (fw_heap s) bk (bt_received ?B))"
    unfolding account_def by (metis subseq_order.refl subseq_rev_drop_many)
  also have "subseq \<dots> (bt_received ?B)" by (simp add: of_key_def)
  also have "subseq \<dots> (handed s n)" using bo unfolding batchers_ok_def by (metis subseq_order.refl subseq_rev_drop_many)
  finally have 1: "subseq (filter ?R (handed_over (bt_delivered ?B) bk)) (filter ?R (handed s n))" by (rule subseq_filter)
  have i: "mp_inv (processor_at s j)" for j using ps by (simp add: processors_ok_def)
  have "filter ?R (handed s n) = keyed (tagged j (fw_sent s)) n"
    unfolding handed_def
  proof (rule filter_keyed_tagged)
    fix j' n' ms assume "(j', n', ms) \<in> set (fw_sent s)"
    then have "(n', ms) \<in> set (tagged j' (fw_sent s))" by (force simp: tagged_def)
    then have "set ms \<subseteq> set (processor_sends s j')" using ps by (auto simp: processors_ok_def processor_sends_def)
    then show "set ms \<subseteq> set (mp_received (fw_processors s j'))" using processor_parts(2) [OF inv, of j'] by blast
  next
    fix j' assume "j' \<noteq> j"
    then show "set (mp_received (fw_processors s j')) \<inter> set (mp_received ?M) = {}" by (rule received_facts(4) [OF po ps])
  qed
  also have "\<dots> = sent_to (mp_env ?M) n" using ps by (simp add: processors_ok_def sent_to_def keyed_def)
  finally have 2: "filter ?R (handed s n) = sent_to (mp_env ?M) n" .
  have "subseq (sent_to (mp_env ?M) n) (mp_taken ?M)" and "prefix (mp_taken ?M) (mp_enqueued ?M)"
    using i [of j] by (simp_all add: mp_inv_def processor_at_def)
  then have 3: "subseq (sent_to (mp_env ?M) n) (mp_enqueued ?M)"
    by (metis prefixE subseq_rev_drop_many)
  have "subseq (from_producer s i (mp_enqueued ?M)) (from_producer s i (mp_received ?M))"
    using ok unfolding order_ok_def by (metis from_producer_simps(2) subseq_order.refl subseq_order.trans subseq_rev_drop_many)
  also have "subseq \<dots> (replied_to s i j)"
    using ok unfolding order_ok_def by (metis subseq_order.refl subseq_rev_drop_many)
  finally have 4: "subseq (filter ?F (from_producer s i (mp_enqueued ?M))) (filter ?F (replied_to s i j))" by (rule subseq_filter)
  have "filter ?F (from_producer s i xs) = filter ?F xs" for xs
    using produced_for_made [OF po, of i k] by (auto simp: from_producer_def intro!: filter_cong)
  then have 5: "subseq (filter ?F (mp_enqueued ?M)) (filter ?F (replied_to s i j))" using 4 by simp
  have "subseq (filter ?F (replied_to s i j)) (keyed (map snd (pr_replies ?P)) k)"
    unfolding replied_to_def
    by (rule filter_keyed_sub) (use reply_entries(1) [OF po] produced_for_disjoint [OF po] in blast)+
  also have "subseq \<dots> (produced_for ?P k)"
    unfolding sent_for_replies [symmetric] using po
    by (metis pr_inv_def producers_ok_def subseq_order.refl subseq_rev_drop_many)
  finally have 6: "subseq (filter ?F (replied_to s i j)) (produced_for ?P k)" .
  have "filter (\<lambda>m. ?F m \<and> ?R m) xs = filter ?F (filter ?R xs)" for xs by (auto intro: filter_cong)
  moreover have "subseq (filter ?F (filter ?R (handed_over (bt_delivered ?B) bk))) (filter ?F (mp_enqueued ?M))"
    using 1 3 unfolding 2 by (meson subseq_filter subseq_order.trans)
  ultimately show ?thesis using 5 6 by (metis subseq_order.trans)
qed

text \<open>With one owner, a key's messages go through that processor.\<close>

lemma owner_receives:
  assumes inv: "fw_inv c pb owners s" and pb: "pb \<noteq> None" and ow: "owners k \<subseteq> {j}"
    and m: "m \<in> set (produced_for (fw_producers s i) k)" and b: "m \<in> set (bt_received (fw_batchers s n))"
  shows "m \<in> set (mp_received (fw_processors s j))"
proof -
  have po: "producers_ok pb owners s" and ps: "processors_ok s" using inv by (simp_all add: fw_inv_def)
  obtain j0 where "m \<in> set (settled (mp_env (fw_processors s j0)))" using batch_received(1) [OF inv b] by blast
  moreover have "mp_inv (processor_at s j0)" using ps by (simp add: processors_ok_def)
  from settled_received(1) [OF this] have "set (settled (mp_env (fw_processors s j0))) \<subseteq> set (mp_received (fw_processors s j0))"
    by (simp add: processor_at_def) (metis set_mset_mono set_mset_mset)
  ultimately have r: "m \<in> set (mp_received (fw_processors s j0))" by blast
  then have "m \<in> set (routed s j0)" using received_facts(1) [OF po ps, of j0] by blast
  then obtain i0 k0 ms where e: "(i0, j0, k0, ms) \<in> set (fw_replied s)" "m \<in> set ms"
    unfolding routed_keyed keyed_def by auto
  then have "(j0, k0, ms) \<in> set (tagged i0 (fw_replied s))" by (force simp: tagged_def)
  then have rep: "(j0, k0, ms) \<in> set (pr_replies (fw_producers s i0))" using po by (simp add: producers_ok_def)
  have m0: "m \<in> set (produced_for (fw_producers s i0) k0)" using reply_entries(1) [OF po rep] e(2) by blast
  then have "i0 = i" using m produced_for_made [OF po] made_facts(2) [OF po, of i0 i] by blast
  with m0 m produced_for_disjoint [OF po, of k0 k i] have "k0 = k" by blast
  with reply_entries(2) [OF po rep pb] ow have "j0 = j" by blast
  with r show ?thesis by simp
qed

text \<open>
  Claim C8. The order of a partition key along one way through the pipeline, when the response goroutines
  of a processor that serve the same producer act in turn (\<open>prompt\<close>, which the program does not
  enforce): among the batches of any batch key that any batcher hands over, the messages that one
  producer \<open>i\<close> made with one partition key and that went through one message processor \<open>j\<close> are in the order
  in which the client produced them (without partitions: all that the producer made). All messages
  that \<open>i\<close> made with the key are covered only if no other processor ever owns it
  (\<open>owners k\<close> within \<open>{j}\<close>): once processors are replaced, a key can change its owner, and nothing is
  claimed of messages that went through different processors, nor of different producers.
\<close>

theorem pipeline_order:
  assumes "reaches (fw_step partitionBy owners True) (fw_start c) s" and "\<And>n. distinct (fc_ids c n)"
  shows "subseq (filter (\<lambda>m. m \<in> set (produced_for (fw_producers s i) k) \<and> m \<in> set (mp_received (fw_processors s j)))
      (handed_over (bt_delivered (fw_batchers s n)) bk)) (produced_for (fw_producers s i) k) \<and>
    (partitionBy \<noteq> None \<and> owners k \<subseteq> {j} \<longrightarrow>
      subseq (filter (\<lambda>m. m \<in> set (produced_for (fw_producers s i) k)) (handed_over (bt_delivered (fw_batchers s n)) bk))
        (produced_for (fw_producers s i) k))"
proof -
  have inv: "fw_inv c partitionBy owners s" by (rule fw_inv_reaches [OF assms])
  note sub = order_through_processor [OF inv order_ok_reaches [OF assms], of i k j n bk]
  have "bt_inv (fw_heap s) (fw_batchers s n)" using inv by (auto simp: fw_inv_def batchers_ok_def intro: bt_inv_reaches)
  then have rc: "set (handed_over (bt_delivered (fw_batchers s n)) bk) \<subseteq> set (bt_received (fw_batchers s n))"
    using handed_over_received by (auto simp: handed_over_def split: if_splits) blast
  have "filter (\<lambda>m. m \<in> set (produced_for (fw_producers s i) k)) (handed_over (bt_delivered (fw_batchers s n)) bk) =
      filter (\<lambda>m. m \<in> set (produced_for (fw_producers s i) k) \<and> m \<in> set (mp_received (fw_processors s j)))
        (handed_over (bt_delivered (fw_batchers s n)) bk)" if "partitionBy \<noteq> None" "owners k \<subseteq> {j}"
    using owner_receives [OF inv that] rc by (intro filter_cong) auto
  with sub show ?thesis by auto
qed

end
