(* ===== verification/Flow_Runs.thy ===== *)
theory Flow_Runs
  imports Flow_Order Batch_Runs
begin

text \<open>
  An executable scheduler for the pipeline of \<open>Pipeline_Flow\<close>: a list of events names who moves
  next and what the outside world does, and the state it leads to is reached by the step relation.
  With it: concrete runs of the step relation at which the properties of the pipeline apply. As that
  relation allows more than the program does, they are not meant as runs of the program.
\<close>

section \<open>The scheduler\<close>

datatype fw_event =
    F_send string nat                    \<comment> \<open>a request reaches a producer\<close>
  | F_add string
  | F_demand string "msg_ref list"       \<comment> \<open>the client answers with these messages\<close>
  | F_deliver string                     \<comment> \<open>one iteration of the sending loop; all consumers take\<close>
  | F_respond string string "msg_ref list"
  | F_enqueue string "msg_ref list"
  | F_round string
  | F_stop string
  | F_unwind string
  | F_accept string
  | F_batcher string bt_event

text \<open>The handler that accepts every message and leaves the batcher to the default.\<close>

definition accept_all :: "'a handler" where
  "accept_all h m = (Inr (Some m, None), h)"

lemma accept_all_local: "local_handler accept_all"
  by (simp add: local_handler_def tame_def accept_all_def)

definition do_producer :: "'a flow \<Rightarrow> string \<Rightarrow> 'a producer \<Rightarrow> 'a flow option" where
  "do_producer s i p = guard (produces_fresh s i p) (produce s i p)"

fun fw_next :: "('a \<Rightarrow> string) option \<Rightarrow> (string \<Rightarrow> string option) \<Rightarrow> bool \<Rightarrow> 'a flow \<Rightarrow> fw_event \<Rightarrow> 'a flow option" where
  "fw_next pb resolve prompt s (F_send i r) =
     (if r \<in> fst ` set (pr_asked (producer_at s i)) then None else do_producer s i (snd (pr_send (producer_at s i) r)))"
| "fw_next pb resolve prompt s (F_add i) = do_producer s i (pr_add (producer_at s i))"
| "fw_next pb resolve prompt s (F_demand i ms) =
     (if pr_phase (producer_at s i) = PR_Loop then do_producer s i (pr_round (\<lambda>_ h. (Inr ms, h)) pb (producer_at s i)) else None)"
| "fw_next pb resolve prompt s (F_deliver i) =
     (case pr_phase (producer_at s i) of
        PR_Sending ms \<Rightarrow> do_producer s i (sendMessages (\<lambda>_. Takes) (producer_at s i) ms)
      | PR_Partitioned gs \<Rightarrow> do_producer s i (sendPartitionedMessages resolve (\<lambda>_. Takes) (producer_at s i) gs)
      | _ \<Rightarrow> None)"
| "fw_next pb resolve prompt s (F_respond i j ms) =
     (if (i, ms) \<in> set (fw_wire s j) \<and> (prompt \<longrightarrow> in_turn s j i ms)
      then (case mp_respond (processor_at s j) ms of
              Inl _ \<Rightarrow> None
            | Inr p \<Rightarrow> Some (s\<lparr>fw_processors := (fw_processors s)(j := p), fw_wire := (fw_wire s)(j := remove1 (i, ms) (fw_wire s j))\<rparr>))
      else None)"
| "fw_next pb resolve prompt s (F_enqueue j ms) =
     guard (ms \<in> set (mp_arriving (fw_processors s j)))
       (s\<lparr>fw_processors := (fw_processors s)(j := mp_enqueue (fw_processors s j) ms)\<rparr>)"
| "fw_next pb resolve prompt s (F_round j) =
     guard (mp_phase (fw_processors s j) = MP_Loop) (work s j (mp_round accept_all (\<lambda>_ _. True) (\<lambda>_. True) (processor_at s j)))"
| "fw_next pb resolve prompt s (F_stop j) =
     Some (s\<lparr>fw_processors := (fw_processors s)(j := mp_terminate (processor_at s j))\<rparr>)"
| "fw_next pb resolve prompt s (F_unwind j) =
     guard (mp_phase (fw_processors s j) \<noteq> MP_Loop) (work s j (mp_unwind accept_all (\<lambda>_ _. True) (processor_at s j)))"
| "fw_next pb resolve prompt s (F_accept n) =
     (case fw_link s n of [] \<Rightarrow> None
      | ms # rest \<Rightarrow>
          (case bt_send (fw_batchers s n) ms of
             Some (True, b) \<Rightarrow> Some (s\<lparr>fw_batchers := (fw_batchers s)(n := b), fw_link := (fw_link s)(n := rest)\<rparr>)
           | _ \<Rightarrow> None))"
| "fw_next pb resolve prompt s (F_batcher n e) =
     (case bt_next (fw_heap s) (fw_batchers s n) e of None \<Rightarrow> None
      | Some b \<Rightarrow> guard (bt_received b = bt_received (fw_batchers s n)) (s\<lparr>fw_batchers := (fw_batchers s)(n := b)\<rparr>))"

fun fw_exec :: "('a \<Rightarrow> string) option \<Rightarrow> (string \<Rightarrow> string option) \<Rightarrow> bool \<Rightarrow> 'a flow \<Rightarrow> fw_event list \<Rightarrow> 'a flow option" where
  "fw_exec pb resolve prompt s [] = Some s"
| "fw_exec pb resolve prompt s (e # es) =
     (case fw_next pb resolve prompt s e of None \<Rightarrow> None | Some s' \<Rightarrow> fw_exec pb resolve prompt s' es)"

lemma do_producer_step:
  "do_producer s i p = Some s' \<Longrightarrow> pr_step pb owners (producer_at s i) p \<Longrightarrow> fw_step pb owners prompt s s'"
  by (auto simp: do_producer_def intro: fw_step.producer)

lemma fw_next_step:
  assumes n: "fw_next pb resolve prompt s e = Some s'" and routes: "routes resolve owners"
  shows "fw_step pb owners prompt s s'"
proof (cases e)
  case (F_send i r)
  obtain ok p where p: "pr_send (producer_at s i) r = (ok, p)" by fastforce
  with n F_send have "do_producer s i p = Some s'" and "r \<notin> fst ` set (pr_asked (producer_at s i))"
    by (auto split: if_splits)
  then show ?thesis using p by (intro do_producer_step [OF _ pr_step.send])
next
  case (F_add i)
  then show ?thesis using n by (intro do_producer_step [OF _ pr_step.add]) simp
next
  case (F_demand i ms)
  then show ?thesis using n by (intro do_producer_step [OF _ pr_step.round]) (auto split: if_splits)
next
  case (F_deliver i)
  show ?thesis
  proof (cases "pr_phase (producer_at s i)")
    case (PR_Sending ms)
    then show ?thesis using n F_deliver by (intro do_producer_step [OF _ pr_step.sending]) simp_all
  next
    case (PR_Partitioned gs)
    then show ?thesis using n F_deliver by (intro do_producer_step [OF _ pr_step.partitioned [OF _ routes]]) simp_all
  qed (use n F_deliver in simp_all)
next
  case (F_respond i j ms)
  then obtain p where "(i, ms) \<in> set (fw_wire s j)" "prompt \<longrightarrow> in_turn s j i ms" "mp_respond (processor_at s j) ms = Inr p"
    "s' = s\<lparr>fw_processors := (fw_processors s)(j := p), fw_wire := (fw_wire s)(j := remove1 (i, ms) (fw_wire s j))\<rparr>"
    using n by (auto split: if_splits sum.splits)
  then show ?thesis by (auto intro: fw_step.respond)
next
  case (F_enqueue j ms)
  then show ?thesis using n by (auto intro: fw_step.enqueue)
next
  case (F_round j)
  then show ?thesis using n by (auto intro: fw_step.round accept_all_local)
next
  case (F_stop j)
  have "fw_step pb owners prompt s (s\<lparr>fw_processors := (fw_processors s)(j := mp_terminate (processor_at s j))\<rparr>)"
    by (rule fw_step.manage [OF mp_step.terminate]) simp
  then show ?thesis using n F_stop by simp
next
  case (F_unwind j)
  then show ?thesis using n by (auto intro: fw_step.unwind accept_all_local)
next
  case (F_accept m)
  then obtain ms rest b where "fw_link s m = ms # rest" "bt_send (fw_batchers s m) ms = Some (True, b)"
    "s' = s\<lparr>fw_batchers := (fw_batchers s)(m := b), fw_link := (fw_link s)(m := rest)\<rparr>"
    using n by (auto split: list.splits option.splits bool.splits)
  then show ?thesis by (auto intro: fw_step.accept)
next
  case (F_batcher m ev)
  then obtain b where b: "bt_next (fw_heap s) (fw_batchers s m) ev = Some b" "bt_received b = bt_received (fw_batchers s m)"
    "s' = s\<lparr>fw_batchers := (fw_batchers s)(m := b)\<rparr>"
    using n by (auto split: option.splits)
  then show ?thesis by (auto intro: fw_step.batcher [OF bt_next_step])
qed

lemma fw_exec_reaches:
  assumes "fw_exec pb resolve prompt s es = Some s'" and "routes resolve owners"
  shows "reaches (fw_step pb owners prompt) s s'"
  using assms(1)
proof (induction es arbitrary: s)
  case (Cons e es)
  then obtain s1 where s1: "fw_next pb resolve prompt s e = Some s1" "fw_exec pb resolve prompt s1 es = Some s'"
    by (auto split: option.splits)
  have "reaches (fw_step pb owners prompt) s s1" by (rule reaches_one) (rule fw_next_step [OF s1(1) assms(2)])
  with Cons.IH [OF s1(2)] show ?case by (rule reaches_trans)
qed (simp add: reaches.start)

text \<open>
  Equations for the evaluation of stamped and routed messages: they match on a message in full, so
  that a message is evaluated once.
\<close>

definition stamp_msg :: "nat option \<Rightarrow> ('a \<Rightarrow> string) option \<Rightarrow> 'a message \<Rightarrow> 'a message" where
  "stamp_msg a r m =
     (let m = (if ms_ack m = None then m\<lparr>ms_ack := a\<rparr> else m)
      in case r of None \<Rightarrow> m | Some f \<Rightarrow> m\<lparr>ms_partitionKey := f (ms_Payload m)\<rparr>)"

lemma stamp_code [code]:
  "stamp a r h [] = h"
  "stamp a r h (m # ms) = stamp a r (h(m := stamp_msg a r (h m))) ms"
  by (simp add: stamp_def) (cases r; cases "ms_ack (h m)"; simp add: stamp_def stamp_msg_def Let_def)

lemma stamp_msg_code [code]:
  "stamp_msg a r \<lparr>ms_Payload = p, ms_Batcher = b, ms_BatchKey = k, ms_metadata = d, ms_partitionKey = pk, ms_ack = x, ms_acked = y, ms_error = e\<rparr> =
     \<lparr>ms_Payload = p, ms_Batcher = b, ms_BatchKey = k, ms_metadata = d,
      ms_partitionKey = (case r of None \<Rightarrow> pk | Some f \<Rightarrow> f p), ms_ack = (case x of None \<Rightarrow> a | Some _ \<Rightarrow> x), ms_acked = y, ms_error = e\<rparr>"
  by (simp add: stamp_msg_def split: option.splits)

lemma route_fields_code [code]:
  "route_fields \<lparr>ms_Payload = p, ms_Batcher = b, ms_BatchKey = k, ms_metadata = d, ms_partitionKey = pk, ms_ack = x, ms_acked = y, ms_error = e\<rparr> =
     \<lparr>ms_Payload = p, ms_Batcher = (if b = [] then defaultBatcherName else b),
      ms_BatchKey = (if pk \<noteq> [] \<and> (k = [] \<or> k = defaultBatchKey) then pk else if k = [] then defaultBatchKey else k),
      ms_metadata = d, ms_partitionKey = pk, ms_ack = x, ms_acked = y, ms_error = e\<rparr>"
  by (auto simp: route_fields_def)

section \<open>A pipeline\<close>

text \<open>One processor \<open>m\<close>, the default batcher with one batch processor \<open>b\<close>, and the messages 0, 1, ... of key \<open>k\<close>.\<close>

definition flow_cfg :: "string list \<Rightarrow> string flow_config" where
  "flow_cfg names =
     \<lparr>fc_producer = \<lparr>pc_Concurrency = 1, pc_partitioned = True\<rparr>, fc_ack = Some 7, fc_requests = (\<lambda>_. newRequest ''m'' 1),
      fc_processor = \<lparr>mc_Concurrency = 1, mc_MinDemand = 0, mc_MaxDemand = 0\<rparr>, fc_producers = [(''p'', ''p'')],
      fc_names = names, fc_batcher = (\<lambda>n. \<lparr>bc_Name = n, bc_BatchSize = 2, bc_BatchTimeout = 1, bc_Concurrency = 1\<rparr>),
      fc_ids = (\<lambda>_. [''b'']), fc_heap = (\<lambda>_. NewMessage ''k'' None)\<rparr>"

definition to_m :: "string \<Rightarrow> string option" where
  "to_m k = Some ''m''"

lemma to_m_routes: "routes to_m (\<lambda>_. {''m''})"
  by (simp add: routes_def to_m_def)

text \<open>Two requests, each answered with one message: first 0, then 1.\<close>

definition two_replies :: "fw_event list" where
  "two_replies =
     [F_send ''p'' 0, F_add ''p'', F_demand ''p'' [0], F_deliver ''p'', F_deliver ''p'',
      F_send ''p'' 1, F_add ''p'', F_demand ''p'' [1], F_deliver ''p'', F_deliver ''p'']"

text \<open>The response goroutines act in the order \<open>xs\<close>; the processor sends, the batcher hands over.\<close>

definition then_batched :: "msg_ref list \<Rightarrow> fw_event list" where
  "then_batched xs =
     concat (map (\<lambda>x. [F_respond ''p'' ''m'' [x], F_enqueue ''m'' [x]]) xs) @
     [F_round ''m'', F_accept ''default'', F_batcher ''default'' E_receive, F_batcher ''default'' E_receive,
      F_batcher ''default'' (E_round True), F_batcher ''default'' E_visit, F_batcher ''default'' E_route,
      F_batcher ''default'' E_hand_over]"

definition flow_run :: "bool \<Rightarrow> string list \<Rightarrow> fw_event list \<Rightarrow> string flow option" where
  "flow_run prompt names es = fw_exec (Some id) to_m prompt (fw_start (flow_cfg names)) es"

text \<open>The handler takes the batch; the batcher is terminated and waits for its processor.\<close>

definition then_done :: "fw_event list" where
  "then_done = map (F_batcher ''default'')
     [E_handled ''b'' (Inr ([0, 1], None)), E_terminate, E_loop_done, E_flush, E_visit, E_flush_end, E_stop, E_stop,
      E_exit ''b'', E_stop, E_stop]"

text \<open>The runs: the response goroutines act out of order, or in turn; the second goes on to the end.\<close>

definition raced :: "string flow" where
  "raced = the (flow_run False [''default''] (two_replies @ then_batched [1, 0]))"

definition in_order :: "string flow" where
  "in_order = the (flow_run True [''default''] (two_replies @ then_batched [0, 1]))"

definition finished_flow :: "string flow" where
  "finished_flow = the (flow_run True [''default''] (two_replies @ then_batched [0, 1] @ then_done))"

lemma flow_run_reaches:
  assumes "flow_run prompt names es \<noteq> None"
  shows "reaches (fw_step (Some id) (\<lambda>_. {''m''}) prompt) (fw_start (flow_cfg names)) (the (flow_run prompt names es))"
proof -
  from assms obtain s where "flow_run prompt names es = Some s" by blast
  then show ?thesis using fw_exec_reaches [OF _ to_m_routes] by (simp add: flow_run_def)
qed

lemma runs_reached:
  "reaches (fw_step (Some id) (\<lambda>_. {''m''}) False) (fw_start (flow_cfg [''default''])) raced"
  "reaches (fw_step (Some id) (\<lambda>_. {''m''}) True) (fw_start (flow_cfg [''default''])) in_order"
  "reaches (fw_step (Some id) (\<lambda>_. {''m''}) True) (fw_start (flow_cfg [''default''])) finished_flow"
  unfolding raced_def in_order_def finished_flow_def by (rule flow_run_reaches; code_simp)+

lemma flow_cfg_ids: "distinct (fc_ids (flow_cfg names) n)"
  by (simp add: flow_cfg_def)

theorem pipeline_order_witness:
  "handed_over (bt_delivered (fw_batchers in_order ''default'')) ''k'' = [0, 1] \<and>
   subseq (filter (\<lambda>m. m \<in> set (produced_for (fw_producers in_order ''p'') ''k''))
     (handed_over (bt_delivered (fw_batchers in_order ''default'')) ''k'')) (produced_for (fw_producers in_order ''p'') ''k'')"
proof -
  have "handed_over (bt_delivered (fw_batchers in_order ''default'')) ''k'' = [0, 1]" by code_simp
  with pipeline_order [OF runs_reached(2) flow_cfg_ids, of "''p''" "''k''" "''m''" "''default''" "''k''"]
  show ?thesis by simp
qed

theorem pipeline_accounting_witness:
  "0 \<in> set (all_msgs raced) \<and> (\<exists>!pl. 0 \<in> set (at_place raced pl))"
proof -
  have "all_msgs raced = [0, 1]" by code_simp
  with pipeline_accounting [OF runs_reached(1) flow_cfg_ids] show ?thesis by simp
qed

lemma finished_values:
  "all_msgs finished_flow = [0, 1]" "at_place finished_flow (Handed_Over ''default'') = [0, 1]"
  "fw_sent finished_flow = [(''m'', ''default'', [0, 1])]" "bt_phase (fw_batchers finished_flow ''default'') = BT_Done"
proof -
  have "(all_msgs finished_flow, at_place finished_flow (Handed_Over ''default''), fw_sent finished_flow,
      bt_phase (fw_batchers finished_flow ''default'')) = ([0, 1], [0, 1], [(''m'', ''default'', [0, 1])], BT_Done)" by code_simp
  then show "all_msgs finished_flow = [0, 1]" "at_place finished_flow (Handed_Over ''default'') = [0, 1]"
    "fw_sent finished_flow = [(''m'', ''default'', [0, 1])]" "bt_phase (fw_batchers finished_flow ''default'') = BT_Done" by simp_all
qed

lemma finished_at_rest: "at_rest finished_flow"
proof -
  have inv: "fw_inv (flow_cfg [''default'']) (Some id) (\<lambda>_. {''m''}) finished_flow"
    by (rule fw_inv_reaches [OF runs_reached(3) flow_cfg_ids])
  have "at_place finished_flow pl = []" if "pl \<noteq> Handed_Over ''default''" for pl
  proof (rule ccontr)
    assume "at_place finished_flow pl \<noteq> []"
    then obtain m where m: "m \<in> set (at_place finished_flow pl)" by (cases "at_place finished_flow pl") auto
    from place_zone(2) [OF inv m] have "m \<in> set (at_place finished_flow (Handed_Over ''default''))"
      by (simp only: finished_values)
    with place_unique [OF inv m] that show False by blast
  qed
  moreover have "bt_received (fw_batchers finished_flow n) = []" if "n \<noteq> ''default''" for n
  proof -
    have "bt_received (fw_batchers finished_flow n) @ concat (fw_link finished_flow n) = handed finished_flow n"
      using inv by (simp add: fw_inv_def batchers_ok_def)
    then show ?thesis using that by (simp add: handed_def finished_values)
  qed
  then have "bt_phase (fw_batchers finished_flow n) = BT_Done" if "bt_received (fw_batchers finished_flow n) \<noteq> []" for n
    using that finished_values(4) by (cases "n = ''default''") auto
  ultimately show ?thesis by (simp add: at_rest_def)
qed

theorem rest_acknowledges_witness:
  "(\<exists>j call. call \<in> set (pv_acks (mp_env (fw_processors finished_flow j))) \<and> 0 \<in> set (ac_msgs call)) \<or>
   (\<exists>j. 0 \<in> set (pv_skipped (mp_env (fw_processors finished_flow j)))) \<or>
   (\<exists>n i k batch p res. (i, k, batch) \<in> set (bt_delivered (fw_batchers finished_flow n)) \<and> 0 \<in> set batch \<and>
      bt_procs (fw_batchers finished_flow n) i = Some p \<and> (batch, res) \<in> set (zip (bp_accepted p) (bp_results p)) \<and>
      set (bp_expected (fw_heap finished_flow) i batch res) \<subseteq> set (bp_acks p)) \<or>
   (\<exists>i. 0 \<in> set (group_msgs (pr_dropped (fw_producers finished_flow i))) \<and>
      (pr_terminated (fw_producers finished_flow i) \<or> pr_phase (fw_producers finished_flow i) \<noteq> PR_Loop)) \<or>
   (\<exists>j. 0 \<in> set (mp_dropped (fw_processors finished_flow j)) \<and> \<not> running (mp_phase (fw_processors finished_flow j)))"
  by (rule rest_acknowledges [OF runs_reached(3) flow_cfg_ids finished_at_rest]) (simp add: finished_values)

end
