(* ===== verification/Offset_Store.thy ===== *)
theory Offset_Store
  imports CDC_Types "HOL-Library.Multiset"
begin

text \<open>
  \<open>pg/offset_store.go\<close>: the connector state is kept as one JSON document per replication slot in
  a table of the source database. JSON text is represented by its syntax tree; the encoding and
  decoding of \<open>CDCState\<close> by \<open>encoding/json\<close> follow the field tags of \<open>pg/types.go\<close>. The database
  behind the connection is a parameter: a record of the three statements, with what Postgres
  promises of them stated as \<open>pg_laws\<close>.
\<close>

section \<open>JSON documents\<close>

text \<open>\<open>JNum\<close> is a number that is not written as an integer.\<close>

datatype json =
    JNull
  | JBool bool
  | JInt int
  | JNum string
  | JStr string
  | JArr "json list"
  | JObj "(string \<times> json) list"

text \<open>
  Marshal writes the fields in order; \<open>omitempty\<close> drops an empty string or slice, and has no
  effect on a struct. Bytes of a string that are not valid UTF-8 are replaced (\<open>coerce\<close>).
\<close>

fun enc_pk :: "PK \<Rightarrow> json" where
  "enc_pk (PKInt v) = JInt (sint v)"
| "enc_pk (PKUuid u) = JStr (uuidToString u)"
| "enc_pk PKNil = JNull"

definition phase_text :: "Phase \<Rightarrow> string" where
  "phase_text p = (case p of PhaseUnset \<Rightarrow> '''' | PhaseSnapshotting \<Rightarrow> ''snapshotting'' | PhaseStreaming \<Rightarrow> ''streaming'')"

definition omit_empty :: "bool \<Rightarrow> string \<Rightarrow> json \<Rightarrow> (string \<times> json) list" where
  "omit_empty unset k v = (if unset then [] else [(k, v)])"

definition enc_table :: "(string \<Rightarrow> string) \<Rightarrow> CDCTable \<Rightarrow> json" where
  "enc_table coerce t =
     JObj ((''name'', JStr (coerce (tb_Name t))) # omit_empty (tb_PKColumn t = []) ''pk_column'' (JStr (coerce (tb_PKColumn t))))"

definition enc_range :: "(string \<Rightarrow> string) \<Rightarrow> PKRange \<Rightarrow> json" where
  "enc_range coerce r =
     JObj [(''table'', JStr (coerce (rg_Table r))), (''low'', enc_pk (rg_Low r)), (''high'', enc_pk (rg_High r)),
           (''xmin'', JInt (uint (rg_XMin r)))]"

definition enc_state :: "(string \<Rightarrow> string) \<Rightarrow> CDCState \<Rightarrow> json" where
  "enc_state coerce st =
     JObj ([(''phase'', JStr (phase_text (st_Phase st))), (''slot_name'', JStr (coerce (st_SlotName st))),
            (''confirmed_lsn'', JInt (uint (st_ConfirmedLSN st)))] @
           omit_empty (st_SnapshotTables st = []) ''snapshot_tables'' (JArr (map (enc_table coerce) (st_SnapshotTables st))) @
           [(''current_snapshot_table'', JStr (coerce (st_CurrentSnapshotTable st))),
            (''snapshot_cursor'', enc_pk (st_SnapshotCursor st))] @
           omit_empty (st_ScannedPKRanges st = []) ''scanned_pk_ranges'' (JArr (map (enc_range coerce) (st_ScannedPKRanges st))))"

section \<open>Decoding\<close>

text \<open>
  A member belongs to a field if its name is the field's up to the case of letters. Each member
  is decoded over what the field holds, starting from the zero value; \<open>null\<close> leaves a scalar or a
  struct as it is and makes a slice nil. \<open>None\<close> is an error of \<open>json.Unmarshal\<close>.
\<close>

definition fold_char :: "char \<Rightarrow> char" where
  "fold_char c = (if (97::nat) \<le> of_char c \<and> (of_char c :: nat) \<le> 122 then char_of (of_char c - 32 :: nat) else c)"

text \<open>Unicode folds two more characters to ASCII letters: the long s and the Kelvin sign.\<close>

fun foldName :: "string \<Rightarrow> string" where
  "foldName [] = []"
| "foldName (c # cs) =
     (if c = CHR 0xC5 \<and> take 1 cs = [CHR 0xBF] then CHR ''S'' # foldName (drop 1 cs)
      else if c = CHR 0xE2 \<and> take 2 cs = [CHR 0x84, CHR 0xAA] then CHR ''K'' # foldName (drop 2 cs)
      else fold_char c # foldName cs)"

definition field :: "(string \<times> json) list \<Rightarrow> string \<Rightarrow> 'b \<Rightarrow> ('b \<Rightarrow> json \<Rightarrow> 'b option) \<Rightarrow> 'b option" where
  "field ms name zero dec =
     foldl (\<lambda>acc (k, v). if foldName k = foldName name then Option.bind acc (\<lambda>x. dec x v) else acc) (Some zero) ms"

fun dec_string :: "string \<Rightarrow> json \<Rightarrow> string option" where
  "dec_string x (JStr s) = Some s"
| "dec_string x JNull = Some x"
| "dec_string x _ = None"

fun dec_word :: "'w::len word \<Rightarrow> json \<Rightarrow> 'w word option" where
  "dec_word x (JInt n) = (if 0 \<le> n \<and> n < 2 ^ LENGTH('w) then Some (word_of_int n) else None)"
| "dec_word x JNull = Some x"
| "dec_word x _ = None"

text \<open>\<open>PK.UnmarshalJSON\<close> on a value.\<close>

fun dec_pk :: "PK \<Rightarrow> json \<Rightarrow> PK option" where
  "dec_pk x JNull = Some PKNil"
| "dec_pk x (JInt n) = (if - (2 ^ 63) \<le> n \<and> n < 2 ^ 63 then Some (PKInt (word_of_int n)) else None)"
| "dec_pk x (JStr s) = map_option PKUuid (uuidFromString s)"
| "dec_pk x _ = None"

text \<open>The code compares a phase only with its two constants, so any other text is as good as none.\<close>

definition phase_of :: "string \<Rightarrow> Phase" where
  "phase_of s = (if s = ''snapshotting'' then PhaseSnapshotting else if s = ''streaming'' then PhaseStreaming else PhaseUnset)"

definition dec_phase :: "Phase \<Rightarrow> json \<Rightarrow> Phase option" where
  "dec_phase x v = map_option phase_of (dec_string (phase_text x) v)"

fun dec_list :: "(json \<Rightarrow> 'b option) \<Rightarrow> 'b list \<Rightarrow> json \<Rightarrow> 'b list option" where
  "dec_list d x (JArr vs) = those (map d vs)"
| "dec_list d x JNull = Some []"
| "dec_list d x _ = None"

fun dec_table :: "json \<Rightarrow> CDCTable option" where
  "dec_table (JObj ms) =
     Option.bind (field ms ''name'' [] dec_string) (\<lambda>n.
     Option.bind (field ms ''pk_column'' [] dec_string) (\<lambda>c. Some \<lparr>tb_Name = n, tb_PKColumn = c\<rparr>))"
| "dec_table JNull = Some \<lparr>tb_Name = [], tb_PKColumn = []\<rparr>"
| "dec_table _ = None"

fun dec_range :: "json \<Rightarrow> PKRange option" where
  "dec_range (JObj ms) =
     Option.bind (field ms ''table'' [] dec_string) (\<lambda>t.
     Option.bind (field ms ''low'' PKNil dec_pk) (\<lambda>l.
     Option.bind (field ms ''high'' PKNil dec_pk) (\<lambda>h.
     Option.bind (field ms ''xmin'' 0 dec_word) (\<lambda>x.
       Some \<lparr>rg_Table = t, rg_Low = l, rg_High = h, rg_XMin = x\<rparr>))))"
| "dec_range JNull = Some \<lparr>rg_Table = [], rg_Low = PKNil, rg_High = PKNil, rg_XMin = 0\<rparr>"
| "dec_range _ = None"

definition zero_state :: CDCState where
  "zero_state =
     \<lparr>st_Phase = PhaseUnset, st_SlotName = [], st_ConfirmedLSN = 0, st_SnapshotTables = [], st_CurrentSnapshotTable = [],
      st_SnapshotCursor = PKNil, st_ScannedPKRanges = []\<rparr>"

fun dec_state :: "json \<Rightarrow> CDCState option" where
  "dec_state (JObj ms) =
     Option.bind (field ms ''phase'' PhaseUnset dec_phase) (\<lambda>p.
     Option.bind (field ms ''slot_name'' [] dec_string) (\<lambda>s.
     Option.bind (field ms ''confirmed_lsn'' 0 dec_word) (\<lambda>l.
     Option.bind (field ms ''snapshot_tables'' [] (dec_list dec_table)) (\<lambda>ts.
     Option.bind (field ms ''current_snapshot_table'' [] dec_string) (\<lambda>t.
     Option.bind (field ms ''snapshot_cursor'' PKNil dec_pk) (\<lambda>c.
     Option.bind (field ms ''scanned_pk_ranges'' [] (dec_list dec_range)) (\<lambda>rs.
       Some \<lparr>st_Phase = p, st_SlotName = s, st_ConfirmedLSN = l, st_SnapshotTables = ts, st_CurrentSnapshotTable = t,
             st_SnapshotCursor = c, st_ScannedPKRanges = rs\<rparr>)))))))"
| "dec_state JNull = Some zero_state"
| "dec_state _ = None"

section \<open>The store\<close>

datatype pg_error = ErrNoRows | PgError string

record 'db pg_conn =
  pg_create :: "'db \<Rightarrow> string option \<times> 'db"                       \<comment> \<open>\<open>CREATE TABLE IF NOT EXISTS\<close>\<close>
  pg_select :: "'db \<Rightarrow> string \<Rightarrow> pg_error + json"                  \<comment> \<open>the state of a slot\<close>
  pg_upsert :: "'db \<Rightarrow> string \<Rightarrow> json \<Rightarrow> string option \<times> 'db"      \<comment> \<open>\<open>INSERT ... ON CONFLICT DO UPDATE\<close>\<close>

record 'db PostgresOffsetStore =
  so_conn :: "'db pg_conn"
  so_slotName :: string

definition NewPostgresOffsetStore :: "'db pg_conn \<Rightarrow> string \<Rightarrow> 'db PostgresOffsetStore" where
  "NewPostgresOffsetStore conn slotName = \<lparr>so_conn = conn, so_slotName = slotName\<rparr>"

definition store_Init :: "'db PostgresOffsetStore \<Rightarrow> 'db \<Rightarrow> string option \<times> 'db" where
  "store_Init s db = pg_create (so_conn s) db"

definition store_Load :: "'db PostgresOffsetStore \<Rightarrow> 'db \<Rightarrow> CDCState \<times> bool \<times> string option" where
  "store_Load s db =
     (case pg_select (so_conn s) db (so_slotName s) of
        Inl ErrNoRows \<Rightarrow> (zero_state, False, None)
      | Inl (PgError e) \<Rightarrow> (zero_state, False, Some (''offset store load: '' @ e))
      | Inr raw \<Rightarrow> (case dec_state raw of
           None \<Rightarrow> (zero_state, False, Some ''offset store unmarshal: '')   \<comment> \<open>followed by the text of the decoder\<close>
         | Some state \<Rightarrow> (state, True, None)))"

text \<open>\<open>json.Marshal\<close> of a \<open>CDCState\<close> does not fail.\<close>

definition store_Save :: "(string \<Rightarrow> string) \<Rightarrow> 'db PostgresOffsetStore \<Rightarrow> CDCState \<Rightarrow> 'db \<Rightarrow> string option \<times> 'db" where
  "store_Save coerce s state db = pg_upsert (so_conn s) db (so_slotName s) (enc_state coerce state)"

section \<open>What Postgres promises\<close>

text \<open>
  A JSONB value read back is the one written, up to the order of members. \<open>rows\<close> is the content of
  the table. A statement may fail; an upsert that reports an error may still have been committed,
  if only the answer was lost.
\<close>

inductive jeq :: "json \<Rightarrow> json \<Rightarrow> bool" where
  same: "jeq v v"
| arr: "list_all2 jeq vs ws \<Longrightarrow> jeq (JArr vs) (JArr ws)"
| obj: "distinct (map fst ms) \<Longrightarrow> mset (map fst ns) = mset (map fst ms) \<Longrightarrow>
    (\<And>k v w. map_of ms k = Some v \<Longrightarrow> map_of ns k = Some w \<Longrightarrow> jeq v w) \<Longrightarrow> jeq (JObj ms) (JObj ns)"

inductive_cases jeq_arrE: "jeq (JArr vs) w"
inductive_cases jeq_objE: "jeq (JObj ms) w"

inductive_simps jeq_scalar: "jeq JNull w" "jeq (JStr s) w" "jeq (JInt n) w"

definition pg_laws :: "'db pg_conn \<Rightarrow> ('db \<Rightarrow> string \<Rightarrow> json option) \<Rightarrow> bool" where
  "pg_laws conn rows \<longleftrightarrow>
     (\<forall>db s. (\<exists>e. pg_select conn db s = Inl (PgError e)) \<or>
        pg_select conn db s = (case rows db s of None \<Rightarrow> Inl ErrNoRows | Some v \<Rightarrow> Inr v)) \<and>
     (\<forall>db s v e db'. pg_upsert conn db s v = (e, db') \<longrightarrow>
        (\<exists>w. jeq v w \<and> rows db' = (rows db)(s \<mapsto> w)) \<or> e \<noteq> None \<and> rows db' = rows db) \<and>
     (\<forall>db. rows (snd (pg_create conn db)) = rows db)"

section \<open>Decoding what was encoded\<close>

lemma fold_unmatched:
  "\<forall>k \<in> fst ` set ms. foldName k \<noteq> foldName name \<Longrightarrow>
    foldl (\<lambda>acc (k, v). if foldName k = foldName name then Option.bind acc (\<lambda>x. dec x v) else acc) a ms = a"
  by (induction ms arbitrary: a) auto

text \<open>With distinct names that do not collide with the field's, a field is decoded from its member.\<close>

lemma field_map_of:
  assumes "distinct (map fst ms)" and "\<And>k. k \<in> fst ` set ms \<Longrightarrow> foldName k = foldName name \<Longrightarrow> k = name"
  shows "field ms name zero dec = (case map_of ms name of None \<Rightarrow> Some zero | Some v \<Rightarrow> dec zero v)"
  using assms
proof (induction ms arbitrary: zero)
  case (Cons m ms)
  obtain k v where m: "m = (k, v)" by (cases m)
  show ?case
  proof (cases "k = name")
    case True
    have "\<forall>k' \<in> fst ` set ms. foldName k' \<noteq> foldName name"
    proof
      fix k' assume k': "k' \<in> fst ` set ms"
      then have "k' \<noteq> name" using Cons.prems(1) True by (auto simp: m)
      with Cons.prems(2) [of k'] k' show "foldName k' \<noteq> foldName name" by (auto simp: m)
    qed
    from fold_unmatched [OF this] True show ?thesis by (simp add: field_def m)
  next
    case False
    then have "foldName k \<noteq> foldName name" using Cons.prems(2) [of k] by (auto simp: m)
    moreover have "field ms name zero dec = (case map_of ms name of None \<Rightarrow> Some zero | Some v \<Rightarrow> dec zero v)"
      using Cons.prems by (intro Cons.IH) auto
    ultimately show ?thesis using False by (simp add: field_def m)
  qed
qed (simp add: field_def)

text \<open>Members in another order, each read back as \<open>R\<close> says.\<close>

lemma field_jeq:
  assumes "jeq (JObj ms) (JObj ns)" and "distinct (map fst ms)" and "fst ` set ms \<subseteq> K" and "name \<in> K" and "inj_on foldName K"
    and "map_of ms name = None \<Longrightarrow> x = zero" and "\<And>v w. map_of ms name = Some v \<Longrightarrow> jeq v w \<Longrightarrow> dec zero w = Some x"
  shows "field ns name zero dec = Some x"
proof -
  have ns: "mset (map fst ns) = mset (map fst ms) \<and>
      (\<forall>v w. map_of ms name = Some v \<longrightarrow> map_of ns name = Some w \<longrightarrow> jeq v w)"
    using assms(1) by (rule jeq_objE) (auto intro: jeq.same)
  then have d: "distinct (map fst ns)" and k: "fst ` set ns = fst ` set ms"
    using assms(2) by (metis mset_eq_imp_distinct_iff, metis list.set_map mset_eq_setD)
  have "k' = name" if "k' \<in> fst ` set ns" "foldName k' = foldName name" for k'
    using that k assms(3-5) by (auto dest: inj_onD)
  note f = field_map_of [OF d this]
  show ?thesis
  proof (cases "map_of ms name")
    case None
    then have "map_of ns name = None" using k by (simp add: map_of_eq_None_iff)
    with None assms(6) show ?thesis by (simp add: f)
  next
    case (Some v)
    then have "name \<in> fst ` set ns" unfolding k by (metis map_of_eq_None_iff option.distinct(1))
    then obtain w where w: "map_of ns name = Some w" by (metis map_of_eq_None_iff not_None_eq)
    with ns Some assms(7) show ?thesis by (simp add: f)
  qed
qed

text \<open>The texts and keys of a state can be written: valid UTF-8, 16 bytes per UUID.\<close>

definition pk_sized :: "PK \<Rightarrow> bool" where
  "pk_sized p \<longleftrightarrow> (\<forall>u. p = PKUuid u \<longrightarrow> length u = 16)"

definition state_writable :: "(string \<Rightarrow> string) \<Rightarrow> CDCState \<Rightarrow> bool" where
  "state_writable coerce st \<longleftrightarrow>
     coerce (st_SlotName st) = st_SlotName st \<and> coerce (st_CurrentSnapshotTable st) = st_CurrentSnapshotTable st \<and>
     pk_sized (st_SnapshotCursor st) \<and>
     (\<forall>t \<in> set (st_SnapshotTables st). coerce (tb_Name t) = tb_Name t \<and> coerce (tb_PKColumn t) = tb_PKColumn t) \<and>
     (\<forall>r \<in> set (st_ScannedPKRanges st). coerce (rg_Table r) = rg_Table r \<and> pk_sized (rg_Low r) \<and> pk_sized (rg_High r))"

lemma dec_enc_pk: "pk_sized p \<Longrightarrow> jeq (enc_pk p) w \<Longrightarrow> dec_pk x w = Some p"
proof (cases p)
  case (PKInt v)
  assume "jeq (enc_pk p) w"
  then have "w = JInt (sint v)" by (simp add: PKInt jeq_scalar)
  moreover have "- (2 ^ 63) \<le> sint v" "sint v < 2 ^ 63"
    using sint_ge [of v] sint_lt [of v] by simp_all
  ultimately show ?thesis by (simp add: PKInt)
next
  case (PKUuid u)
  assume "pk_sized p" "jeq (enc_pk p) w"
  then show ?thesis by (simp add: PKUuid jeq_scalar pk_sized_def uuidFromString_uuidToString)
next
  case PKNil
  assume "jeq (enc_pk p) w"
  then show ?thesis by (simp add: PKNil jeq_scalar)
qed

lemma dec_string_jeq: "jeq (JStr s) w \<Longrightarrow> dec_string x w = Some s"
  by (simp add: jeq_scalar)

lemma dec_word_jeq:
  fixes u :: "'w::len word"
  assumes "jeq (JInt (uint u)) w"
  shows "dec_word x w = Some u"
proof -
  have "w = JInt (uint u)" using assms by (simp add: jeq_scalar)
  moreover have "uint u < 2 ^ LENGTH('w)" by (rule uint_lt2p)
  ultimately show ?thesis by simp
qed

lemma dec_phase_jeq: "jeq (JStr (phase_text p)) w \<Longrightarrow> dec_phase x w = Some p"
  by (cases p) (simp_all add: dec_phase_def jeq_scalar phase_text_def phase_of_def)

lemma dec_list_jeq:
  assumes "jeq (JArr (map e xs)) w" and "\<And>x v. x \<in> set xs \<Longrightarrow> jeq (e x) v \<Longrightarrow> d v = Some x"
  shows "dec_list d y w = Some xs"
proof -
  obtain ws where w: "w = JArr ws" and l: "list_all2 jeq (map e xs) ws"
    using assms(1) by (cases rule: jeq_arrE) (auto simp: list_all2_refl jeq.same)
  from l assms(2) have "those (map d ws) = Some xs"
  proof (induction xs arbitrary: ws)
    case (Cons x xs)
    from Cons.prems(1) obtain v vs where ws: "ws = v # vs" "jeq (e x) v" "list_all2 jeq (map e xs) vs"
      by (auto simp: list_all2_Cons1)
    have "d v = Some x" using Cons.prems(2) ws(2) by simp
    moreover have "those (map d vs) = Some xs" using Cons.prems(2) by (intro Cons.IH [OF ws(3)]) simp
    ultimately show ?case by (simp add: ws(1))
  qed simp
  with w show ?thesis by simp
qed

text \<open>The names of the fields, and that they differ also up to case.\<close>

definition table_fields :: "string set" where "table_fields = {''name'', ''pk_column''}"
definition range_fields :: "string set" where "range_fields = {''table'', ''low'', ''high'', ''xmin''}"
definition state_fields :: "string set" where
  "state_fields = {''phase'', ''slot_name'', ''confirmed_lsn'', ''snapshot_tables'', ''current_snapshot_table'',
     ''snapshot_cursor'', ''scanned_pk_ranges''}"

lemma fields_differ: "inj_on foldName table_fields" "inj_on foldName range_fields" "inj_on foldName state_fields"
  by (simp_all add: table_fields_def range_fields_def state_fields_def fold_char_def)

lemma dec_enc_table:
  assumes "coerce (tb_Name t) = tb_Name t" and "coerce (tb_PKColumn t) = tb_PKColumn t" and "jeq (enc_table coerce t) w"
  shows "dec_table w = Some t"
proof -
  let ?ms = "(''name'', JStr (tb_Name t)) # omit_empty (tb_PKColumn t = []) ''pk_column'' (JStr (tb_PKColumn t))"
  have e: "jeq (JObj ?ms) w" using assms by (simp add: enc_table_def)
  then obtain ns where w: "w = JObj ns" by (cases rule: jeq_objE) auto
  have d: "distinct (map fst ?ms)" and sub: "fst ` set ?ms \<subseteq> table_fields"
    by (auto simp: omit_empty_def table_fields_def)
  note f = field_jeq [OF e [unfolded w] d sub _ fields_differ(1)]
  have "field ns ''name'' [] dec_string = Some (tb_Name t)"
    by (rule f) (auto simp: table_fields_def intro: dec_string_jeq)
  moreover have "field ns ''pk_column'' [] dec_string = Some (tb_PKColumn t)"
    by (rule f) (auto simp: table_fields_def omit_empty_def intro: dec_string_jeq split: if_splits)
  ultimately show ?thesis by (simp add: w)
qed

lemma dec_enc_range:
  assumes "coerce (rg_Table r) = rg_Table r" and "pk_sized (rg_Low r)" and "pk_sized (rg_High r)" and "jeq (enc_range coerce r) w"
  shows "dec_range w = Some r"
proof -
  let ?ms = "[(''table'', JStr (rg_Table r)), (''low'', enc_pk (rg_Low r)), (''high'', enc_pk (rg_High r)),
    (''xmin'', JInt (uint (rg_XMin r)))]"
  have e: "jeq (JObj ?ms) w" using assms by (simp add: enc_range_def)
  then obtain ns where w: "w = JObj ns" by (cases rule: jeq_objE) auto
  have d: "distinct (map fst ?ms)" and sub: "fst ` set ?ms \<subseteq> range_fields"
    by (auto simp: range_fields_def)
  note f = field_jeq [OF e [unfolded w] d sub _ fields_differ(2)]
  have "field ns ''table'' [] dec_string = Some (rg_Table r)"
    by (rule f) (auto simp: range_fields_def intro: dec_string_jeq)
  moreover have "field ns ''low'' PKNil dec_pk = Some (rg_Low r)"
    by (rule f) (auto simp: range_fields_def intro: dec_enc_pk [OF assms(2)])
  moreover have "field ns ''high'' PKNil dec_pk = Some (rg_High r)"
    by (rule f) (auto simp: range_fields_def intro: dec_enc_pk [OF assms(3)])
  moreover have "field ns ''xmin'' 0 dec_word = Some (rg_XMin r)"
    by (rule f) (auto simp: range_fields_def intro: dec_word_jeq)
  ultimately show ?thesis by (simp add: w)
qed

lemma dec_enc_state:
  assumes ok: "state_writable coerce st" and j: "jeq (enc_state coerce st) w"
  shows "dec_state w = Some st"
proof -
  let ?ms = "[(''phase'', JStr (phase_text (st_Phase st))), (''slot_name'', JStr (st_SlotName st)),
      (''confirmed_lsn'', JInt (uint (st_ConfirmedLSN st)))] @
    omit_empty (st_SnapshotTables st = []) ''snapshot_tables'' (JArr (map (enc_table coerce) (st_SnapshotTables st))) @
    [(''current_snapshot_table'', JStr (st_CurrentSnapshotTable st)), (''snapshot_cursor'', enc_pk (st_SnapshotCursor st))] @
    omit_empty (st_ScannedPKRanges st = []) ''scanned_pk_ranges'' (JArr (map (enc_range coerce) (st_ScannedPKRanges st)))"
  have e: "jeq (JObj ?ms) w" using j ok by (simp add: enc_state_def state_writable_def)
  then obtain ns where w: "w = JObj ns" by (cases rule: jeq_objE) auto
  have d: "distinct (map fst ?ms)" and sub: "fst ` set ?ms \<subseteq> state_fields"
    by (auto simp: omit_empty_def state_fields_def)
  note f = field_jeq [OF e [unfolded w] d sub _ fields_differ(3)]
  have tables: "dec_list dec_table [] v = Some (st_SnapshotTables st)"
    if "jeq (JArr (map (enc_table coerce) (st_SnapshotTables st))) v" for v
    using ok by (intro dec_list_jeq [OF that] dec_enc_table [of coerce]) (auto simp: state_writable_def)
  have ranges: "dec_list dec_range [] v = Some (st_ScannedPKRanges st)"
    if "jeq (JArr (map (enc_range coerce) (st_ScannedPKRanges st))) v" for v
    using ok by (intro dec_list_jeq [OF that] dec_enc_range [of coerce]) (auto simp: state_writable_def)
  have cursor: "pk_sized (st_SnapshotCursor st)" using ok by (simp add: state_writable_def)
  have "field ns ''phase'' PhaseUnset dec_phase = Some (st_Phase st)"
    by (rule f) (auto simp: state_fields_def intro: dec_phase_jeq)
  moreover have "field ns ''slot_name'' [] dec_string = Some (st_SlotName st)"
    by (rule f) (auto simp: state_fields_def intro: dec_string_jeq)
  moreover have "field ns ''confirmed_lsn'' 0 dec_word = Some (st_ConfirmedLSN st)"
    by (rule f) (auto simp: state_fields_def intro: dec_word_jeq)
  moreover have "field ns ''snapshot_tables'' [] (dec_list dec_table) = Some (st_SnapshotTables st)"
    by (rule f) (auto simp: state_fields_def omit_empty_def intro: tables split: if_splits)
  moreover have "field ns ''current_snapshot_table'' [] dec_string = Some (st_CurrentSnapshotTable st)"
    by (rule f) (auto simp: state_fields_def omit_empty_def intro: dec_string_jeq split: if_splits)
  moreover have "field ns ''snapshot_cursor'' PKNil dec_pk = Some (st_SnapshotCursor st)"
    by (rule f) (auto simp: state_fields_def omit_empty_def intro: dec_enc_pk [OF cursor] split: if_splits)
  moreover have "field ns ''scanned_pk_ranges'' [] (dec_list dec_range) = Some (st_ScannedPKRanges st)"
    by (rule f) (auto simp: state_fields_def omit_empty_def intro: ranges split: if_splits)
  ultimately show ?thesis by (simp add: w)
qed

text \<open>The JSON text that \<open>MarshalJSON\<close> writes for a key is that of its tree.\<close>

fun scalar_text :: "json \<Rightarrow> string" where
  "scalar_text (JInt n) = dec_int n"
| "scalar_text (JStr s) = CHR 0x22 # s @ [CHR 0x22]"
| "scalar_text _ = ''null''"

lemma MarshalJSON_tree: "MarshalJSON p = scalar_text (enc_pk p)"
  by (cases p) simp_all

section \<open>What a restart finds\<close>

text \<open>A connector saves one state after another, whatever becomes of each save.\<close>

fun save_all :: "(string \<Rightarrow> string) \<Rightarrow> 'db PostgresOffsetStore \<Rightarrow> CDCState list \<Rightarrow> 'db \<Rightarrow> string option list \<times> 'db" where
  "save_all coerce s [] db = ([], db)"
| "save_all coerce s (st # sts) db =
     (let (e, db) = store_Save coerce s st db; (es, db) = save_all coerce s sts db in (e # es, db))"

text \<open>The row of the slot holds one of the states written since a save that succeeded.\<close>

definition row_holds :: "(string \<Rightarrow> string) \<Rightarrow> json option \<Rightarrow> CDCState \<Rightarrow> bool" where
  "row_holds coerce row st \<longleftrightarrow> (\<exists>w. row = Some w \<and> jeq (enc_state coerce st) w)"

lemma save_row:
  assumes "pg_laws (so_conn s) rows" and "store_Save coerce s st db = (e, db')"
  shows "row_holds coerce (rows db' (so_slotName s)) st \<or> e \<noteq> None \<and> rows db' = rows db"
    and "k \<noteq> so_slotName s \<Longrightarrow> rows db' k = rows db k"
proof -
  have "(\<exists>w. jeq (enc_state coerce st) w \<and> rows db' = (rows db)(so_slotName s \<mapsto> w)) \<or> e \<noteq> None \<and> rows db' = rows db"
    using assms unfolding pg_laws_def store_Save_def by blast
  then show "row_holds coerce (rows db' (so_slotName s)) st \<or> e \<noteq> None \<and> rows db' = rows db"
    and "k \<noteq> so_slotName s \<Longrightarrow> rows db' k = rows db k" by (auto simp: row_holds_def)
qed

lemma save_all_row:
  assumes laws: "pg_laws (so_conn s) rows"
  shows "save_all coerce s sts db = (es, db') \<Longrightarrow> row_holds coerce (rows db (so_slotName s)) st \<Longrightarrow>
    (\<exists>st' \<in> set (st # sts). row_holds coerce (rows db' (so_slotName s)) st') \<and>
    (set es \<subseteq> {None} \<longrightarrow> row_holds coerce (rows db' (so_slotName s)) (last (st # sts)))"
proof (induction sts arbitrary: st db es)
  case (Cons st1 sts)
  obtain e db1 where s1: "store_Save coerce s st1 db = (e, db1)" by fastforce
  obtain es1 where s2: "save_all coerce s sts db1 = (es1, db')" and es: "es = e # es1"
    using Cons.prems(1) s1 by (auto split: prod.splits)
  from save_row(1) [OF laws s1] show ?case
  proof
    assume "row_holds coerce (rows db1 (so_slotName s)) st1"
    from Cons.IH [OF s2 this] show ?thesis by (auto simp: es)
  next
    assume "e \<noteq> None \<and> rows db1 = rows db"
    with Cons.prems(2) Cons.IH [OF s2, of st] show ?thesis by (auto simp: es)
  qed
qed simp

lemma save_all_others:
  "pg_laws (so_conn s) rows \<Longrightarrow> save_all coerce s sts db = (es, db') \<Longrightarrow> k \<noteq> so_slotName s \<Longrightarrow> rows db' k = rows db k"
proof (induction sts arbitrary: db es)
  case (Cons st1 sts)
  obtain e db1 where s1: "store_Save coerce s st1 db = (e, db1)" by fastforce
  obtain es1 where s2: "save_all coerce s sts db1 = (es1, db')" using Cons.prems(2) s1 by (auto split: prod.splits)
  with Cons.IH [OF Cons.prems(1) s2 Cons.prems(3)] save_row(2) [OF Cons.prems(1) s1 Cons.prems(3)] show ?case by simp
qed simp

lemma load_row:
  assumes "pg_laws (so_conn s) rows" and "row_holds coerce (rows db (so_slotName s)) st" and "state_writable coerce st"
  shows "store_Load s db = (st, True, None) \<or> (\<exists>e. store_Load s db = (zero_state, False, Some (''offset store load: '' @ e)))"
proof -
  obtain w where w: "rows db (so_slotName s) = Some w" "dec_state w = Some st"
    using assms(2,3) by (auto simp: row_holds_def dest: dec_enc_state)
  have "(\<exists>e. pg_select (so_conn s) db (so_slotName s) = Inl (PgError e)) \<or> pg_select (so_conn s) db (so_slotName s) = Inr w"
    using assms(1) w(1) unfolding pg_laws_def by (metis option.simps(5))
  with w(2) show ?thesis by (auto simp: store_Load_def)
qed

text \<open>
  Claim C15. What a restart finds in the offset store. After a save that succeeded and any later
  saves of the same connector, \<open>Load\<close> returns, unless the query itself fails, a state that was
  saved then: the last one if all saves succeeded, and otherwise one that is not older than the
  last success. No field is changed on the way through JSON and JSONB, whatever order Postgres
  gives the members, and the rows of other slots are untouched.
\<close>

theorem offset_store_keeps_last:
  assumes "pg_laws (so_conn s) rows" and "\<forall>st \<in> set (st0 # sts). state_writable coerce st"
    and "store_Save coerce s st0 db = (None, db0)" and "save_all coerce s sts db0 = (es, db1)"
  shows "((\<exists>st \<in> set (st0 # sts). store_Load s db1 = (st, True, None)) \<or>
      (\<exists>e. store_Load s db1 = (zero_state, False, Some (''offset store load: '' @ e)))) \<and>
    (set es \<subseteq> {None} \<longrightarrow> store_Load s db1 = (last (st0 # sts), True, None) \<or>
      (\<exists>e. store_Load s db1 = (zero_state, False, Some (''offset store load: '' @ e)))) \<and>
    (\<forall>k. k \<noteq> so_slotName s \<longrightarrow> rows db1 k = rows db k)"
proof -
  have r0: "row_holds coerce (rows db0 (so_slotName s)) st0" using save_row(1) [OF assms(1,3)] by simp
  note r = save_all_row [OF assms(1,4) r0]
  have load: "store_Load s db1 = (st, True, None) \<or> (\<exists>e. store_Load s db1 = (zero_state, False, Some (''offset store load: '' @ e)))"
    if "st \<in> set (st0 # sts)" "row_holds coerce (rows db1 (so_slotName s)) st" for st
    using load_row [OF assms(1) that(2)] assms(2) that(1) by blast
  have "last (st0 # sts) \<in> set (st0 # sts)" by simp
  with r load have 2: "set es \<subseteq> {None} \<longrightarrow> store_Load s db1 = (last (st0 # sts), True, None) \<or>
      (\<exists>e. store_Load s db1 = (zero_state, False, Some (''offset store load: '' @ e)))" by blast
  have 1: "(\<exists>st \<in> set (st0 # sts). store_Load s db1 = (st, True, None)) \<or>
      (\<exists>e. store_Load s db1 = (zero_state, False, Some (''offset store load: '' @ e)))" using r load by blast
  have "rows db1 k = rows db k" if "k \<noteq> so_slotName s" for k
    using save_all_others [OF assms(1,4) that] save_row(2) [OF assms(1,3) that] by simp
  with 1 2 show ?thesis by blast
qed

text \<open>A table as a map, whose statements never fail.\<close>

definition map_conn :: "(string \<Rightarrow> json option) pg_conn" where
  "map_conn =
     \<lparr>pg_create = (\<lambda>db. (None, db)), pg_select = (\<lambda>db s. case db s of None \<Rightarrow> Inl ErrNoRows | Some v \<Rightarrow> Inr v),
      pg_upsert = (\<lambda>db s v. (None, db(s \<mapsto> v)))\<rparr>"

lemma map_conn_laws: "pg_laws map_conn (\<lambda>db. db)"
  by (auto simp: pg_laws_def map_conn_def intro: jeq.same)

definition state_at :: "int64 \<Rightarrow> CDCState" where
  "state_at v =
     \<lparr>st_Phase = PhaseSnapshotting, st_SlotName = ''cdc'', st_ConfirmedLSN = 20,
      st_SnapshotTables = [\<lparr>tb_Name = ''public.orders'', tb_PKColumn = []\<rparr>], st_CurrentSnapshotTable = ''public.orders'',
      st_SnapshotCursor = PKInt v, st_ScannedPKRanges = [\<lparr>rg_Table = ''public.orders'', rg_Low = PKNil, rg_High = PKInt v, rg_XMin = 900\<rparr>]\<rparr>"

definition cdc_store :: "(string \<Rightarrow> json option) PostgresOffsetStore" where
  "cdc_store = NewPostgresOffsetStore map_conn ''cdc''"

theorem offset_store_keeps_last_witness:
  "store_Load cdc_store (snd (save_all id cdc_store [state_at (- 5)] (snd (store_Save id cdc_store (state_at 7) Map.empty)))) =
     (state_at (- 5), True, None)"
proof -
  have c: "so_conn cdc_store = map_conn" by (simp add: cdc_store_def NewPostgresOffsetStore_def)
  have ok: "state_writable id (state_at v)" for v by (simp add: state_writable_def state_at_def pk_sized_def)
  obtain db0 where s0: "store_Save id cdc_store (state_at 7) Map.empty = (None, db0)"
    by (simp add: store_Save_def c map_conn_def)
  obtain db1 where s1: "save_all id cdc_store [state_at (- 5)] db0 = ([None], db1)"
    by (simp add: store_Save_def c map_conn_def)
  have "\<not> (\<exists>e. store_Load cdc_store db1 = (zero_state, False, Some (''offset store load: '' @ e)))"
    by (auto simp: store_Load_def c map_conn_def split: option.splits)
  with offset_store_keeps_last [where s = cdc_store and rows = "\<lambda>db. db", OF _ _ s0 s1] map_conn_laws ok
  show ?thesis by (simp add: c s0 s1 del: save_all.simps)
qed

end
