(* ===== verification/Restart.thy ===== *)
theory Restart
  imports Connector Offset_Store
begin

text \<open>
  A crash and a restart of the connector in the middle of a snapshot: what the first run has saved
  (\<open>Offset_Store\<close>), what had been acknowledged by then (\<open>Connector\<close>), and what the scan that a restart
  plans from the saved state reads (\<open>Snapshotter\<close>).
\<close>

section \<open>Chunks follow the order of keys\<close>

text \<open>
  The READ events of a scan, which may be cut short by a cancellation: the high key of a chunk is a
  key of the table, and every row above the cursor and up to the high key of a chunk was read in that
  chunk or in an earlier one.
\<close>

definition chunks_cover :: "snapshotter \<Rightarrow> string list \<Rightarrow> goval list list \<Rightarrow> PK \<Rightarrow> CDCEvent list \<Rightarrow> bool" where
  "chunks_cover s cols table cursor R \<longleftrightarrow>
     (\<forall>r \<in> set R. (\<exists>v \<in> set table. ev_chunkHighPK r = key_of s cols v) \<and>
        (\<forall>v \<in> set (remaining s cols table cursor). pk_rank (key_of s cols v) \<le> pk_rank (ev_chunkHighPK r) \<longrightarrow>
           (\<exists>r' \<in> set R. ev_After r' = row_of cols v \<and> ev_PK r' = key_of s cols v \<and> ev_chunkID r' \<le> ev_chunkID r)))"

lemma snap_run_cover:
  assumes serves: "serves_table s db cols table snaps" and n: "0 < sn_chunkSize s" and st: "sorted_table s cols table"
  shows "chunks_cover s cols table cursor (reads_of (fst (snap_run fuel s db cancelled cursor c)))"
proof (induction fuel arbitrary: cursor c)
  case 0
  then show ?case by (simp add: chunks_cover_def)
next
  case (Suc fuel)
  let ?R = "remaining s cols table cursor" and ?n = "nat (sn_chunkSize s)"
  define page where "page = take ?n ?R"
  define high where "high = key_of s cols (last page)"
  define f where "f = (\<lambda>vals. read_row_event s c (int (length page)) high (row_of cols vals))"
  define later where "later = reads_of (fst (snap_run fuel s db cancelled high (c + 1)))"
  show ?case
  proof (cases "cancelled c \<or> ?R = []")
    case True
    then show ?thesis
      by (auto simp: readChunk_table [OF serves] chunks_cover_def Let_def)
  next
    case False
    then have ne: "page \<noteq> []" using n by (simp add: page_def)
    then have "last page \<in> set ?R" by (metis in_set_takeD last_in_set page_def)
    then have last: "last page \<in> set table" by (simp add: remaining_def)
    have next_R: "remaining s cols table high = drop ?n ?R"
      unfolding high_def page_def using st n False by (intro remaining_drop) auto
    have reads: "reads_of (fst (snap_run (Suc fuel) s db cancelled cursor c)) = map f page @ later"
      using False ne
      by (simp add: readChunk_table [OF serves] Let_def case_prod_beta later_def comp_def f_def high_def flip: page_def)
    note order = page_order [OF st, of ?n cursor, folded page_def high_def, OF ne]
    have fields: "ev_After (f v) = row_of cols v" "ev_PK (f v) = key_of s cols v" "ev_chunkID (f v) = c" "ev_chunkHighPK (f v) = high" for v
      by (simp_all add: f_def read_row_event_def key_of_def row_of_def)
    have ids: "c + 1 \<le> ev_chunkID r" if "r \<in> set later" for r
      using snap_run_read_stream [of "c + 1" fuel s db cancelled high] that by (simp add: later_def read_stream_def)
    have IH: "chunks_cover s cols table high later" unfolding later_def by (rule Suc.IH)
    have part: "v \<in> set page \<or> v \<in> set (remaining s cols table high)" if "v \<in> set ?R" for v
      using that unfolding next_R page_def by (metis Un_iff append_take_drop_id set_append)
    show ?thesis unfolding chunks_cover_def reads
    proof (intro ballI conjI impI)
      fix r assume r: "r \<in> set (map f page @ later)"
      then show "\<exists>v \<in> set table. ev_chunkHighPK r = key_of s cols v"
        using IH last by (auto simp: chunks_cover_def fields high_def)
      fix v assume v: "v \<in> set ?R" and le: "pk_rank (key_of s cols v) \<le> pk_rank (ev_chunkHighPK r)"
      show "\<exists>r' \<in> set (map f page @ later). ev_After r' = row_of cols v \<and> ev_PK r' = key_of s cols v \<and> ev_chunkID r' \<le> ev_chunkID r"
      proof (cases "v \<in> set page")
        case True
        then have "c \<le> ev_chunkID r" using r ids by (force simp: fields)
        with True show ?thesis by (intro bexI [of _ "f v"]) (auto simp: fields)
      next
        case no: False
        then have v': "v \<in> set (remaining s cols table high)" using part [OF v] by blast
        show ?thesis
        proof (cases "r \<in> set later")
          case True
          with IH v' le show ?thesis unfolding chunks_cover_def by auto
        next
          case False
          then have "ev_chunkHighPK r = high" using r by (auto simp: fields)
          with order(2) [of v] v' le show ?thesis by (simp add: next_R)
        qed
      qed
    qed
  qed
qed

section \<open>A connector with one table\<close>

lemma tables_from_one: "st_SnapshotTables s = [t] \<Longrightarrow> tables_from s = [t]"
  by (simp add: tables_from_def)

text \<open>The snapshotter of a table, and its key of a row.\<close>

abbreviation scanner :: "Config \<Rightarrow> CDCTable \<Rightarrow> snapshotter" where
  "scanner c t \<equiv> newSnapshotter (tb_Name t) (pkColumn t) (chunkSizeOrDefault c)"

abbreviation table_key :: "Config \<Rightarrow> (string \<Rightarrow> string list) \<Rightarrow> CDCTable \<Rightarrow> goval list \<Rightarrow> PK" where
  "table_key c cols t v \<equiv> key_of (scanner c t) (cols (tb_Name t)) v"

lemma scanner_size: "0 < sn_chunkSize (scanner c t)"
  by (simp add: newSnapshotter_def chunkSizeOrDefault_def split: prod.split)

lemma one_table_plan:
  assumes "st_SnapshotTables s = [t]"
  shows "plan_reads (runSnapshot fuel c db cancelled s) =
    (if cancelled (tb_Name t) 1 then []
     else reads_of (fst (snap_run fuel (scanner c t) (db (tb_Name t)) (cancelled (tb_Name t)) (st_SnapshotCursor s) 1)))"
  by (simp add: runSnapshot_def tables_from_one [OF assms] case_prod_beta Let_def)

lemma one_table_stream:
  assumes "st_SnapshotTables s = [t]"
  shows "read_stream 1 (plan_reads (runSnapshot fuel c db cancelled s))"
  by (simp add: one_table_plan [OF assms] snap_run_read_stream)

lemma one_table_cover:
  assumes "st_SnapshotTables s = [t]" and "table_ready fuel (chunkSizeOrDefault c) db cols tbl snaps t"
  shows "chunks_cover (scanner c t) (cols (tb_Name t)) (tbl (tb_Name t)) (st_SnapshotCursor s)
    (plan_reads (runSnapshot fuel c db cancelled s))"
proof -
  have s: "serves_table (scanner c t) (db (tb_Name t)) (cols (tb_Name t)) (tbl (tb_Name t)) (snaps (tb_Name t))"
    "sorted_table (scanner c t) (cols (tb_Name t)) (tbl (tb_Name t))"
    using assms(2) by (simp_all add: table_ready_def Let_def)
  show ?thesis
  proof (cases "cancelled (tb_Name t) 1")
    case True
    then show ?thesis by (simp add: one_table_plan [OF assms(1)] chunks_cover_def)
  next
    case False
    then show ?thesis using snap_run_cover [OF s(1) scanner_size s(2)] by (simp add: one_table_plan [OF assms(1)])
  qed
qed

lemma start_loaded:
  assumes "start c env e = Inr (e1, w, Some st)" and "se_load env = Inr (loaded, True)"
  shows "st = loaded"
  using assms by (auto simp: start_def Let_def split: if_splits sum.splits option.splits)

lemma remaining_split:
  assumes "v \<in> set (remaining s cols table cursor)"
  shows "v \<in> set (remaining s cols table high) \<or> pk_rank (key_of s cols v) \<le> pk_rank high"
  using assms by (auto simp: remaining_def above_def)

text \<open>What the scan of a restart reads: all rows above the saved cursor.\<close>

lemma restart_reads:
  assumes "st_SnapshotTables s = [t]" and "table_ready fuel (chunkSizeOrDefault c) db cols tbl snaps t"
    and "\<forall>v \<in> set (tbl (tb_Name t)). bound_for (table_key c cols t v) (st_SnapshotCursor s)"
  shows "\<exists>acts. runSnapshot fuel c db (\<lambda>_ _. False) s = acts @ [OnScanDone, OnComplete] \<and>
    ev_After ` set (plan_reads acts) =
      row_of (cols (tb_Name t)) ` set (remaining (scanner c t) (cols (tb_Name t)) (tbl (tb_Name t)) (st_SnapshotCursor s))"
proof -
  have n: "0 < chunkSizeOrDefault c" by (simp add: chunkSizeOrDefault_def)
  have "\<exists>acts. snap_tables fuel (chunkSizeOrDefault c) db (\<lambda>_ _. False) [t] (st_SnapshotCursor s) 1 = acts @ [OnScanDone, OnComplete] \<and>
      map ev_After (plan_reads acts) = table_rows cols tbl (chunkSizeOrDefault c) [t] (st_SnapshotCursor s)"
    by (rule snap_tables_rows [OF n, where snaps = snaps]) (use assms(2,3) in simp_all)
  then obtain acts where acts: "snap_tables fuel (chunkSizeOrDefault c) db (\<lambda>_ _. False) [t] (st_SnapshotCursor s) 1 = acts @ [OnScanDone, OnComplete]"
    "map ev_After (plan_reads acts) = table_rows cols tbl (chunkSizeOrDefault c) [t] (st_SnapshotCursor s)" by blast
  from acts(2) have "set (map ev_After (plan_reads acts)) =
      row_of (cols (tb_Name t)) ` set (remaining (scanner c t) (cols (tb_Name t)) (tbl (tb_Name t)) (st_SnapshotCursor s))"
    by simp
  with acts(1) show ?thesis by (auto simp: runSnapshot_def tables_from_one [OF assms(1)])
qed

lemma restart_from_saved:
  assumes "start c env newCDCEngine = Inr (e0, w, Some st)" and "st_SnapshotTables st = [t]"
    and "table_ready fuel (chunkSizeOrDefault c) db cols tbl snaps t"
    and "\<forall>v \<in> set (tbl (tb_Name t)). bound_for (table_key c cols t v) (st_SnapshotCursor st)"
    and "system_reach (e0, runSnapshot fuel c db cancelled st, [], []) (e, rest, d, a)"
    and "saved \<in> set (en_saved e)"
    and "start c env' newCDCEngine = Inr (e1, w', Some st')" and "se_load env' = Inr (saved, True)"
  shows "\<exists>acts. runSnapshot fuel c db (\<lambda>_ _. False) st' = acts @ [OnScanDone, OnComplete] \<and>
    (\<forall>v \<in> set (remaining (scanner c t) (cols (tb_Name t)) (tbl (tb_Name t)) (st_SnapshotCursor st)).
       (\<exists>r \<in> set a. ev_After r = row_of (cols (tb_Name t)) v \<and> ev_PK r = table_key c cols t v) \<or>
       row_of (cols (tb_Name t)) v \<in> ev_After ` set (plan_reads acts))"
proof -
  let ?R = "plan_reads (runSnapshot fuel c db cancelled st)" and ?cur = "st_SnapshotCursor st'"
  let ?rem = "remaining (scanner c t) (cols (tb_Name t)) (tbl (tb_Name t))"
  have st': "st' = saved" by (rule start_loaded [OF assms(7,8)])
  have "st = en_state e0" using start_engine(4) [OF assms(1)] by (simp split: if_splits)
  moreover have "fixed_part saved = fixed_part (en_state e0)" using fixed_from_start [OF assms(1,5)] assms(6) by blast
  ultimately have one: "st_SnapshotTables st' = [t]" using assms(2) by (simp add: fixed_part_def st')
  have cover: "\<exists>v \<in> set (tbl (tb_Name t)). ev_chunkHighPK r = table_key c cols t v"
      "\<And>v. v \<in> set (?rem (st_SnapshotCursor st)) \<Longrightarrow> pk_rank (table_key c cols t v) \<le> pk_rank (ev_chunkHighPK r) \<Longrightarrow>
         \<exists>r' \<in> set ?R. ev_After r' = row_of (cols (tb_Name t)) v \<and> ev_PK r' = table_key c cols t v \<and> ev_chunkID r' \<le> ev_chunkID r"
    if "r \<in> set ?R" for r
    using one_table_cover [OF assms(2,3), of cancelled] that unfolding chunks_cover_def by blast+
  have kinds: "same_kind (table_key c cols t v) (table_key c cols t v')" if "v \<in> set (tbl (tb_Name t))" "v' \<in> set (tbl (tb_Name t))" for v v'
    using assms(3) that by (simp add: table_ready_def sorted_table_def Let_def)
  have "?cur \<in> st_SnapshotCursor ` insert (en_state e) (set (en_saved e))" using assms(6) by (simp add: st')
  with saved_cursor_acked [OF assms(1) refl one_table_stream [OF assms(2)] assms(5)]
  consider "?cur = st_SnapshotCursor st" | "?cur = PKNil" | r where "r \<in> set a" "r \<in> set ?R" "?cur = ev_chunkHighPK r"
      "\<forall>r' \<in> set ?R. ev_chunkID r' \<le> ev_chunkID r \<longrightarrow> count (mset a) r' = count (mset ?R) r'" by blast
  then have goal: "(\<forall>v \<in> set (tbl (tb_Name t)). bound_for (table_key c cols t v) ?cur) \<and>
    (\<forall>v \<in> set (?rem (st_SnapshotCursor st)). v \<in> set (?rem ?cur) \<or>
       (\<exists>r \<in> set a. ev_After r = row_of (cols (tb_Name t)) v \<and> ev_PK r = table_key c cols t v))"
  proof cases
    case 1
    then show ?thesis using assms(4) by simp
  next
    case 2
    then show ?thesis by (simp add: remaining_def above_def bound_for_def)
  next
    case 3
    obtain v0 where v0: "v0 \<in> set (tbl (tb_Name t))" "?cur = table_key c cols t v0" using cover(1) [OF 3(2)] 3(3) by auto
    have "\<exists>r \<in> set a. ev_After r = row_of (cols (tb_Name t)) v \<and> ev_PK r = table_key c cols t v"
      if v: "v \<in> set (?rem (st_SnapshotCursor st))" and le: "pk_rank (table_key c cols t v) \<le> pk_rank ?cur" for v
    proof -
      obtain r' where r': "r' \<in> set ?R" "ev_After r' = row_of (cols (tb_Name t)) v" "ev_PK r' = table_key c cols t v"
        "ev_chunkID r' \<le> ev_chunkID r" using cover(2) [OF 3(2) v] le 3(3) by auto
      then have "count (mset a) r' = count (mset ?R) r'" using 3(4) by blast
      with r'(1) have "r' \<in> set a" by (metis count_mset_0_iff)
      with r' show ?thesis by blast
    qed
    moreover have "\<forall>v \<in> set (tbl (tb_Name t)). bound_for (table_key c cols t v) ?cur"
      using kinds v0 by (simp add: bound_for_def)
    ultimately show ?thesis using remaining_split by blast
  qed
  from restart_reads [OF one assms(3) conjunct1 [OF goal]]
  obtain acts where run: "runSnapshot fuel c db (\<lambda>_ _. False) st' = acts @ [OnScanDone, OnComplete]"
    and reads: "ev_After ` set (plan_reads acts) = row_of (cols (tb_Name t)) ` set (?rem ?cur)" by blast
  have again: "row_of (cols (tb_Name t)) v \<in> ev_After ` set (plan_reads acts)" if "v \<in> set (?rem ?cur)" for v
    unfolding reads using that by (rule imageI)
  show ?thesis
    by (rule exI [of _ acts], rule conjI [OF run], rule ballI) (use conjunct2 [OF goal] again in blast)
qed

section \<open>The restart finds a saved state\<close>

text \<open>What \<open>start\<close> makes of the results of \<open>Load\<close>.\<close>

definition load_result :: "CDCState \<times> bool \<times> string option \<Rightarrow> string + CDCState \<times> bool" where
  "load_result r = (case r of (state, found, None) \<Rightarrow> Inr (state, found) | (_, _, Some err) \<Rightarrow> Inl err)"

lemma start_load_ok:
  assumes "start c env e = Inr (e1, w, snap)"
  shows "\<exists>x. se_load env = Inr x"
  using assms by (cases "se_load env") (auto simp: start_def split: if_splits)

lemma store_after:
  assumes "pg_laws (so_conn store) rows" and "store_Save coerce store s1 pg1 = (None, pg2)"
    and "save_all coerce store later pg2 = (es, pg3)" and "\<forall>s \<in> set (s1 # later). state_writable coerce s"
  shows "\<exists>s \<in> set (s1 # later). store_Load store (snd (store_Init store pg3)) = (s, True, None) \<or>
    (\<exists>err. store_Load store (snd (store_Init store pg3)) = (zero_state, False, Some err))"
proof -
  have "row_holds coerce (rows pg2 (so_slotName store)) s1" using save_row(1) [OF assms(1,2)] by simp
  from save_all_row [OF assms(1,3) this] obtain s where s: "s \<in> set (s1 # later)" "row_holds coerce (rows pg3 (so_slotName store)) s"
    by blast
  have "rows (snd (store_Init store pg3)) = rows pg3" using assms(1) by (simp add: pg_laws_def store_Init_def)
  with s load_row [OF assms(1), of coerce "snd (store_Init store pg3)" s] assms(4) show ?thesis by auto
qed

lemma load_finds_saved:
  assumes "pg_laws (so_conn store) rows" and "\<forall>s \<in> set saved. state_writable coerce s"
    and "saved = before @ s1 # later" and "store_Save coerce store s1 pg1 = (None, pg2)"
    and "save_all coerce store later pg2 = (es, pg3)"
    and "se_load env = load_result (store_Load store (snd (store_Init store pg3)))" and "start c env e = Inr (e1, w, snap)"
  shows "\<exists>s \<in> set saved. se_load env = Inr (s, True)"
proof -
  obtain s where s: "s \<in> set (s1 # later)" "store_Load store (snd (store_Init store pg3)) = (s, True, None) \<or>
      (\<exists>err. store_Load store (snd (store_Init store pg3)) = (zero_state, False, Some err))"
    using store_after [OF assms(1,4,5)] assms(2,3) by auto
  have "se_load env = Inr (s, True)"
    using s(2) start_load_ok [OF assms(7)] assms(6) by (auto simp: load_result_def)
  then show ?thesis using s(1) assms(3) by auto
qed

text \<open>
  Claim C7. No row of the only captured table is lost by a crash in the middle of its snapshot while the table
  does not change. Let a connector with exactly one configured table, whose rows stay the same, run
  from any saved state, interleaved in any way with changes, demands and acknowledgements (also failed
  ones), cancelled or not, and stop at any moment after a save to the offset store that succeeded; later
  saves may have failed. Let a second run start from what it finds in the store, and suppose that it
  finds the phase of the snapshot. Then every row that the first run had to read was acknowledged with
  success by the first run, or the scan of the second run, which ends, reads it again. With several
  tables this is false (\<open>engine_unsafe_resume\<close>).
\<close>

theorem restart_loses_no_row:
  assumes "start c env newCDCEngine = Inr (e0, w, Some st)" and "st_SnapshotTables st = [t]"
    and "table_ready fuel (chunkSizeOrDefault c) db cols tbl snaps t"
    and "\<forall>v \<in> set (tbl (tb_Name t)). bound_for (table_key c cols t v) (st_SnapshotCursor st)"
    and "system_reach (e0, runSnapshot fuel c db cancelled st, [], []) (e, rest, d, a)"
    and "pg_laws (so_conn store) rows" and "\<forall>s \<in> set (en_saved e). state_writable coerce s"
    and "en_saved e = before @ s1 # later" and "store_Save coerce store s1 pg1 = (None, pg2)"
    and "save_all coerce store later pg2 = (es, pg3)"
    and "se_load env' = load_result (store_Load store (snd (store_Init store pg3)))"
    and "start c env' newCDCEngine = Inr (e1, w', Some st')"
  shows "\<exists>acts. runSnapshot fuel c db (\<lambda>_ _. False) st' = acts @ [OnScanDone, OnComplete] \<and>
    (\<forall>v \<in> set (remaining (scanner c t) (cols (tb_Name t)) (tbl (tb_Name t)) (st_SnapshotCursor st)).
       (\<exists>r \<in> set a. ev_After r = row_of (cols (tb_Name t)) v \<and> ev_PK r = table_key c cols t v) \<or>
       row_of (cols (tb_Name t)) v \<in> ev_After ` set (plan_reads acts))"
proof -
  obtain s where "s \<in> set (en_saved e)" "se_load env' = Inr (s, True)"
    using load_finds_saved [OF assms(6-12)] by blast
  then show ?thesis by (intro restart_from_saved [OF assms(1-5) _ assms(12)])
qed

section \<open>A concrete restart\<close>

text \<open>
  The table \<open>public.orders\<close> with the ids 1 and 2, chunks of one row. The first run reads, delivers and
  acknowledges order 1 and stops; the second run starts at the saved cursor and reads order 2.
\<close>

definition orders :: CDCTable where
  "orders = \<lparr>tb_Name = ''public.orders'', tb_PKColumn = ''id''\<rparr>"

definition one_config :: Config where
  "one_config = (two_config 1)\<lparr>cf_Tables := [orders]\<rparr>"

definition one_state :: CDCState where
  "one_state = initial_state one_config"

definition one_engine :: cdcEngine where
  "one_engine = newCDCEngine\<lparr>en_hasStore := True, en_state := one_state,
     en_merger := newMerger [] PhaseSnapshotting, en_hasStreamer := True\<rparr>"

definition order1 :: CDCEvent where "order1 = plan_read ''orders'' 1 1 1 1"

definition saved_state :: CDCState where
  "saved_state = one_state\<lparr>st_CurrentSnapshotTable := ''public.orders'', st_SnapshotCursor := PKInt 1\<rparr>"

lemma one_simps:
  "st_SnapshotTables one_state = [orders]" "st_SnapshotCursor one_state = PKNil" "chunkSizeOrDefault one_config = 1"
  "tb_Name orders = ''public.orders''" "pkColumn orders = ''id''" "st_Phase one_state = PhaseSnapshotting"
  "st_CurrentSnapshotTable one_state = []" "st_ScannedPKRanges one_state = []"
  by (simp_all add: one_state_def one_config_def initial_state_def zeroState_def two_config_def chunkSizeOrDefault_def
      orders_def pkColumn_def)

lemma one_start: "start one_config good_env newCDCEngine = Inr (one_engine, newWALStreamer ''slot'' ''pub'' 16, Some one_state)"
  by (simp add: start_def good_env_def one_engine_def one_state_def one_config_def ensurePublication_def ensureSlot_def two_config_def
      initial_state_def zeroState_def newCDCEngine_def Let_def)

lemma one_restart:
  "start one_config (good_env\<lparr>se_load := Inr (saved_state, True)\<rparr>) newCDCEngine =
     Inr (one_engine\<lparr>en_state := saved_state\<rparr>, newWALStreamer ''slot'' ''pub'' 16, Some saved_state)"
  by (simp add: start_def good_env_def one_engine_def saved_state_def one_state_def one_config_def ensurePublication_def ensureSlot_def
      two_config_def initial_state_def zeroState_def newCDCEngine_def Let_def)

lemma one_plan:
  "\<exists>rest. runSnapshot 3 one_config (two_db 1) (\<lambda>_ _. False) one_state =
    [OnTable ''public.orders'', OnMerger (BeginChunk 1 ''public.orders'' PKNil PKNil),
     OnMerger (EndChunk 1 ''public.orders'' (PKInt 1) 900), OnMerger (SnapshotEvent order1)] @ rest"
  by (simp add: plan_example_simps one_state_def one_config_def orders_def order1_def plan_read_def numeral_eq_Suc)

lemma one_scan:
  "run_actions one_engine [OnTable ''public.orders'', OnMerger (BeginChunk 1 ''public.orders'' PKNil PKNil),
     OnMerger (EndChunk 1 ''public.orders'' (PKInt 1) 900), OnMerger (SnapshotEvent order1)] =
   Some (Inr (one_engine\<lparr>en_state := one_state\<lparr>st_CurrentSnapshotTable := ''public.orders''\<rparr>,
     en_merger := \<lparr>mg_phase = PhaseSnapshotting,
       mg_scannedRanges = [\<lparr>rg_Table = ''public.orders'', rg_Low = PKNil, rg_High = PKInt 1, rg_XMin = 900\<rparr>],
       mg_currentChunk = None, mg_pendingWALEvents = [], mg_output = [order1], mg_toEmit = [], mg_walToEmit = []\<rparr>\<rparr>))"
  by (simp add: one_engine_def newCDCEngine_def begin_table_def merger_call_simps one_simps one_state_def one_config_def initial_state_def
      zeroState_def)

lemma one_demand:
  assumes "en_merger e = m" and "mg_output m = [order1]" and "en_chunkSizes e = []" and "en_pendingChunks e = []"
    and "en_chunkHighPK e = []"
  obtains e' where "HandleDemand e 1 False = Inr ([order1], e')" "en_chunkSizes e' = [(1, 1)]"
    "en_chunkHighPK e' = [(1, PKInt 1)]" "en_pendingChunks e' = [(1, ())]" "en_completedChunks e' = en_completedChunks e"
    "en_chunkAcked e' = en_chunkAcked e" "en_state e' = en_state e" "en_saved e' = en_saved e" "en_hasStore e' = en_hasStore e"
    "en_snapshotScanDone e' = en_snapshotScanDone e"
  using assms by (simp add: HandleDemand_def order1_def track_read_def Let_def)

lemma one_ack:
  assumes "en_chunkSizes e = [(1, 1)]" "en_chunkHighPK e = [(1, PKInt 1)]" "en_pendingChunks e = [(1, ())]"
    "en_completedChunks e = []" "en_chunkAcked e = []" "\<not> en_snapshotScanDone e" "en_hasStore e" "en_saved e = []"
  shows "en_saved (Acknowledger e [Some order1] None) = [(en_state e)\<lparr>st_SnapshotCursor := PKInt 1\<rparr>]"
  by (simp add: Acknowledger_def order1_def assms advance_lsn_def complete_chunk_def advanceSnapshotCursor_def check_streaming_def
      save_state_def lookup0_def lookup_pk_def min_pending_def watermark_def MaxInt_def Let_def)

lemma one_crash:
  "\<exists>e rest. system_reach (one_engine, runSnapshot 3 one_config (two_db 1) (\<lambda>_ _. False) one_state, [], []) (e, rest, [order1], [order1]) \<and>
     en_saved e = [saved_state]"
proof -
  let ?s0 = "(one_engine, runSnapshot 3 one_config (two_db 1) (\<lambda>_ _. False) one_state, [], [])"
  obtain rest where plan: "runSnapshot 3 one_config (two_db 1) (\<lambda>_ _. False) one_state =
    [OnTable ''public.orders'', OnMerger (BeginChunk 1 ''public.orders'' PKNil PKNil),
     OnMerger (EndChunk 1 ''public.orders'' (PKInt 1) 900), OnMerger (SnapshotEvent order1)] @ rest" using one_plan by blast
  obtain e1 where r1: "system_reach ?s0 (e1, rest, [], [])"
    and e1: "e1 = one_engine\<lparr>en_state := one_state\<lparr>st_CurrentSnapshotTable := ''public.orders''\<rparr>,
     en_merger := \<lparr>mg_phase = PhaseSnapshotting,
       mg_scannedRanges = [\<lparr>rg_Table = ''public.orders'', rg_Low = PKNil, rg_High = PKInt 1, rg_XMin = 900\<rparr>],
       mg_currentChunk = None, mg_pendingWALEvents = [], mg_output = [order1], mg_toEmit = [], mg_walToEmit = []\<rparr>\<rparr>"
    using run_actions_reach [OF one_scan, of ?s0] system_reach.start [of ?s0] plan by simp
  have "en_chunkSizes e1 = []" "en_pendingChunks e1 = []" "en_chunkHighPK e1 = []" "mg_output (en_merger e1) = [order1]"
    by (simp_all add: e1 one_engine_def newCDCEngine_def)
  from one_demand [OF refl this(4,1,2,3)] obtain e2 where e2: "HandleDemand e1 1 False = Inr ([order1], e2)" "en_chunkSizes e2 = [(1, 1)]"
    "en_chunkHighPK e2 = [(1, PKInt 1)]" "en_pendingChunks e2 = [(1, ())]" "en_completedChunks e2 = en_completedChunks e1"
    "en_chunkAcked e2 = en_chunkAcked e1" "en_state e2 = en_state e1" "en_saved e2 = en_saved e1" "en_hasStore e2 = en_hasStore e1"
    "en_snapshotScanDone e2 = en_snapshotScanDone e1" by blast
  have r2: "system_reach ?s0 (e2, rest, [order1], [])"
    using system_reach.step [OF r1 system_step.demand [OF e2(1)]] by simp
  let ?e3 = "Acknowledger e2 [Some order1] None"
  have "system_step (e2, rest, [order1], []) (?e3, rest, [order1], [] @ filter is_read (somes [Some order1]))"
    by (rule system_step.ack) (simp add: order1_def)
  then have r3: "system_reach ?s0 (?e3, rest, [order1], [order1])"
    using system_reach.step [OF r2] by (simp add: order1_def)
  have "en_saved ?e3 = [(en_state e2)\<lparr>st_SnapshotCursor := PKInt 1\<rparr>]"
    by (rule one_ack) (simp_all add: e2 e1 one_engine_def newCDCEngine_def)
  then have "en_saved ?e3 = [saved_state]" by (simp add: e2(7) e1 saved_state_def)
  with r3 show ?thesis by blast
qed

text \<open>The table, the store and the row that the first run has not read.\<close>

lemma one_key: "key_of (newSnapshotter ''public.orders'' ''id'' 1) [''id''] [VInt64 k] = PKInt k"
  by (simp add: key_of_def row_get_def newSnapshotter_def split: prod.splits)

lemma one_ready: "table_ready 3 (chunkSizeOrDefault one_config) (two_db 1) (\<lambda>_. [''id'']) two_rows (\<lambda>_ _. ''900:900:'') orders"
proof -
  have "serves_table (newSnapshotter ''public.orders'' ''id'' 1) (two_db 1 ''public.orders'') [''id''] (two_rows ''public.orders'') (\<lambda>_. ''900:900:'')"
    unfolding two_db_def two_rows_def [symmetric] by (rule serves_fixed_db) (simp_all add: two_rows_def)
  then show ?thesis by (simp add: table_ready_def one_simps sorted_table_def two_rows_def one_key)
qed

lemma one_row2: "[VInt64 2] \<in> set (remaining (scanner one_config orders) [''id''] (two_rows (tb_Name orders)) (st_SnapshotCursor one_state))"
  by (simp add: remaining_def above_def one_simps two_rows_def)

lemma order1_fields: "ev_After order1 = Some [(''id'', VInt64 1)]" "ev_PK order1 = PKInt 1" "is_read order1"
  by (simp_all add: order1_def plan_read_def is_read_def)

lemma saved_writable: "state_writable id saved_state"
  by (simp add: state_writable_def saved_state_def pk_sized_def one_simps orders_def)

lemma saved_stored:
  "\<exists>pg. store_Save id cdc_store saved_state Map.empty = (None, pg) \<and>
     se_load (good_env\<lparr>se_load := Inr (saved_state, True)\<rparr>) = load_result (store_Load cdc_store (snd (store_Init cdc_store pg)))"
proof -
  have "dec_state (enc_state id saved_state) = Some saved_state"
    by (intro dec_enc_state [where coerce = id] jeq.same saved_writable)
  then show ?thesis
    by (auto simp: store_Load_def store_Save_def store_Init_def cdc_store_def NewPostgresOffsetStore_def map_conn_def load_result_def)
qed

lemma cdc_store_laws: "pg_laws (so_conn cdc_store) (\<lambda>db. db)"
  using map_conn_laws by (simp add: cdc_store_def NewPostgresOffsetStore_def)

theorem restart_loses_no_row_witness:
  "\<exists>acts. runSnapshot 3 one_config (two_db 1) (\<lambda>_ _. False) saved_state = acts @ [OnScanDone, OnComplete] \<and>
     Some [(''id'', VInt64 2)] \<in> ev_After ` set (plan_reads acts)"
proof -
  let ?cols = "\<lambda>_::string. [''id'']"
  obtain e rest where run: "system_reach (one_engine, runSnapshot 3 one_config (two_db 1) (\<lambda>_ _. False) one_state, [], [])
      (e, rest, [order1], [order1])" and saved: "en_saved e = [saved_state]" using one_crash by blast
  have bound: "\<forall>v \<in> set (two_rows (tb_Name orders)). bound_for (table_key one_config ?cols orders v) (st_SnapshotCursor one_state)"
    by (simp add: one_simps bound_for_def)
  have other: "\<not> (\<exists>r \<in> set [order1]. ev_After r = row_of (?cols (tb_Name orders)) [VInt64 2] \<and> ev_PK r = table_key one_config ?cols orders [VInt64 2])"
    by (simp add: order1_fields row_of_def)
  obtain pg where save: "store_Save id cdc_store saved_state Map.empty = (None, pg)"
    and load: "se_load (good_env\<lparr>se_load := Inr (saved_state, True)\<rparr>) = load_result (store_Load cdc_store (snd (store_Init cdc_store pg)))"
    using saved_stored by blast
  have writable: "\<forall>s \<in> set (en_saved e). state_writable id s" by (simp add: saved saved_writable)
  have saves: "en_saved e = [] @ saved_state # []" "save_all id cdc_store [] pg = ([], pg)" using saved by simp_all
  from restart_loses_no_row [OF one_start one_simps(1) one_ready bound run cdc_store_laws writable saves(1) save saves(2) load one_restart]
    one_row2 other
  show ?thesis by (auto simp: row_of_def)
qed

end
