(* ===== verification/Row_Parsing.thy ===== *)
theory Row_Parsing
  imports Offset_Store WAL_Streamer "HOL-Library.Char_ord" "HOL-Library.List_Lexorder"
begin

text \<open>
  \<open>pg/utils.go\<close>: \<open>ParseRow\<close> turns a row of an event into a struct of the client by way of JSON. What
  \<open>json.Marshal\<close> makes of the dynamic values of a row is spelled out as far as the connector
  produces them; the texts of floats and times and other dynamic types are parameters, and so is the
  decoder of the client's type.
\<close>

section \<open>Marshalling a row\<close>

record json_lib =
  jl_coerce :: "string \<Rightarrow> string"        \<comment> \<open>replaces invalid UTF-8\<close>
  jl_float :: "64 word \<Rightarrow> json"          \<comment> \<open>a finite number\<close>
  jl_time :: "int \<Rightarrow> json option"        \<comment> \<open>\<open>time.Time.MarshalJSON\<close>\<close>
  jl_other :: "nat \<Rightarrow> json option"

text \<open>Infinities and NaN, whose exponent bits are all set, are an error.\<close>

definition finite_float :: "64 word \<Rightarrow> bool" where
  "finite_float w \<longleftrightarrow> take_bit 11 (drop_bit 52 w) \<noteq> 2047"

text \<open>A \<open>[16]byte\<close> is an array, so it becomes an array of numbers (a slice would be base64).\<close>

fun marshal_value :: "json_lib \<Rightarrow> goval \<Rightarrow> json option" where
  "marshal_value L VNil = Some JNull"
| "marshal_value L (VBool b) = Some (JBool b)"
| "marshal_value L (VInt64 n) = Some (JInt (sint n))"
| "marshal_value L (VInt32 n) = Some (JInt (sint n))"
| "marshal_value L (VBytes16 u) = Some (JArr (map (\<lambda>b. JInt (uint b)) u))"
| "marshal_value L (VString s) = Some (JStr (jl_coerce L s))"
| "marshal_value L (VFloat w) = (if finite_float w then Some (jl_float L w) else None)"
| "marshal_value L (VTime t) = jl_time L t"
| "marshal_value L (VOther n) = jl_other L n"

text \<open>The keys of a map are written in their order.\<close>

definition marshal_row :: "json_lib \<Rightarrow> Row \<Rightarrow> json option" where
  "marshal_row L row =
     (case row of
        None \<Rightarrow> Some JNull
      | Some m \<Rightarrow> map_option JObj
          (those (map (\<lambda>(k, v). map_option (Pair (jl_coerce L k)) (marshal_value L v)) (sort_key fst m))))"

section \<open>ParseRow\<close>

datatype parse_error = MarshalError | UnmarshalError

text \<open>
  \<open>unmarshal zero v\<close> is \<open>json.Unmarshal\<close> into a variable of the client's type: an error or none, and
  what the variable holds then. In \<open>return result, json.Unmarshal(b, &result)\<close> the language leaves
  open whether \<open>result\<close> is read before or after the call; \<open>late\<close> is the choice of the compiler.
\<close>

type_synonym 'r unmarshaller = "'r \<Rightarrow> json \<Rightarrow> bool \<times> 'r"

definition ParseRow :: "json_lib \<Rightarrow> 'r unmarshaller \<Rightarrow> 'r \<Rightarrow> bool \<Rightarrow> Row \<Rightarrow> 'r \<times> parse_error option" where
  "ParseRow L unmarshal zero late row =
     (case marshal_row L row of
        None \<Rightarrow> (zero, Some MarshalError)
      | Some b \<Rightarrow>
          (let (ok, result) = unmarshal zero b
           in (if late then result else zero, if ok then None else Some UnmarshalError)))"

text \<open>
  The client's type \<open>struct { F T `json:"c"` }\<close>: members with another name are ignored; a member of
  the wrong JSON type leaves the field as it is, and the error is reported at the end.
\<close>

fun struct_of :: "string \<Rightarrow> ('b \<Rightarrow> json \<Rightarrow> 'b option) \<Rightarrow> 'b unmarshaller" where
  "struct_of c dec x (JObj ms) =
     foldl (\<lambda>(ok, x) (k, v).
       if foldName k = foldName c then (case dec x v of None \<Rightarrow> (False, x) | Some y \<Rightarrow> (ok, y)) else (ok, x)) (True, x) ms"
| "struct_of c dec x JNull = (True, x)"
| "struct_of c dec x _ = (False, x)"

fun dec_int64 :: "int64 \<Rightarrow> json \<Rightarrow> int64 option" where
  "dec_int64 x (JInt n) = (if - (2 ^ 63) \<le> n \<and> n < 2 ^ 63 then Some (word_of_int n) else None)"
| "dec_int64 x JNull = Some x"
| "dec_int64 x _ = None"

section \<open>Keys from the snapshot and from the WAL\<close>

lemma those_member: "those (map f xs) = Some ys \<Longrightarrow> x \<in> set xs \<Longrightarrow> \<exists>y. f x = Some y \<and> y \<in> set ys"
  by (induction xs arbitrary: ys) (auto split: option.splits)

lemma struct_fails:
  assumes "(k, v) \<in> set ms" and "foldName k = foldName c" and "\<And>x. dec x v = None"
  shows "\<not> fst (struct_of c dec x (JObj ms))"
proof -
  define f where "f = (\<lambda>(ok :: bool, x) (k, v).
    if foldName k = foldName c then (case dec x v of None \<Rightarrow> (False, x) | Some y \<Rightarrow> (ok, y)) else (ok, x))"
  have keeps: "\<exists>y. f (False, x) n = (False, y)" for x n
    by (auto simp: f_def split: option.split prod.split)
  have stays: "\<not> fst (foldl f (False, x) ns)" for x ns
  proof (induction ns arbitrary: x)
    case (Cons n ns)
    obtain y where "f (False, x) n = (False, y)" using keeps by blast
    with Cons.IH [of y] show ?case by simp
  qed simp
  have "\<not> fst (foldl f (ok, x) ms)" for ok
    using assms(1)
  proof (induction ms arbitrary: ok x)
    case (Cons n ns)
    show ?case
    proof (cases "n = (k, v)")
      case True
      then show ?thesis using assms(2,3) stays by (simp add: f_def)
    next
      case False
      then have "(k, v) \<in> set ns" using Cons.prems by auto
      from Cons.IH [OF this] show ?thesis by (metis foldl_Cons prod.collapse)
    qed
  qed simp
  then show ?thesis by (simp add: f_def)
qed

lemma bytes_fail:
  assumes "(c, VBytes16 u) \<in> set m" and "jl_coerce L c = c"
  shows "snd (ParseRow L (struct_of c dec_string) zero late (Some m)) \<noteq> None"
proof (cases "those (map (\<lambda>(k, v). map_option (Pair (jl_coerce L k)) (marshal_value L v)) (sort_key fst m))")
  case None
  then show ?thesis by (simp add: ParseRow_def marshal_row_def)
next
  case (Some ms)
  have "(c, VBytes16 u) \<in> set (sort_key fst m)" using assms(1) by simp
  from those_member [OF Some this] assms(2) have "(c, JArr (map (\<lambda>b. JInt (uint b)) u)) \<in> set ms" by auto
  from struct_fails [OF this, of c dec_string zero] have "\<not> fst (struct_of c dec_string zero (JObj ms))" by simp
  with Some show ?thesis by (auto simp: ParseRow_def marshal_row_def split_def Let_def)
qed

lemma those_total: "\<forall>x \<in> set xs. f x \<noteq> None \<Longrightarrow> \<exists>ys. those (map f xs) = Some ys"
  by (induction xs) auto

lemma distinct_singleton_set_eq: "set xs = {x} \<Longrightarrow> distinct xs \<Longrightarrow> xs = [x]"
  by (cases xs) (auto, metis all_not_in_conv insert_absorb2 insert_iff list.set_intros(1) neq_Nil_conv set_empty subset_singletonD)

text \<open>
  A row of the client's table: every value can be marshalled, no column occurs twice, and the
  member names of the other columns do not match the field of the column \<open>c\<close>.
\<close>

definition row_fits :: "json_lib \<Rightarrow> string \<Rightarrow> (string \<times> goval) list \<Rightarrow> bool" where
  "row_fits L c m \<longleftrightarrow> distinct (map fst m) \<and> (\<forall>(k, v) \<in> set m. marshal_value L v \<noteq> None) \<and>
     (\<forall>k \<in> fst ` set m. k \<noteq> c \<longrightarrow> foldName (jl_coerce L k) \<noteq> foldName c)"

lemma struct_of_one:
  assumes "filter (\<lambda>(k, v). foldName k = foldName c) ms = [(k, j)]" and "dec x j = Some y"
  shows "struct_of c dec x (JObj ms) = (True, y)"
proof -
  define f where "f = (\<lambda>(ok :: bool, x) (k, v).
    if foldName k = foldName c then (case dec x v of None \<Rightarrow> (False, x) | Some y \<Rightarrow> (ok, y)) else (ok, x))"
  have skip: "filter (\<lambda>(k, v). foldName k = foldName c) ns = [] \<Longrightarrow> foldl f z ns = z" for ns z
    by (induction ns arbitrary: z) (auto simp: f_def split: if_splits prod.splits)
  obtain us vs where ms: "ms = us @ (k, j) # vs" and k: "foldName k = foldName c"
    and no: "filter (\<lambda>(k, v). foldName k = foldName c) us = []" "filter (\<lambda>(k, v). foldName k = foldName c) vs = []"
    using assms(1) by (metis (mono_tags, lifting) case_prod_conv filter_eq_ConsD filter_False)
  have "foldl f (True, x) ms = (True, y)"
    using skip [OF no(1)] skip [OF no(2)] k assms(2) by (simp add: ms f_def)
  then show ?thesis by (simp add: f_def)
qed

lemma those_filter:
  assumes "those (map (\<lambda>(k, v). map_option (Pair (g k)) (mv v)) m) = Some ms"
    and "filter (\<lambda>(k, v). P (g k)) m = [(c, v)]" and "mv v = Some j"
  shows "filter (\<lambda>(k, v). P k) ms = [(g c, j)]"
proof -
  have "those (map (\<lambda>(k, v). map_option (Pair (g k)) (mv v)) (filter (\<lambda>(k, v). P (g k)) m)) = Some (filter (\<lambda>(k, v). P k) ms)"
    using assms(1) by (induction m arbitrary: ms) (auto split: option.splits)
  then show ?thesis by (simp add: assms(2,3))
qed

lemma column_in_row:
  assumes "row_fits L c m" and "(c, v) \<in> set m" and "marshal_value L v = Some j" and "jl_coerce L c = c"
    and "dec zero j = Some y"
  shows "ParseRow L (struct_of c dec) zero late (Some m) = (if late then y else zero, None)"
proof -
  let ?P = "\<lambda>k. foldName k = foldName c" and ?s = "sort_key fst m"
  have fits: "distinct (map fst m)" "\<forall>(k, v) \<in> set m. marshal_value L v \<noteq> None"
    "\<forall>k \<in> fst ` set m. k \<noteq> c \<longrightarrow> foldName (jl_coerce L k) \<noteq> foldName c"
    using assms(1) by (simp_all add: row_fits_def)
  have key: "k = c" if "(k, x) \<in> set m" "?P (jl_coerce L k)" for k x
    using fits(3) that by force
  have val: "x = v" if "(c, x) \<in> set m" for x
    using eq_key_imp_eq_value [OF fits(1) that assms(2)] .
  have "set (filter (\<lambda>(k, v). ?P (jl_coerce L k)) ?s) = {(c, v)}"
  proof (intro equalityI subsetI)
    fix p assume p: "p \<in> set (filter (\<lambda>(k, v). ?P (jl_coerce L k)) ?s)"
    obtain k x where kx: "p = (k, x)" by (cases p) auto
    then have "(k, x) \<in> set m" "?P (jl_coerce L k)" using p by simp_all
    with key [OF this] val kx show "p \<in> {(c, v)}" by simp
  qed (use assms(2,4) in simp)
  moreover have "distinct (filter (\<lambda>(k, v). ?P (jl_coerce L k)) ?s)"
    using fits(1) by (simp add: distinct_map)
  ultimately have one: "filter (\<lambda>(k, v). ?P (jl_coerce L k)) ?s = [(c, v)]"
    by (metis distinct_singleton_set_eq)
  have "\<forall>x \<in> set ?s. (case x of (k, v) \<Rightarrow> map_option (Pair (jl_coerce L k)) (marshal_value L v)) \<noteq> None"
    using fits(2) by auto
  then obtain ms where ms: "those (map (\<lambda>(k, v). map_option (Pair (jl_coerce L k)) (marshal_value L v)) ?s) = Some ms"
    using those_total by (metis (no_types, lifting))
  from those_filter [OF ms one assms(3)] have "filter (\<lambda>(k, v). ?P k) ms = [(c, j)]" by (simp add: assms(4))
  from struct_of_one [of c ms c j dec, OF this assms(5)] ms show ?thesis
    by (simp add: ParseRow_def marshal_row_def)
qed

text \<open>
  Claim C40. \<open>ParseRow\<close> into a struct whose one field is the key column, on any row of the table
  (\<open>row_fits\<close>). A \<open>bigint\<close> key parses to the same number whether the row comes from the snapshot or
  from the WAL. A \<open>uuid\<close> key does not parse to the same value: pgx returns 16 bytes, which become an
  array of numbers, while the WAL decoder leaves the text. So with a text field, which parses the
  rows of the WAL, \<open>ParseRow\<close> fails on every row of the snapshot. (\<open>late\<close>: the compiler reads
  \<open>result\<close> after the call that fills it; otherwise the client gets the zero value.)
\<close>

theorem parse_row_uuid_key:
  assumes "jl_coerce L c = c" and "length u = 16" and "jl_coerce L (uuidToString u) = uuidToString u"
  shows "(\<forall>m v. row_fits L c m \<and> (c, v) \<in> set m \<and> (v = VInt64 n \<or> v = decodeText tp (dec_int (sint n)) 20) \<longrightarrow>
      ParseRow L (struct_of c dec_int64) 0 late (Some m) = (if late then n else 0, None)) \<and>
    (\<forall>m. row_fits L c m \<and> (c, decodeText tp (uuidToString u) 2950) \<in> set m \<longrightarrow>
      ParseRow L (struct_of c dec_string) [] late (Some m) = (if late then uuidToString u else [], None)) \<and>
    (\<forall>m. (c, VBytes16 u) \<in> set m \<longrightarrow> snd (ParseRow L (struct_of c dec_string) [] late (Some m)) \<noteq> None)"
proof (intro conjI allI impI; (elim conjE)?)
  fix m v assume m: "row_fits L c m" "(c, v) \<in> set m" and v: "v = VInt64 n \<or> v = decodeText tp (dec_int (sint n)) 20"
  have n: "dec_int64 0 (JInt (sint n)) = Some n" using sint_ge [of n] sint_lt [of n] by simp
  have "decodeText tp (dec_int (sint n)) 20 = VInt64 n" by (simp add: decodeText_def or_else_def ParseInt10_dec_int)
  with v have "marshal_value L v = Some (JInt (sint n))" by auto
  from column_in_row [OF m this assms(1), where dec = dec_int64 and zero = 0 and y = n] n show "ParseRow L (struct_of c dec_int64) 0 late (Some m) = (if late then n else 0, None)" by blast
next
  fix m assume m: "row_fits L c m" "(c, decodeText tp (uuidToString u) 2950) \<in> set m"
  have "marshal_value L (decodeText tp (uuidToString u) 2950) = Some (JStr (uuidToString u))"
    by (simp add: decodeText_def assms(3))
  from column_in_row [OF m this assms(1), of dec_string "[]" "uuidToString u"]
  show "ParseRow L (struct_of c dec_string) [] late (Some m) = (if late then uuidToString u else [], None)" by simp
next
  fix m assume "(c, VBytes16 u) \<in> set m"
  then show "snd (ParseRow L (struct_of c dec_string) [] late (Some m)) \<noteq> None" by (rule bytes_fail [OF _ assms(1)])
qed

definition plain_lib :: json_lib where
  "plain_lib = \<lparr>jl_coerce = (\<lambda>s. s), jl_float = (\<lambda>w. JInt 0), jl_time = (\<lambda>t. None), jl_other = (\<lambda>n. None)\<rparr>"

theorem parse_row_uuid_key_witness:
  "ParseRow plain_lib (struct_of ''id'' dec_int64) 0 True (Some [(''id'', VInt64 7), (''total'', VInt64 3)]) = (7, None) \<and>
   snd (ParseRow plain_lib (struct_of ''id'' dec_string) [] True
      (Some [(''id'', VBytes16 (replicate 16 7)), (''total'', VInt64 3)])) \<noteq> None"
proof -
  have fits: "row_fits plain_lib ''id'' [(''id'', VInt64 7), (''total'', VInt64 3)]"
    by (simp add: row_fits_def plain_lib_def)
  from parse_row_uuid_key [of plain_lib "''id''" "replicate 16 7" 7 _ True] fits show ?thesis
    by (auto simp: plain_lib_def)
qed

text \<open>If the compiler reads \<open>result\<close> before the call, the client gets the zero value with no error.\<close>

theorem parse_row_early_result:
  "ParseRow plain_lib (struct_of ''id'' dec_int64) 0 False (Some [(''id'', VInt64 7)]) = (0, None)"
  by (simp add: ParseRow_def marshal_row_def plain_lib_def)

end
