(* ===== verification/Session_Tracker.thy ===== *)
theory Session_Tracker
  imports Flow_Frames Batch_Runs PK_Values
begin

text \<open>
  The package \<open>examples\<close>: a client of the pipeline that tracks user sessions. A producer draws user
  activities at random, a message processor routes them to the batcher \<open>session_tracker\<close>, and its
  batch processor keeps one session per user. Times and floating-point numbers are parameters
  (\<open>'t\<close>, \<open>'f\<close> and the operations in \<open>golib\<close>), and so is the source of random numbers.
\<close>

section \<open>Activities and sessions\<close>

record ('t, 'f) golib =
  gl_time0 :: 't                    \<comment> \<open>\<open>time.Time{}\<close>\<close>
  gl_float0 :: 'f                   \<comment> \<open>\<open>float64(0)\<close>\<close>
  gl_add :: "'f \<Rightarrow> 'f \<Rightarrow> 'f"
  gl_times100 :: "'f \<Rightarrow> 'f"

text \<open>The dynamic types of \<open>Payload\<close> and of the values of its map that the code distinguishes.\<close>

datatype 'f activity_value = AnyString string | AnyFloat 'f | AnyOther

datatype 'f activity_data =
    NoData                                            \<comment> \<open>\<open>nil\<close>\<close>
  | StringMap "(string \<times> string) list"              \<comment> \<open>\<open>map[string]string\<close>\<close>
  | AnyMap "(string \<times> 'f activity_value) list"           \<comment> \<open>\<open>map[string]interface{}\<close>\<close>

record ('t, 'f) UserActivity =
  ua_UserID :: string
  ua_Action :: string
  ua_Timestamp :: 't
  ua_Payload :: "'f activity_data"

record ('t, 'f) UserSession =
  us_UserID :: string
  us_IsLoggedIn :: bool
  us_LastActivity :: 't
  us_PageViews :: "64 word"
  us_PurchaseCount :: "64 word"
  us_TotalPurchaseAmount :: 'f

text \<open>The payload of a message is an activity or anything else.\<close>

datatype ('t, 'f) payload = Activity "('t, 'f) UserActivity" | OtherPayload

definition as_activity :: "('t, 'f) payload \<Rightarrow> ('t, 'f) UserActivity go" where
  "as_activity p = (case p of Activity a \<Rightarrow> Inr a | OtherPayload \<Rightarrow> Inl TypeAssertion)"

section \<open>The batch processor\<close>

text \<open>
  The map of sessions may be nil (in the prototype of \<open>main.go\<close>, which only serves to be cloned):
  reading it finds nothing, writing to it panics. A session is reached through the map only.
\<close>

record ('t, 'f) UserSessionTracker =
  ut_userSessions :: "(string \<rightharpoonup> ('t, 'f) UserSession) option"

definition tracker_Clone :: "('t, 'f) UserSessionTracker \<Rightarrow> ('t, 'f) UserSessionTracker" where
  "tracker_Clone t = \<lparr>ut_userSessions = Some Map.empty\<rparr>"

definition session_get :: "('t, 'f) UserSessionTracker \<Rightarrow> string \<Rightarrow> ('t, 'f) UserSession option" where
  "session_get t userId = (case ut_userSessions t of None \<Rightarrow> None | Some m \<Rightarrow> m userId)"

definition session_put :: "('t, 'f) UserSessionTracker \<Rightarrow> string \<Rightarrow> ('t, 'f) UserSession \<Rightarrow> ('t, 'f) UserSessionTracker go" where
  "session_put t userId session =
     (case ut_userSessions t of
        None \<Rightarrow> Inl (UserPanic ''assignment to entry in nil map'')
      | Some m \<Rightarrow> Inr (t\<lparr>ut_userSessions := Some (m(userId \<mapsto> session))\<rparr>))"

definition new_session :: "('t, 'f) golib \<Rightarrow> string \<Rightarrow> ('t, 'f) UserSession" where
  "new_session L userId =
     \<lparr>us_UserID = userId, us_IsLoggedIn = False, us_LastActivity = gl_time0 L, us_PageViews = 0,
      us_PurchaseCount = 0, us_TotalPurchaseAmount = gl_float0 L\<rparr>"

text \<open>\<open>data["amount"].(float64)\<close> of a \<open>map[string]interface{}\<close>; the failed assertions are tested.\<close>

definition amount_of :: "'f activity_data \<Rightarrow> 'f option" where
  "amount_of data =
     (case data of
        AnyMap m \<Rightarrow> (case map_of m ''amount'' of Some (AnyFloat x) \<Rightarrow> Some x | _ \<Rightarrow> None)
      | _ \<Rightarrow> None)"

text \<open>The \<open>switch\<close> over the action.\<close>

definition switch_action :: "('t, 'f) golib \<Rightarrow> ('t, 'f) UserSession \<Rightarrow> ('t, 'f) UserActivity \<Rightarrow> ('t, 'f) UserSession" where
  "switch_action L s a =
     (if ua_Action a = ''login'' then s\<lparr>us_IsLoggedIn := True\<rparr>
      else if ua_Action a = ''logout'' then s\<lparr>us_IsLoggedIn := False\<rparr>
      else if ua_Action a = ''view_page'' then s\<lparr>us_PageViews := us_PageViews s + 1\<rparr>
      else if ua_Action a = ''purchase'' then
        (let s = s\<lparr>us_PurchaseCount := us_PurchaseCount s + 1\<rparr>
         in case amount_of (ua_Payload a) of
              None \<Rightarrow> s
            | Some amount \<Rightarrow> s\<lparr>us_TotalPurchaseAmount := gl_add L (us_TotalPurchaseAmount s) amount\<rparr>)
      else s)"

text \<open>\<open>lo.Map\<close> with the type assertion.\<close>

fun activities_of :: "('t, 'f) payload heap \<Rightarrow> msg_ref list \<Rightarrow> ('t, 'f) UserActivity list go" where
  "activities_of h [] = Inr []"
| "activities_of h (m # ms) =
     go_bind (as_activity (ms_Payload (h m))) (\<lambda>a. go_bind (activities_of h ms) (\<lambda>as. Inr (a # as)))"

text \<open>The whole batch belongs to the user of its first message. The result comes with the tracker it leaves.\<close>

definition tracker_Handle ::
  "('t, 'f) golib \<Rightarrow> ('t, 'f) payload heap \<Rightarrow> ('t, 'f) UserSessionTracker \<Rightarrow> msg_ref list \<Rightarrow>
   (msg_ref list \<times> string option) go \<times> ('t, 'f) UserSessionTracker" where
  "tracker_Handle L h t messages =
     (case messages of [] \<Rightarrow> (Inl IndexOutOfRange, t)
      | m # _ \<Rightarrow>
        (case as_activity (ms_Payload (h m)) of Inl p \<Rightarrow> (Inl p, t)
         | Inr first \<Rightarrow>
           (let userId = ua_UserID first;
                found = (case session_get t userId of
                   Some session \<Rightarrow> Inr (session, t)
                 | None \<Rightarrow> go_bind (session_put t userId (new_session L userId)) (\<lambda>t'. Inr (new_session L userId, t')))
            in case found of Inl p \<Rightarrow> (Inl p, t)
             | Inr (session, t') \<Rightarrow>
               (case activities_of h messages of Inl p \<Rightarrow> (Inl p, t')
                | Inr activities \<Rightarrow>
                  (let session = session\<lparr>us_LastActivity := ua_Timestamp (last activities)\<rparr>;
                       session = foldl (switch_action L) session activities
                   in case session_put t' userId session of Inl p \<Rightarrow> (Inl p, t')
                    | Inr t'' \<Rightarrow> (Inr (messages, None), t''))))))"

text \<open>The batches that a batch processor handles, one after the other.\<close>

fun track ::
  "('t, 'f) golib \<Rightarrow> ('t, 'f) payload heap \<Rightarrow> ('t, 'f) UserSessionTracker \<Rightarrow> msg_ref list list \<Rightarrow>
   (msg_ref list \<times> string option) go list \<times> ('t, 'f) UserSessionTracker" where
  "track L h t [] = ([], t)"
| "track L h t (b # bs) =
     (let (r, t') = tracker_Handle L h t b; (rs, t'') = track L h t' bs in (r # rs, t''))"

section \<open>The other clients and the configuration\<close>

text \<open>\<open>ActivityProcessor.Handle\<close> and the pipeline's \<open>PartitionBy\<close>.\<close>

definition activity_Handle :: "'a handler" where
  "activity_Handle h message =
     (Inr (Some message, None), h(message := (h message)\<lparr>ms_Batcher := ''session_tracker''\<rparr>))"

definition PartitionBy :: "('t, 'f) payload \<Rightarrow> string" where
  "PartitionBy payload = (case payload of Activity a \<Rightarrow> ua_UserID a | OtherPayload \<Rightarrow> '''')"

definition session_batcher :: batcherConfig where
  "session_batcher =
     \<lparr>bc_Name = ''session_tracker'', bc_BatchSize = 10, bc_BatchTimeout = 3000000000, bc_Concurrency = 3\<rparr>"

definition activity_processor :: messageProcessorConfig where
  "activity_processor = \<lparr>mc_Concurrency = 1, mc_MinDemand = 5, mc_MaxDemand = 10\<rparr>"

text \<open>
  The producer: \<open>rs_Intn k n\<close> and \<open>rs_Float k\<close> are the answers of the random source to the \<open>k\<close>-th draw,
  \<open>rs_Now k\<close> the clock at message \<open>k\<close>.
\<close>

record ('t, 'f) random_source =
  rs_Intn :: "nat \<Rightarrow> nat \<Rightarrow> nat"
  rs_Float :: "nat \<Rightarrow> 'f"
  rs_Now :: "nat \<Rightarrow> 't"

record ActivityProducer =
  ap_userIDs :: "string list"
  ap_actions :: "string list"

definition producer_Clone :: "ActivityProducer \<Rightarrow> ActivityProducer" where
  "producer_Clone p =
     \<lparr>ap_userIDs = map (\<lambda>i. ''user-'' @ dec_nat (i + 1)) [0..<10],
      ap_actions = [''login'', ''view_page'', ''click_button'', ''purchase'', ''logout'']\<rparr>"

text \<open>\<open>xs[rand.Intn(len(xs))]\<close>: \<open>Intn(0)\<close> panics.\<close>

definition pick :: "('t, 'f) random_source \<Rightarrow> nat \<Rightarrow> 'b list \<Rightarrow> 'b go" where
  "pick R k xs =
     (if xs = [] then Inl (UserPanic ''invalid argument to Intn'')
      else if rs_Intn R k (length xs) < length xs then Inr (xs ! rs_Intn R k (length xs)) else Inl IndexOutOfRange)"

text \<open>One round of the loop, from draw \<open>k\<close>; it returns the activity and the number of the next draw.\<close>

definition draw_activity ::
  "('t, 'f) golib \<Rightarrow> ('t, 'f) random_source \<Rightarrow> ActivityProducer \<Rightarrow> nat \<Rightarrow> nat \<Rightarrow> (('t, 'f) UserActivity \<times> nat) go" where
  "draw_activity L R p i k =
     go_bind (pick R k (ap_userIDs p)) (\<lambda>userID.
     go_bind (pick R (k + 1) (ap_actions p)) (\<lambda>action.
       let activity = \<lparr>ua_UserID = userID, ua_Action = action, ua_Timestamp = rs_Now R i, ua_Payload = NoData\<rparr>
       in if action = ''view_page''
          then Inr (activity\<lparr>ua_Payload := StringMap [(''page'', ''product-'' @ dec_nat (rs_Intn R (k + 2) 100))]\<rparr>, k + 3)
          else if action = ''purchase''
          then Inr (activity\<lparr>ua_Payload := AnyMap [(''product_id'', AnyString (''product-'' @ dec_nat (rs_Intn R (k + 2) 100))),
                                                   (''amount'', AnyFloat (gl_times100 L (rs_Float R (k + 3))))]\<rparr>, k + 4)
          else Inr (activity, k + 2)))"

fun draw_activities ::
  "('t, 'f) golib \<Rightarrow> ('t, 'f) random_source \<Rightarrow> ActivityProducer \<Rightarrow> nat \<Rightarrow> nat \<Rightarrow> nat \<Rightarrow>
   (('t, 'f) payload message list \<times> nat) go" where
  "draw_activities L R p 0 i k = Inr ([], k)"
| "draw_activities L R p (Suc n) i k =
     go_bind (draw_activity L R p i k) (\<lambda>(a, k').
     go_bind (draw_activities L R p n (i + 1) k') (\<lambda>(ms, k''). Inr (NewMessage (Activity a) None # ms, k'')))"

text \<open>\<open>make\<close> with a negative capacity panics.\<close>

definition activity_HandleDemand ::
  "('t, 'f) golib \<Rightarrow> ('t, 'f) random_source \<Rightarrow> ActivityProducer \<Rightarrow> int \<Rightarrow> (('t, 'f) payload message list \<times> nat) go" where
  "activity_HandleDemand L R p demand =
     (if demand < 0 then Inl (UserPanic ''makeslice: cap out of range'')
      else draw_activities L R p (nat demand) 0 0)"

section \<open>One user at a time\<close>

text \<open>
  What the tracker is meant to compute: the session of a user is the fold over the user's
  activities, each with its time, in order; a user without activities has none.
\<close>

definition record_activity :: "('t, 'f) golib \<Rightarrow> ('t, 'f) UserSession \<Rightarrow> ('t, 'f) UserActivity \<Rightarrow> ('t, 'f) UserSession" where
  "record_activity L s a = (switch_action L s a)\<lparr>us_LastActivity := ua_Timestamp a\<rparr>"

definition extend_session ::
  "('t, 'f) golib \<Rightarrow> string \<Rightarrow> ('t, 'f) UserSession option \<Rightarrow> ('t, 'f) UserActivity list \<Rightarrow> ('t, 'f) UserSession option" where
  "extend_session L user s as =
     (if as = [] then s else Some (foldl (record_activity L) (case s of None \<Rightarrow> new_session L user | Some x \<Rightarrow> x) as))"

definition user_session :: "('t, 'f) golib \<Rightarrow> string \<Rightarrow> ('t, 'f) UserActivity list \<Rightarrow> ('t, 'f) UserSession option" where
  "user_session L user as = extend_session L user None as"

text \<open>The activities among some messages, and messages that are activities with their user as the batch key.\<close>

definition recorded :: "('t, 'f) payload heap \<Rightarrow> msg_ref list \<Rightarrow> ('t, 'f) UserActivity list" where
  "recorded h ms = List.map_filter (\<lambda>m. case ms_Payload (h m) of Activity a \<Rightarrow> Some a | OtherPayload \<Rightarrow> None) ms"

definition keyed_by_user :: "('t, 'f) payload heap \<Rightarrow> msg_ref list \<Rightarrow> bool" where
  "keyed_by_user h ms \<longleftrightarrow>
     list_all (\<lambda>m. case ms_Payload (h m) of Activity a \<Rightarrow> ms_BatchKey (h m) = ua_UserID a | OtherPayload \<Rightarrow> False) ms"

lemma recorded_simps [simp]:
  "recorded h [] = []"
  "recorded h (m # ms) = (case ms_Payload (h m) of Activity a \<Rightarrow> [a] | OtherPayload \<Rightarrow> []) @ recorded h ms"
  "recorded h (xs @ ys) = recorded h xs @ recorded h ys"
  by (simp_all add: recorded_def List.map_filter_def split: payload.split)

lemma keyed_by_user_simps [simp]:
  "keyed_by_user h []"
  "keyed_by_user h (xs @ ys) \<longleftrightarrow> keyed_by_user h xs \<and> keyed_by_user h ys"
  by (simp_all add: keyed_by_user_def)

lemma extend_session_append:
  "extend_session L user (extend_session L user s as) bs = extend_session L user s (as @ bs)"
  by (simp add: extend_session_def)

lemma switch_action_time:
  "switch_action L (s\<lparr>us_LastActivity := x\<rparr>) a = (switch_action L s a)\<lparr>us_LastActivity := x\<rparr>"
  by (simp add: switch_action_def Let_def split: option.split)

lemma foldl_action_time:
  "foldl (switch_action L) (s\<lparr>us_LastActivity := x\<rparr>) as = (foldl (switch_action L) s as)\<lparr>us_LastActivity := x\<rparr>"
  by (induction as arbitrary: s) (simp_all add: switch_action_time)

text \<open>Setting the time of the last activity first and then acting is recording one by one.\<close>

lemma foldl_record:
  "foldl (record_activity L) s as =
    (if as = [] then s else (foldl (switch_action L) s as)\<lparr>us_LastActivity := ua_Timestamp (last as)\<rparr>)"
  by (induction as rule: rev_induct) (auto simp: record_activity_def switch_action_time)

lemma foldl_action:
  "as \<noteq> [] \<Longrightarrow> foldl (switch_action L) (s\<lparr>us_LastActivity := ua_Timestamp (last as)\<rparr>) as = foldl (record_activity L) s as"
  by (simp add: foldl_record foldl_action_time)

lemma activities_of_recorded: "keyed_by_user h ms \<Longrightarrow> activities_of h ms = Inr (recorded h ms)"
  by (induction ms) (auto simp: keyed_by_user_def as_activity_def split: payload.splits)

lemma recorded_nonempty: "keyed_by_user h ms \<Longrightarrow> recorded h ms = [] \<longleftrightarrow> ms = []"
  by (cases ms) (auto simp: keyed_by_user_def split: payload.splits)

text \<open>A batch of one user is handled without a panic and extends the session of this user only.\<close>

lemma tracker_one_user:
  assumes "ms \<noteq> []" and "keyed_by_user h ms" and "\<forall>m \<in> set ms. ms_BatchKey (h m) = user" and "ut_userSessions t = Some S"
  obtains t' where "tracker_Handle L h t ms = (Inr (ms, None), t')" "ut_userSessions t' \<noteq> None"
    "\<And>u. session_get t' u = (if u = user then extend_session L user (session_get t user) (recorded h ms) else session_get t u)"
proof -
  obtain m ms' where ms: "ms = m # ms'" using assms(1) by (cases ms) auto
  from assms(2,3) ms obtain a where a: "ms_Payload (h m) = Activity a" "ua_UserID a = user"
    by (auto simp: keyed_by_user_def split: payload.splits)
  note act = activities_of_recorded [OF assms(2)] and ne = recorded_nonempty [OF assms(2)]
  define s where "s = (case S user of None \<Rightarrow> new_session L user | Some x \<Rightarrow> x)"
  define t' where "t' = t\<lparr>ut_userSessions := Some (S(user \<mapsto> foldl (record_activity L) s (recorded h ms)))\<rparr>"
  have "tracker_Handle L h t ms = (Inr (ms, None), t')"
    using a assms(1,4) act ne foldl_action [of "recorded h ms" L s]
    by (cases "S user") (simp_all add: tracker_Handle_def ms as_activity_def session_get_def session_put_def s_def t'_def Let_def)
  moreover have "session_get t' u = (if u = user then extend_session L user (session_get t user) (recorded h ms) else session_get t u)" for u
    using assms(1,4) ne by (simp add: t'_def session_get_def extend_session_def s_def)
  moreover have "ut_userSessions t' \<noteq> None" by (simp add: t'_def)
  ultimately show thesis by (intro that)
qed

text \<open>So do batches of one user each, in any order, whatever the users.\<close>

definition one_user_batches :: "('t, 'f) payload heap \<Rightarrow> msg_ref list list \<Rightarrow> bool" where
  "one_user_batches h bs \<longleftrightarrow> (\<forall>b \<in> set bs. b \<noteq> [] \<and> keyed_by_user h b \<and> (\<exists>user. \<forall>m \<in> set b. ms_BatchKey (h m) = user))"

lemma track_sessions:
  assumes "one_user_batches h bs" and "ut_userSessions t \<noteq> None"
  shows "\<exists>t'. track L h t bs = (map (\<lambda>b. Inr (b, None)) bs, t') \<and>
    (\<forall>u. session_get t' u = extend_session L u (session_get t u) (recorded h (concat (map (of_key h u) bs))))"
  using assms
proof (induction bs arbitrary: t)
  case Nil
  then show ?case by (simp add: extend_session_def)
next
  case (Cons b bs)
  obtain user where b: "b \<noteq> []" "keyed_by_user h b" "\<forall>m \<in> set b. ms_BatchKey (h m) = user"
    using Cons.prems(1) by (auto simp: one_user_batches_def)
  obtain S where S: "ut_userSessions t = Some S" using Cons.prems(2) by auto
  obtain t1 where t1: "tracker_Handle L h t b = (Inr (b, None), t1)" "ut_userSessions t1 \<noteq> None"
    "\<And>u. session_get t1 u = (if u = user then extend_session L user (session_get t user) (recorded h b) else session_get t u)"
    using tracker_one_user [OF b S] by blast
  have "one_user_batches h bs" using Cons.prems(1) by (simp add: one_user_batches_def)
  from Cons.IH [OF this t1(2)] obtain t' where t': "track L h t1 bs = (map (\<lambda>b. Inr (b, None)) bs, t')"
    "\<And>u. session_get t' u = extend_session L u (session_get t1 u) (recorded h (concat (map (of_key h u) bs)))" by blast
  have "of_key h u b = (if user = u then b else [])" for u by (rule of_key_batch [OF b(3)])
  then have "session_get t' u = extend_session L u (session_get t u) (recorded h (concat (map (of_key h u) (b # bs))))" for u
    using t'(2) [of u] t1(3) [of u] by (auto simp: extend_session_append)
  then show ?case by (simp add: t1(1) t'(1))
qed

section \<open>Trackers behind a batcher\<close>

lemma delivered_batch:
  assumes "bt_inv h b" and "keyed_by_user h (bt_received b)" and "(i, k, xs) \<in> set (bt_delivered b)"
  shows "keyed_by_user h xs" and "\<forall>m \<in> set xs. ms_BatchKey (h m) = k"
proof -
  show key: "\<forall>m \<in> set xs. ms_BatchKey (h m) = k" using delivered_keys [OF assms(1,3)] by blast
  have "set xs \<subseteq> set (bt_received b)" by (rule handed_over_received [OF assms(1,3)])
  with assms(2) show "keyed_by_user h xs" by (auto simp: keyed_by_user_def list_all_iff)
qed

lemma done_empty:
  assumes "bt_inv h b" and "bt_phase b = BT_Done"
  shows "in_work b k = []" and "queued b k = []" and "bt_incoming b = []"
  using assms by (auto simp: in_work_def queued_def bt_inv_def bt_shape_def flushing_def flushed_def map_get_def)

text \<open>The batches whose \<open>Handle\<close> has returned or panicked.\<close>

definition handled_batches :: "batchProcessor \<Rightarrow> msg_ref list list" where
  "handled_batches p = take (length (bp_results p)) (bp_accepted p)"

lemma batches_one_user:
  assumes "reaches (bt_step h) (bt_run config ids) b" and "distinct ids" and "bt_procs b j = Some p"
    and "keyed_by_user h (bt_received b)"
  shows "one_user_batches h (bp_accepted p)"
proof -
  note inv = bt_inv_reaches [OF assms(1)] and size = size_reaches(1) [OF assms(1)]
  have acc: "bp_accepted p = batches_of j (bt_delivered b)"
    using flow_reaches [OF assms(1,2)] assms(3) by (auto simp: flow_inv_def procs_ok_def)
  show ?thesis unfolding one_user_batches_def
  proof
    fix xs assume "xs \<in> set (bp_accepted p)"
    then obtain k where d: "(j, k, xs) \<in> set (bt_delivered b)" by (auto simp: acc batches_of_def)
    from delivered_batch [OF inv assms(4) d] d size
    show "xs \<noteq> [] \<and> keyed_by_user h xs \<and> (\<exists>user. \<forall>m \<in> set xs. ms_BatchKey (h m) = user)"
      by (auto simp: size_inv_def)
  qed
qed

text \<open>
  Claim C24. Behind a batcher none of whose processors was replaced, with the user as the batch key:
  no call of a tracker's \<open>Handle\<close> panics or returns an error, and however the activities were cut
  into batches and interleaved with those of other users, the tracker to which the ring maps a user
  has the session that results from recording the user's activities one by one in the order in which
  the batcher received them, as far as they were handled; all of them once the batcher is done. No
  other tracker has a session for this user.
\<close>

theorem sessions_of_users:
  assumes "reaches (bt_step h) (bt_run config ids) b" and "distinct ids" and "bt_replaced b = 0"
    and "getNode (\<lambda>n. n) (bt_hr (bt_run config ids)) user = Some i" and "bt_procs b j = Some p"
    and "keyed_by_user h (bt_received b)"
  shows "\<exists>t handled rest.
    track L h (tracker_Clone t0) (handled_batches p) = (map (\<lambda>batch. Inr (batch, None)) (handled_batches p), t) \<and>
    (if j = i then of_key h user (bt_received b) else []) = handled @ rest \<and>
    session_get t user = user_session L user (recorded h handled) \<and>
    (bt_phase b = BT_Done \<longrightarrow> rest = [])"
proof -
  note inv = bt_inv_reaches [OF assms(1)] and fl = flow_reaches [OF assms(1,2)]
  let ?n = "length (bp_results p)" and ?key = "\<lambda>bs. concat (map (of_key h user) bs)"
  let ?later = "if j = i then in_work b user @ queued b user @ of_key h user (bt_incoming b) else []"
  have acc: "bp_accepted p = batches_of j (bt_delivered b)"
    using fl assms(5) by (auto simp: flow_inv_def procs_ok_def)
  have "?key (bp_accepted p) @ ?later = (if j = i then of_key h user (bt_received b) else [])"
    using accepted_of_key [where ds = "bt_delivered b", OF delivered_keys [OF inv] delivered_owner [OF assms(1,3,4)]] inv
    by (auto simp: acc bt_inv_def account_def)
  moreover have "?key (bp_accepted p) = ?key (handled_batches p) @ ?key (drop ?n (bp_accepted p))"
    by (metis append_take_drop_id concat_append handled_batches_def map_append)
  ultimately have split: "(if j = i then of_key h user (bt_received b) else []) =
      ?key (handled_batches p) @ (?key (drop ?n (bp_accepted p)) @ ?later)" by simp
  have "bt_phase b = BT_Done \<Longrightarrow> ?key (drop ?n (bp_accepted p)) @ ?later = []"
    using done_acknowledged(1) [OF fl assms(5)] done_empty [OF inv] by simp
  moreover have "one_user_batches h (handled_batches p)"
    using batches_one_user [OF assms(1,2,5,6)] by (auto simp: one_user_batches_def handled_batches_def dest: in_set_takeD)
  from track_sessions [OF this, of "tracker_Clone t0" L]
  obtain t where "track L h (tracker_Clone t0) (handled_batches p) = (map (\<lambda>batch. Inr (batch, None)) (handled_batches p), t)"
    and "session_get t user = user_session L user (recorded h (?key (handled_batches p)))"
    by (auto simp: tracker_Clone_def session_get_def user_session_def)
  ultimately show ?thesis using split by blast
qed

text \<open>
  The hypothesis on the batch keys is what the other clients establish: after the producer has
  stamped a new message with \<open>PartitionBy\<close> and the processor has handled it, it goes to the session
  tracker with its user as the batch key, unless the user's name is empty.
\<close>

lemma activity_routed:
  assumes "ms_Payload (h m) = Activity a" and "ua_UserID a \<noteq> ''''" and "ms_BatchKey (h m) = ''''" and "ms_partitionKey (h m) = PartitionBy (ms_Payload (h m))"
    and "process_one activity_Handle hb e m = (r, e')" and "pv_heap e = h"
  shows "r = Inr m \<and> ms_Batcher (pv_heap e' m) = bc_Name session_batcher \<and> keyed_by_user (pv_heap e') [m]"
  using assms by (auto simp: process_one_def activity_Handle_def route_fields_def PartitionBy_def session_batcher_def
      keyed_by_user_def defaultBatchKey_def Let_def split: option.splits if_splits)

lemma activity_Handle_local: "local_handler activity_Handle"
  by (auto simp: local_handler_def tame_def activity_Handle_def same_private_def)

text \<open>With a random source that keeps within its bounds the producer meets every demand exactly.\<close>

lemma pick_in:
  "xs \<noteq> [] \<Longrightarrow> \<forall>k n. 0 < n \<longrightarrow> rs_Intn R k n < n \<Longrightarrow> \<exists>x \<in> set xs. pick R k xs = Inr x"
  by (simp add: pick_def)

lemma draw_activity_user:
  assumes "ap_userIDs p \<noteq> []" and "ap_actions p \<noteq> []" and "\<forall>k n. 0 < n \<longrightarrow> rs_Intn R k n < n"
  shows "\<exists>a k'. draw_activity L R p i k = Inr (a, k') \<and> ua_UserID a \<in> set (ap_userIDs p)"
proof -
  obtain u where "pick R k (ap_userIDs p) = Inr u" "u \<in> set (ap_userIDs p)" using pick_in [OF assms(1,3)] by blast
  moreover obtain x where "pick R (k + 1) (ap_actions p) = Inr x" using pick_in [OF assms(2,3)] by blast
  ultimately show ?thesis by (simp add: draw_activity_def Let_def)
qed

lemma producer_meets_demand:
  assumes "\<forall>k n. 0 < n \<longrightarrow> rs_Intn R k n < n" and "0 \<le> demand"
  shows "\<exists>ms k. activity_HandleDemand L R (producer_Clone p) demand = Inr (ms, k) \<and> int (length ms) = demand \<and>
    (\<forall>m \<in> set ms. \<not> ms_acked m \<and> ms_BatchKey m = '''' \<and> PartitionBy (ms_Payload m) \<in> set (ap_userIDs (producer_Clone p)))"
proof -
  let ?p = "producer_Clone p"
  have lists: "ap_userIDs ?p \<noteq> []" "ap_actions ?p \<noteq> []" by (simp_all add: producer_Clone_def)
  have "\<exists>ms k'. draw_activities L R ?p n i k = Inr (ms, k') \<and> length ms = n \<and>
      (\<forall>m \<in> set ms. \<not> ms_acked m \<and> ms_BatchKey m = '''' \<and> PartitionBy (ms_Payload m) \<in> set (ap_userIDs ?p))" for n i k
  proof (induction n arbitrary: i k)
    case (Suc n)
    obtain a k1 where a: "draw_activity L R ?p i k = Inr (a, k1)" "ua_UserID a \<in> set (ap_userIDs ?p)"
      using draw_activity_user [OF lists assms(1)] by blast
    obtain ms k2 where "draw_activities L R ?p n (i + 1) k1 = Inr (ms, k2)" "length ms = n"
      "\<forall>m \<in> set ms. \<not> ms_acked m \<and> ms_BatchKey m = '''' \<and> PartitionBy (ms_Payload m) \<in> set (ap_userIDs ?p)"
      using Suc.IH [of "i + 1" k1] by blast
    with a show ?case by (simp add: NewMessage_def PartitionBy_def)
  qed simp
  from this [of "nat demand" 0 0] show ?thesis using assms(2) by (auto simp: activity_HandleDemand_def)
qed

section \<open>A concrete run\<close>

text \<open>\<open>ann\<close> logs in and buys something for 5, \<open>bob\<close> views a page in between; three trackers.\<close>

definition visit :: "string \<Rightarrow> string \<Rightarrow> nat \<Rightarrow> int activity_data \<Rightarrow> (nat, int) payload message" where
  "visit user action t data =
     (NewMessage (Activity \<lparr>ua_UserID = user, ua_Action = action, ua_Timestamp = t, ua_Payload = data\<rparr>) None)
       \<lparr>ms_BatchKey := user\<rparr>"

definition visits :: "(nat, int) payload heap" where
  "visits m =
     (if m = 0 then visit ''ann'' ''login'' 1 NoData
      else if m = 1 then visit ''bob'' ''view_page'' 2 (StringMap [(''page'', ''product-7'')])
      else visit ''ann'' ''purchase'' 3 (AnyMap [(''product_id'', AnyString ''product-7''), (''amount'', AnyFloat 5)]))"

definition int_lib :: "(nat, int) golib" where
  "int_lib = \<lparr>gl_time0 = 0, gl_float0 = 0, gl_add = (\<lambda>x y. x + y), gl_times100 = (\<lambda>x. 100 * x)\<rparr>"

definition visit_events :: "bt_event list" where
  "visit_events = [E_send [0, 1], E_receive, E_receive, E_round True, E_visit, E_route, E_hand_over,
     E_handled ''p2'' (Inr ([0], None)), E_visit, E_route, E_hand_over, E_handled ''p2'' (Inr ([1], None)),
     E_send [2], E_receive, E_terminate, E_loop_done, E_flush, E_visit, E_route, E_hand_over,
     E_handled ''p2'' (Inr ([2], None)), E_visit, E_flush_end, E_stop, E_stop, E_stop, E_stop,
     E_exit ''p0'', E_exit ''p1'', E_exit ''p2'', E_stop, E_stop, E_stop, E_stop]"

definition visits_done :: batcher where
  "visits_done =
     (case bt_exec visits (bt_run session_batcher [''p0'', ''p1'', ''p2'']) visit_events of
        None \<Rightarrow> bt_run session_batcher [''p0'', ''p1'', ''p2''] | Some b \<Rightarrow> b)"

lemma visits_reaches: "reaches (bt_step visits) (bt_run session_batcher [''p0'', ''p1'', ''p2'']) visits_done"
  by (auto simp: visits_done_def intro: reaches.start bt_exec_reaches split: option.splits)

lemma visits_values:
  "bt_phase visits_done = BT_Done" "bt_replaced visits_done = 0" "bt_received visits_done = [0, 1, 2]"
  "map_option handled_batches (bt_procs visits_done ''p2'') = Some [[0], [1], [2]]"
  "getNode (\<lambda>n. n) (bt_hr (bt_run session_batcher [''p0'', ''p1'', ''p2''])) ''ann'' = Some ''p2''"
proof -
  have "(bt_phase visits_done, bt_replaced visits_done, bt_received visits_done,
      map_option handled_batches (bt_procs visits_done ''p2''),
      getNode (\<lambda>n. n) (bt_hr (bt_run session_batcher [''p0'', ''p1'', ''p2''])) ''ann'') =
    (BT_Done, 0, [0, 1, 2], Some [[0], [1], [2]], Some ''p2'')" by code_simp
  then show "bt_phase visits_done = BT_Done" "bt_replaced visits_done = 0" "bt_received visits_done = [0, 1, 2]"
    "map_option handled_batches (bt_procs visits_done ''p2'') = Some [[0], [1], [2]]"
    "getNode (\<lambda>n. n) (bt_hr (bt_run session_batcher [''p0'', ''p1'', ''p2''])) ''ann'' = Some ''p2''"
    by (simp_all only: prod.inject)
qed

lemma visits_ann:
  "keyed_by_user visits [0, 1, 2]" "of_key visits ''ann'' [0, 1, 2] = [0, 2]"
  "user_session int_lib ''ann'' (recorded visits [0, 2]) =
     Some \<lparr>us_UserID = ''ann'', us_IsLoggedIn = True, us_LastActivity = 3, us_PageViews = 0, us_PurchaseCount = 1,
           us_TotalPurchaseAmount = 5\<rparr>"
  by code_simp+

theorem sessions_of_users_witness:
  "\<exists>t. track int_lib visits (tracker_Clone \<lparr>ut_userSessions = None\<rparr>) [[0], [1], [2]] =
      ([Inr ([0], None), Inr ([1], None), Inr ([2], None)], t) \<and>
    session_get t ''ann'' = Some \<lparr>us_UserID = ''ann'', us_IsLoggedIn = True, us_LastActivity = 3, us_PageViews = 0,
      us_PurchaseCount = 1, us_TotalPurchaseAmount = 5\<rparr>"
proof -
  from visits_values(4) obtain p where p: "bt_procs visits_done ''p2'' = Some p" "handled_batches p = [[0], [1], [2]]" by auto
  have "distinct [''p0'', ''p1'', ''p2'']" by simp
  from sessions_of_users [OF visits_reaches this visits_values(2,5) p(1), of int_lib "\<lparr>ut_userSessions = None\<rparr>"]
  obtain t handled rest where t: "track int_lib visits (tracker_Clone \<lparr>ut_userSessions = None\<rparr>) [[0], [1], [2]] =
      (map (\<lambda>batch. Inr (batch, None)) [[0], [1], [2]], t)"
    and h: "of_key visits ''ann'' [0, 1, 2] = handled @ rest" "rest = []"
    and s: "session_get t ''ann'' = user_session int_lib ''ann'' (recorded visits handled)"
    unfolding p(2) visits_values(3) using visits_ann(1) visits_values(1) by auto
  have "handled = [0, 2]" using h visits_ann(2) by (metis append_Nil2)
  with s have "session_get t ''ann'' = Some \<lparr>us_UserID = ''ann'', us_IsLoggedIn = True, us_LastActivity = 3,
      us_PageViews = 0, us_PurchaseCount = 1, us_TotalPurchaseAmount = 5\<rparr>" by (simp only: visits_ann(3))
  with t show ?thesis by (simp only: list.map) blast
qed

end
