(* ===== verification/CDC_Pipeline.thy ===== *)
theory CDC_Pipeline
  imports Pipeline_Flow Restart
begin

text \<open>
  The Postgres connector in a pipeline: \<open>NewPipeline\<close> takes the connector as the client of every
  producer (\<open>HandleDemand\<close>) and its \<open>Acknowledger()\<close> as the acknowledger of every message. The flow
  of messages is that of \<open>Pipeline_Flow\<close>, the engine and its goroutines are those of \<open>Connector\<close>;
  a message carries its event as payload and as metadata.
\<close>

section \<open>State\<close>

text \<open>A value of type \<open>any\<close>, as far as the connector looks at it: \<open>msg.Metadata().(CDCEvent)\<close>.\<close>

datatype 'x any_value = Event CDCEvent | Value 'x

definition as_CDCEvent :: "'x any_value option \<Rightarrow> CDCEvent option" where
  "as_CDCEvent v = (case v of Some (Event e) \<Rightarrow> Some e | _ \<Rightarrow> None)"

definition event_of :: "'x any_value heap \<Rightarrow> msg_ref \<Rightarrow> CDCEvent option" where
  "event_of h m = as_CDCEvent (Metadata (h m))"

text \<open>\<open>broadway.NewMessage(event, event)\<close> for the events of an answer, at new addresses.\<close>

fun make_messages :: "'x any_value heap \<Rightarrow> msg_ref list \<Rightarrow> CDCEvent list \<Rightarrow> 'x any_value heap" where
  "make_messages h (m # ms) (e # es) = make_messages (h(m := NewMessage (Event e) (Some (Event e)))) ms es"
| "make_messages h _ _ = h"

definition answer_with :: "msg_ref list \<Rightarrow> CDCEvent list \<Rightarrow> int \<Rightarrow> 'x any_value heap \<Rightarrow> (string + msg_ref list) \<times> 'x any_value heap" where
  "answer_with ms es = (\<lambda>n h. (Inr ms, make_messages h ms es))"

text \<open>Who calls acknowledgers: the message processors, and the batch processors of the batchers.\<close>

datatype caller = By_Processor string | By_Batch string string

fun calls_of :: "'a flow \<Rightarrow> caller \<Rightarrow> ack_call list" where
  "calls_of s (By_Processor j) = pv_acks (mp_env (fw_processors s j))"
| "calls_of s (By_Batch n i) = batch_acks (fw_batchers s n) i"

text \<open>
  The handlers of the batches return only messages that they were given, each at most once. (The
  client could return any messages, and they would be acknowledged.)
\<close>

definition honest :: "'a flow \<Rightarrow> bool" where
  "honest s \<longleftrightarrow> (\<forall>n i p. bt_procs (fw_batchers s n) i = Some p \<longrightarrow>
     (\<forall>(batch, res) \<in> set (zip (bp_accepted p) (bp_results p)).
        case res of Inl _ \<Rightarrow> True | Inr (processed, err) \<Rightarrow> mset processed \<subseteq># mset batch))"

text \<open>
  \<open>cd_plan\<close>: what the snapshot goroutine has still to do. The last three are history: the events that
  \<open>HandleDemand\<close> has delivered, the READ events acknowledged with success, and the calls that have
  reached the connector, each as its caller and its number among the caller's calls.
\<close>

record 'x cdc =
  cd_flow :: "'x any_value flow"
  cd_engine :: cdcEngine
  cd_plan :: "snap_action list"
  cd_delivered :: "CDCEvent list"
  cd_acked :: "CDCEvent list"
  cd_ran :: "(caller \<times> nat) list"

definition cdc_start :: "'x any_value flow_config \<Rightarrow> cdcEngine \<Rightarrow> snap_action list \<Rightarrow> 'x cdc" where
  "cdc_start c e acts =
     \<lparr>cd_flow = fw_start c, cd_engine = e, cd_plan = acts, cd_delivered = [], cd_acked = [], cd_ran = []\<rparr>"

section \<open>Steps\<close>

text \<open>
  \<open>pull\<close>: a producer calls \<open>HandleDemand\<close>, with the demand of its requests, and gets the events as
  messages; the clones of the connector share its engine. \<open>flow\<close>: any other step of the pipeline.
  \<open>snap\<close>, \<open>wal\<close>, \<open>send\<close>: the goroutines of the connector. \<open>ack\<close>: a call of the acknowledger \<open>a\<close> reaches
  the connector. (In the program it runs within the step that makes it; here it may come later,
  which adds interleavings.)
\<close>

inductive cdc_step :: "('x any_value \<Rightarrow> string) option \<Rightarrow> (string \<Rightarrow> string set) \<Rightarrow> bool \<Rightarrow> nat \<Rightarrow> 'x cdc \<Rightarrow> 'x cdc \<Rightarrow> bool"
  for partitionBy and owners and prompt and a where
  pull: "pr_phase (producer_at (cd_flow s) i) = PR_Loop \<Longrightarrow>
    p = pr_round (answer_with ms out) partitionBy (producer_at (cd_flow s) i) \<Longrightarrow>
    pr_demands p = pr_demands (fw_producers (cd_flow s) i) @ [n] \<Longrightarrow>
    HandleDemand (cd_engine s) n cancelled = Inr (out, e) \<Longrightarrow>
    length ms = length out \<Longrightarrow> distinct ms \<Longrightarrow> set ms \<inter> set (all_msgs (cd_flow s)) = {} \<Longrightarrow>
    cdc_step partitionBy owners prompt a s
      (s\<lparr>cd_flow := produce (cd_flow s) i p, cd_engine := e, cd_delivered := cd_delivered s @ out\<rparr>)"
| flow: "fw_step partitionBy owners prompt (cd_flow s) f \<Longrightarrow> fw_produced f = fw_produced (cd_flow s) \<Longrightarrow> honest f \<Longrightarrow>
    cdc_step partitionBy owners prompt a s (s\<lparr>cd_flow := f\<rparr>)"
| snap: "cd_plan s = act # acts \<Longrightarrow> apply_action (cd_engine s) act = Some (Inr e) \<Longrightarrow>
    cdc_step partitionBy owners prompt a s (s\<lparr>cd_engine := e, cd_plan := acts\<rparr>)"
| wal: "list_all is_wal (wb_events b) \<Longrightarrow> merger_step (en_merger (cd_engine s)) (WALBatch b) = Inr m \<Longrightarrow>
    cdc_step partitionBy owners prompt a s (s\<lparr>cd_engine := (cd_engine s)\<lparr>en_merger := m\<rparr>\<rparr>)"
| send: "op = SendSnapshot \<or> op = SendWAL \<Longrightarrow> merger_step (en_merger (cd_engine s)) op = Inr m \<Longrightarrow>
    cdc_step partitionBy owners prompt a s (s\<lparr>cd_engine := (cd_engine s)\<lparr>en_merger := m\<rparr>\<rparr>)"
| ack: "k < length (calls_of (cd_flow s) w) \<Longrightarrow> (w, k) \<notin> set (cd_ran s) \<Longrightarrow> call = calls_of (cd_flow s) w ! k \<Longrightarrow>
    ac_by call = a \<Longrightarrow> es = map (event_of (fw_heap (cd_flow s))) (ac_msgs call) \<Longrightarrow>
    cdc_step partitionBy owners prompt a s
      (s\<lparr>cd_engine := Acknowledger (cd_engine s) es (ac_err call),
         cd_acked := cd_acked s @ (if ac_err call = None then filter is_read (somes es) else []),
         cd_ran := cd_ran s @ [(w, k)]\<rparr>)"

section \<open>What a step of the flow keeps\<close>

text \<open>Messages keep their metadata, and the logs of calls grow.\<close>

definition flow_grow :: "'a flow \<Rightarrow> 'a flow \<Rightarrow> bool" where
  "flow_grow s s' \<longleftrightarrow> (\<forall>m \<in> set (all_msgs s). ms_metadata (fw_heap s' m) = ms_metadata (fw_heap s m)) \<and>
     (\<forall>w. prefix (calls_of s w) (calls_of s' w)) \<and>
     (\<forall>i. pr_messageAck (fw_producers s' i) = pr_messageAck (fw_producers s i))"

lemma calls_of_same:
  "(\<And>j. mp_env (fw_processors s' j) = mp_env (fw_processors s j)) \<Longrightarrow> (\<And>n. fw_batchers s' n = fw_batchers s n) \<Longrightarrow> calls_of s' w = calls_of s w"
  by (cases w) simp_all

lemma flow_grow_produce:
  assumes "pr_step pb owners (producer_at s i) p" and "\<forall>m \<in> set (all_msgs s). pr_heap p m = fw_heap s m"
  shows "flow_grow s (produce s i p)"
proof -
  have "pr_messageAck p = pr_messageAck (fw_producers s i)"
    using pr_grow_step [OF assms(1)] by (simp add: pr_grow_def producer_at_def)
  moreover have "calls_of (produce s i p) w = calls_of s w" for w
    by (rule calls_of_same) (simp_all add: produce_def)
  ultimately show ?thesis using assms(2) by (simp add: flow_grow_def produce_def)
qed

lemma flow_grow_work:
  assumes "mp_grow (processor_at s j) p"
  shows "flow_grow s (work s j p)"
proof -
  have g: "env_grow (unresolved (processor_at s j)) (mp_env (processor_at s j)) (mp_env p)" using assms by (simp add: mp_grow_def)
  then have "prefix (pv_acks (mp_env (fw_processors s j))) (pv_acks (mp_env p))"
    by (simp add: env_grow_def processor_at_def with_heap_def)
  then have "prefix (calls_of s w) (calls_of (work s j p) w)" for w
    by (cases w) (simp_all add: work_def)
  then show ?thesis using g by (simp add: flow_grow_def work_def env_grow_def processor_at_def)
qed

lemma flow_grow_processor:
  assumes "prefix (pv_acks (mp_env (fw_processors s j))) (pv_acks (mp_env p))"
  shows "flow_grow s (s\<lparr>fw_processors := (fw_processors s)(j := p), fw_wire := w\<rparr>)"
proof -
  have "prefix (calls_of s v) (calls_of (s\<lparr>fw_processors := (fw_processors s)(j := p), fw_wire := w\<rparr>) v)" for v
    using assms by (cases v) simp_all
  then show ?thesis by (simp add: flow_grow_def)
qed

lemma flow_grow_batcher:
  assumes "bt_step h (fw_batchers s n) b"
  shows "flow_grow s (s\<lparr>fw_batchers := (fw_batchers s)(n := b), fw_link := l\<rparr>)"
proof -
  have "prefix (calls_of s v) (calls_of (s\<lparr>fw_batchers := (fw_batchers s)(n := b), fw_link := l\<rparr>) v)" for v
    using batch_acks_grow [OF assms] by (cases v) simp_all
  then show ?thesis by (simp add: flow_grow_def)
qed

lemma respond_acks: "mp_respond p ms = Inr p' \<Longrightarrow> prefix (pv_acks (mp_env p)) (pv_acks (mp_env p'))"
  by (auto simp: mp_respond_def go_bind_Inr_iff split: if_splits option.splits)

lemma flow_grow_step:
  assumes inv: "fw_inv c pb owners s" and st: "fw_step pb owners prompt s s'"
  shows "flow_grow s s'"
  using st
proof cases
  case (producer i p)
  then show ?thesis by (simp add: flow_grow_produce produces_fresh_def Let_def)
next
  case (respond i ms j p)
  have "prefix (pv_acks (mp_env (fw_processors s j))) (pv_acks (mp_env p))"
    using respond_acks [OF respond(4)] by (simp add: processor_at_def with_heap_def)
  then show ?thesis using respond(1) flow_grow_processor by blast
next
  case (enqueue ms j)
  then show ?thesis using flow_grow_processor [of s j _ "fw_wire s"] by (simp add: mp_enqueue_def)
next
  case (round j handle send answer)
  have i: "mp_inv (processor_at s j)" and ph: "mp_phase (processor_at s j) = MP_Loop"
    using inv round by (simp_all add: fw_inv_def processors_ok_def processor_at_def)
  show ?thesis unfolding round(1) by (rule flow_grow_work [OF mp_round_grows [OF round(3) i ph]])
next
  case (unwind j handle send)
  have i: "mp_inv (processor_at s j)" using inv by (simp add: fw_inv_def processors_ok_def)
  show ?thesis unfolding unwind(1) by (rule flow_grow_work [OF mp_unwind_grows [OF unwind(3) i]])
next
  case (manage j p)
  then show ?thesis using flow_grow_processor [of s j p "fw_wire s"]
    by (simp add: same_work_def processor_at_def with_heap_def)
next
  case (accept n ms rest b)
  then show ?thesis using flow_grow_batcher [OF bt_step.send [OF accept(3)]] by simp
next
  case (batcher n b)
  then show ?thesis using flow_grow_batcher [OF batcher(2), of "fw_link s"] by simp
next
  case (payload h)
  have "ms_metadata (h m) = ms_metadata (fw_heap s m)" for m
  proof -
    have "h m = (fw_heap s m)\<lparr>ms_Payload := ms_Payload (h m)\<rparr>" using payload(2) ..
    then show ?thesis by (metis (no_types, lifting) message.select_convs(4) message.surjective message.update_convs(1))
  qed
  moreover have "calls_of (s\<lparr>fw_heap := h\<rparr>) w = calls_of s w" for w by (rule calls_of_same) simp_all
  ultimately show ?thesis using payload(1) by (simp add: flow_grow_def)
qed

section \<open>No message is acknowledged twice\<close>

text \<open>The messages of some calls, named by caller and number.\<close>

definition call_msgs :: "'a flow \<Rightarrow> caller \<times> nat \<Rightarrow> msg_ref list" where
  "call_msgs s r = ac_msgs (calls_of s (fst r) ! snd r)"

definition valid_calls :: "'a flow \<Rightarrow> (caller \<times> nat) list \<Rightarrow> bool" where
  "valid_calls s rs \<longleftrightarrow> distinct rs \<and> (\<forall>(w, k) \<in> set rs. k < length (calls_of s w))"

lemma nth_msgs_subset: "k < length cs \<Longrightarrow> set (ac_msgs (cs ! k)) \<subseteq> set (concat (map ac_msgs cs))"
  by (auto intro: nth_mem)

lemma nth_msgs_disjoint:
  "distinct (concat (map ac_msgs cs)) \<Longrightarrow> k < length cs \<Longrightarrow> l < length cs \<Longrightarrow> k \<noteq> l \<Longrightarrow>
     set (ac_msgs (cs ! k)) \<inter> set (ac_msgs (cs ! l)) = {}"
proof (induction cs arbitrary: k l)
  case (Cons c cs)
  have other: "set (ac_msgs c) \<inter> set (ac_msgs (cs ! i)) = {}" if "i < length cs" for i
    using Cons.prems(1) nth_msgs_subset [OF that] by auto
  show ?case
  proof (cases k; cases l)
    fix k' l' assume "k = Suc k'" "l = Suc l'"
    then show ?thesis using Cons by simp
  next
    fix l' assume "k = 0" "l = Suc l'"
    then show ?thesis using other [of l'] Cons.prems(3) by simp
  next
    fix k' assume "k = Suc k'" "l = 0"
    then show ?thesis using other [of k'] Cons.prems(2) by (simp add: Int_commute)
  qed (use Cons.prems(4) in simp)
qed simp

lemma nth_msgs_distinct: "distinct (concat (map ac_msgs cs)) \<Longrightarrow> k < length cs \<Longrightarrow> distinct (ac_msgs (cs ! k))"
  by (induction cs arbitrary: k) (auto simp: nth_Cons split: nat.split)

lemma expected_msgs:
  assumes "\<forall>(batch, res) \<in> set (zip dn rs). case res of Inl _ \<Rightarrow> True | Inr (processed, err) \<Rightarrow> mset processed \<subseteq># mset batch"
    and "length dn = length rs"
  shows "mset (concat (map ac_msgs (concat (map2 (bp_expected h i) dn rs)))) \<subseteq># mset (concat dn)"
  using assms(2,1)
proof (induction dn rs rule: list_induct2)
  case (Cons b dn r rs)
  have "mset (concat (map ac_msgs (bp_expected h i b r))) \<subseteq># mset b"
    using Cons.prems by (auto simp: bp_expected_def call_ack_def split: list.splits sum.splits option.splits prod.splits)
  moreover have "mset (concat (map ac_msgs (concat (map2 (bp_expected h i) dn rs)))) \<subseteq># mset (concat dn)"
    using Cons by simp
  ultimately show ?case by (simp add: subset_mset.add_mono)
qed simp

lemma proc_log:
  assumes "flow_inv h b" and p: "bt_procs b i = Some p"
  obtains dn where "length dn = length (bp_results p)" "zip (bp_accepted p) (bp_results p) = zip dn (bp_results p)"
    "bp_acks p @ bp_owed h p = concat (map2 (bp_expected h i) dn (bp_results p))"
    "mset (concat dn) \<subseteq># mset (concat (batches_of i (bt_delivered b)))"
proof -
  have po: "procs_ok h b" using assms(1) by (simp add: flow_inv_def)
  from procs_okD(1) [OF po p] have log: "bp_log_ok h p" "bp_id p = i"
    by (auto simp: run_of_def dest: bp_reaches_facts)
  then obtain dn where dn: "bp_accepted p = dn @ bp_in_hand p" "length dn = length (bp_results p)"
    "bp_acks p @ bp_owed h p = concat (map2 (bp_expected h i) dn (bp_results p))" by (auto simp: bp_log_ok_def)
  have "mset (concat dn) \<subseteq># mset (concat (bp_accepted p))" by (simp add: dn(1))
  then show ?thesis using dn procs_okD(2) [OF po p] by (intro that [of dn]) (simp_all add: zip_append1)
qed

lemma batch_acks_delivered:
  assumes fl: "flow_inv h b" and hon: "\<And>p. bt_procs b i = Some p \<Longrightarrow> \<forall>(batch, res) \<in> set (zip (bp_accepted p) (bp_results p)).
      case res of Inl _ \<Rightarrow> True | Inr (processed, err) \<Rightarrow> mset processed \<subseteq># mset batch"
  shows "mset (concat (map ac_msgs (batch_acks b i))) \<subseteq># mset (concat (batches_of i (bt_delivered b)))"
proof (cases "bt_procs b i")
  case (Some p)
  from proc_log [OF fl Some] obtain dn where dn: "length dn = length (bp_results p)"
    "zip (bp_accepted p) (bp_results p) = zip dn (bp_results p)"
    "bp_acks p @ bp_owed h p = concat (map2 (bp_expected h i) dn (bp_results p))"
    "mset (concat dn) \<subseteq># mset (concat (batches_of i (bt_delivered b)))" .
  from expected_msgs [OF hon [OF Some, unfolded dn(2)] dn(1), of h i]
  have "mset (concat (map ac_msgs (bp_acks p @ bp_owed h p))) \<subseteq># mset (concat dn)" unfolding dn(3) .
  then have "mset (concat (map ac_msgs (bp_acks p))) \<subseteq># mset (concat dn)"
    by simp (metis mset_subset_eq_add_left subset_mset.order_trans)
  then show ?thesis using dn(4) Some by (simp add: batch_acks_def)
qed (simp add: batch_acks_def)

lemma batches_keyed: "concat (batches_of i ds) = keyed (map (\<lambda>(i, k, xs). (i, xs)) ds) i"
  by (induction ds) (auto simp: batches_of_def)

lemma delivered_keyed: "delivered_msgs b = concat (map snd (map (\<lambda>(i, k, xs). (i, xs)) (bt_delivered b)))"
  by (simp add: delivered_msgs_def comp_def split_def)

fun place_of :: "caller \<Rightarrow> place" where
  "place_of (By_Processor j) = Acknowledged j"
| "place_of (By_Batch n i) = Handed_Over n"

text \<open>The messages of a caller's calls are at the caller's place, each once; different callers have different ones.\<close>

lemma caller_msgs:
  assumes inv: "fw_inv c pb owners s" and ids: "\<And>n. distinct (fc_ids c n)" and hon: "honest s"
  shows "distinct (concat (map ac_msgs (calls_of s w)))"
    and "set (concat (map ac_msgs (calls_of s w))) \<subseteq> set (at_place s (place_of w))"
    and "w \<noteq> w' \<Longrightarrow> set (concat (map ac_msgs (calls_of s w))) \<inter> set (concat (map ac_msgs (calls_of s w'))) = {}"
proof -
  have sub: "mset (concat (map ac_msgs (batch_acks (fw_batchers s n) i))) \<subseteq># mset (concat (batches_of i (bt_delivered (fw_batchers s n))))" for n i
  proof (rule batch_acks_delivered)
    show "flow_inv (fw_heap s) (fw_batchers s n)"
      using inv by (auto simp: fw_inv_def batchers_ok_def intro: flow_reaches [OF _ ids])
  qed (use hon in \<open>simp add: honest_def\<close>)
  have dist: "distinct (concat (map snd (map (\<lambda>(i, k, xs). (i, xs)) (bt_delivered (fw_batchers s n)))))" for n
    using place_distinct [OF inv, of "Handed_Over n"] by (simp add: at_place_def delivered_keyed)
  have own: "set (concat (map ac_msgs (batch_acks (fw_batchers s n) i))) \<subseteq> set (concat (batches_of i (bt_delivered (fw_batchers s n))))" for n i
    using sub [of n i] by (metis set_mset_mono set_mset_mset)
  have del: "set (concat (batches_of i (bt_delivered b))) \<subseteq> set (delivered_msgs b)" for i b
    unfolding batches_keyed delivered_keyed by (rule keyed_sub)
  show "distinct (concat (map ac_msgs (calls_of s w)))"
  proof (cases w)
    case (By_Processor j)
    then show ?thesis using place_distinct [OF inv, of "Acknowledged j"] by (simp add: at_place_def acked_msgs_def)
  next
    case (By_Batch n i)
    have "distinct (concat (batches_of i (bt_delivered (fw_batchers s n))))" unfolding batches_keyed by (rule keyed_distinct [OF dist])
    with sub [of n i] show ?thesis using distinct_msubset By_Batch by simp
  qed
  show at: "set (concat (map ac_msgs (calls_of s w))) \<subseteq> set (at_place s (place_of w))" for w
  proof (cases w)
    case (By_Processor j)
    then show ?thesis by (simp add: at_place_def acked_msgs_def)
  next
    case (By_Batch n i)
    then show ?thesis using own [of n i] del [of i "fw_batchers s n"] by (simp add: at_place_def)
  qed
  assume ne: "w \<noteq> w'"
  show "set (concat (map ac_msgs (calls_of s w))) \<inter> set (concat (map ac_msgs (calls_of s w'))) = {}"
  proof (cases "place_of w = place_of w'")
    case False
    then show ?thesis using at [of w] at [of w'] place_unique [OF inv] by blast
  next
    case True
    with ne obtain n i i' where w: "w = By_Batch n i" "w' = By_Batch n i'" "i \<noteq> i'" by (cases w; cases w') auto
    have "set (concat (batches_of i (bt_delivered (fw_batchers s n)))) \<inter> set (concat (batches_of i' (bt_delivered (fw_batchers s n)))) = {}"
      unfolding batches_keyed by (rule keyed_disjoint [OF dist w(3)])
    with own [of n i] own [of n i'] show ?thesis unfolding w calls_of.simps by blast
  qed
qed

lemma calls_disjoint:
  assumes inv: "fw_inv c pb owners s" and ids: "\<And>n. distinct (fc_ids c n)" and hon: "honest s" and v: "valid_calls s rs"
  shows "distinct (concat (map (call_msgs s) rs))" and "set (concat (map (call_msgs s) rs)) \<subseteq> set (all_msgs s)"
proof -
  note C = caller_msgs [OF inv ids hon]
  have in_caller: "set (call_msgs s (w, k)) \<subseteq> set (concat (map ac_msgs (calls_of s w)))" if "k < length (calls_of s w)" for w k
    using nth_msgs_subset [OF that] by (simp add: call_msgs_def)
  have disj: "set (call_msgs s r) \<inter> set (call_msgs s r') = {}" if r: "r \<in> set rs" "r' \<in> set rs" "r \<noteq> r'" for r r'
  proof -
    obtain w k w' k' where e: "r = (w, k)" "r' = (w', k')" by (metis prod.collapse)
    have l: "k < length (calls_of s w)" "k' < length (calls_of s w')" using v r(1,2) by (auto simp: valid_calls_def e)
    show ?thesis
    proof (cases "w = w'")
      case True
      with r(3) l nth_msgs_disjoint [OF C(1) l(1), of k'] show ?thesis by (simp add: e call_msgs_def)
    next
      case False
      from C(3) [OF this] in_caller [OF l(1)] in_caller [OF l(2)] show ?thesis unfolding e by blast
    qed
  qed
  have one: "distinct (call_msgs s r)" if "r \<in> set rs" for r
  proof -
    have "snd r < length (calls_of s (fst r))" using v that by (auto simp: valid_calls_def)
    then show ?thesis using nth_msgs_distinct [OF C(1)] by (simp add: call_msgs_def)
  qed
  have "distinct rs" using v by (simp add: valid_calls_def)
  then show "distinct (concat (map (call_msgs s) rs))" using disj one
  proof (induction rs)
    case (Cons r rs)
    have "distinct (concat (map (call_msgs s) rs))" by (rule Cons.IH) (use Cons.prems in auto)
    moreover have "set (call_msgs s r) \<inter> set (concat (map (call_msgs s) rs)) = {}"
    proof -
      have "set (call_msgs s r) \<inter> set (call_msgs s r') = {}" if "r' \<in> set rs" for r'
        by (rule Cons.prems(2)) (use Cons.prems(1) that in auto)
      then show ?thesis by auto
    qed
    ultimately show ?case using Cons.prems(3) by simp
  qed simp
  have "set (call_msgs s (w, k)) \<subseteq> set (all_msgs s)" if "(w, k) \<in> set rs" for w k
  proof -
    have "k < length (calls_of s w)" using v that by (auto simp: valid_calls_def)
    with in_caller [OF this] C(2) [of w] place_zone(2) [OF inv, of _ "place_of w"] show ?thesis by blast
  qed
  then show "set (concat (map (call_msgs s) rs)) \<subseteq> set (all_msgs s)" by auto
qed

lemma distinct_subset_msubset: "distinct xs \<Longrightarrow> set xs \<subseteq> set ys \<Longrightarrow> mset xs \<subseteq># mset ys"
  by (rule mset_subset_eqI) (auto simp: distinct_count_atmost_1 Suc_le_eq count_greater_zero_iff)

section \<open>The answers of \<open>HandleDemand\<close>\<close>

lemma stamp_Cons: "stamp a r h (m # ms) = stamp a r (stamp a r h [m]) ms"
  by (simp add: stamp_def)

lemma stamp_one:
  "x \<noteq> m \<Longrightarrow> stamp a r h [m] x = h x" "ms_metadata (stamp a r h [m] x) = ms_metadata (h x)"
  "ms_acked (stamp a r h [m] x) = ms_acked (h x)" "ms_error (stamp a r h [m] x) = ms_error (h x)"
  "ms_ack (h x) = Some b \<Longrightarrow> ms_ack (stamp a r h [m] x) = Some b"
  "ms_ack (stamp (Some a') r h [m] m) \<noteq> None"
  by (auto simp: stamp_def Let_def split: option.split)

lemma stamp_Nil [simp]: "stamp a r h [] = h"
  by (simp add: stamp_def)

lemma stamp_other: "x \<notin> set ms \<Longrightarrow> stamp a r h ms x = h x"
proof (induction ms arbitrary: h)
  case (Cons m ms)
  then show ?case unfolding stamp_Cons [of _ _ _ m ms] by (simp add: stamp_one(1))
qed simp

lemma stamp_keeps:
  "ms_metadata (stamp a r h ms x) = ms_metadata (h x) \<and>
   ms_acked (stamp a r h ms x) = ms_acked (h x) \<and> ms_error (stamp a r h ms x) = ms_error (h x)"
proof (induction ms arbitrary: h)
  case (Cons m ms)
  show ?case unfolding stamp_Cons [of _ _ _ m ms] by (simp add: Cons.IH stamp_one(2-4))
qed simp

lemmas stamp_fields = stamp_other stamp_keeps [THEN conjunct1] stamp_keeps [THEN conjunct2, THEN conjunct1]
  stamp_keeps [THEN conjunct2, THEN conjunct2]

lemma stamp_ack: "x \<in> set ms \<or> ms_ack (h x) \<noteq> None \<Longrightarrow> ms_ack (stamp (Some a) r h ms x) \<noteq> None"
proof (induction ms arbitrary: h)
  case (Cons m ms)
  have "x \<in> set ms \<or> ms_ack (stamp (Some a) r h [m] x) \<noteq> None"
    using Cons.prems stamp_one(5) [of h x _ "Some a" r m] stamp_one(6) [of a r h x] by (cases "x = m") auto
  then show ?case unfolding stamp_Cons [of _ _ _ m ms] by (rule Cons.IH)
qed simp

lemma make_messages_other: "x \<notin> set ms \<Longrightarrow> make_messages h ms es x = h x"
  by (induction h ms es rule: make_messages.induct) simp_all

lemma make_messages_new:
  "length ms = length es \<Longrightarrow> distinct ms \<Longrightarrow> map (make_messages h ms es) ms = map (\<lambda>e. NewMessage (Event e) (Some (Event e))) es"
  by (induction h ms es rule: make_messages.induct) (simp_all add: make_messages_other)

lemma round_answer:
  assumes "p = pr_round (answer_with ms out) pb p0" and "pr_demands p = pr_demands p0 @ [n]"
  shows "pr_heap p = stamp (pr_messageAck p0) pb (make_messages (pr_heap p0) ms out) ms"
    and "map snd (pr_produced p) = map snd (pr_produced p0) @ ms"
  using assms by (auto simp: pr_round_def answer_with_def Let_def comp_def split: if_splits option.splits)

text \<open>The messages of an answer are new, open and carry the events; no other message changes.\<close>

lemma pull_fresh:
  assumes p: "p = pr_round (answer_with ms out) pb (producer_at s i)" "pr_demands p = pr_demands (fw_producers s i) @ [n]"
    and ms: "length ms = length out" "distinct ms" "set ms \<inter> set (all_msgs s) = {}"
    and a: "pr_messageAck (fw_producers s i) = Some a"
  shows "produces_fresh s i p" and "map snd (new_messages s i p) = ms"
    and "map (event_of (pr_heap p)) ms = map Some out"
proof -
  have "pr_demands p = pr_demands (producer_at s i) @ [n]" using p(2) by (simp add: producer_at_def)
  note r = round_answer [OF p(1) this]
  let ?h = "make_messages (fw_heap s) ms out"
  have heap: "pr_heap p = stamp (Some a) pb ?h ms" using r(1) a by (simp add: producer_at_def)
  show new: "map snd (new_messages s i p) = ms"
    unfolding new_messages_def drop_map [symmetric] r(2) by (simp add: producer_at_def)
  have made: "map ?h ms = map (\<lambda>e. NewMessage (Event e) (Some (Event e))) out" by (rule make_messages_new [OF ms(1,2)])
  have "ms_acked (?h m) = False \<and> ms_error (?h m) = None" if "m \<in> set ms" for m
  proof -
    have "?h m \<in> set (map ?h ms)" using that by simp
    then show ?thesis unfolding made by (auto simp: NewMessage_def)
  qed
  then have "open_msg (pr_heap p m)" if "m \<in> set ms" for m
    using that stamp_ack [of m ms ?h a pb] by (simp add: open_msg_def heap stamp_fields)
  moreover have "pr_heap p m = fw_heap s m" if "m \<in> set (all_msgs s)" for m
  proof -
    have "m \<notin> set ms" using that ms(3) by blast
    then show ?thesis by (simp add: heap stamp_fields make_messages_other)
  qed
  ultimately show "produces_fresh s i p" using ms(2,3) by (simp add: produces_fresh_def Let_def new)
  have "map (event_of (pr_heap p)) ms = map (\<lambda>m. as_CDCEvent (ms_metadata m)) (map ?h ms)"
    by (simp add: event_of_def Metadata_def heap stamp_fields comp_def)
  also have "\<dots> = map Some out" unfolding made by (simp add: as_CDCEvent_def NewMessage_def comp_def)
  finally show "map (event_of (pr_heap p)) ms = map Some out" .
qed

section \<open>The invariant\<close>

definition call_ok :: "'a flow \<Rightarrow> caller \<times> nat \<Rightarrow> bool" where
  "call_ok s r \<longleftrightarrow> ac_err (calls_of s (fst r) ! snd r) = None"

text \<open>The messages that have been acknowledged to the connector with success.\<close>

definition ok_msgs :: "'x cdc \<Rightarrow> msg_ref list" where
  "ok_msgs s = concat (map (call_msgs (cd_flow s)) (filter (call_ok (cd_flow s)) (cd_ran s)))"

definition events_in :: "'x any_value flow \<Rightarrow> msg_ref list \<Rightarrow> CDCEvent option list" where
  "events_in f ms = map (event_of (fw_heap f)) ms"

definition cdc_inv :: "'x any_value flow_config \<Rightarrow> ('x any_value \<Rightarrow> string) option \<Rightarrow> (string \<Rightarrow> string set) \<Rightarrow> nat \<Rightarrow> 'x cdc \<Rightarrow> bool" where
  "cdc_inv c partitionBy owners a s \<longleftrightarrow>
     fw_inv c partitionBy owners (cd_flow s) \<and> honest (cd_flow s) \<and>
     (\<forall>i. pr_messageAck (fw_producers (cd_flow s) i) = Some a) \<and>
     events_in (cd_flow s) (all_msgs (cd_flow s)) = map Some (cd_delivered s) \<and>
     valid_calls (cd_flow s) (cd_ran s) \<and>
     cd_acked s = filter is_read (somes (events_in (cd_flow s) (ok_msgs s)))"

lemma ok_msgs_subset: "set (ok_msgs s) \<subseteq> set (concat (map (call_msgs (cd_flow s)) (cd_ran s)))"
  by (auto simp: ok_msgs_def)

lemma valid_filter: "valid_calls f rs \<Longrightarrow> valid_calls f (filter P rs)"
  by (auto simp: valid_calls_def)

lemma inv_flow:
  assumes inv: "cdc_inv c pb owners a s" and ids: "\<And>n. distinct (fc_ids c n)" and g: "flow_grow (cd_flow s) f"
    and f: "fw_inv c pb owners f" "honest f" and d: "events_in f (all_msgs f) = map Some (d :: CDCEvent list)"
  shows "cdc_inv c pb owners a (s\<lparr>cd_flow := f, cd_engine := e, cd_delivered := d\<rparr>)"
proof -
  have I: "fw_inv c pb owners (cd_flow s)" "honest (cd_flow s)" "\<And>i. pr_messageAck (fw_producers (cd_flow s) i) = Some a"
    "valid_calls (cd_flow s) (cd_ran s)" "cd_acked s = filter is_read (somes (events_in (cd_flow s) (ok_msgs s)))"
    using inv by (simp_all add: cdc_inv_def)
  have same: "k < length (calls_of f w)" "calls_of f w ! k = calls_of (cd_flow s) w ! k" if "(w, k) \<in> set (cd_ran s)" for w k
  proof -
    have "k < length (calls_of (cd_flow s) w)" using I(4) that by (auto simp: valid_calls_def)
    moreover obtain more where "calls_of f w = calls_of (cd_flow s) w @ more" using g unfolding flow_grow_def prefix_def by blast
    ultimately show "k < length (calls_of f w)" "calls_of f w ! k = calls_of (cd_flow s) w ! k" by (simp_all add: nth_append)
  qed
  let ?s = "s\<lparr>cd_flow := f, cd_engine := e, cd_delivered := d\<rparr>"
  have "ok_msgs ?s = ok_msgs s"
  proof -
    have "filter (call_ok f) (cd_ran s) = filter (call_ok (cd_flow s)) (cd_ran s)"
      using same by (intro filter_cong) (auto simp: call_ok_def)
    moreover have "map (call_msgs f) (filter P (cd_ran s)) = map (call_msgs (cd_flow s)) (filter P (cd_ran s))" for P
      using same by (intro map_cong) (auto simp: call_msgs_def)
    ultimately show ?thesis by (simp add: ok_msgs_def del: map_eq_conv)
  qed
  moreover have "set (ok_msgs s) \<subseteq> set (all_msgs (cd_flow s))"
    using ok_msgs_subset [of s] calls_disjoint(2) [OF I(1) ids I(2,4)] by blast
  then have "events_in f (ok_msgs s) = events_in (cd_flow s) (ok_msgs s)"
    unfolding events_in_def using g by (intro map_cong) (auto simp: flow_grow_def event_of_def Metadata_def)
  moreover have "valid_calls f (cd_ran s)" using I(4) same by (auto simp: valid_calls_def)
  moreover have "pr_messageAck (fw_producers f i) = Some a" for i using g I(3) by (simp add: flow_grow_def)
  ultimately show ?thesis using f d I(5) by (simp add: cdc_inv_def)
qed

lemma inv_pull:
  assumes inv: "cdc_inv c pb owners a s" and ids: "\<And>n. distinct (fc_ids c n)"
    and p: "pr_phase (producer_at (cd_flow s) i) = PR_Loop" "p = pr_round (answer_with ms out) pb (producer_at (cd_flow s) i)"
      "pr_demands p = pr_demands (fw_producers (cd_flow s) i) @ [n]"
    and ms: "length ms = length out" "distinct ms" "set ms \<inter> set (all_msgs (cd_flow s)) = {}"
  shows "cdc_inv c pb owners a (s\<lparr>cd_flow := produce (cd_flow s) i p, cd_engine := e, cd_delivered := cd_delivered s @ out\<rparr>)"
proof -
  let ?f = "produce (cd_flow s) i p"
  have I: "fw_inv c pb owners (cd_flow s)" "honest (cd_flow s)" "\<And>i. pr_messageAck (fw_producers (cd_flow s) i) = Some a"
    "events_in (cd_flow s) (all_msgs (cd_flow s)) = map Some (cd_delivered s)"
    using inv by (simp_all add: cdc_inv_def)
  note fr = pull_fresh [OF p(2,3) ms I(3)]
  have st: "pr_step pb owners (producer_at (cd_flow s) i) p" unfolding p(2) by (rule pr_step.round [OF p(1)])
  have old: "\<forall>m \<in> set (all_msgs (cd_flow s)). pr_heap p m = fw_heap (cd_flow s) m"
    using fr(1) by (simp add: produces_fresh_def Let_def)
  have "events_in ?f (all_msgs (cd_flow s)) = events_in (cd_flow s) (all_msgs (cd_flow s))"
    unfolding events_in_def using old by (intro map_cong) (auto simp: event_of_def produce_def)
  moreover have "events_in ?f ms = map Some out" using fr(3) by (simp add: events_in_def produce_def)
  moreover have "all_msgs ?f = all_msgs (cd_flow s) @ ms" using fr(2) by (simp add: produce_def all_msgs_def comp_def)
  ultimately have "events_in ?f (all_msgs ?f) = map Some (cd_delivered s @ out)"
    using I(4) unfolding events_in_def by (metis map_append)
  moreover have "honest ?f" using I(2) by (simp add: honest_def produce_def)
  ultimately show ?thesis
    by (intro inv_flow [OF inv ids flow_grow_produce [OF st old] fw_inv_produce [OF I(1) ids st fr(1)]])
qed

lemma inv_step:
  assumes inv: "cdc_inv c pb owners a s" and ids: "\<And>n. distinct (fc_ids c n)" and st: "cdc_step pb owners prompt a s s'"
  shows "cdc_inv c pb owners a s'"
  using st
proof cases
  case (pull i p ms out n cancelled e)
  then show ?thesis using inv_pull [OF inv ids pull(2-4) pull(6-8)] by simp
next
  case (flow f)
  have I: "fw_inv c pb owners (cd_flow s)" and ev: "events_in (cd_flow s) (all_msgs (cd_flow s)) = map Some (cd_delivered s)"
    using inv by (simp_all add: cdc_inv_def)
  note g = flow_grow_step [OF I flow(2)]
  have all: "all_msgs f = all_msgs (cd_flow s)" using flow(3) by (simp add: all_msgs_def)
  have "events_in f (all_msgs f) = events_in (cd_flow s) (all_msgs (cd_flow s))"
    unfolding events_in_def all using g by (intro map_cong) (auto simp: flow_grow_def event_of_def Metadata_def)
  then show ?thesis
    using inv_flow [OF inv ids g fw_inv_step [OF I ids flow(2)] flow(4), of "cd_delivered s" "cd_engine s"] ev flow(1) by simp
next
  case (ack k w call es)
  have I: "valid_calls (cd_flow s) (cd_ran s)" "cd_acked s = filter is_read (somes (events_in (cd_flow s) (ok_msgs s)))"
    using inv by (simp_all add: cdc_inv_def)
  have "valid_calls (cd_flow s) (cd_ran s @ [(w, k)])" using I(1) ack(2,3) by (simp add: valid_calls_def)
  moreover have "ok_msgs s' = ok_msgs s @ (if ac_err call = None then ac_msgs call else [])"
    by (simp add: ok_msgs_def ack(1,4) call_ok_def call_msgs_def)
  ultimately show ?thesis using inv I(2) ack(6) by (auto simp: cdc_inv_def ack(1) events_in_def somes_def)
qed (use inv in \<open>simp_all add: cdc_inv_def ok_msgs_def\<close>)

lemma inv_start:
  assumes "fc_ack c = Some a" and ids: "\<And>n. distinct (fc_ids c n)"
  shows "cdc_inv c pb owners a (cdc_start c e acts)"
proof -
  have "bp_accepted p = []" if p: "bt_procs (bt_run (fc_batcher c n) (fc_ids c n)) i = Some p" for n i p
  proof -
    have "flow_inv (fc_heap c) (bt_run (fc_batcher c n) (fc_ids c n))" by (rule flow_reaches [OF reaches.start ids])
    then have "procs_ok (fc_heap c) (bt_run (fc_batcher c n) (fc_ids c n))" by (simp add: flow_inv_def)
    from procs_okD(2) [OF this p] show ?thesis by simp
  qed
  then have "honest (fw_start c)" by (simp add: honest_def fw_start_def)
  then show ?thesis using assms(1) fw_inv_start [of c pb owners]
    by (simp add: cdc_inv_def cdc_start_def all_msgs_def events_in_def valid_calls_def ok_msgs_def somes_def)
      (simp add: fw_start_def newProducer_def)
qed

section \<open>The connector in the pipeline is the connector of \<open>Connector\<close>\<close>

lemma somes_mset: "mset (somes xs) = image_mset the (filter_mset (\<lambda>m. m \<noteq> None) (mset xs))"
  by (simp add: somes_def)

lemma acked_delivered:
  assumes inv: "cdc_inv c pb owners a s" and ids: "\<And>n. distinct (fc_ids c n)"
  shows "mset (cd_acked s) \<subseteq># mset (cd_delivered s)" and "distinct (ok_msgs s)" and "set (ok_msgs s) \<subseteq> set (all_msgs (cd_flow s))"
proof -
  have I: "fw_inv c pb owners (cd_flow s)" "honest (cd_flow s)" "valid_calls (cd_flow s) (cd_ran s)"
    "events_in (cd_flow s) (all_msgs (cd_flow s)) = map Some (cd_delivered s)"
    "cd_acked s = filter is_read (somes (events_in (cd_flow s) (ok_msgs s)))" using inv by (simp_all add: cdc_inv_def)
  note d = calls_disjoint [OF I(1) ids I(2) valid_filter [OF I(3)], of "call_ok (cd_flow s)"]
  show "distinct (ok_msgs s)" and sub: "set (ok_msgs s) \<subseteq> set (all_msgs (cd_flow s))" using d by (simp_all add: ok_msgs_def)
  have "mset (ok_msgs s) \<subseteq># mset (all_msgs (cd_flow s))" by (rule distinct_subset_msubset) (use d in \<open>simp_all add: ok_msgs_def\<close>)
  then have "mset (events_in (cd_flow s) (ok_msgs s)) \<subseteq># mset (events_in (cd_flow s) (all_msgs (cd_flow s)))"
    by (simp add: events_in_def image_mset_subseteq_mono)
  then have "mset (somes (events_in (cd_flow s) (ok_msgs s))) \<subseteq># mset (somes (map Some (cd_delivered s)))"
    unfolding somes_mset I(4) by (intro image_mset_subseteq_mono multiset_filter_mono)
  then have "mset (somes (events_in (cd_flow s) (ok_msgs s))) \<subseteq># mset (cd_delivered s)"
    by (simp add: somes_def comp_def filter_map)
  moreover have "mset (filter is_read xs) \<subseteq># mset xs" for xs by simp
  ultimately show "mset (cd_acked s) \<subseteq># mset (cd_delivered s)" unfolding I(5) by (metis subset_mset.order_trans)
qed

text \<open>
  A detailed system whose steps are steps of an abstract one or leave its state alone, as long as an
  invariant holds: then a run of the first is a run of the second.
\<close>

locale simulation =
  fixes step :: "'s \<Rightarrow> 's \<Rightarrow> bool" and abstract_step :: "'t \<Rightarrow> 't \<Rightarrow> bool" and abs :: "'s \<Rightarrow> 't" and I :: "'s \<Rightarrow> bool"
  assumes keeps: "I s \<Longrightarrow> step s s' \<Longrightarrow> I s'"
    and simulates: "I s \<Longrightarrow> step s s' \<Longrightarrow> abs s' = abs s \<or> abstract_step (abs s) (abs s')"
begin

lemma reaches_inv: "reaches step s0 s \<Longrightarrow> I s0 \<Longrightarrow> I s"
  by (induction rule: reaches.induct) (auto intro: keeps)

lemma reaches_abs: "reaches step s0 s \<Longrightarrow> I s0 \<Longrightarrow> reaches abstract_step (abs s0) (abs s)"
proof (induction rule: reaches.induct)
  case start
  show ?case by (rule reaches.start)
next
  case (step s s')
  from simulates [OF reaches_inv [OF step.hyps(1) step.prems] step.hyps(2)] step.IH [OF step.prems]
  show ?case by (auto intro: reaches.step)
qed

end

definition connector_of :: "'x cdc \<Rightarrow> system" where
  "connector_of s = (cd_engine s, cd_plan s, cd_delivered s, cd_acked s)"

lemma connector_step:
  assumes inv: "cdc_inv c pb owners a s" and ids: "\<And>n. distinct (fc_ids c n)" and st: "cdc_step pb owners prompt a s s'"
  shows "connector_of s' = connector_of s \<or> system_step (connector_of s) (connector_of s')"
proof -
  have sub: "mset (cd_acked s') \<subseteq># mset (cd_delivered s')" by (rule acked_delivered(1) [OF inv_step [OF inv ids st] ids])
  show ?thesis using st
  proof cases
    case (ack k w call es)
    then show ?thesis using sub
      by (cases "ac_err call") (auto simp: connector_of_def intro: system_step.ack system_step.nack)
  qed (auto simp: connector_of_def intro: system_step.intros)
qed

definition cdc_ok :: "'x any_value flow_config \<Rightarrow> ('x any_value \<Rightarrow> string) option \<Rightarrow> (string \<Rightarrow> string set) \<Rightarrow> nat \<Rightarrow> 'x cdc \<Rightarrow> bool" where
  "cdc_ok c partitionBy owners a s \<longleftrightarrow> cdc_inv c partitionBy owners a s \<and> (\<forall>n. distinct (fc_ids c n))"

interpretation as_client: simulation "cdc_step pb owners prompt a" system_step connector_of "cdc_ok c pb owners a"
  for pb owners prompt a c
  by unfold_locales (auto simp: cdc_ok_def intro: inv_step dest: connector_step)

lemma ok_start: "fc_ack c = Some a \<Longrightarrow> (\<And>n. distinct (fc_ids c n)) \<Longrightarrow> cdc_ok c pb owners a (cdc_start c e acts)"
  by (simp add: cdc_ok_def inv_start)

lemma inv_reaches:
  assumes "reaches (cdc_step pb owners prompt a) (cdc_start c e acts) s" and "fc_ack c = Some a" and "\<And>n. distinct (fc_ids c n)"
  shows "cdc_inv c pb owners a s"
  using as_client.reaches_inv [OF assms(1) ok_start [OF assms(2,3)]] by (simp add: cdc_ok_def)

lemma system_reaches: "reaches system_step s0 s \<Longrightarrow> system_reach s0 s"
  by (induction rule: reaches.induct) (auto intro: system_reach.intros)

lemma connector_reaches:
  assumes "reaches (cdc_step pb owners prompt a) (cdc_start c e acts) s" and "fc_ack c = Some a" and "\<And>n. distinct (fc_ids c n)"
  shows "system_reach (e, acts, [], []) (cd_engine s, cd_plan s, cd_delivered s, cd_acked s)"
  using system_reaches [OF as_client.reaches_abs [OF assms(1) ok_start [OF assms(2,3)]]]
  by (simp add: connector_of_def cdc_start_def)

section \<open>Messages that were handled\<close>

text \<open>
  The call of an acknowledger that accepts a message: a message processor has made it without an
  error, or it stands for a batch whose handler has returned the message without an error.
\<close>

definition handled :: "'a flow \<Rightarrow> msg_ref \<Rightarrow> bool" where
  "handled f m \<longleftrightarrow>
     (\<exists>j call. call \<in> set (pv_acks (mp_env (fw_processors f j))) \<and> ac_err call = None \<and> m \<in> set (ac_msgs call)) \<or>
     (\<exists>n i p batch processed. bt_procs (fw_batchers f n) i = Some p \<and>
        (batch, Inr (processed, None)) \<in> set (zip (bp_accepted p) (bp_results p)) \<and> m \<in> set processed \<and> m \<in> set batch)"

lemma expected_ok:
  assumes "call \<in> set (concat (map2 (bp_expected h i) dn rs))" and "ac_err call = None"
  shows "\<exists>batch. (batch, Inr (ac_msgs call, None)) \<in> set (zip dn rs)"
proof -
  from assms(1) obtain batch res where z: "(batch, res) \<in> set (zip dn rs)" and "call \<in> set (bp_expected h i batch res)" by auto
  then have "res = Inr (ac_msgs call, None)" using assms(2)
    by (cases batch; cases res; cases "ms_ack (h (hd batch))") (auto simp: bp_expected_def)
  with z show ?thesis by blast
qed

lemma ok_handled:
  assumes inv: "cdc_inv c pb owners a s" and ids: "\<And>n. distinct (fc_ids c n)" and m: "m \<in> set (ok_msgs s)"
  shows "handled (cd_flow s) m"
proof -
  let ?f = "cd_flow s"
  have I: "fw_inv c pb owners ?f" "honest ?f" "valid_calls ?f (cd_ran s)" using inv by (simp_all add: cdc_inv_def)
  from m obtain w k where wk: "(w, k) \<in> set (cd_ran s)" and err: "ac_err (calls_of ?f w ! k) = None"
    and mk: "m \<in> set (ac_msgs (calls_of ?f w ! k))"
    by (auto simp: ok_msgs_def call_ok_def call_msgs_def)
  define call where "call = calls_of ?f w ! k"
  have "k < length (calls_of ?f w)" using I(3) wk by (auto simp: valid_calls_def)
  then have call: "call \<in> set (calls_of ?f w)" by (simp add: call_def)
  note me = err [folded call_def] mk [folded call_def]
  show ?thesis
  proof (cases w)
    case (By_Processor j)
    with call me show ?thesis by (auto simp: handled_def)
  next
    case (By_Batch n i)
    with call obtain p where p: "bt_procs (fw_batchers ?f n) i = Some p" "call \<in> set (bp_acks p)"
      by (cases "bt_procs (fw_batchers ?f n) i") (simp_all add: batch_acks_def)
    have "flow_inv (fw_heap ?f) (fw_batchers ?f n)"
      using I(1) by (auto simp: fw_inv_def batchers_ok_def intro: flow_reaches [OF _ ids])
    from proc_log [OF this p(1)] obtain dn where dn: "zip (bp_accepted p) (bp_results p) = zip dn (bp_results p)"
      "bp_acks p @ bp_owed (fw_heap ?f) p = concat (map2 (bp_expected (fw_heap ?f) i) dn (bp_results p))" .
    from dn(2) p(2) have "call \<in> set (concat (map2 (bp_expected (fw_heap ?f) i) dn (bp_results p)))"
      by (metis UnCI set_append)
    from expected_ok [OF this me(1)] obtain batch
      where z: "(batch, Inr (ac_msgs call, None)) \<in> set (zip (bp_accepted p) (bp_results p))" unfolding dn(1) by blast
    from I(2) p(1) have "\<forall>(batch, res) \<in> set (zip (bp_accepted p) (bp_results p)).
        case res of Inl _ \<Rightarrow> True | Inr (processed, err) \<Rightarrow> mset processed \<subseteq># mset batch" unfolding honest_def by blast
    with z have "mset (ac_msgs call) \<subseteq># mset batch" by fastforce
    then have "m \<in> set batch" using me(2) by (metis mset_subset_eqD set_mset_mset)
    with p(1) z me(2) show ?thesis unfolding handled_def by blast
  qed
qed

text \<open>Every READ event acknowledged to the connector is the event of a message that was handled.\<close>

lemma acked_handled:
  assumes "cdc_inv c pb owners a s" and "\<And>n. distinct (fc_ids c n)" and "r \<in> set (cd_acked s)"
  shows "\<exists>m \<in> set (all_msgs (cd_flow s)). event_of (fw_heap (cd_flow s)) m = Some r \<and> handled (cd_flow s) m"
proof -
  have "cd_acked s = filter is_read (somes (events_in (cd_flow s) (ok_msgs s)))" using assms(1) by (simp add: cdc_inv_def)
  with assms(3) have "Some r \<in> set (events_in (cd_flow s) (ok_msgs s))" by (auto simp: somes_def)
  then obtain m where m: "m \<in> set (ok_msgs s)" "event_of (fw_heap (cd_flow s)) m = Some r" by (auto simp: events_in_def)
  then show ?thesis using acked_delivered(3) [OF assms(1,2)] ok_handled [OF assms(1,2) m(1)] by blast
qed

text \<open>READ events of which every copy is acknowledged are among the events of the handled messages.\<close>

lemma reads_covered:
  assumes inv: "cdc_inv c pb owners a s" and counts: "\<forall>r \<in> set R. P r \<longrightarrow> count (mset (cd_acked s)) r = count (mset R) r"
  shows "mset (map Some (filter P R)) \<subseteq># mset (map (event_of (fw_heap (cd_flow s))) (ok_msgs s))"
proof -
  have "mset (filter P R) \<subseteq># mset (cd_acked s)"
  proof (rule mset_subset_eqI)
    fix r show "count (mset (filter P R)) r \<le> count (mset (cd_acked s)) r"
      using counts by (cases "r \<in> set R") (auto simp flip: count_mset_0_iff)
  qed
  also have "\<dots> \<subseteq># mset (somes (events_in (cd_flow s) (ok_msgs s)))" using inv by (simp add: cdc_inv_def)
  finally have "image_mset Some (mset (filter P R)) \<subseteq># image_mset Some (mset (somes (events_in (cd_flow s) (ok_msgs s))))"
    by (rule image_mset_subseteq_mono)
  moreover have "map Some (somes xs) = filter (\<lambda>x. x \<noteq> None) xs" for xs :: "CDCEvent option list"
    by (induction xs) (auto simp: somes_def)
  then have "image_mset Some (mset (somes xs)) \<subseteq># mset xs" for xs :: "CDCEvent option list"
    by (metis mset_filter mset_map multiset_filter_subset)
  ultimately show ?thesis unfolding events_in_def mset_map [symmetric] by (metis mset_map subset_mset.order_trans)
qed

section \<open>Properties\<close>

text \<open>
  Claim C4. A pipeline with the connector as its client is a client of the connector as \<open>Connector\<close>
  describes it: in every run of the pipeline, the engine, the plan of the snapshot, the delivered
  events and the acknowledged READ events are a state that the connector reaches by its own steps. In
  particular no event is acknowledged that was not delivered, and none more often than it was
  delivered, whatever the stages do (any numbers of producers, processors and batchers, panics,
  replacements, failed and retried sends); so everything proved of the connector holds in the pipeline.
  (As in all claims of this theory, the client's batch handlers are \<open>honest\<close>.)
\<close>

theorem pipeline_refines_connector:
  assumes "reaches (cdc_step partitionBy owners prompt a) (cdc_start c e acts) s" and "fc_ack c = Some a"
    and "\<And>n. distinct (fc_ids c n)"
  shows "system_reach (e, acts, [], []) (connector_of s)"
  unfolding connector_of_def by (rule connector_reaches [OF assms])

text \<open>
  Claim C2. When no two tables share a chunk id, the saved cursor is the key of a chunk that the pipeline has
  handled. In every run of a pipeline with the connector in which \<open>ids_fit\<close> holds of the plan (no chunk
  id is used by two tables) and the batch handlers are \<open>honest\<close>, the value of the cursor in memory and
  of every saved state is the one of the start, or unset, or the high key of a chunk such that
  every READ event of this and of all chunks with smaller ids belongs to a message of its own that the
  pipeline has handled: acknowledged by a message processor without an error, or returned without an
  error by the handler of its batch. The claim is about the value alone: the state may name another
  table (\<open>engine_unsafe_resume\<close>), and without \<open>ids_fit\<close> it fails (\<open>chunk_ids_collide\<close>).
\<close>

theorem pipeline_cursor_safe:
  assumes "start c env newCDCEngine = Inr (e0, w, Some st)" and "acts = runSnapshot fuel c db cancelled st"
    and "ids_fit (chunkSizeOrDefault c) 1 acts"
    and "reaches (cdc_step partitionBy owners prompt a) (cdc_start fc e0 acts) s" and "fc_ack fc = Some a"
    and "\<And>n. distinct (fc_ids fc n)"
  shows "\<forall>cur \<in> st_SnapshotCursor ` insert (en_state (cd_engine s)) (set (en_saved (cd_engine s))).
    cur = st_SnapshotCursor st \<or> cur = PKNil \<or>
    (\<exists>r \<in> set (plan_reads acts). cur = ev_chunkHighPK r \<and>
       (\<exists>ms. distinct ms \<and> set ms \<subseteq> set (all_msgs (cd_flow s)) \<and> (\<forall>m \<in> set ms. handled (cd_flow s) m) \<and>
          mset (map Some (filter (\<lambda>r'. ev_chunkID r' \<le> ev_chunkID r) (plan_reads acts)))
            \<subseteq># mset (map (event_of (fw_heap (cd_flow s))) ms)))"
proof -
  have inv: "cdc_inv fc partitionBy owners a s" by (rule inv_reaches [OF assms(4-6)])
  have "0 \<le> chunkSizeOrDefault c" by (simp add: chunkSizeOrDefault_def)
  with snap_tables_read_stream assms(2,3) have "read_stream 1 (plan_reads acts)" by (simp add: runSnapshot_def)
  note safe = saved_cursor_acked [OF assms(1,2) this connector_reaches [OF assms(4-6)]]
  have ms: "distinct (ok_msgs s)" "set (ok_msgs s) \<subseteq> set (all_msgs (cd_flow s))" "\<forall>m \<in> set (ok_msgs s). handled (cd_flow s) m"
    using acked_delivered(2,3) [OF inv assms(6)] ok_handled [OF inv assms(6)] by blast+
  show ?thesis
  proof
    fix cur assume "cur \<in> st_SnapshotCursor ` insert (en_state (cd_engine s)) (set (en_saved (cd_engine s)))"
    with safe consider "cur = st_SnapshotCursor st \<or> cur = PKNil" | r where "r \<in> set (plan_reads acts)" "cur = ev_chunkHighPK r"
      "\<forall>r' \<in> set (plan_reads acts). ev_chunkID r' \<le> ev_chunkID r \<longrightarrow> count (mset (cd_acked s)) r' = count (mset (plan_reads acts)) r'"
      by blast
    then show "cur = st_SnapshotCursor st \<or> cur = PKNil \<or> (\<exists>r \<in> set (plan_reads acts). cur = ev_chunkHighPK r \<and>
       (\<exists>ms. distinct ms \<and> set ms \<subseteq> set (all_msgs (cd_flow s)) \<and> (\<forall>m \<in> set ms. handled (cd_flow s) m) \<and>
          mset (map Some (filter (\<lambda>r'. ev_chunkID r' \<le> ev_chunkID r) (plan_reads acts)))
            \<subseteq># mset (map (event_of (fw_heap (cd_flow s))) ms)))"
    proof cases
      case 2
      from reads_covered [OF inv 2(3)] 2(1,2) ms show ?thesis by blast
    qed blast
  qed
qed

text \<open>
  Claim C1. End to end, a crash loses no row of the only captured table while that table does not change.
  Let a connector with exactly one configured table, whose rows stay the same, run in a pipeline with
  \<open>honest\<close> batch handlers (they return only messages of their batch, each once), from any saved
  state, and stop at any moment after a save to the offset store that succeeded; later saves may have
  failed. Let a second run start from what it finds in the store, and suppose that it finds the phase
  of the snapshot. Then every row that the first run had to read was the event of a message that the
  first pipeline has handled, or the scan of the second run, which ends, reads it again. With
  several tables this is false: the saved cursor can belong to another table than the
  saved name (\<open>engine_unsafe_resume\<close>).
\<close>

theorem pipeline_restart_loses_no_row:
  assumes "start c env newCDCEngine = Inr (e0, w, Some st)" and "st_SnapshotTables st = [t]"
    and "table_ready fuel (chunkSizeOrDefault c) db cols tbl snaps t"
    and "\<forall>v \<in> set (tbl (tb_Name t)). bound_for (table_key c cols t v) (st_SnapshotCursor st)"
    and "reaches (cdc_step partitionBy owners prompt a) (cdc_start fc e0 (runSnapshot fuel c db cancelled st)) s"
    and "fc_ack fc = Some a" and "\<And>n. distinct (fc_ids fc n)"
    and "pg_laws (so_conn store) rows" and "\<forall>s \<in> set (en_saved (cd_engine s)). state_writable coerce s"
    and "en_saved (cd_engine s) = before @ s1 # later" and "store_Save coerce store s1 pg1 = (None, pg2)"
    and "save_all coerce store later pg2 = (es, pg3)"
    and "se_load env' = load_result (store_Load store (snd (store_Init store pg3)))"
    and "start c env' newCDCEngine = Inr (e1, w', Some st')"
  shows "\<exists>acts. runSnapshot fuel c db (\<lambda>_ _. False) st' = acts @ [OnScanDone, OnComplete] \<and>
    (\<forall>v \<in> set (remaining (scanner c t) (cols (tb_Name t)) (tbl (tb_Name t)) (st_SnapshotCursor st)).
       (\<exists>m \<in> set (all_msgs (cd_flow s)). handled (cd_flow s) m \<and>
          (\<exists>r. event_of (fw_heap (cd_flow s)) m = Some r \<and> ev_After r = row_of (cols (tb_Name t)) v \<and> ev_PK r = table_key c cols t v)) \<or>
       row_of (cols (tb_Name t)) v \<in> ev_After ` set (plan_reads acts))"
proof -
  have inv: "cdc_inv fc partitionBy owners a s" by (rule inv_reaches [OF assms(5-7)])
  obtain saved where saved: "saved \<in> set (en_saved (cd_engine s))" "se_load env' = Inr (saved, True)"
    using load_finds_saved [OF assms(8-14)] by blast
  note acked = acked_handled [OF inv assms(7)]
  obtain acts where run: "runSnapshot fuel c db (\<lambda>_ _. False) st' = acts @ [OnScanDone, OnComplete]"
    and rows: "\<And>v. v \<in> set (remaining (scanner c t) (cols (tb_Name t)) (tbl (tb_Name t)) (st_SnapshotCursor st)) \<Longrightarrow>
       (\<exists>r \<in> set (cd_acked s). ev_After r = row_of (cols (tb_Name t)) v \<and> ev_PK r = table_key c cols t v) \<or>
       row_of (cols (tb_Name t)) v \<in> ev_After ` set (plan_reads acts)"
    using restart_from_saved [OF assms(1-4) connector_reaches [OF assms(5-7)] saved(1) assms(14) saved(2)] by blast
  show ?thesis
  proof (intro exI [of _ acts] conjI run ballI)
    fix v assume "v \<in> set (remaining (scanner c t) (cols (tb_Name t)) (tbl (tb_Name t)) (st_SnapshotCursor st))"
    from rows [OF this] show "(\<exists>m \<in> set (all_msgs (cd_flow s)). handled (cd_flow s) m \<and>
        (\<exists>r. event_of (fw_heap (cd_flow s)) m = Some r \<and> ev_After r = row_of (cols (tb_Name t)) v \<and> ev_PK r = table_key c cols t v)) \<or>
      row_of (cols (tb_Name t)) v \<in> ev_After ` set (plan_reads acts)"
    proof
      assume "\<exists>r \<in> set (cd_acked s). ev_After r = row_of (cols (tb_Name t)) v \<and> ev_PK r = table_key c cols t v"
      then obtain r where r: "r \<in> set (cd_acked s)" "ev_After r = row_of (cols (tb_Name t)) v" "ev_PK r = table_key c cols t v" by blast
      from acked [OF r(1)] r(2,3) show ?thesis by blast
    qed blast
  qed
qed

text \<open>What is known of a message when the pipeline has come to rest, and which messages carry READ events.\<close>

definition resolved :: "'a flow \<Rightarrow> msg_ref \<Rightarrow> bool" where
  "resolved f m \<longleftrightarrow>
     (\<exists>j. m \<in> set (at_place f (Acknowledged j))) \<or> (\<exists>j. m \<in> set (at_place f (Skipped j))) \<or>
     (\<exists>i. m \<in> set (at_place f (Given_Up i))) \<or> (\<exists>j. m \<in> set (at_place f (Left_Over j))) \<or>
     (\<exists>n i k batch p res. (i, k, batch) \<in> set (bt_delivered (fw_batchers f n)) \<and> m \<in> set batch \<and>
        bt_procs (fw_batchers f n) i = Some p \<and> (batch, res) \<in> set (zip (bp_accepted p) (bp_results p)) \<and>
        set (bp_expected (fw_heap f) i batch res) \<subseteq> set (bp_acks p))"

definition has_read :: "'x any_value heap \<Rightarrow> msg_ref \<Rightarrow> bool" where
  "has_read h m \<longleftrightarrow> (case event_of h m of Some e \<Rightarrow> is_read e | None \<Rightarrow> False)"

lemma filter_map_Some: "map f xs = map Some ys \<Longrightarrow> map f (filter (\<lambda>x. case f x of Some y \<Rightarrow> P y | None \<Rightarrow> False) xs) = map Some (filter P ys)"
proof (induction xs arbitrary: ys)
  case (Cons x xs)
  then obtain y zs where "ys = y # zs" "f x = Some y" "map f xs = map Some zs" by (cases ys) auto
  with Cons.IH show ?case by simp
qed simp

text \<open>
  Claim C3. Every row the snapshot has to read goes through the pipeline exactly once. Suppose the
  captured tables do not change while they are scanned, and the snapshot goroutine has handed over
  all READ events of its plan and the producers have taken them from the merger's channel. Then, in
  every run of the pipeline with the connector, the messages with READ events are, in the order in which they
  were produced, one for each row: the rows of the table in progress above the saved cursor, then all
  rows of the tables after it, in key order. When the pipeline has come to rest (\<open>at_rest\<close>), each of
  these messages has been acknowledged by a processor, or names a batcher that does not exist, or is
  in a batch that was handled and acknowledged, or was given up by a producer that ended, or was
  lost by a processor that panicked while it flushed.
\<close>

theorem every_row_through_pipeline:
  assumes "start c env newCDCEngine = Inr (e0, w, Some st)"
    and "\<forall>t \<in> set (tables_from st). table_ready fuel (chunkSizeOrDefault c) db cols tbl snaps t"
    and "\<forall>t ts. tables_from st = t # ts \<longrightarrow> (\<forall>v \<in> set (tbl (tb_Name t)).
      bound_for (key_of (newSnapshotter (tb_Name t) (pkColumn t) (chunkSizeOrDefault c)) (cols (tb_Name t)) v) (st_SnapshotCursor st))"
    and "reaches (cdc_step partitionBy owners prompt a) (cdc_start fc e0 (runSnapshot fuel c db (\<lambda>_ _. False) st)) s"
    and "fc_ack fc = Some a" and "\<And>n. distinct (fc_ids fc n)"
    and "plan_reads (cd_plan s) = []" and "filter is_read (mg_output (en_merger (cd_engine s))) = []"
  shows "let ms = filter (has_read (fw_heap (cd_flow s))) (all_msgs (cd_flow s)) in distinct ms \<and>
    map (\<lambda>m. map_option ev_After (event_of (fw_heap (cd_flow s)) m)) ms =
      map Some (table_rows cols tbl (chunkSizeOrDefault c) (tables_from st) (st_SnapshotCursor st)) \<and>
    (at_rest (cd_flow s) \<longrightarrow> (\<forall>m \<in> set ms. resolved (cd_flow s) m))"
proof -
  let ?f = "cd_flow s" and ?ms = "filter (has_read (fw_heap (cd_flow s))) (all_msgs (cd_flow s))"
  have inv: "cdc_inv fc partitionBy owners a s" by (rule inv_reaches [OF assms(4-6)])
  then have I: "fw_inv fc partitionBy owners ?f" "map (event_of (fw_heap ?f)) (all_msgs ?f) = map Some (cd_delivered s)"
    by (simp_all add: cdc_inv_def events_in_def)
  have n: "0 < chunkSizeOrDefault c" by (simp add: chunkSizeOrDefault_def)
  obtain acts where plan: "runSnapshot fuel c db (\<lambda>_ _. False) st = acts @ [OnScanDone, OnComplete]"
    and rows: "map ev_After (plan_reads acts) = table_rows cols tbl (chunkSizeOrDefault c) (tables_from st) (st_SnapshotCursor st)"
    using snap_tables_rows [OF n assms(2,3), of 1] by (auto simp: runSnapshot_def)
  have "map (event_of (fw_heap ?f)) ?ms = map Some (filter is_read (cd_delivered s))"
    using filter_map_Some [OF I(2), of is_read] by (simp add: has_read_def [abs_def])
  moreover have "filter is_read (cd_delivered s) = plan_reads (runSnapshot fuel c db (\<lambda>_ _. False) st)"
    using plan_delivered [OF assms(1) refl connector_reaches [OF assms(4-6)]] assms(7,8) by simp
  ultimately have "map (event_of (fw_heap ?f)) ?ms = map Some (plan_reads acts)" by (simp add: plan)
  then have "map (map_option ev_After) (map (event_of (fw_heap ?f)) ?ms) = map (map_option ev_After) (map Some (plan_reads acts))"
    by (rule arg_cong)
  also have "\<dots> = map Some (map ev_After (plan_reads acts))" by simp
  finally have "map (\<lambda>m. map_option ev_After (event_of (fw_heap ?f) m)) ?ms =
      map Some (table_rows cols tbl (chunkSizeOrDefault c) (tables_from st) (st_SnapshotCursor st))"
    unfolding rows map_map comp_def .
  moreover have "distinct ?ms" using I(1) by (simp add: fw_inv_def producers_ok_def)
  moreover have "resolved ?f m" if d: "at_rest ?f" and m: "m \<in> set (all_msgs ?f)" for m
    using rest_message [OF I(1) assms(6) d m] batch_acknowledged unfolding resolved_def by metis
  ultimately show ?thesis by (simp add: Let_def)
qed

end
