(* ===== verification/CDC_Runs.thy ===== *)
theory CDC_Runs
  imports CDC_Pipeline Flow_Runs
begin

text \<open>
  Runs of a pipeline with the connector: the scheduler of \<open>Flow_Runs\<close> for the steps of the flow, and
  one event on its way from the connector through a producer and a message processor to the
  acknowledger.
\<close>

section \<open>Steps of the flow\<close>

text \<open>Moves of producers and message processors that make no messages.\<close>

fun quiet_event :: "fw_event \<Rightarrow> bool" where
  "quiet_event (F_demand _ _) = False"
| "quiet_event (F_accept _) = False"
| "quiet_event (F_batcher _ _) = False"
| "quiet_event _ = True"

fun quiet_exec :: "'a flow \<Rightarrow> fw_event list \<Rightarrow> 'a flow option" where
  "quiet_exec f [] = Some f"
| "quiet_exec f (e # es) =
     (if \<not> quiet_event e then None
      else case fw_next None to_m False f e of None \<Rightarrow> None
      | Some f' \<Rightarrow> if fw_produced f' = fw_produced f then quiet_exec f' es else None)"

lemma quiet_next_batchers: "fw_next pb resolve prompt f e = Some f' \<Longrightarrow> quiet_event e \<Longrightarrow> fw_batchers f' = fw_batchers f"
  by (cases e) (auto simp: do_producer_def produce_def work_def split: if_splits pr_phase.splits sum.splits)

abbreviation cdc_run :: "'x cdc \<Rightarrow> 'x cdc \<Rightarrow> bool" where
  "cdc_run \<equiv> reaches (cdc_step None (\<lambda>_. {''m''}) False 7)"

lemma quiet_exec_run:
  assumes "quiet_exec (cd_flow s) es = Some f" and "honest (cd_flow s)"
  shows "cdc_run s (s\<lparr>cd_flow := f\<rparr>)" and "fw_batchers f = fw_batchers (cd_flow s)"
proof -
  have "cdc_run s (s\<lparr>cd_flow := f\<rparr>) \<and> fw_batchers f = fw_batchers (cd_flow s)"
    using assms
  proof (induction es arbitrary: s)
    case Nil
    then have f: "f = cd_flow s" by simp
    have "s\<lparr>cd_flow := f\<rparr> = s" unfolding f by (cases s) simp
    then show ?case using f by (simp only: reaches.start simp_thms)
  next
    case (Cons e es)
    then obtain f1 where f1: "quiet_event e" "fw_next None to_m False (cd_flow s) e = Some f1" "fw_produced f1 = fw_produced (cd_flow s)"
      "quiet_exec f1 es = Some f" by (auto split: if_splits option.splits)
    have b: "fw_batchers f1 = fw_batchers (cd_flow s)" by (rule quiet_next_batchers [OF f1(2,1)])
    then have h: "honest f1" using Cons.prems(2) by (simp add: honest_def)
    let ?s1 = "s\<lparr>cd_flow := f1\<rparr>"
    have "cdc_step None (\<lambda>_. {''m''}) False 7 s ?s1"
      by (rule cdc_step.flow [OF fw_next_step [OF f1(2) to_m_routes] f1(3) h])
    then have "cdc_run s ?s1" by (rule reaches_one)
    moreover have "cdc_run ?s1 (?s1\<lparr>cd_flow := f\<rparr>)" "fw_batchers f = fw_batchers f1"
      using Cons.IH [of ?s1] f1(4) h by simp_all
    ultimately show ?case using b reaches_trans by simp
  qed
  then show "cdc_run s (s\<lparr>cd_flow := f\<rparr>)" and "fw_batchers f = fw_batchers (cd_flow s)" by simp_all
qed

lemma snap_run_steps:
  "run_actions (cd_engine s) acts = Some (Inr e) \<Longrightarrow> cd_plan s = acts @ rest \<Longrightarrow> cdc_run s (s\<lparr>cd_engine := e, cd_plan := rest\<rparr>)"
proof (induction acts arbitrary: s)
  case Nil
  then have "s\<lparr>cd_engine := e, cd_plan := rest\<rparr> = s" by (cases s) simp
  then show ?case by (simp add: reaches.start)
next
  case (Cons act acts)
  then obtain e1 where e1: "apply_action (cd_engine s) act = Some (Inr e1)" "run_actions e1 acts = Some (Inr e)"
    by (auto split: option.splits sum.splits)
  let ?s1 = "s\<lparr>cd_engine := e1, cd_plan := acts @ rest\<rparr>"
  have "cdc_run s ?s1" by (rule reaches_one, rule cdc_step.snap [OF _ e1(1)]) (use Cons.prems in simp)
  moreover have "cdc_run ?s1 (?s1\<lparr>cd_engine := e, cd_plan := rest\<rparr>)" using Cons.IH [of ?s1] e1(2) by simp
  ultimately show ?case using reaches_trans by simp
qed

section \<open>A pipeline without batchers\<close>

definition cdc_cfg :: "unit any_value flow_config" where
  "cdc_cfg =
     \<lparr>fc_producer = \<lparr>pc_Concurrency = 1, pc_partitioned = False\<rparr>, fc_ack = Some 7, fc_requests = (\<lambda>_. newRequest ''m'' 1),
      fc_processor = \<lparr>mc_Concurrency = 1, mc_MinDemand = 0, mc_MaxDemand = 0\<rparr>, fc_producers = [(''p'', ''p'')],
      fc_names = [], fc_batcher = (\<lambda>n. \<lparr>bc_Name = n, bc_BatchSize = 2, bc_BatchTimeout = 1, bc_Concurrency = 1\<rparr>),
      fc_ids = (\<lambda>_. [''b'']), fc_heap = (\<lambda>_. NewMessage (Value ()) None)\<rparr>"

text \<open>A request arrives; the event \<open>ev\<close> is pulled as message 0; the processor handles and acknowledges it.\<close>

definition asked_flow :: "unit any_value flow" where
  "asked_flow = the (quiet_exec (fw_start cdc_cfg) [F_send ''p'' 0, F_add ''p''])"

definition pulled :: "CDCEvent \<Rightarrow> unit any_value producer" where
  "pulled ev = pr_round (answer_with [0] [ev]) None (producer_at asked_flow ''p'')"

definition through :: "CDCEvent \<Rightarrow> unit any_value flow option" where
  "through ev = quiet_exec (produce asked_flow ''p'' (pulled ev))
     [F_deliver ''p'', F_deliver ''p'', F_respond ''p'' ''m'' [0], F_enqueue ''m'' [0], F_round ''m'']"

lemma asked_values:
  "quiet_exec (fw_start cdc_cfg) [F_send ''p'' 0, F_add ''p''] \<noteq> None \<and> pr_phase (producer_at asked_flow ''p'') = PR_Loop \<and>
   all_msgs asked_flow = []"
  by code_simp

lemma pulled_values: "pr_demands (pulled ev) = pr_demands (fw_producers asked_flow ''p'') @ [1]"
  by code_simp

lemma through_values:
  "map_option (\<lambda>f. (calls_of f (By_Processor ''m''), all_msgs f, event_of (fw_heap f) 0)) (through ev) =
     Some ([\<lparr>ac_by = 7, ac_msgs = [0], ac_err = None\<rparr>], [0], Some ev)"
  by code_simp

text \<open>
  The run of one event: the engine \<open>e\<close> has it in its output, hands it over, and gets the call of the
  processor.
\<close>

definition after_ack :: "cdcEngine \<Rightarrow> snap_action list \<Rightarrow> CDCEvent \<Rightarrow> unit cdc" where
  "after_ack e acts ev =
     \<lparr>cd_flow = the (through ev), cd_engine = Acknowledger e [Some ev] None, cd_plan = acts, cd_delivered = [ev],
      cd_acked = filter is_read [ev], cd_ran = [(By_Processor ''m'', 0)]\<rparr>"

lemma one_event_run:
  assumes scan: "run_actions e0 acts = Some (Inr e1)" and out: "HandleDemand e1 1 False = Inr ([ev], e2)"
  shows "cdc_run (cdc_start cdc_cfg e0 (acts @ rest)) (after_ack e2 rest ev)"
proof -
  define s0 where "s0 = cdc_start cdc_cfg e0 (acts @ rest)"
  define s1 where "s1 = s0\<lparr>cd_flow := asked_flow\<rparr>"
  define s2 where "s2 = s1\<lparr>cd_engine := e1, cd_plan := rest\<rparr>"
  define s3 where "s3 = s2\<lparr>cd_flow := produce asked_flow ''p'' (pulled ev), cd_engine := e2, cd_delivered := [ev]\<rparr>"
  define s4 where "s4 = s3\<lparr>cd_flow := the (through ev)\<rparr>"
  have init: "cd_flow s0 = fw_start cdc_cfg" "cd_engine s0 = e0" "cd_plan s0 = acts @ rest" "cd_delivered s0 = []" "cd_acked s0 = []" "cd_ran s0 = []"
    by (simp_all add: s0_def cdc_start_def)
  have "cdc_inv cdc_cfg None (\<lambda>_. {''m''}) 7 s0" unfolding s0_def by (rule inv_start) (simp_all add: cdc_cfg_def)
  then have h0: "honest (cd_flow s0)" by (simp add: cdc_inv_def)
  have "quiet_exec (cd_flow s0) [F_send ''p'' 0, F_add ''p''] = Some asked_flow"
    using asked_values unfolding init(1) asked_flow_def by (metis option.exhaust_sel)
  note asked = quiet_exec_run [OF this h0, folded s1_def]
  have run2: "cdc_run s1 s2" unfolding s2_def by (rule snap_run_steps) (simp_all add: s1_def init scan)
  have "cdc_step None (\<lambda>_. {''m''}) False 7 s2
      (s2\<lparr>cd_flow := produce (cd_flow s2) ''p'' (pulled ev), cd_engine := e2, cd_delivered := cd_delivered s2 @ [ev]\<rparr>)"
    by (rule cdc_step.pull [where ms = "[0]" and n = 1 and cancelled = False])
      (simp_all add: s2_def s1_def asked_values pulled_values out, simp add: pulled_def)
  then have run3: "cdc_run s2 s3" by (intro reaches_one) (simp add: s3_def s2_def s1_def init)
  obtain f where f: "through ev = Some f" using through_values [of ev] by auto
  then have vals: "calls_of f (By_Processor ''m'') = [\<lparr>ac_by = 7, ac_msgs = [0], ac_err = None\<rparr>]" "event_of (fw_heap f) 0 = Some ev"
    using through_values [of ev] by simp_all
  have "fw_batchers (cd_flow s3) = fw_batchers (cd_flow s0)" using asked(2) by (simp add: s3_def produce_def)
  then have "honest (cd_flow s3)" using h0 by (simp add: honest_def)
  moreover have "quiet_exec (cd_flow s3) [F_deliver ''p'', F_deliver ''p'', F_respond ''p'' ''m'' [0], F_enqueue ''m'' [0], F_round ''m''] = Some f"
  proof -
    have "cd_flow s3 = produce asked_flow ''p'' (pulled ev)" by (simp add: s3_def)
    then show ?thesis using f unfolding through_def by (simp only:)
  qed
  ultimately have run4: "cdc_run s3 s4" unfolding s4_def f option.sel by (intro quiet_exec_run(1))
  have flow4: "cd_flow s4 = f" by (simp add: s4_def f)
  have ran4: "cd_ran s4 = []" "cd_acked s4 = []" "cd_delivered s4 = [ev]" "cd_engine s4 = e2" "cd_plan s4 = rest"
    by (simp_all add: s4_def s3_def s2_def s1_def init)
  let ?call = "\<lparr>ac_by = 7, ac_msgs = [0], ac_err = None\<rparr>" and ?w = "By_Processor ''m''"
  have ack: "0 < length (calls_of (cd_flow s4) ?w)" "(?w, 0) \<notin> set (cd_ran s4)" "?call = calls_of (cd_flow s4) ?w ! 0"
    "ac_by ?call = 7" "[Some ev] = map (event_of (fw_heap (cd_flow s4))) (ac_msgs ?call)"
    unfolding flow4 ran4 vals(1) by (simp_all add: vals(2))
  have last: "after_ack e2 rest ev = s4\<lparr>cd_engine := Acknowledger (cd_engine s4) [Some ev] (ac_err ?call),
      cd_acked := cd_acked s4 @ (if ac_err ?call = None then filter is_read (somes [Some ev]) else []),
      cd_ran := cd_ran s4 @ [(?w, 0)]\<rparr>"
    using ran4 flow4 by (cases s4) (simp add: after_ack_def f)
  have run5: "cdc_run s4 (after_ack e2 rest ev)" unfolding last by (rule reaches_one) (rule cdc_step.ack [OF ack])
  show ?thesis unfolding s0_def [symmetric]
    by (rule reaches_trans [OF run5 reaches_trans [OF run4 reaches_trans [OF run3 reaches_trans [OF run2 asked(1)]]]])
qed

section \<open>The first run and the restart of \<open>Restart\<close>\<close>

text \<open>The first run is cancelled after its first chunk; order 1 goes through the pipeline.\<close>

definition cut :: "string \<Rightarrow> int \<Rightarrow> bool" where
  "cut t c \<longleftrightarrow> 1 < c"

lemma cut_plan:
  "runSnapshot 3 one_config (two_db 1) cut one_state =
    [OnTable ''public.orders'', OnMerger (BeginChunk 1 ''public.orders'' PKNil PKNil),
     OnMerger (EndChunk 1 ''public.orders'' (PKInt 1) 900), OnMerger (SnapshotEvent order1)]"
  by (simp add: plan_example_simps one_state_def one_config_def orders_def order1_def plan_read_def cut_def numeral_eq_Suc)

abbreviation first_start :: "unit cdc" where
  "first_start \<equiv> cdc_start cdc_cfg one_engine (runSnapshot 3 one_config (two_db 1) cut one_state)"

lemma first_run:
  obtains e where "cdc_run first_start (after_ack e [] order1)" "en_saved (cd_engine (after_ack e [] order1)) = [saved_state]"
proof -
  obtain e1 where scan: "run_actions one_engine (runSnapshot 3 one_config (two_db 1) cut one_state) = Some (Inr e1)"
    and e1: "e1 = one_engine\<lparr>en_state := one_state\<lparr>st_CurrentSnapshotTable := ''public.orders''\<rparr>,
     en_merger := \<lparr>mg_phase = PhaseSnapshotting,
       mg_scannedRanges = [\<lparr>rg_Table = ''public.orders'', rg_Low = PKNil, rg_High = PKInt 1, rg_XMin = 900\<rparr>],
       mg_currentChunk = None, mg_pendingWALEvents = [], mg_output = [order1], mg_toEmit = [], mg_walToEmit = []\<rparr>\<rparr>"
    using one_scan by (simp add: cut_plan)
  have "en_chunkSizes e1 = []" "en_pendingChunks e1 = []" "en_chunkHighPK e1 = []" "mg_output (en_merger e1) = [order1]"
    by (simp_all add: e1 one_engine_def newCDCEngine_def)
  from one_demand [OF refl this(4,1,2,3)] obtain e2 where e2: "HandleDemand e1 1 False = Inr ([order1], e2)" "en_chunkSizes e2 = [(1, 1)]"
    "en_chunkHighPK e2 = [(1, PKInt 1)]" "en_pendingChunks e2 = [(1, ())]" "en_completedChunks e2 = en_completedChunks e1"
    "en_chunkAcked e2 = en_chunkAcked e1" "en_state e2 = en_state e1" "en_saved e2 = en_saved e1" "en_hasStore e2 = en_hasStore e1"
    "en_snapshotScanDone e2 = en_snapshotScanDone e1" by blast
  have "en_saved (Acknowledger e2 [Some order1] None) = [(en_state e2)\<lparr>st_SnapshotCursor := PKInt 1\<rparr>]"
    by (rule one_ack) (simp_all add: e2 e1 one_engine_def newCDCEngine_def)
  then have saved: "en_saved (cd_engine (after_ack e2 [] order1)) = [saved_state]" by (simp add: e2(7) e1 saved_state_def after_ack_def)
  have "cdc_run first_start (after_ack e2 [] order1)" using one_event_run [OF scan e2(1), of "[]"] by simp
  from this saved show ?thesis by (rule that)
qed

lemma after_values:
  "all_msgs (cd_flow (after_ack e acts ev)) = [0]" "event_of (fw_heap (cd_flow (after_ack e acts ev))) 0 = Some ev"
  using through_values [of ev] by (auto simp: after_ack_def)

lemma cdc_cfg_ok: "fc_ack cdc_cfg = Some 7" "distinct (fc_ids cdc_cfg n)"
  by (simp_all add: cdc_cfg_def)

theorem pipeline_refines_connector_witness:
  "\<exists>e. system_reach (one_engine, runSnapshot 3 one_config (two_db 1) cut one_state, [], []) (e, [], [order1], [order1])"
proof -
  obtain e where run: "cdc_run first_start (after_ack e [] order1)" using first_run by blast
  from pipeline_refines_connector [OF run cdc_cfg_ok] show ?thesis
    by (auto simp: connector_of_def after_ack_def order1_fields)
qed

theorem pipeline_cursor_safe_witness:
  "\<exists>s :: unit cdc. PKInt 1 \<in> st_SnapshotCursor ` set (en_saved (cd_engine s)) \<and>
     (\<exists>m \<in> set (all_msgs (cd_flow s)). handled (cd_flow s) m \<and> event_of (fw_heap (cd_flow s)) m = Some order1)"
proof -
  obtain e where run: "cdc_run first_start (after_ack e [] order1)" and saved: "en_saved (cd_engine (after_ack e [] order1)) = [saved_state]"
    using first_run by blast
  let ?s = "after_ack e [] order1"
  have cur: "PKInt 1 \<in> st_SnapshotCursor ` set (en_saved (cd_engine ?s))" by (simp add: saved) (simp add: saved_state_def)
  have fit: "ids_fit (chunkSizeOrDefault one_config) 1 (runSnapshot 3 one_config (two_db 1) cut one_state)"
    by (simp add: cut_plan one_simps order1_def)
  have reads: "plan_reads (runSnapshot 3 one_config (two_db 1) cut one_state) = [order1]" by (simp add: cut_plan)
  from pipeline_cursor_safe [OF one_start refl fit run cdc_cfg_ok] cur obtain ms
    where ms: "set ms \<subseteq> set (all_msgs (cd_flow ?s))" "\<forall>m \<in> set ms. handled (cd_flow ?s) m"
      "mset (map Some [order1]) \<subseteq># mset (map (event_of (fw_heap (cd_flow ?s))) ms)"
    unfolding reads by (auto simp: one_simps)
  from ms(3) have "Some order1 \<in> set (map (event_of (fw_heap (cd_flow ?s))) ms)" by (metis list.set_intros(1) list.simps(9) mset_subset_eqD set_mset_mset)
  then obtain m where m: "m \<in> set ms" "event_of (fw_heap (cd_flow ?s)) m = Some order1" by auto
  have "m \<in> set (all_msgs (cd_flow ?s))" "handled (cd_flow ?s) m" using m(1) ms(1,2) by blast+
  with m(2) cur show ?thesis by blast
qed

theorem pipeline_restart_loses_no_row_witness:
  "\<exists>acts. runSnapshot 3 one_config (two_db 1) (\<lambda>_ _. False) saved_state = acts @ [OnScanDone, OnComplete] \<and>
     Some [(''id'', VInt64 2)] \<in> ev_After ` set (plan_reads acts)"
proof -
  let ?cols = "\<lambda>_::string. [''id'']"
  obtain e where run: "cdc_run first_start (after_ack e [] order1)" and saved: "en_saved (cd_engine (after_ack e [] order1)) = [saved_state]"
    using first_run by blast
  let ?s = "after_ack e [] order1"
  have bound: "\<forall>v \<in> set (two_rows (tb_Name orders)). bound_for (table_key one_config ?cols orders v) (st_SnapshotCursor one_state)"
    by (simp add: one_simps bound_for_def)
  obtain pg where save: "store_Save id cdc_store saved_state Map.empty = (None, pg)"
    and load: "se_load (good_env\<lparr>se_load := Inr (saved_state, True)\<rparr>) = load_result (store_Load cdc_store (snd (store_Init cdc_store pg)))"
    using saved_stored by blast
  have writable: "\<forall>s \<in> set (en_saved (cd_engine ?s)). state_writable id s" by (simp add: saved saved_writable)
  have saves: "en_saved (cd_engine ?s) = [] @ saved_state # []" "save_all id cdc_store [] pg = ([], pg)" using saved by simp_all
  have other: "\<not> (\<exists>m \<in> set (all_msgs (cd_flow ?s)). handled (cd_flow ?s) m \<and> (\<exists>r. event_of (fw_heap (cd_flow ?s)) m = Some r \<and>
      ev_After r = row_of (?cols (tb_Name orders)) [VInt64 2] \<and> ev_PK r = table_key one_config ?cols orders [VInt64 2]))"
    by (simp add: after_values order1_fields row_of_def)
  from pipeline_restart_loses_no_row [OF one_start one_simps(1) one_ready bound run cdc_cfg_ok cdc_store_laws writable saves(1) save saves(2)
      load one_restart] one_row2 other
  show ?thesis by (auto simp: row_of_def)
qed

text \<open>The second run starts at the saved cursor; order 2 goes through the pipeline.\<close>

definition order2 :: CDCEvent where "order2 = plan_read ''orders'' 1 1 2 2"

lemma restart_plan:
  "runSnapshot 3 one_config (two_db 1) (\<lambda>_ _. False) saved_state =
    [OnTable ''public.orders'', OnMerger (BeginChunk 1 ''public.orders'' (PKInt 1) (PKInt 2)),
     OnMerger (EndChunk 1 ''public.orders'' (PKInt 2) 900), OnMerger (SnapshotEvent order2)] @
    [OnMerger (BeginChunk 2 ''public.orders'' (PKInt 2) (PKInt 3)), OnScanDone, OnComplete]"
  by (simp add: plan_example_simps saved_state_def one_state_def one_config_def orders_def order2_def plan_read_def numeral_eq_Suc)

lemma restart_scan:
  obtains e where "run_actions (one_engine\<lparr>en_state := saved_state\<rparr>)
      [OnTable ''public.orders'', OnMerger (BeginChunk 1 ''public.orders'' (PKInt 1) (PKInt 2)),
       OnMerger (EndChunk 1 ''public.orders'' (PKInt 2) 900), OnMerger (SnapshotEvent order2)] = Some (Inr e)"
    "mg_output (en_merger e) = [order2]"
  by (simp add: one_engine_def newCDCEngine_def begin_table_def merger_call_simps saved_state_def one_simps)

theorem every_row_through_pipeline_witness:
  "\<exists>s. cdc_run (cdc_start cdc_cfg (one_engine\<lparr>en_state := saved_state\<rparr>) (runSnapshot 3 one_config (two_db 1) (\<lambda>_ _. False) saved_state)) s \<and>
     map (\<lambda>m. map_option ev_After (event_of (fw_heap (cd_flow s)) m)) (filter (has_read (fw_heap (cd_flow s))) (all_msgs (cd_flow s))) =
       [Some (Some [(''id'', VInt64 2)])]"
proof -
  obtain e1 where scan: "run_actions (one_engine\<lparr>en_state := saved_state\<rparr>)
      [OnTable ''public.orders'', OnMerger (BeginChunk 1 ''public.orders'' (PKInt 1) (PKInt 2)),
       OnMerger (EndChunk 1 ''public.orders'' (PKInt 2) 900), OnMerger (SnapshotEvent order2)] = Some (Inr e1)"
    and out: "mg_output (en_merger e1) = [order2]" by (rule restart_scan)
  have "\<exists>e2. HandleDemand e1 1 False = Inr ([order2], e2) \<and> mg_output (en_merger e2) = []"
    using out by (simp add: HandleDemand_def order2_def track_read_def Let_def)
  then obtain e2 where e2: "HandleDemand e1 1 False = Inr ([order2], e2)" "mg_output (en_merger e2) = []" by blast
  let ?rest = "[OnMerger (BeginChunk 2 ''public.orders'' (PKInt 2) (PKInt 3)), OnScanDone, OnComplete]"
  let ?s = "after_ack e2 ?rest order2"
  have run: "cdc_run (cdc_start cdc_cfg (one_engine\<lparr>en_state := saved_state\<rparr>) (runSnapshot 3 one_config (two_db 1) (\<lambda>_ _. False) saved_state)) ?s"
    unfolding restart_plan by (rule one_event_run [OF scan e2(1)])
  have tables: "tables_from saved_state = [orders]" by (simp add: tables_from_one saved_state_def one_simps)
  have "\<forall>t \<in> set (tables_from saved_state). table_ready 3 (chunkSizeOrDefault one_config) (two_db 1) (\<lambda>_. [''id'']) two_rows (\<lambda>_ _. ''900:900:'') t"
    using one_ready by (simp add: tables)
  note every = every_row_through_pipeline [OF one_restart this _ run cdc_cfg_ok]
  have "let ms = filter (has_read (fw_heap (cd_flow ?s))) (all_msgs (cd_flow ?s)) in distinct ms \<and>
      map (\<lambda>m. map_option ev_After (event_of (fw_heap (cd_flow ?s)) m)) ms =
        map Some (table_rows (\<lambda>_. [''id'']) two_rows (chunkSizeOrDefault one_config) (tables_from saved_state) (st_SnapshotCursor saved_state)) \<and>
      (at_rest (cd_flow ?s) \<longrightarrow> (\<forall>m \<in> set ms. resolved (cd_flow ?s) m))"
  proof (rule every)
    show "\<forall>t ts. tables_from saved_state = t # ts \<longrightarrow> (\<forall>v \<in> set (two_rows (tb_Name t)).
        bound_for (table_key one_config (\<lambda>_. [''id'']) t v) (st_SnapshotCursor saved_state))"
      by (simp add: tables one_simps two_rows_def one_key bound_for_def) (simp add: saved_state_def)
    show "filter is_read (mg_output (en_merger (cd_engine ?s))) = []" using e2(2) by (simp add: after_ack_def)
  qed (simp add: after_ack_def)
  moreover have "table_rows (\<lambda>_. [''id'']) two_rows (chunkSizeOrDefault one_config) (tables_from saved_state) (st_SnapshotCursor saved_state) =
      [Some [(''id'', VInt64 2)]]"
    by (simp add: tables one_simps remaining_def above_def row_of_def two_rows_def one_key) (simp add: saved_state_def)
  ultimately show ?thesis using run by (auto simp: Let_def)
qed

end
