(* ===== verification/Connector_Instances.thy ===== *)
theory Connector_Instances
  imports Connector
begin

text \<open>
  \<open>pg/connector.go\<close>, the exported type \<open>PostgresConnector\<close>: a configuration and a pointer to an
  engine. \<open>Clone\<close> copies the pointer, so the producers of a pipeline work on one engine; and every
  one of them calls \<open>Init\<close>. Engines live in a list and are named by their positions.
\<close>

record postgresConnector =
  cn_config :: Config
  cn_engine :: nat

definition New :: "Config \<Rightarrow> cdcEngine list \<Rightarrow> postgresConnector \<times> cdcEngine list" where
  "New config engines = (\<lparr>cn_config = config, cn_engine = length engines\<rparr>, engines @ [newCDCEngine])"

definition Clone :: "postgresConnector \<Rightarrow> postgresConnector" where
  "Clone c = \<lparr>cn_config = cn_config c, cn_engine = cn_engine c\<rparr>"

text \<open>\<open>Init\<close> with what Postgres answers; the results are the engines and what the goroutines start from.\<close>

definition Init :: "postgresConnector \<Rightarrow> start_env \<Rightarrow> cdcEngine list \<Rightarrow> (cdcEngine list \<times> walStreamer \<times> CDCState option) go" where
  "Init c env engines =
     go_bind (start (cn_config c) env (engines ! cn_engine c))
       (\<lambda>(e, streamer, snap). Inr (engines[cn_engine c := e], streamer, snap))"

text \<open>
  \<open>openReplicationConn\<close>; the parsed configuration is its runtime parameters and the rest, parsing and
  connecting are those of \<open>pgconn\<close>.
\<close>

record 'r pgconnConfig =
  pg_RuntimeParams :: "(string \<times> string) list"
  pg_rest :: 'r

definition openReplicationConn :: "(string \<Rightarrow> string + 'r pgconnConfig) \<Rightarrow> ('r pgconnConfig \<Rightarrow> string + 'conn) \<Rightarrow> string
    \<Rightarrow> string + 'conn" where
  "openReplicationConn ParseConfig ConnectConfig dsn =
     (case ParseConfig dsn of
        Inl err \<Rightarrow> Inl err
      | Inr config \<Rightarrow> ConnectConfig (config\<lparr>pg_RuntimeParams := AList.update ''replication'' ''database'' (pg_RuntimeParams config)\<rparr>))"

text \<open>
  The first \<open>Init\<close> of a new connector gives its engine the state from the store and an empty merger.
\<close>

theorem first_init:
  assumes "New config engines = (c, es)" and "Init (Clone c) env es = Inr (es', w, snap)"
  shows "take (length engines) es' = engines \<and> length es' = length engines + 1 \<and>
    start config env newCDCEngine = Inr (es' ! cn_engine c, w, snap)"
  using assms by (auto simp: New_def Init_def Clone_def go_bind_Inr_iff nth_append)

text \<open>
  A later \<open>Init\<close>, which a pipeline with more than one producer makes through a clone, throws away what
  the connector has in hand: events that are not delivered yet, and the chunks whose READ events are on
  their way, so that their acknowledgements are counted against nothing. The state is the saved one again.
\<close>

theorem second_init_forgets:
  assumes "Init (Clone c) env es = Inr (es', w, snap)" and "cn_engine c < length es"
  shows "\<exists>e. es' ! cn_engine c = e \<and> mg_output (en_merger e) = [] \<and> unsent (en_merger e) = [] \<and>
    en_pendingChunks e = [] \<and> en_chunkSizes e = [] \<and> en_chunkAcked e = [] \<and>
    (\<exists>loaded found. se_load env = Inr (loaded, found) \<and>
       en_state e = (if found then loaded else initial_state (cn_config c)))"
proof -
  obtain e where s: "start (cn_config c) env (es ! cn_engine c) = Inr (e, w, snap)" and e: "es' = es[cn_engine c := e]"
    using assms(1) by (auto simp: Init_def Clone_def go_bind_Inr_iff)
  obtain loaded found where load: "se_load env = Inr (loaded, found)"
    using s by (cases "se_load env") (auto simp: start_def split: if_splits)
  have "mg_output (en_merger e) = [] \<and> unsent (en_merger e) = [] \<and> en_pendingChunks e = [] \<and>
      en_chunkSizes e = [] \<and> en_chunkAcked e = [] \<and> en_state e = (if found then loaded else initial_state (cn_config c))"
    using s load by (auto simp: start_def Let_def split: if_splits sum.splits option.splits)
  then show ?thesis using assms(2) load by (simp add: e)
qed

end
